(* ===== verification/DM_Prelude.thy ===== *)
theory DM_Prelude
  imports Main "HOL-Library.Word"
begin

unbundle bit_operations_syntax

text \<open>
  Shared vocabulary of the development: the machine integers of the sources, the result type
  in which a failed \<open>assert\<close>, an out-of-range access or an exhausted loop bound is a value, the
  little-endian byte images of integers, and the list lemmas the components share.
\<close>

type_synonym u8 = "8 word"
type_synonym u16 = "16 word"
type_synonym u32 = "32 word"
type_synonym u64 = "64 word"

named_theorems dm_defs \<open>unfolding rules of the small operations of the model\<close>
named_theorems dm_sizes \<open>the byte sizes and layout constants of the sources\<close>

section \<open>Results\<close>

text \<open>
  The sources are built without \<open>NDEBUG\<close>, so a false \<open>assert\<close> aborts the process:
  it is the value \<open>Inl (AssertFail _)\<close>.
\<close>

datatype error =
    AssertFail string
  | OutOfBounds
  | BadAddress
  | OutOfFuel
  | BufferOverlap
  | IntOverflow

type_synonym 'a result = "error + 'a"

definition res_bind :: "'a result \<Rightarrow> ('a \<Rightarrow> 'b result) \<Rightarrow> 'b result" where
  "res_bind m f = (case m of Inl e \<Rightarrow> Inl e | Inr x \<Rightarrow> f x)"

definition res_assert :: "string \<Rightarrow> bool \<Rightarrow> unit result" where
  "res_assert msg b = (if b then Inr () else Inl (AssertFail msg))"

lemma res_bind_Inr [simp]: "res_bind (Inr x) f = f x"
  by (simp add: res_bind_def)

lemma res_bind_Inl [simp]: "res_bind (Inl e) f = Inl e"
  by (simp add: res_bind_def)

lemma res_bind_eq_Inr: "res_bind m f = Inr y \<longleftrightarrow> (\<exists>x. m = Inr x \<and> f x = Inr y)"
  by (cases m) auto

lemma res_bind_eq_Inl:
  "res_bind m f = Inl e \<longleftrightarrow> m = Inl e \<or> (\<exists>x. m = Inr x \<and> f x = Inl e)"
  by (cases m) auto

lemma res_assert_True [simp]: "res_assert msg True = Inr ()"
  by (simp add: res_assert_def)

lemma res_assert_False [simp]: "res_assert msg False = Inl (AssertFail msg)"
  by (simp add: res_assert_def)

lemma res_assert_eq_Inr [simp]: "res_assert msg b = Inr u \<longleftrightarrow> b"
  by (simp add: res_assert_def)

section \<open>Linear searches\<close>

text \<open>
  The loop \<open>for(i = 0; i < n; i++) if(P(xs[i])) return i;\<close>: the least index from \<open>i\<close> on whose
  element satisfies \<open>P\<close>.
\<close>

fun scan_from :: "('a \<Rightarrow> bool) \<Rightarrow> 'a list \<Rightarrow> nat \<Rightarrow> nat option" where
  "scan_from P [] i = None"
| "scan_from P (x # xs) i = (if P x then Some i else scan_from P xs (Suc i))"

lemma scan_from_None_iff: "scan_from P xs i = None \<longleftrightarrow> (\<forall>x \<in> set xs. \<not> P x)"
  by (induction xs arbitrary: i) auto

lemma scan_from_Some_iff:
  "scan_from P xs i = Some j \<longleftrightarrow>
     i \<le> j \<and> j - i < length xs \<and> P (xs ! (j - i)) \<and> (\<forall>k < j - i. \<not> P (xs ! k))"
proof (induction xs arbitrary: i)
  case Nil
  then show ?case by simp
next
  case (Cons x xs)
  show ?case
  proof (cases "P x")
    case True
    then show ?thesis by (cases "j - i") auto
  next
    case False
    have "(i \<le> j \<and> j - i < length (x # xs) \<and> P ((x # xs) ! (j - i)) \<and>
             (\<forall>k < j - i. \<not> P ((x # xs) ! k))) \<longleftrightarrow>
          (Suc i \<le> j \<and> j - Suc i < length xs \<and> P (xs ! (j - Suc i)) \<and>
             (\<forall>k < j - Suc i. \<not> P (xs ! k)))" (is "?l \<longleftrightarrow> ?r")
    proof (cases "Suc i \<le> j")
      case True
      then have "j - i = Suc (j - Suc i)" by simp
      then show ?thesis using True False by (auto simp: All_less_Suc2)
    next
      case ge: False
      then show ?thesis using False by (cases "i = j") auto
    qed
    with False Cons.IH show ?thesis by simp
  qed
qed

lemma scan_from_0_SomeD:
  assumes "scan_from P xs 0 = Some j"
  shows "j < length xs" and "P (xs ! j)" and "\<forall>k < j. \<not> P (xs ! k)"
  using assms by (simp_all add: scan_from_Some_iff)

section \<open>Little-endian byte images\<close>

text \<open>
  The structures that are hashed or sent over RDMA are packed and little-endian (x86):
  \<open>le_bytes n x\<close> is the image of the low \<open>n\<close> bytes of \<open>x\<close>.
\<close>

primrec le_bytes :: "nat \<Rightarrow> 'a::len word \<Rightarrow> u8 list" where
  "le_bytes 0 x = []"
| "le_bytes (Suc n) x = ucast x # le_bytes n (drop_bit 8 x)"

primrec le_word :: "u8 list \<Rightarrow> 'a::len word" where
  "le_word [] = 0"
| "le_word (b # bs) = ucast b OR push_bit 8 (le_word bs)"

lemma length_le_bytes [simp]: "length (le_bytes n x) = n"
  by (induction n arbitrary: x) auto

lemma le_word_le_bytes: "le_word (le_bytes n x) = take_bit (8 * n) x"
proof (induction n arbitrary: x)
  case 0
  then show ?case by simp
next
  case (Suc n)
  show ?case
    by (rule bit_word_eqI) (auto simp: Suc bit_simps algebra_simps)
qed

lemma le_word_le_bytes_id:
  fixes x :: "'a::len word"
  assumes "LENGTH('a) \<le> 8 * n"
  shows "le_word (le_bytes n x) = x"
  using assms by (simp add: le_word_le_bytes take_bit_word_eq_self)

lemma le_bytes_inject:
  fixes x y :: "'a::len word"
  assumes "LENGTH('a) \<le> 8 * n" and "le_bytes n x = le_bytes n y"
  shows "x = y"
  using assms by (metis le_word_le_bytes_id)

lemma le_bytes_le_word:
  "8 * length bs \<le> LENGTH('a) \<Longrightarrow> le_bytes (length bs) (le_word bs :: 'a::len word) = bs"
proof (induction bs)
  case Nil
  then show ?case by simp
next
  case (Cons b bs)
  have "ucast (ucast b OR push_bit 8 (le_word bs) :: 'a word) = b"
    by (rule bit_word_eqI) (use Cons.prems in \<open>auto simp: bit_simps\<close>)
  moreover have "drop_bit 8 (ucast b OR push_bit 8 (le_word bs) :: 'a word) =
      take_bit (8 * length bs) (le_word bs)"
  proof -
    have hi: "\<not> bit (le_word bs :: 'a word) n" if "8 * length bs \<le> n" for n
      using that
    proof (induction bs arbitrary: n)
      case Nil
      then show ?case by simp
    next
      case (Cons c cs)
      then have "8 * length cs \<le> n - 8" "8 \<le> n" by simp_all
      with Cons.IH [of "n - 8"] show ?case
        by (auto simp: bit_simps dest: bit_imp_le_length)
    qed
    have "n < 8 * length bs" if "bit (le_word bs :: 'a word) n" for n
      using hi [of n] that by (meson not_less)
    then show ?thesis
      by (intro bit_word_eqI) (use Cons.prems in \<open>auto simp: bit_simps dest: bit_imp_le_length\<close>)
  qed
  moreover have "le_bytes n (take_bit (8 * n) x) = le_bytes n x" for n and x :: "'a word"
  proof (induction n arbitrary: x)
    case (Suc n)
    have "ucast (take_bit (8 * Suc n) x) = (ucast x :: u8)"
      by (rule bit_word_eqI) (auto simp: bit_simps)
    moreover have "drop_bit 8 (take_bit (8 * Suc n) x) = take_bit (8 * n) (drop_bit 8 x)"
      by (rule bit_word_eqI) (auto simp: bit_simps)
    ultimately show ?case using Suc by simp
  qed simp
  ultimately show ?case using Cons by simp
qed

section \<open>Words as natural numbers\<close>

lemma unat_take_bit: "unat (take_bit n (x :: 'a::len word)) = unat x mod 2 ^ n"
  by (subst unsigned_take_bit_eq) (rule take_bit_eq_mod)

lemma unat_less_pow: "unat (x :: 'a::len word) < 2 ^ LENGTH('a)"
  by (rule unsigned_less)

end
