(* ===== verification/KVConfig.thy ===== *)
theory KVConfig
  imports DM_Prelude
begin

text \<open>
  Model of \<open>DMTree/include/KVConfig.h\<close>: the fixed-size keys, their byte-wise comparison
  operators and the null values. The comparison operators are \<open>memcmp\<close> on the 24 key bytes;
  the order class instance below is the proof that they form a linear order.
\<close>

definition KEY_SIZE :: nat where [dm_sizes]: "KEY_SIZE = 24"
definition VALUE_SIZE :: nat where [dm_sizes]: "VALUE_SIZE = 8"

text \<open>\<open>memcmp\<close> of the C library: the sign of the first difference as unsigned bytes.\<close>

fun memcmp :: "u8 list \<Rightarrow> u8 list \<Rightarrow> nat \<Rightarrow> int" where
  "memcmp (a # as) (b # bs) (Suc n) =
     (if a < b then -1 else if b < a then 1 else memcmp as bs n)"
| "memcmp _ _ _ = 0"

typedef KeyType = "{bs :: u8 list. length bs = 24}" morphisms key_bytes KeyType_of
  by (rule exI [of _ "replicate 24 0"]) simp

setup_lifting type_definition_KeyType

text \<open>
  \<open>KeyType(const char* k)\<close> copies exactly 24 bytes. The buffer is modelled with zero bytes after
  its end; a caller that passes fewer than 24 bytes reads past its buffer.
\<close>

definition mk_key :: "u8 list \<Rightarrow> KeyType" where
  "mk_key bs = KeyType_of (take KEY_SIZE (bs @ replicate KEY_SIZE 0))"

definition KeyNull :: KeyType where "KeyNull = mk_key []"
definition KeyMax :: KeyType where "KeyMax = mk_key (replicate 31 122)"

lemma length_key_bytes [simp]: "length (key_bytes k) = 24"
  using key_bytes [of k] by simp

lemma key_bytes_mk_key [simp, code abstract]:
  "key_bytes (mk_key bs) = take KEY_SIZE (bs @ replicate KEY_SIZE 0)"
  by (simp add: mk_key_def KeyType_of_inverse KEY_SIZE_def)

lemma mk_key_key_bytes [simp]: "mk_key (key_bytes k) = k"
  by (simp add: mk_key_def KEY_SIZE_def key_bytes_inverse)

type_synonym ValueType = u64

definition ValueNull :: ValueType where "ValueNull = 0"

section \<open>The comparison operators\<close>

lemma memcmp_self [simp]: "memcmp as as n = 0"
proof (induction as arbitrary: n)
  case Nil
  then show ?case by simp
next
  case (Cons a as)
  then show ?case by (cases n) auto
qed

lemma memcmp_antisym: "memcmp as bs n + memcmp bs as n = 0"
  by (induction as bs n rule: memcmp.induct) auto

lemma memcmp_eq_0:
  "length as = n \<Longrightarrow> length bs = n \<Longrightarrow> memcmp as bs n = 0 \<longleftrightarrow> as = bs"
  by (induction as bs n rule: memcmp.induct) auto

lemma memcmp_trans_le:
  assumes "length as = n" and "length bs = n" and "length cs = n"
    and "memcmp as bs n \<le> 0" and "memcmp bs cs n \<le> 0"
  shows "memcmp as cs n \<le> 0"
  using assms
proof (induction n arbitrary: as bs cs)
  case 0
  then show ?case by simp
next
  case (Suc n)
  then obtain a as' b bs' c cs' where
    "as = a # as'" "bs = b # bs'" "cs = c # cs'"
    by (metis length_Suc_conv)
  then show ?case
    using Suc.prems Suc.IH [of as' bs' cs'] by (auto split: if_splits)
qed

instantiation KeyType :: linorder
begin

definition less_eq_KeyType :: "KeyType \<Rightarrow> KeyType \<Rightarrow> bool" where
  "less_eq_KeyType a b \<longleftrightarrow> memcmp (key_bytes a) (key_bytes b) KEY_SIZE \<le> 0"

definition less_KeyType :: "KeyType \<Rightarrow> KeyType \<Rightarrow> bool" where
  "less_KeyType a b \<longleftrightarrow> memcmp (key_bytes a) (key_bytes b) KEY_SIZE < 0"

instance
proof
  fix a b c :: KeyType
  have eq0: "memcmp (key_bytes x) (key_bytes y) KEY_SIZE = 0 \<longleftrightarrow> x = y" for x y
    by (simp add: KEY_SIZE_def memcmp_eq_0 key_bytes_inject)
  note anti = memcmp_antisym [of "key_bytes a" "key_bytes b" KEY_SIZE]
  show "a < b \<longleftrightarrow> a \<le> b \<and> \<not> b \<le> a"
    using anti by (auto simp: less_KeyType_def less_eq_KeyType_def)
  show "a \<le> a" by (simp add: less_eq_KeyType_def)
  show "a \<le> b \<Longrightarrow> b \<le> c \<Longrightarrow> a \<le> c"
    unfolding less_eq_KeyType_def
    by (rule memcmp_trans_le [where bs = "key_bytes b"]) (simp_all add: KEY_SIZE_def)
  show "a \<le> b \<Longrightarrow> b \<le> a \<Longrightarrow> a = b"
    using anti eq0 [of a b] by (auto simp: less_eq_KeyType_def)
  show "a \<le> b \<or> b \<le> a"
    using anti by (auto simp: less_eq_KeyType_def)
qed

end

instantiation KeyType :: equal
begin

definition equal_KeyType :: "KeyType \<Rightarrow> KeyType \<Rightarrow> bool" where
  "equal_KeyType a b \<longleftrightarrow> memcmp (key_bytes a) (key_bytes b) KEY_SIZE = 0"

instance
  by standard (simp add: equal_KeyType_def KEY_SIZE_def memcmp_eq_0 key_bytes_inject)

end

lemma memcmp_zeros_le: "memcmp (replicate n 0) bs n \<le> 0"
proof (induction n arbitrary: bs)
  case 0
  then show ?case by simp
next
  case (Suc n)
  then show ?case by (cases bs) auto
qed

lemma KeyNull_least [simp]: "KeyNull \<le> k"
  using memcmp_zeros_le [of KEY_SIZE "key_bytes k"]
  by (simp add: less_eq_KeyType_def KeyNull_def)

lemma not_less_KeyNull [simp]: "\<not> k < KeyNull"
  by (simp add: not_less)

lemma KeyNull_less_KeyMax [simp]: "KeyNull < KeyMax"
proof -
  have "key_bytes KeyMax = replicate 24 122"
    by (simp add: KeyMax_def KEY_SIZE_def)
  then have "key_bytes KeyMax ! 0 = 122" by simp
  moreover have "key_bytes KeyNull ! 0 = 0"
    by (simp add: KeyNull_def KEY_SIZE_def)
  ultimately have "KeyNull \<noteq> KeyMax" by auto
  then show ?thesis by (simp add: order.strict_iff_order)
qed

end
