(* ===== verification/RdmaConfig.thy ===== *)
theory RdmaConfig
  imports KVConfig
begin

text \<open>
  Model of \<open>DMTree/include/RdmaConfig.h\<close>: the memory constants, the 64-bit global address with
  its bit fields (16-bit node, 48-bit offset) and the rotating RDMA buffers of a coroutine.
\<close>

definition KB :: nat where [dm_sizes]: "KB = 1024"
definition MB :: nat where [dm_sizes]: "MB = 1024 * 1024"
definition GB :: nat where [dm_sizes]: "GB = 1024 * MB"
definition kChunkSize :: nat where [dm_sizes]: "kChunkSize = 32 * MB"
definition kRootPointerStoreOffest :: nat where
  [dm_sizes]: "kRootPointerStoreOffest = kChunkSize div 2"
definition kLockStartAddr :: nat where [dm_sizes]: "kLockStartAddr = 0"
definition kMemoryize :: nat where [dm_sizes]: "kMemoryize = 1024 * 8"
definition kInnerCacheSize :: nat where [dm_sizes]: "kInnerCacheSize = kMemoryize div 2"
definition kLeafCacheSize :: nat where [dm_sizes]: "kLeafCacheSize = kMemoryize div 2"
definition kLocalLockNum :: nat where [dm_sizes]: "kLocalLockNum = 4 * MB"

section \<open>Global addresses\<close>

text \<open>
  \<open>class Gaddr\<close>: the two bit fields are the state, \<open>Gaddr_val\<close> is the \<open>val\<close> member of the
  union (fields are allocated from the least significant bit). The constructor truncates its
  arguments to the field widths.
\<close>

record Gaddr =
  nodeID :: "16 word"
  offset :: "48 word"

definition mk_Gaddr :: "u64 \<Rightarrow> u64 \<Rightarrow> Gaddr" where
  [dm_defs]: "mk_Gaddr n off = \<lparr>nodeID = ucast n, offset = ucast off\<rparr>"

definition Gaddr_Null :: Gaddr where
  "Gaddr_Null = mk_Gaddr 0 0"

definition Gaddr_val :: "Gaddr \<Rightarrow> u64" where
  "Gaddr_val a = ucast (nodeID a) OR push_bit 16 (ucast (offset a))"

definition Gaddr_of_val :: "u64 \<Rightarrow> Gaddr" where
  "Gaddr_of_val v = \<lparr>nodeID = ucast v, offset = ucast (drop_bit 16 v)\<rparr>"

definition Gaddr_eq :: "Gaddr \<Rightarrow> Gaddr \<Rightarrow> bool" where
  "Gaddr_eq l r \<longleftrightarrow> nodeID l = nodeID r \<and> offset l = offset r"

lemma Gaddr_eq_iff [simp]: "Gaddr_eq l r \<longleftrightarrow> l = r"
  by (auto simp: Gaddr_eq_def)

lemma Gaddr_of_val_val: "Gaddr_of_val (Gaddr_val a) = a"
proof -
  have "ucast (Gaddr_val a) = nodeID a"
    by (rule bit_word_eqI) (auto simp: Gaddr_val_def bit_simps)
  moreover have "ucast (drop_bit 16 (Gaddr_val a)) = offset a"
    by (rule bit_word_eqI) (auto simp: Gaddr_val_def bit_simps dest: bit_imp_le_length)
  ultimately show ?thesis by (simp add: Gaddr_of_val_def)
qed

lemma Gaddr_val_of_val: "Gaddr_val (Gaddr_of_val v) = v"
  by (rule bit_word_eqI) (auto simp: Gaddr_val_def Gaddr_of_val_def bit_simps)

lemma Gaddr_val_inject: "Gaddr_val a = Gaddr_val b \<longleftrightarrow> a = b"
  by (metis Gaddr_of_val_val)

lemma Gaddr_val_Null: "Gaddr_val a = 0 \<longleftrightarrow> a = Gaddr_Null"
proof -
  have "Gaddr_val Gaddr_Null = 0" by (simp add: Gaddr_val_def Gaddr_Null_def mk_Gaddr_def)
  then show ?thesis by (metis Gaddr_val_inject)
qed

lemma mk_Gaddr_fields [simp]:
  "nodeID (mk_Gaddr n off) = ucast n" "offset (mk_Gaddr n off) = ucast off"
  by (simp_all add: mk_Gaddr_def)

section \<open>RDMA buffers\<close>

text \<open>
  \<open>class RdmaBuffer\<close>: pointers are byte addresses. The region starts at \<open>rb_buffer\<close> and holds
  64 CAS words, the unlock word, the zero word, 8 page buffers, 8 sibling buffers and the entry
  buffer; the three cursors rotate.
\<close>

definition kPageBufferCnt :: nat where [dm_sizes]: "kPageBufferCnt = 8"
definition kSiblingBufferCnt :: nat where [dm_sizes]: "kSiblingBufferCnt = 8"
definition kCasBufferCnt :: nat where [dm_sizes]: "kCasBufferCnt = 64"

record RdmaBuffer =
  rb_cas_buffer :: nat
  rb_unlock_buffer :: nat
  rb_zero_64bit :: nat
  rb_page_buffer :: nat
  rb_sibling_buffer :: nat
  rb_entry_buffer :: nat
  rb_page_buffer_cur :: nat
  rb_sibling_buffer_cur :: nat
  rb_cas_buffer_cur :: nat
  rb_kPageSize :: nat

definition set_buffer :: "nat \<Rightarrow> RdmaBuffer \<Rightarrow> RdmaBuffer" where
  "set_buffer buffer rb =
     (let page = 2 * KB;
          unlock = buffer + 8 * kCasBufferCnt;
          zero = unlock + 8;
          pg = zero + 8;
          sib = pg + page * kPageBufferCnt
      in rb\<lparr>rb_kPageSize := page, rb_cas_buffer := buffer, rb_unlock_buffer := unlock,
            rb_zero_64bit := zero, rb_page_buffer := pg, rb_sibling_buffer := sib,
            rb_entry_buffer := sib + page * kSiblingBufferCnt\<rparr>)"

definition new_RdmaBuffer :: "nat \<Rightarrow> RdmaBuffer" where
  "new_RdmaBuffer buffer =
     set_buffer buffer
       \<lparr>rb_cas_buffer = 0, rb_unlock_buffer = 0, rb_zero_64bit = 0, rb_page_buffer = 0,
        rb_sibling_buffer = 0, rb_entry_buffer = 0, rb_page_buffer_cur = 0,
        rb_sibling_buffer_cur = 0, rb_cas_buffer_cur = 0, rb_kPageSize = 0\<rparr>"

definition get_cas_buffer :: "RdmaBuffer \<Rightarrow> nat \<times> RdmaBuffer" where
  "get_cas_buffer rb =
     (let c = (rb_cas_buffer_cur rb + 1) mod kCasBufferCnt
      in (rb_cas_buffer rb + 8 * c, rb\<lparr>rb_cas_buffer_cur := c\<rparr>))"

definition get_page_buffer :: "RdmaBuffer \<Rightarrow> nat \<times> RdmaBuffer" where
  "get_page_buffer rb =
     (let c = (rb_page_buffer_cur rb + 1) mod kPageBufferCnt
      in (rb_page_buffer rb + c * rb_kPageSize rb, rb\<lparr>rb_page_buffer_cur := c\<rparr>))"

definition get_sibling_buffer :: "RdmaBuffer \<Rightarrow> nat \<times> RdmaBuffer" where
  "get_sibling_buffer rb =
     (let c = (rb_sibling_buffer_cur rb + 1) mod kSiblingBufferCnt
      in (rb_sibling_buffer rb + c * rb_kPageSize rb, rb\<lparr>rb_sibling_buffer_cur := c\<rparr>))"

text \<open>A buffer set up at \<open>b\<close>, with cursors in range.\<close>

definition rb_wf :: "nat \<Rightarrow> RdmaBuffer \<Rightarrow> bool" where
  "rb_wf b rb \<longleftrightarrow>
     rb_kPageSize rb = 2 * KB \<and> rb_cas_buffer rb = b \<and>
     rb_page_buffer rb = b + 8 * kCasBufferCnt + 16 \<and>
     rb_sibling_buffer rb = rb_page_buffer rb + 2 * KB * kPageBufferCnt \<and>
     rb_entry_buffer rb = rb_sibling_buffer rb + 2 * KB * kSiblingBufferCnt \<and>
     rb_page_buffer_cur rb < kPageBufferCnt \<and> rb_sibling_buffer_cur rb < kSiblingBufferCnt \<and>
     rb_cas_buffer_cur rb < kCasBufferCnt"

lemmas rb_op_defs = get_cas_buffer_def get_page_buffer_def get_sibling_buffer_def

lemma rb_wf_new: "rb_wf b (new_RdmaBuffer b)"
  by (simp add: rb_wf_def new_RdmaBuffer_def set_buffer_def Let_def dm_sizes)

lemma rb_wf_step:
  assumes "rb_wf b rb"
  shows "rb_wf b (snd (get_cas_buffer rb))" and "rb_wf b (snd (get_page_buffer rb))"
    and "rb_wf b (snd (get_sibling_buffer rb))"
  using assms by (simp_all add: rb_wf_def rb_op_defs Let_def dm_sizes)

text \<open>Under \<open>rb_wf\<close> a page buffer lies in the page region and a sibling buffer after it.\<close>

lemma page_buffer_bounds:
  assumes "rb_wf b rb" and "get_page_buffer rb = (p, rb')"
  shows "b + 528 \<le> p" and "p + 2 * KB \<le> rb_sibling_buffer rb"
proof -
  let ?c = "(rb_page_buffer_cur rb + 1) mod 8"
  have p: "p = rb_page_buffer rb + ?c * 2048" and s: "rb_sibling_buffer rb = rb_page_buffer rb + 16384"
    and g: "rb_page_buffer rb = b + 528"
    using assms by (auto simp: rb_wf_def rb_op_defs Let_def dm_sizes)
  have "?c \<le> 7" by (simp add: less_Suc_eq_le [symmetric])
  then have "?c * 2048 + 2048 \<le> 16384" by linarith
  with p s g show "b + 528 \<le> p" and "p + 2 * KB \<le> rb_sibling_buffer rb"
    by (simp_all add: dm_sizes)
qed

lemma sibling_buffer_bounds:
  assumes "rb_wf b rb" and "get_sibling_buffer rb = (p, rb')"
  shows "rb_sibling_buffer rb \<le> p" and "p + 2 * KB \<le> rb_entry_buffer rb"
proof -
  let ?c = "(rb_sibling_buffer_cur rb + 1) mod 8"
  have p: "p = rb_sibling_buffer rb + ?c * 2048"
    and s: "rb_entry_buffer rb = rb_sibling_buffer rb + 16384"
    using assms by (auto simp: rb_wf_def rb_op_defs Let_def dm_sizes)
  have "?c \<le> 7" by (simp add: less_Suc_eq_le [symmetric])
  then have "?c * 2048 + 2048 \<le> 16384" by linarith
  with p s show "rb_sibling_buffer rb \<le> p" and "p + 2 * KB \<le> rb_entry_buffer rb"
    by (simp_all add: dm_sizes)
qed

text \<open>
  The images of \<open>n\<close> bytes at \<open>a\<close> and of \<open>m\<close> bytes at \<open>b\<close> have a byte in common. An image that does
  not fit into one page of 2 KB runs into the next buffers.
\<close>

definition images_overlap :: "nat \<Rightarrow> nat \<Rightarrow> nat \<Rightarrow> nat \<Rightarrow> bool" where
  "images_overlap a n b m \<longleftrightarrow> a < b + m \<and> b < a + n"

lemma page_image_disjoint:
  assumes "rb_wf b rb" and "rb_wf b rb'" and "n \<le> 2 * KB"
  shows "\<not> images_overlap (fst (get_page_buffer rb)) n (fst (get_sibling_buffer rb')) m"
proof -
  have "fst (get_page_buffer rb) + 2 * KB \<le> rb_sibling_buffer rb"
    using page_buffer_bounds(2) [OF assms(1)] by (metis prod.collapse)
  moreover have "rb_sibling_buffer rb' \<le> fst (get_sibling_buffer rb')"
    using sibling_buffer_bounds(1) [OF assms(2)] by (metis prod.collapse)
  moreover have "rb_sibling_buffer rb' = rb_sibling_buffer rb" using assms(1,2) by (simp add: rb_wf_def)
  ultimately show ?thesis using assms(3) by (simp add: images_overlap_def)
qed

end
