(* ===== verification/LeafHandle.thy ===== *)
theory LeafHandle
  imports DM_Prelude
begin

text \<open>
  Model of \<open>SkipVectorDM/include/skipvector/LeafHandle.h\<close>: the 8-byte handle of a leaf, a
  32-bit version tag (12-bit structure version, 20-bit content version) and a 32-bit slab offset.
\<close>

record LeafHandle =
  tag :: u32
  lh_offset :: u32

definition kContentVerBits :: nat where [dm_sizes]: "kContentVerBits = 20"
definition kStructVerBits :: nat where [dm_sizes]: "kStructVerBits = 12"
definition kContentVerMask :: u32 where
  [dm_sizes]: "kContentVerMask = push_bit kContentVerBits 1 - 1"
definition kStructVerMask :: u32 where
  [dm_sizes]: "kStructVerMask = push_bit kStructVerBits 1 - 1"
definition kStructVerShift :: nat where [dm_sizes]: "kStructVerShift = kContentVerBits"

text \<open>The union's \<open>raw\<close> member: the tag is the low half on a little-endian machine.\<close>

definition lh_raw :: "LeafHandle \<Rightarrow> u64" where
  "lh_raw h = ucast (tag h) OR push_bit 32 (ucast (lh_offset h))"

definition lh_of_raw :: "u64 \<Rightarrow> LeafHandle" where
  "lh_of_raw r = \<lparr>tag = ucast r, lh_offset = ucast (drop_bit 32 r)\<rparr>"

definition struct_ver :: "LeafHandle \<Rightarrow> u32" where
  "struct_ver h = drop_bit kStructVerShift (tag h) AND kStructVerMask"

definition content_ver :: "LeafHandle \<Rightarrow> u32" where
  "content_ver h = tag h AND kContentVerMask"

definition make_tag :: "u32 \<Rightarrow> u32 \<Rightarrow> u32" where
  "make_tag sv cv =
     push_bit kStructVerShift (sv AND kStructVerMask) OR (cv AND kContentVerMask)"

definition set_tag :: "LeafHandle \<Rightarrow> u32 \<Rightarrow> u32 \<Rightarrow> LeafHandle" where
  "set_tag h sv cv = h\<lparr>tag := make_tag sv cv\<rparr>"

definition newer_than :: "LeafHandle \<Rightarrow> LeafHandle \<Rightarrow> bool" where
  "newer_than h o' =
     (if struct_ver h \<noteq> struct_ver o' then struct_ver h > struct_ver o'
      else content_ver h > content_ver o')"

definition bump_content :: "LeafHandle \<Rightarrow> LeafHandle" where
  "bump_content h =
     \<lparr>tag = make_tag (struct_ver h) (content_ver h + 1), lh_offset = lh_offset h\<rparr>"

definition bump_struct :: "LeafHandle \<Rightarrow> u32 \<Rightarrow> LeafHandle" where
  "bump_struct h new_offset =
     \<lparr>tag = make_tag (struct_ver h + 1) 0, lh_offset = new_offset\<rparr>"

section \<open>The fields as parts of the tag\<close>

lemma kContentVerMask_mask: "kContentVerMask = mask 20"
  by (simp add: dm_sizes mask_eq_exp_minus_1)

lemma kStructVerMask_mask: "kStructVerMask = mask 12"
  by (simp add: dm_sizes mask_eq_exp_minus_1)

lemma struct_ver_eq: "struct_ver h = drop_bit 20 (tag h)"
proof -
  have "take_bit 12 (drop_bit 20 (tag h)) = drop_bit 20 (tag h)"
    by (rule bit_word_eqI) (auto simp: bit_simps dest: bit_imp_le_length)
  then show ?thesis
    by (simp add: struct_ver_def kStructVerMask_mask kStructVerShift_def kContentVerBits_def
        take_bit_eq_mask [symmetric])
qed

lemma content_ver_eq: "content_ver h = take_bit 20 (tag h)"
  by (simp add: content_ver_def kContentVerMask_mask take_bit_eq_mask)

lemma unat_struct_ver: "unat (struct_ver h) = unat (tag h) div 2 ^ 20"
  unfolding struct_ver_eq unat_drop_bit_eq by (simp add: drop_bit_eq_div)

lemma unat_content_ver: "unat (content_ver h) = unat (tag h) mod 2 ^ 20"
  by (simp only: content_ver_eq unat_take_bit)

lemma make_tag_eq: "make_tag sv cv = push_bit 20 (take_bit 12 sv) OR take_bit 20 cv"
  by (simp add: make_tag_def kContentVerMask_mask kStructVerMask_mask kStructVerShift_def
      kContentVerBits_def take_bit_eq_mask)

lemma struct_ver_make_tag [simp]:
  "struct_ver \<lparr>tag = make_tag sv cv, lh_offset = off\<rparr> = take_bit 12 sv"
  unfolding struct_ver_eq make_tag_eq
  by (rule bit_word_eqI) (auto simp: bit_simps)

lemma content_ver_make_tag [simp]:
  "content_ver \<lparr>tag = make_tag sv cv, lh_offset = off\<rparr> = take_bit 20 cv"
  unfolding content_ver_eq make_tag_eq
  by (rule bit_word_eqI) (auto simp: bit_simps)

lemma make_tag_versions: "make_tag (struct_ver h) (content_ver h) = tag h"
  unfolding struct_ver_eq content_ver_eq make_tag_eq
  by (rule bit_word_eqI) (auto simp: bit_simps)

lemma lex_div_mod:
  fixes a b m :: nat
  assumes "0 < m"
  shows "(if a div m \<noteq> b div m then b div m < a div m else b mod m < a mod m) \<longleftrightarrow> b < a"
proof (cases "a div m = b div m")
  case True
  then have "a = b div m * m + a mod m" "b = b div m * m + b mod m"
    by (metis div_mult_mod_eq)+
  with True show ?thesis by (metis nat_add_left_cancel_less)
next
  case False
  then show ?thesis
    by (metis div_le_mono leD le_less_linear not_less_iff_gr_or_eq)
qed

text \<open>
  The two-stage version comparison is the unsigned order on tags.
\<close>

lemma newer_than_iff_tag: "newer_than h o' \<longleftrightarrow> tag o' < tag h"
proof -
  have "newer_than h o' \<longleftrightarrow>
     (if unat (tag h) div 2 ^ 20 \<noteq> unat (tag o') div 2 ^ 20
      then unat (tag o') div 2 ^ 20 < unat (tag h) div 2 ^ 20
      else unat (tag o') mod 2 ^ 20 < unat (tag h) mod 2 ^ 20)"
    by (simp only: newer_than_def word_less_nat_alt unat_struct_ver unat_content_ver
        word_unat_eq_iff)
  also have "\<dots> \<longleftrightarrow> unat (tag o') < unat (tag h)"
    by (rule lex_div_mod) simp
  finally show ?thesis by (simp add: word_less_nat_alt)
qed

lemma lh_of_raw_raw: "lh_of_raw (lh_raw h) = h"
proof -
  have "ucast (lh_raw h) = tag h"
    by (rule bit_word_eqI) (auto simp: lh_raw_def bit_simps)
  moreover have "ucast (drop_bit 32 (lh_raw h)) = lh_offset h"
    by (rule bit_word_eqI) (auto simp: lh_raw_def bit_simps dest: bit_imp_le_length)
  ultimately show ?thesis by (simp add: lh_of_raw_def)
qed

lemma lh_raw_of_raw: "lh_raw (lh_of_raw r) = r"
  by (rule bit_word_eqI) (auto simp: lh_raw_def lh_of_raw_def bit_simps)

section \<open>Bumping versions\<close>

lemma unat_struct_ver_lt: "unat (struct_ver h) < 2 ^ 12"
  using unat_less_pow [of "tag h"] by (simp add: unat_struct_ver less_mult_imp_div_less)

lemma unat_content_ver_lt: "unat (content_ver h) < 2 ^ 20"
  by (simp add: unat_content_ver)

lemma unat_take_bit_Suc:
  fixes x :: u32
  assumes "unat x < 2 ^ n" and "n < 32"
  shows "unat (take_bit n (x + 1)) = (if unat x = 2 ^ n - 1 then 0 else Suc (unat x))"
proof -
  have "(2::nat) ^ n \<le> 2 ^ 31" using assms(2) by (intro power_increasing) auto
  with assms(1) have "unat (x + 1) = Suc (unat x)"
    by (simp add: unat_plus_if' )
  with assms(1) show ?thesis
    by (auto simp: unat_take_bit)
qed

lemma unat_kContentVerMask: "unat kContentVerMask = 2 ^ 20 - 1"
  by (simp add: kContentVerMask_mask mask_eq_exp_minus_1)

lemma unat_kStructVerMask: "unat kStructVerMask = 2 ^ 12 - 1"
  by (simp add: kStructVerMask_mask mask_eq_exp_minus_1)

lemma bump_content_versions:
  "struct_ver (bump_content h) = struct_ver h"
  "content_ver (bump_content h) =
     (if content_ver h = kContentVerMask then 0 else content_ver h + 1)"
  "lh_offset (bump_content h) = lh_offset h"
proof -
  have "take_bit 12 (struct_ver h) = struct_ver h"
    using unat_struct_ver_lt [of h] unat_take_bit [of 12 "struct_ver h"]
    by (simp add: word_unat_eq_iff)
  then show "struct_ver (bump_content h) = struct_ver h"
    by (simp add: bump_content_def)
  show "content_ver (bump_content h) =
     (if content_ver h = kContentVerMask then 0 else content_ver h + 1)"
    using unat_take_bit_Suc [OF unat_content_ver_lt, of h] unat_content_ver_lt [of h]
    by (auto simp: bump_content_def word_unat_eq_iff unat_kContentVerMask unat_plus_if')
  show "lh_offset (bump_content h) = lh_offset h" by (simp add: bump_content_def)
qed

lemma bump_struct_versions:
  "struct_ver (bump_struct h off) =
     (if struct_ver h = kStructVerMask then 0 else struct_ver h + 1)"
  "content_ver (bump_struct h off) = 0"
  "lh_offset (bump_struct h off) = off"
  using unat_take_bit_Suc [OF unat_struct_ver_lt, of h] unat_struct_ver_lt [of h]
  by (auto simp: bump_struct_def word_unat_eq_iff unat_kStructVerMask unat_plus_if')

lemma LeafHandle_eqI:
  assumes "struct_ver h = struct_ver h'" and "content_ver h = content_ver h'"
    and "lh_offset h = lh_offset h'"
  shows "h = h'"
proof -
  have "tag h = tag h'" using assms(1,2) make_tag_versions [of h] make_tag_versions [of h'] by simp
  with assms(3) show ?thesis by (cases h; cases h') simp
qed

lemma bump_content_funpow:
  "struct_ver ((bump_content ^^ n) h) = struct_ver h"
  "unat (content_ver ((bump_content ^^ n) h)) = (unat (content_ver h) + n) mod 2 ^ 20"
  "lh_offset ((bump_content ^^ n) h) = lh_offset h"
proof (induction n)
  case 0
  show "struct_ver ((bump_content ^^ 0) h) = struct_ver h" by simp
  show "unat (content_ver ((bump_content ^^ 0) h)) = (unat (content_ver h) + 0) mod 2 ^ 20"
    using unat_content_ver_lt [of h] by simp
  show "lh_offset ((bump_content ^^ 0) h) = lh_offset h" by simp
next
  case (Suc n)
  let ?g = "(bump_content ^^ n) h"
  show "struct_ver ((bump_content ^^ Suc n) h) = struct_ver h"
    "lh_offset ((bump_content ^^ Suc n) h) = lh_offset h"
    using Suc by (simp_all add: bump_content_versions)
  have "unat (content_ver (bump_content ?g)) = Suc (unat (content_ver ?g)) mod 2 ^ 20"
  proof (cases "content_ver ?g = kContentVerMask")
    case True
    then show ?thesis by (simp add: bump_content_versions unat_kContentVerMask)
  next
    case False
    then have "unat (content_ver ?g) \<noteq> 2 ^ 20 - 1"
      by (metis unat_kContentVerMask word_unat_eq_iff)
    then show ?thesis
      using False unat_content_ver_lt [of ?g] by (simp add: bump_content_versions unat_plus_if')
  qed
  then show "unat (content_ver ((bump_content ^^ Suc n) h)) = (unat (content_ver h) + Suc n) mod 2 ^ 20"
    using Suc(2) by (simp add: mod_Suc_eq)
qed

text \<open>
  C28: the 8-byte image of a handle determines it and every 8-byte word is the image of a handle,
  so a compare-and-swap on the word compares and replaces tag and offset together; and writing a
  pair of versions into the tag and reading it back gives the versions modulo \<open>2 ^ 12\<close> and
  \<open>2 ^ 20\<close>.
\<close>

theorem leaf_handle_codec:
  "lh_of_raw (lh_raw h) = h \<and> lh_raw (lh_of_raw r) = r \<and>
   set_tag h (struct_ver h) (content_ver h) = h \<and>
   unat (struct_ver (set_tag h sv cv)) = unat sv mod 2 ^ 12 \<and>
   unat (content_ver (set_tag h sv cv)) = unat cv mod 2 ^ 20 \<and>
   lh_offset (set_tag h sv cv) = lh_offset h"
proof -
  have t: "set_tag h sv cv = \<lparr>tag = make_tag sv cv, lh_offset = lh_offset h\<rparr>"
    by (simp add: set_tag_def)
  show ?thesis
    unfolding t by (simp add: lh_of_raw_raw lh_raw_of_raw set_tag_def make_tag_versions unat_take_bit)
qed

text \<open>
  C27: \<open>newer_than\<close> is a strict order, total on handles with different versions. Both ways of
  bumping a version give a newer handle, except at the largest version, where the counter wraps to
  zero and the result is older than its argument.
\<close>

theorem newer_than_bump:
  "\<not> newer_than h h \<and>
   (newer_than a b \<and> newer_than b c \<longrightarrow> newer_than a c) \<and>
   (newer_than a b \<or> newer_than b a \<or> struct_ver a = struct_ver b \<and> content_ver a = content_ver b) \<and>
   (if content_ver h = kContentVerMask then newer_than h (bump_content h)
    else newer_than (bump_content h) h) \<and>
   (if struct_ver h = kStructVerMask then newer_than h (bump_struct h off)
    else newer_than (bump_struct h off) h)"
proof (intro conjI)
  show "\<not> newer_than h h" "newer_than a b \<and> newer_than b c \<longrightarrow> newer_than a c"
    by (auto simp: newer_than_iff_tag)
  show "newer_than a b \<or> newer_than b a \<or> struct_ver a = struct_ver b \<and> content_ver a = content_ver b"
    by (auto simp: newer_than_def)
  have "unat (content_ver h) \<noteq> 2 ^ 20 - 1" if "content_ver h \<noteq> kContentVerMask"
    using that by (metis unat_kContentVerMask word_unat_eq_iff)
  then show "if content_ver h = kContentVerMask then newer_than h (bump_content h)
    else newer_than (bump_content h) h"
    using unat_content_ver_lt [of h]
    by (auto simp: newer_than_def bump_content_versions word_less_nat_alt unat_plus_if'
        unat_kContentVerMask)
  have "unat (struct_ver h) \<noteq> 2 ^ 12 - 1" if "struct_ver h \<noteq> kStructVerMask"
    using that by (metis unat_kStructVerMask word_unat_eq_iff)
  moreover have "struct_ver (bump_struct h off) \<noteq> struct_ver h"
    using unat_struct_ver_lt [of h]
    by (auto simp: bump_struct_versions unat_kStructVerMask dest: arg_cong [of _ _ unat])
  ultimately show "if struct_ver h = kStructVerMask then newer_than h (bump_struct h off)
    else newer_than (bump_struct h off) h"
    using unat_struct_ver_lt [of h]
    by (auto simp: newer_than_def bump_struct_versions word_less_nat_alt unat_plus_if'
        unat_kStructVerMask)
qed

theorem newer_than_bump_witness:
  "newer_than \<lparr>tag = 3, lh_offset = 0\<rparr> \<lparr>tag = 2, lh_offset = 0\<rparr> \<and>
   newer_than \<lparr>tag = 2, lh_offset = 0\<rparr> \<lparr>tag = 1, lh_offset = 0\<rparr> \<and>
   newer_than \<lparr>tag = 3, lh_offset = 0\<rparr> \<lparr>tag = 1, lh_offset = 0\<rparr>"
  using newer_than_bump [of "\<lparr>tag = 3, lh_offset = 0\<rparr>" "\<lparr>tag = 3, lh_offset = 0\<rparr>"
      "\<lparr>tag = 2, lh_offset = 0\<rparr>" "\<lparr>tag = 1, lh_offset = 0\<rparr>" 0]
  by (simp add: newer_than_iff_tag)

text \<open>
  A content bump changes the 8-byte word and keeps structure version and offset, and the same
  word comes back after exactly \<open>2 ^ 20\<close> content bumps, not earlier: a compare-and-swap on a handle
  cannot tell that many intervening updates from none.
\<close>

lemma bump_content_period:
  "lh_raw ((bump_content ^^ n) h) = lh_raw h \<longleftrightarrow> 2 ^ 20 dvd n"
proof -
  let ?g = "(bump_content ^^ n) h"
  have "lh_raw ?g = lh_raw h \<longleftrightarrow> ?g = h" by (metis lh_of_raw_raw)
  also have "\<dots> \<longleftrightarrow> unat (content_ver ?g) = unat (content_ver h)"
    using LeafHandle_eqI [of ?g h] bump_content_funpow [of n h] by (auto simp: word_unat_eq_iff)
  also have "\<dots> \<longleftrightarrow> (unat (content_ver h) + n) mod 2 ^ 20 = unat (content_ver h) mod 2 ^ 20"
    using bump_content_funpow(2) [of n h] unat_content_ver_lt [of h] by simp
  also have "\<dots> \<longleftrightarrow> 2 ^ 20 dvd n"
    using mod_eq_dvd_iff_nat [of "unat (content_ver h)" "unat (content_ver h) + n" "2 ^ 20"]
    by simp
  finally show ?thesis .
qed

end
