(* ===== verification/Alloc_Spec.thy ===== *)
theory Alloc_Spec
  imports DM_Prelude
begin

text \<open>
  The contract every allocator of the system promises its clients: an allocation hands out
  something that was not in use, and from then on it is in use. The lemma about runs of
  allocations is proved once here and reached by each allocator through an interpretation.
\<close>

primrec alloc_many :: "('s \<Rightarrow> ('a \<times> 's) option) \<Rightarrow> nat \<Rightarrow> 's \<Rightarrow> ('a list \<times> 's) option" where
  "alloc_many alloc 0 s = Some ([], s)"
| "alloc_many alloc (Suc n) s =
     (case alloc s of
        None \<Rightarrow> None
      | Some (a, s') \<Rightarrow>
          (case alloc_many alloc n s' of
             None \<Rightarrow> None
           | Some (xs, s'') \<Rightarrow> Some (a # xs, s'')))"

locale fresh_allocator =
  fixes alloc :: "'s \<Rightarrow> ('a \<times> 's) option"
    and used :: "'s \<Rightarrow> 'a set"
    and invar :: "'s \<Rightarrow> bool"
  assumes alloc_fresh: "invar s \<Longrightarrow> alloc s = Some (a, s') \<Longrightarrow> a \<notin> used s"
    and alloc_used: "invar s \<Longrightarrow> alloc s = Some (a, s') \<Longrightarrow> used s' = insert a (used s)"
    and alloc_invar: "invar s \<Longrightarrow> alloc s = Some (a, s') \<Longrightarrow> invar s'"
begin

lemma alloc_many_fresh:
  "invar s \<Longrightarrow> alloc_many alloc n s = Some (xs, s') \<Longrightarrow>
     length xs = n \<and> distinct xs \<and> set xs \<inter> used s = {} \<and> used s' = used s \<union> set xs \<and> invar s'"
proof (induction n arbitrary: s xs)
  case 0
  then show ?case by simp
next
  case (Suc n)
  from Suc.prems(2) obtain a t ys where
    a: "alloc s = Some (a, t)" and ys: "alloc_many alloc n t = Some (ys, s')" and xs: "xs = a # ys"
    by (auto split: option.splits)
  note step = alloc_fresh [OF Suc.prems(1) a] alloc_used [OF Suc.prems(1) a]
    alloc_invar [OF Suc.prems(1) a]
  from Suc.IH [OF step(3) ys] step xs show ?case by auto
qed

end

section \<open>Rotating over a window of slots\<close>

lemma mod_rotate_surj:
  fixes a b m :: nat
  assumes "a < m" and "b < m"
  shows "\<exists>k < m. (a + k) mod m = b"
proof (intro exI conjI)
  show "(b + m - a) mod m < m" using assms by simp
  have "(a + (b + m - a) mod m) mod m = (a + (b + m - a)) mod m"
    by (rule mod_add_right_eq)
  also have "a + (b + m - a) = b + m" using assms by simp
  also have "(b + m) mod m = b" using assms by simp
  finally show "(a + (b + m - a) mod m) mod m = b" .
qed

end
