(* ===== verification/SlabAllocator.thy ===== *)
theory SlabAllocator
  imports Alloc_Spec RdmaConfig
begin

text \<open>
  Model of \<open>SkipVectorDM/include/skipvector/Config.h\<close> and \<open>SlabAllocator.h\<close>: the layout of
  the replicated region and the bitmap allocator over a pool of equal slots. The operations run
  under the allocator's mutex, so each is one atomic step. Sizes and offsets are 64-bit unsigned
  in the source; \<open>slab_inv\<close> includes that the pool ends below \<open>2 ^ 64 - 1\<close>, under which none of
  the additions and products below wraps, so they are natural numbers here.
\<close>

section \<open>Constants\<close>

definition kF :: nat where [dm_sizes]: "kF = 1"
definition kNumReplicas :: nat where [dm_sizes]: "kNumReplicas = 2 * kF + 1"
definition kQuorum :: nat where [dm_sizes]: "kQuorum = kF + 1"
definition kFanoutData :: nat where [dm_sizes]: "kFanoutData = 32"
definition kLeafHandleSize :: nat where [dm_sizes]: "kLeafHandleSize = 8"
definition kLeafContentSize :: nat where [dm_sizes]: "kLeafContentSize = 1152"
definition kIndexNodeSize :: nat where [dm_sizes]: "kIndexNodeSize = 1152"
definition kSlabHandleBytes :: nat where [dm_sizes]: "kSlabHandleBytes = 256 * MB"
definition kSlabLeafBytes :: nat where [dm_sizes]: "kSlabLeafBytes = 512 * MB"
definition kSlabIndexBytes :: nat where [dm_sizes]: "kSlabIndexBytes = 512 * MB"
definition kSkipVectorRegionBytes :: nat where
  [dm_sizes]: "kSkipVectorRegionBytes = kSlabHandleBytes + kSlabLeafBytes + kSlabIndexBytes"
definition kSkipVectorRegionBase :: nat where [dm_sizes]: "kSkipVectorRegionBase = 0"
definition kHandlePoolBase :: nat where [dm_sizes]: "kHandlePoolBase = kSkipVectorRegionBase"
definition kLeafPoolBase :: nat where
  [dm_sizes]: "kLeafPoolBase = kHandlePoolBase + kSlabHandleBytes"
definition kIndexPoolBase :: nat where
  [dm_sizes]: "kIndexPoolBase = kLeafPoolBase + kSlabLeafBytes"
definition kNumHandleSlots :: nat where
  [dm_sizes]: "kNumHandleSlots = kSlabHandleBytes div kLeafHandleSize"
definition kNumLeafSlots :: nat where
  [dm_sizes]: "kNumLeafSlots = kSlabLeafBytes div kLeafContentSize"
definition kNumIndexSlots :: nat where
  [dm_sizes]: "kNumIndexSlots = kSlabIndexBytes div kIndexNodeSize"
definition kHeadLeafHandleOffset :: nat where
  [dm_sizes]: "kHeadLeafHandleOffset = kHandlePoolBase"

section \<open>The allocator\<close>

record SlabAllocator =
  sa_base :: nat
  sa_slot_size :: nat
  sa_num_slots :: nat
  sa_bitmap :: "bool list"
  sa_next_hint :: nat
  sa_first_free :: nat
  sa_used_count :: nat

definition kBad :: nat where [dm_sizes]: "kBad = 2 ^ 64 - 1"

definition new_SlabAllocator :: "nat \<Rightarrow> nat \<Rightarrow> nat \<Rightarrow> nat \<Rightarrow> SlabAllocator result" where
  "new_SlabAllocator base_offset slot_size num_slots first_reserved =
     res_bind (res_assert ''first_reserved <= num_slots'' (first_reserved \<le> num_slots)) (\<lambda>_.
     Inr \<lparr>sa_base = base_offset, sa_slot_size = slot_size, sa_num_slots = num_slots,
          sa_bitmap = foldl (\<lambda>bm i. bm[i := True]) (replicate num_slots False) [0..<first_reserved],
          sa_next_hint = first_reserved, sa_first_free = first_reserved,
          sa_used_count = first_reserved\<rparr>)"

definition next_slot :: "SlabAllocator \<Rightarrow> nat" where
  "next_slot sa =
     (let h = (sa_next_hint sa + 1) mod sa_num_slots sa
      in if h < sa_first_free sa then sa_first_free sa else h)"

fun alloc_loop :: "nat \<Rightarrow> SlabAllocator \<Rightarrow> (nat \<times> SlabAllocator) result" where
  "alloc_loop 0 sa = Inr (kBad, sa)"
| "alloc_loop (Suc tries) sa =
     (let i = sa_next_hint sa; sa1 = sa\<lparr>sa_next_hint := next_slot sa\<rparr>
      in if length (sa_bitmap sa) \<le> i then Inl OutOfBounds
         else if \<not> sa_bitmap sa ! i
         then Inr (sa_base sa + i * sa_slot_size sa,
                   sa1\<lparr>sa_bitmap := (sa_bitmap sa)[i := True],
                       sa_used_count := sa_used_count sa + 1\<rparr>)
         else alloc_loop tries sa1)"

definition slab_alloc :: "SlabAllocator \<Rightarrow> (nat \<times> SlabAllocator) result" where
  "slab_alloc sa = alloc_loop (sa_num_slots sa) sa"

definition slab_free :: "nat \<Rightarrow> SlabAllocator \<Rightarrow> SlabAllocator result" where
  "slab_free off sa =
     res_bind (res_assert ''offset >= base_'' (sa_base sa \<le> off)) (\<lambda>_.
     let rel = off - sa_base sa; idx = rel div sa_slot_size sa in
     res_bind (res_assert ''rel % slot_size_ == 0'' (rel mod sa_slot_size sa = 0)) (\<lambda>_.
     res_bind (res_assert ''idx < num_slots_'' (idx < sa_num_slots sa)) (\<lambda>_.
     res_bind (res_assert ''cannot free reserved slot'' (sa_first_free sa \<le> idx)) (\<lambda>_.
     res_bind (res_assert ''double free'' (sa_bitmap sa ! idx)) (\<lambda>_.
     Inr (sa\<lparr>sa_bitmap := (sa_bitmap sa)[idx := False],
             sa_used_count := sa_used_count sa - 1\<rparr>))))))"

definition slab_owns :: "SlabAllocator \<Rightarrow> nat \<Rightarrow> bool" where
  "slab_owns sa off \<longleftrightarrow> sa_base sa \<le> off \<and> off < sa_base sa + sa_num_slots sa * sa_slot_size sa"

definition slot_of :: "SlabAllocator \<Rightarrow> nat \<Rightarrow> nat result" where
  "slot_of sa off =
     res_bind (res_assert ''owns(offset)'' (slab_owns sa off)) (\<lambda>_.
     Inr ((off - sa_base sa) div sa_slot_size sa))"

definition offset_of :: "SlabAllocator \<Rightarrow> nat \<Rightarrow> nat result" where
  "offset_of sa slot_idx =
     res_bind (res_assert ''slot_idx < num_slots_'' (slot_idx < sa_num_slots sa)) (\<lambda>_.
     Inr (sa_base sa + slot_idx * sa_slot_size sa))"

record SlabPools =
  sp_handles :: SlabAllocator
  sp_leaves :: SlabAllocator
  sp_indices :: SlabAllocator

definition new_SlabPools :: "SlabPools result" where
  "new_SlabPools =
     res_bind (new_SlabAllocator kHandlePoolBase kLeafHandleSize kNumHandleSlots 1) (\<lambda>h.
     res_bind (new_SlabAllocator kLeafPoolBase kLeafContentSize kNumLeafSlots 0) (\<lambda>l.
     res_bind (new_SlabAllocator kIndexPoolBase kIndexNodeSize kNumIndexSlots 0) (\<lambda>i.
     Inr \<lparr>sp_handles = h, sp_leaves = l, sp_indices = i\<rparr>)))"

section \<open>Invariant\<close>

definition used_slots :: "SlabAllocator \<Rightarrow> nat set" where
  "used_slots sa = {i. i < length (sa_bitmap sa) \<and> sa_bitmap sa ! i}"

definition slot_addr :: "SlabAllocator \<Rightarrow> nat \<Rightarrow> nat" where
  "slot_addr sa i = sa_base sa + i * sa_slot_size sa"

definition slab_inv :: "SlabAllocator \<Rightarrow> bool" where
  "slab_inv sa \<longleftrightarrow>
     length (sa_bitmap sa) = sa_num_slots sa \<and>
     sa_first_free sa \<le> sa_next_hint sa \<and> sa_next_hint sa < sa_num_slots sa \<and>
     {..<sa_first_free sa} \<subseteq> used_slots sa \<and>
     sa_used_count sa = card (used_slots sa) \<and>
     0 < sa_slot_size sa \<and> sa_base sa + sa_num_slots sa * sa_slot_size sa < kBad"

lemma finite_used_slots [simp]: "finite (used_slots sa)"
  by (simp add: used_slots_def)

lemma foldl_set_prefix:
  "m \<le> n \<Longrightarrow> foldl (\<lambda>bm i. bm[i := True]) (replicate n False) [0..<m] =
     replicate m True @ replicate (n - m) False"
proof (induction m)
  case 0
  then show ?case by simp
next
  case (Suc m)
  then obtain k where "n - m = Suc k" by (metis Suc_diff_Suc Suc_le_lessD)
  moreover from this have "n - Suc m = k" by simp
  ultimately show ?case using Suc
    by (simp add: list_update_append replicate_append_same)
qed

lemma used_slots_prefix:
  assumes "sa_bitmap sa = replicate m True @ replicate k False"
  shows "used_slots sa = {..<m}"
proof -
  have "x < m" if "x < m + k" "(replicate m True @ replicate k False) ! x" for x
  proof (rule ccontr)
    assume "\<not> x < m"
    with that(1) have "x - m < k" by simp
    with \<open>\<not> x < m\<close> that(2) show False by (simp add: nth_append)
  qed
  moreover have "(replicate m True @ replicate k False) ! x" if "x < m" for x
    using that by (simp add: nth_append)
  ultimately show ?thesis
    unfolding used_slots_def assms length_append length_replicate by (metis (no_types, lifting)
        Collect_cong lessThan_def trans_less_add1)
qed

lemma slab_inv_new:
  assumes "new_SlabAllocator b s n f = Inr sa" and "f < n" and "0 < s" and "b + n * s < kBad"
  shows "slab_inv sa" and "used_slots sa = {..<f}" and "sa_base sa = b" and "sa_slot_size sa = s"
    and "sa_num_slots sa = n" and "sa_first_free sa = f"
proof -
  have sa: "sa = \<lparr>sa_base = b, sa_slot_size = s, sa_num_slots = n,
      sa_bitmap = replicate f True @ replicate (n - f) False,
      sa_next_hint = f, sa_first_free = f, sa_used_count = f\<rparr>"
    using assms(1,2) by (simp add: new_SlabAllocator_def foldl_set_prefix)
  show u: "used_slots sa = {..<f}" by (rule used_slots_prefix [of sa f "n - f"]) (simp add: sa)
  show "sa_base sa = b" "sa_slot_size sa = s" "sa_num_slots sa = n" "sa_first_free sa = f"
    by (simp_all add: sa)
  show "slab_inv sa"
    unfolding slab_inv_def u using assms(2-4) by (simp add: sa)
qed

section \<open>Allocation\<close>

text \<open>
  The slots a run of the search looks at: the hint cycles through the window from
  \<open>sa_first_free\<close> to \<open>sa_num_slots\<close>.
\<close>

definition probe :: "SlabAllocator \<Rightarrow> nat \<Rightarrow> nat" where
  "probe sa k =
     sa_first_free sa +
     (sa_next_hint sa - sa_first_free sa + k) mod (sa_num_slots sa - sa_first_free sa)"

lemma next_slot_probe:
  assumes "sa_first_free sa \<le> sa_next_hint sa" and "sa_next_hint sa < sa_num_slots sa"
  shows "next_slot sa = probe sa 1"
proof (cases "sa_next_hint sa + 1 = sa_num_slots sa")
  case True
  then have "sa_next_hint sa - sa_first_free sa + 1 = sa_num_slots sa - sa_first_free sa"
    using assms by simp
  then have "probe sa 1 = sa_first_free sa" by (simp add: probe_def)
  with True show ?thesis by (simp add: next_slot_def Let_def)
next
  case False
  then have "sa_next_hint sa + 1 < sa_num_slots sa" using assms by simp
  then show ?thesis using assms by (simp add: next_slot_def Let_def probe_def)
qed

lemma probe_0:
  assumes "sa_first_free sa \<le> sa_next_hint sa" and "sa_next_hint sa < sa_num_slots sa"
  shows "probe sa 0 = sa_next_hint sa"
  using assms by (simp add: probe_def)

lemma probe_next:
  assumes "sa_first_free sa \<le> sa_next_hint sa" and "sa_next_hint sa < sa_num_slots sa"
  shows "probe (sa\<lparr>sa_next_hint := next_slot sa\<rparr>) k = probe sa (Suc k)"
  using next_slot_probe [OF assms]
  by (simp add: probe_def mod_add_left_eq)

lemma probe_range:
  assumes "sa_first_free sa < sa_num_slots sa"
  shows "sa_first_free sa \<le> probe sa k" and "probe sa k < sa_num_slots sa"
proof -
  have "x mod (sa_num_slots sa - sa_first_free sa) < sa_num_slots sa - sa_first_free sa" for x
    using assms by simp
  from this [of "sa_next_hint sa - sa_first_free sa + k"]
  show "sa_first_free sa \<le> probe sa k" and "probe sa k < sa_num_slots sa"
    by (simp_all add: probe_def)
qed

lemma probe_surj:
  assumes "sa_first_free sa \<le> sa_next_hint sa" and "sa_next_hint sa < sa_num_slots sa"
    and "sa_first_free sa \<le> i" and "i < sa_num_slots sa"
  shows "\<exists>k < sa_num_slots sa. probe sa k = i"
proof -
  let ?w = "sa_num_slots sa - sa_first_free sa"
  have "sa_next_hint sa - sa_first_free sa < ?w" "i - sa_first_free sa < ?w"
    using assms by simp_all
  from mod_rotate_surj [OF this] obtain k where
    "k < ?w" "(sa_next_hint sa - sa_first_free sa + k) mod ?w = i - sa_first_free sa" by blast
  then have "k < sa_num_slots sa" "probe sa k = i"
    using assms by (simp_all add: probe_def)
  then show ?thesis by blast
qed

text \<open>The two outcomes of the search over \<open>t\<close> probes.\<close>

definition slab_took :: "SlabAllocator \<Rightarrow> nat \<Rightarrow> SlabAllocator" where
  "slab_took sa k =
     sa\<lparr>sa_next_hint := probe sa (Suc k), sa_bitmap := (sa_bitmap sa)[probe sa k := True],
        sa_used_count := sa_used_count sa + 1\<rparr>"

lemma alloc_loop_cases:
  assumes "sa_first_free sa \<le> sa_next_hint sa" and "sa_next_hint sa < sa_num_slots sa"
    and "length (sa_bitmap sa) = sa_num_slots sa"
  shows "(\<forall>k < t. sa_bitmap sa ! probe sa k) \<and>
           alloc_loop t sa = Inr (kBad, sa\<lparr>sa_next_hint := probe sa t\<rparr>) \<or>
         (\<exists>k < t. \<not> sa_bitmap sa ! probe sa k \<and> (\<forall>j < k. sa_bitmap sa ! probe sa j) \<and>
           alloc_loop t sa = Inr (slot_addr sa (probe sa k), slab_took sa k))"
  using assms
proof (induction t arbitrary: sa)
  case 0
  then show ?case by (simp add: probe_0)
next
  case (Suc t)
  let ?s = "sa\<lparr>sa_next_hint := next_slot sa\<rparr>"
  note p0 = probe_0 [OF Suc.prems(1,2)] and pn = probe_next [OF Suc.prems(1,2)]
  have F: "sa_first_free sa < sa_num_slots sa" using Suc.prems by simp
  show ?case
  proof (cases "sa_bitmap sa ! sa_next_hint sa")
    case False
    then have "alloc_loop (Suc t) sa = Inr (slot_addr sa (probe sa 0), slab_took sa 0)"
      using Suc.prems
      by (simp add: p0 slab_took_def slot_addr_def Let_def next_slot_probe)
    with False p0 show ?thesis by (intro disjI2 exI [of _ 0]) simp
  next
    case True
    then have step: "alloc_loop (Suc t) sa = alloc_loop t ?s"
      using Suc.prems by (simp add: Let_def)
    have "sa_first_free ?s \<le> sa_next_hint ?s" "sa_next_hint ?s < sa_num_slots ?s"
      "length (sa_bitmap ?s) = sa_num_slots ?s"
      using Suc.prems probe_range [OF F, of 1] by (simp_all add: next_slot_probe)
    from Suc.IH [OF this] show ?thesis
    proof (elim disjE exE conjE)
      assume a: "\<forall>k<t. sa_bitmap ?s ! probe ?s k"
        and l: "alloc_loop t ?s = Inr (kBad, ?s\<lparr>sa_next_hint := probe ?s t\<rparr>)"
      have "\<forall>k < Suc t. sa_bitmap sa ! probe sa k"
        using a True p0 by (simp add: All_less_Suc2 pn)
      with l step show ?thesis by (intro disjI1) (simp del: alloc_loop.simps add: pn)
    next
      fix k
      assume k: "k < t" "\<not> sa_bitmap ?s ! probe ?s k" "\<forall>j<k. sa_bitmap ?s ! probe ?s j"
        and l: "alloc_loop t ?s = Inr (slot_addr ?s (probe ?s k), slab_took ?s k)"
      have "\<forall>j < Suc k. sa_bitmap sa ! probe sa j"
        using k(3) True p0 by (simp add: All_less_Suc2 pn)
      moreover have "alloc_loop (Suc t) sa = Inr (slot_addr sa (probe sa (Suc k)), slab_took sa (Suc k))"
        using l step by (simp del: alloc_loop.simps add: pn slab_took_def slot_addr_def)
      ultimately show ?thesis
        using k(1,2) by (intro disjI2 exI [of _ "Suc k"]) (simp del: alloc_loop.simps add: pn)
    qed
  qed
qed

text \<open>Fields that describe the pool and never change.\<close>

definition same_pool :: "SlabAllocator \<Rightarrow> SlabAllocator \<Rightarrow> bool" where
  "same_pool sa sa' \<longleftrightarrow>
     sa_base sa' = sa_base sa \<and> sa_slot_size sa' = sa_slot_size sa \<and>
     sa_num_slots sa' = sa_num_slots sa \<and> sa_first_free sa' = sa_first_free sa"

lemma slot_addr_less_kBad:
  assumes "slab_inv sa" and "i < sa_num_slots sa"
  shows "slot_addr sa i < kBad"
proof -
  have "i * sa_slot_size sa \<le> sa_num_slots sa * sa_slot_size sa"
    using assms(2) by (intro mult_le_mono1) simp
  moreover have "sa_base sa + sa_num_slots sa * sa_slot_size sa < kBad"
    using assms(1) by (simp add: slab_inv_def)
  ultimately show ?thesis unfolding slot_addr_def by linarith
qed

lemma slot_addr_inject:
  "slab_inv sa \<Longrightarrow> slot_addr sa i = slot_addr sa j \<longleftrightarrow> i = j"
  by (auto simp: slot_addr_def slab_inv_def)

lemma used_slots_take:
  assumes "length (sa_bitmap sa) = sa_num_slots sa" and "i < sa_num_slots sa"
    and "sa_bitmap sa' = (sa_bitmap sa)[i := True]"
  shows "used_slots sa' = insert i (used_slots sa)"
  using assms by (auto simp: used_slots_def nth_list_update split: if_splits)

lemma used_slots_release:
  assumes "sa_bitmap sa' = (sa_bitmap sa)[i := False]"
  shows "used_slots sa' = used_slots sa - {i}"
proof -
  have "(sa_bitmap sa)[i := False] ! x \<longleftrightarrow> x \<noteq> i \<and> sa_bitmap sa ! x"
    if "x < length (sa_bitmap sa)" for x
    using that by (cases "x = i") simp_all
  then show ?thesis unfolding used_slots_def assms by auto
qed

lemma slab_inv_hint:
  assumes "slab_inv sa"
  shows "slab_inv (sa\<lparr>sa_next_hint := probe sa k\<rparr>)"
  using assms probe_range [of sa k] by (auto simp: slab_inv_def used_slots_def)

lemma slab_took_inv:
  assumes inv: "slab_inv sa" and free: "\<not> sa_bitmap sa ! probe sa k"
  shows "slab_inv (slab_took sa k)"
    and "used_slots (slab_took sa k) = insert (probe sa k) (used_slots sa)"
proof -
  have F: "sa_first_free sa < sa_num_slots sa" using inv by (simp add: slab_inv_def)
  show u: "used_slots (slab_took sa k) = insert (probe sa k) (used_slots sa)"
    by (rule used_slots_take) (use inv probe_range [OF F, of k] in
        \<open>simp_all add: slab_inv_def slab_took_def\<close>)
  have "probe sa k \<notin> used_slots sa" using free by (simp add: used_slots_def)
  then have "card (used_slots (slab_took sa k)) = sa_used_count sa + 1"
    using inv u by (simp add: slab_inv_def)
  with u inv probe_range [OF F, of "Suc k"] show "slab_inv (slab_took sa k)"
    unfolding slab_inv_def by (simp add: slab_took_def subset_insertI2)
qed

lemma slab_alloc_cases:
  assumes inv: "slab_inv sa"
  obtains (full) "used_slots sa = {..<sa_num_slots sa}"
      and "slab_alloc sa = Inr (kBad, sa\<lparr>sa_next_hint := probe sa (sa_num_slots sa)\<rparr>)"
    | (took) k where "\<not> sa_bitmap sa ! probe sa k"
      and "slab_alloc sa = Inr (slot_addr sa (probe sa k), slab_took sa k)"
proof -
  have h: "sa_first_free sa \<le> sa_next_hint sa" "sa_next_hint sa < sa_num_slots sa"
    and l: "length (sa_bitmap sa) = sa_num_slots sa"
    using inv by (simp_all add: slab_inv_def)
  from alloc_loop_cases [OF h l, of "sa_num_slots sa"] show ?thesis
  proof (elim disjE exE conjE)
    assume all: "\<forall>k < sa_num_slots sa. sa_bitmap sa ! probe sa k"
      and r: "alloc_loop (sa_num_slots sa) sa = Inr (kBad, sa\<lparr>sa_next_hint := probe sa (sa_num_slots sa)\<rparr>)"
    have "i \<in> used_slots sa" if "i < sa_num_slots sa" for i
    proof (cases "i < sa_first_free sa")
      case True
      with inv show ?thesis by (auto simp: slab_inv_def)
    next
      case False
      with probe_surj [OF h _ that] obtain k where "k < sa_num_slots sa" "probe sa k = i"
        by (auto simp: not_less)
      with all l that show ?thesis by (auto simp: used_slots_def)
    qed
    then have "used_slots sa = {..<sa_num_slots sa}"
      using l by (auto simp: used_slots_def)
    then show ?thesis using full r by (simp add: slab_alloc_def)
  next
    fix k
    assume "\<not> sa_bitmap sa ! probe sa k"
      and "alloc_loop (sa_num_slots sa) sa = Inr (slot_addr sa (probe sa k), slab_took sa k)"
    then show ?thesis using took by (simp add: slab_alloc_def)
  qed
qed

text \<open>
  C11: on every well-formed pool \<open>alloc()\<close> returns. If every slot is used it returns \<open>kBad\<close> and
  takes nothing; otherwise it returns the offset of a slot that was free and is not reserved,
  marks exactly that slot used, and the pool stays well formed (the usage counter included).
\<close>

theorem slab_alloc_correct:
  assumes "slab_inv sa"
  shows "\<exists>off sa'. slab_alloc sa = Inr (off, sa') \<and> slab_inv sa' \<and> same_pool sa sa' \<and>
     (if used_slots sa = {..<sa_num_slots sa}
      then off = kBad \<and> used_slots sa' = used_slots sa
      else \<exists>i. sa_first_free sa \<le> i \<and> i < sa_num_slots sa \<and> i \<notin> used_slots sa \<and>
             off = slot_addr sa i \<and> off < kBad \<and> used_slots sa' = insert i (used_slots sa))"
  using assms
proof (cases rule: slab_alloc_cases)
  case full
  then show ?thesis
    using slab_inv_hint [OF assms] by (auto simp: same_pool_def used_slots_def)
next
  case (took k)
  have F: "sa_first_free sa < sa_num_slots sa" using assms by (simp add: slab_inv_def)
  have n: "probe sa k \<notin> used_slots sa" using took(1) by (simp add: used_slots_def)
  then have "used_slots sa \<noteq> {..<sa_num_slots sa}" using probe_range [OF F, of k] by auto
  moreover have "same_pool sa (slab_took sa k)" by (simp add: same_pool_def slab_took_def)
  ultimately show ?thesis
    using took(2) slab_took_inv [OF assms took(1)] n probe_range [OF F, of k]
      slot_addr_less_kBad [OF assms, of "probe sa k"]
    by auto
qed

lemma used_slots_code [code]:
  "used_slots sa = set (filter (\<lambda>i. sa_bitmap sa ! i) [0..<length (sa_bitmap sa)])"
  by (auto simp: used_slots_def)

definition example_slab :: SlabAllocator where
  "example_slab =
     \<lparr>sa_base = 65536, sa_slot_size = 64, sa_num_slots = 4,
      sa_bitmap = [True, True, False, False], sa_next_hint = 1, sa_first_free = 1,
      sa_used_count = 2\<rparr>"

lemma slab_inv_example: "slab_inv example_slab"
proof -
  have "used_slots example_slab = {0, 1}"
    by (simp add: used_slots_code example_slab_def upt_rec)
  then show ?thesis by (auto simp: slab_inv_def example_slab_def kBad_def)
qed

lemmas alloc_loop_numeral = alloc_loop.simps(2) [of "pred_numeral w" for w, folded numeral_eq_Suc]

theorem slab_alloc_correct_witness:
  "slab_inv example_slab \<and>
   (\<exists>sa'. slab_alloc example_slab = Inr (65536 + 2 * 64, sa') \<and> slab_inv sa')"
proof -
  have "map_sum id fst (slab_alloc example_slab) = Inr (65536 + 2 * 64)"
    by (simp add: slab_alloc_def example_slab_def alloc_loop_numeral next_slot_def)
  moreover obtain off sa' where "slab_alloc example_slab = Inr (off, sa')" "slab_inv sa'"
    using slab_alloc_correct [OF slab_inv_example] by blast
  ultimately show ?thesis using slab_inv_example by simp
qed

section \<open>Release\<close>

lemma slab_free_slot:
  assumes "slab_inv sa"
  shows "slab_free (slot_addr sa i) sa =
    (if i < sa_num_slots sa
     then if sa_first_free sa \<le> i
          then if sa_bitmap sa ! i
               then Inr (sa\<lparr>sa_bitmap := (sa_bitmap sa)[i := False],
                            sa_used_count := sa_used_count sa - 1\<rparr>)
               else Inl (AssertFail ''double free'')
          else Inl (AssertFail ''cannot free reserved slot'')
     else Inl (AssertFail ''idx < num_slots_''))"
  using assms by (simp add: slab_free_def slot_addr_def slab_inv_def Let_def)

lemma slab_free_not_slot:
  assumes "slab_inv sa" and "\<And>i. off \<noteq> slot_addr sa i"
  shows "\<exists>msg. slab_free off sa = Inl (AssertFail msg)"
proof (cases "sa_base sa \<le> off \<and> (off - sa_base sa) mod sa_slot_size sa = 0")
  case True
  then have "off = slot_addr sa ((off - sa_base sa) div sa_slot_size sa)"
    by (auto simp: slot_addr_def dest: mod_0_imp_dvd)
  with assms(2) show ?thesis by blast
next
  case False
  then show ?thesis
    by (cases "sa_base sa \<le> off") (simp_all add: slab_free_def Let_def)
qed

lemma slab_inv_release:
  assumes inv: "slab_inv sa" and i: "i \<in> used_slots sa" "sa_first_free sa \<le> i"
    and sa': "sa' = sa\<lparr>sa_bitmap := (sa_bitmap sa)[i := False],
                      sa_used_count := sa_used_count sa - 1\<rparr>"
  shows "slab_inv sa'" and "used_slots sa' = used_slots sa - {i}"
proof -
  show u: "used_slots sa' = used_slots sa - {i}"
    by (rule used_slots_release) (simp add: sa')
  have "{..<sa_first_free sa} \<subseteq> used_slots sa - {i}"
    using inv i(2) by (auto simp: slab_inv_def)
  moreover have "sa_used_count sa - 1 = card (used_slots sa - {i})"
    using inv i(1) by (simp add: slab_inv_def)
  ultimately show "slab_inv sa'"
    unfolding slab_inv_def u using inv by (simp add: slab_inv_def sa')
qed

text \<open>
  C12: \<open>free(offset)\<close> succeeds exactly on the offset of an unreserved slot that is in use. It then
  releases that slot alone and the pool stays well formed; on every other argument (a foreign or
  misaligned offset, a reserved slot, a double free) an assertion stops it.
\<close>

theorem slab_free_correct:
  assumes "slab_inv sa"
  shows "case slab_free off sa of
      Inr sa' \<Rightarrow> (\<exists>i. sa_first_free sa \<le> i \<and> i \<in> used_slots sa \<and> off = slot_addr sa i \<and>
                   used_slots sa' = used_slots sa - {i} \<and> slab_inv sa' \<and> same_pool sa sa')
    | Inl e \<Rightarrow> (\<exists>msg. e = AssertFail msg) \<and>
               \<not> (\<exists>i. sa_first_free sa \<le> i \<and> i \<in> used_slots sa \<and> off = slot_addr sa i)"
proof (cases "\<exists>i. off = slot_addr sa i")
  case True
  then obtain i where i: "off = slot_addr sa i" by blast
  note eq = slab_free_slot [OF assms, of i] and inj = slot_addr_inject [OF assms]
  have l: "length (sa_bitmap sa) = sa_num_slots sa" using assms by (simp add: slab_inv_def)
  show ?thesis
  proof (cases "i \<in> used_slots sa \<and> sa_first_free sa \<le> i")
    case True
    with eq l i have "slab_free off sa =
        Inr (sa\<lparr>sa_bitmap := (sa_bitmap sa)[i := False], sa_used_count := sa_used_count sa - 1\<rparr>)"
      by (simp add: used_slots_def)
    with True i slab_inv_release [OF assms _ _ refl, of i] show ?thesis
      by (auto simp: same_pool_def)
  next
    case False
    with eq l i inj show ?thesis by (auto simp: used_slots_def)
  qed
next
  case False
  with slab_free_not_slot [OF assms, of off] show ?thesis by auto
qed

theorem slab_free_correct_witness:
  "slab_inv example_slab \<and> (\<exists>sa'. slab_free (65536 + 64) example_slab = Inr sa' \<and> slab_inv sa')"
proof -
  have "\<not> isl (slab_free (65536 + 64) example_slab)"
    by (simp add: slab_free_def example_slab_def)
  then obtain sa' where "slab_free (65536 + 64) example_slab = Inr sa'"
    by (cases "slab_free (65536 + 64) example_slab") simp_all
  moreover from this have "slab_inv sa'"
    using slab_free_correct [OF slab_inv_example, of "65536 + 64"] by auto
  ultimately show ?thesis using slab_inv_example by blast
qed

section \<open>Slots and offsets\<close>

lemma slot_of_slot_addr:
  assumes "slab_inv sa" and "i < sa_num_slots sa"
  shows "slot_of sa (slot_addr sa i) = Inr i" and "offset_of sa i = Inr (slot_addr sa i)"
proof -
  have "i * sa_slot_size sa < sa_num_slots sa * sa_slot_size sa"
    using assms by (simp add: slab_inv_def)
  then show "slot_of sa (slot_addr sa i) = Inr i"
    using assms(1) by (simp add: slot_of_def slab_owns_def slot_addr_def slab_inv_def)
  show "offset_of sa i = Inr (slot_addr sa i)"
    using assms(2) by (simp add: offset_of_def slot_addr_def)
qed

section \<open>Runs of allocations\<close>

text \<open>The allocator as its clients see it: \<open>kBad\<close> is no slot.\<close>

definition slab_alloc_opt :: "SlabAllocator \<Rightarrow> (nat \<times> SlabAllocator) option" where
  "slab_alloc_opt sa =
     (case slab_alloc sa of
        Inl _ \<Rightarrow> None
      | Inr (off, sa') \<Rightarrow> if off = kBad then None else Some (off, sa'))"

lemma slab_alloc_opt_Some:
  assumes inv: "slab_inv sa" and eq: "slab_alloc_opt sa = Some (off, sa')"
  obtains i where "sa_first_free sa \<le> i" and "i < sa_num_slots sa" and "i \<notin> used_slots sa"
    and "off = slot_addr sa i" and "used_slots sa' = insert i (used_slots sa)"
    and "slab_inv sa'" and "same_pool sa sa'"
  using inv
proof (cases rule: slab_alloc_cases)
  case full
  with eq show ?thesis by (simp add: slab_alloc_opt_def)
next
  case (took k)
  have F: "sa_first_free sa < sa_num_slots sa" using inv by (simp add: slab_inv_def)
  have "sa' = slab_took sa k" "off = slot_addr sa (probe sa k)"
    using eq took(2) by (auto simp: slab_alloc_opt_def split: if_splits)
  with that [of "probe sa k"] slab_took_inv [OF inv took(1)] took(1) probe_range [OF F, of k]
  show ?thesis by (simp add: used_slots_def same_pool_def slab_took_def)
qed

lemma slot_addr_same_pool: "same_pool sa sa' \<Longrightarrow> slot_addr sa' = slot_addr sa"
  by (rule ext) (simp add: slot_addr_def same_pool_def)

interpretation slab: fresh_allocator slab_alloc_opt "\<lambda>sa. slot_addr sa ` used_slots sa" slab_inv
proof
  fix sa off sa'
  assume inv: "slab_inv sa" and eq: "slab_alloc_opt sa = Some (off, sa')"
  from inv eq obtain i where i: "i \<notin> used_slots sa" "off = slot_addr sa i"
    "used_slots sa' = insert i (used_slots sa)" "slab_inv sa'" "same_pool sa sa'"
    by (rule slab_alloc_opt_Some)
  show "off \<notin> slot_addr sa ` used_slots sa"
    using i slot_addr_inject [OF inv] by auto
  show "slot_addr sa' ` used_slots sa' = insert off (slot_addr sa ` used_slots sa)"
    using i by (simp add: slot_addr_same_pool)
  show "slab_inv sa'" using i by simp
qed

lemma slab_alloc_opt_None:
  assumes inv: "slab_inv sa" and eq: "slab_alloc_opt sa = None"
  shows "used_slots sa = {..<sa_num_slots sa}"
  using inv
proof (cases rule: slab_alloc_cases)
  case (took k)
  have F: "sa_first_free sa < sa_num_slots sa" using inv by (simp add: slab_inv_def)
  have "slot_addr sa (probe sa k) < kBad"
    using slot_addr_less_kBad [OF inv] probe_range [OF F] by blast
  with eq took(2) show ?thesis by (simp add: slab_alloc_opt_def)
qed

lemma used_slots_bound: "slab_inv sa \<Longrightarrow> used_slots sa \<subseteq> {..<sa_num_slots sa}"
  by (auto simp: slab_inv_def used_slots_def)

lemma slab_run_enough:
  "slab_inv sa \<Longrightarrow> n + card (used_slots sa) \<le> sa_num_slots sa \<Longrightarrow>
     \<exists>offs sa'. alloc_many slab_alloc_opt n sa = Some (offs, sa')"
proof (induction n arbitrary: sa)
  case 0
  then show ?case by simp
next
  case (Suc n)
  have "card (used_slots sa) \<noteq> card {..<sa_num_slots sa}" using Suc.prems(2) by simp
  then have "used_slots sa \<noteq> {..<sa_num_slots sa}" by metis
  then obtain off sa1 where eq: "slab_alloc_opt sa = Some (off, sa1)"
    using slab_alloc_opt_None [OF Suc.prems(1)] by (cases "slab_alloc_opt sa") auto
  from Suc.prems(1) eq obtain i where i: "i \<notin> used_slots sa"
    "used_slots sa1 = insert i (used_slots sa)" "slab_inv sa1" "same_pool sa sa1"
    by (rule slab_alloc_opt_Some)
  then have "n + card (used_slots sa1) \<le> sa_num_slots sa1"
    using Suc.prems(2) by (simp add: same_pool_def)
  from Suc.IH [OF i(3) this] obtain offs sa' where
    "alloc_many slab_alloc_opt n sa1 = Some (offs, sa')" by blast
  with eq show ?case by simp
qed

lemma slab_run_geometry:
  "slab_inv sa \<Longrightarrow> alloc_many slab_alloc_opt n sa = Some (offs, sa') \<Longrightarrow>
     same_pool sa sa' \<and> set offs \<subseteq> slot_addr sa ` {sa_first_free sa..<sa_num_slots sa}"
proof (induction n arbitrary: sa offs)
  case 0
  then show ?case by (simp add: same_pool_def)
next
  case (Suc n)
  from Suc.prems(2) obtain off sa1 offs1 where eq: "slab_alloc_opt sa = Some (off, sa1)"
    and rest: "alloc_many slab_alloc_opt n sa1 = Some (offs1, sa')" and offs: "offs = off # offs1"
    by (auto split: option.splits)
  from Suc.prems(1) eq obtain i where i: "sa_first_free sa \<le> i" "i < sa_num_slots sa"
    "off = slot_addr sa i" "slab_inv sa1" "same_pool sa sa1"
    by (rule slab_alloc_opt_Some)
  have win: "sa_first_free sa1 = sa_first_free sa" "sa_num_slots sa1 = sa_num_slots sa"
    using i(5) by (simp_all add: same_pool_def)
  from Suc.IH [OF i(4) rest] have IH: "same_pool sa1 sa'"
    "set offs1 \<subseteq> slot_addr sa ` {sa_first_free sa..<sa_num_slots sa}"
    unfolding slot_addr_same_pool [OF i(5)] win by blast+
  have "same_pool sa sa'" using i(5) IH(1) by (simp add: same_pool_def)
  moreover have "off \<in> slot_addr sa ` {sa_first_free sa..<sa_num_slots sa}" using i(1-3) by auto
  ultimately show ?case using IH(2) offs by simp
qed

lemma slot_addr_apart:
  assumes "i \<noteq> j"
  shows "slot_addr sa i + sa_slot_size sa \<le> slot_addr sa j \<or>
         slot_addr sa j + sa_slot_size sa \<le> slot_addr sa i"
proof -
  have "slot_addr sa k + sa_slot_size sa \<le> slot_addr sa l" if "k < l" for k l
  proof -
    have "Suc k * sa_slot_size sa \<le> l * sa_slot_size sa"
      using that by (intro mult_le_mono1) simp
    then show ?thesis by (simp add: slot_addr_def)
  qed
  with assms show ?thesis by (metis nat_neq_iff)
qed

text \<open>
  C13: a run of \<open>n\<close> allocations without a release succeeds exactly when \<open>n\<close> slots are free, and
  the slots it hands out are unreserved, in the pool, not in use before, and occupy pairwise
  disjoint byte ranges.
\<close>

theorem slab_run_correct:
  assumes "slab_inv sa"
  shows "(alloc_many slab_alloc_opt n sa \<noteq> None \<longleftrightarrow>
            n + card (used_slots sa) \<le> sa_num_slots sa) \<and>
         (\<forall>offs sa'. alloc_many slab_alloc_opt n sa = Some (offs, sa') \<longrightarrow>
            length offs = n \<and>
            set offs \<subseteq> slot_addr sa ` ({sa_first_free sa..<sa_num_slots sa} - used_slots sa) \<and>
            sorted_wrt (\<lambda>a b. a + sa_slot_size sa \<le> b \<or> b + sa_slot_size sa \<le> a) offs)"
proof (intro conjI allI impI)
  fix offs sa'
  assume run: "alloc_many slab_alloc_opt n sa = Some (offs, sa')"
  note fresh = slab.alloc_many_fresh [OF assms run] and geo = slab_run_geometry [OF assms run]
  show "length offs = n" using fresh by simp
  show "set offs \<subseteq> slot_addr sa ` ({sa_first_free sa..<sa_num_slots sa} - used_slots sa)"
  proof
    fix a assume a: "a \<in> set offs"
    then obtain i where "i \<in> {sa_first_free sa..<sa_num_slots sa}" "a = slot_addr sa i"
      using geo by blast
    with a fresh show "a \<in> slot_addr sa ` ({sa_first_free sa..<sa_num_slots sa} - used_slots sa)"
      by blast
  qed
  have "a + sa_slot_size sa \<le> b \<or> b + sa_slot_size sa \<le> a"
    if a: "a \<in> set offs" and b: "b \<in> set offs" and ne: "a \<noteq> b" for a b
  proof -
    obtain i j where ij: "a = slot_addr sa i" "b = slot_addr sa j" using a b geo by blast
    with ne have "i \<noteq> j" by auto
    from slot_addr_apart [OF this, of sa] show ?thesis unfolding ij .
  qed
  then show "sorted_wrt (\<lambda>a b. a + sa_slot_size sa \<le> b \<or> b + sa_slot_size sa \<le> a) offs"
    using fresh by (auto simp: sorted_wrt_iff_nth_less distinct_conv_nth)
next
  show "alloc_many slab_alloc_opt n sa \<noteq> None \<longleftrightarrow> n + card (used_slots sa) \<le> sa_num_slots sa"
  proof
    assume "alloc_many slab_alloc_opt n sa \<noteq> None"
    then obtain offs sa' where run: "alloc_many slab_alloc_opt n sa = Some (offs, sa')" by auto
    note fresh = slab.alloc_many_fresh [OF assms run] and geo = slab_run_geometry [OF assms run]
    have "inj (slot_addr sa)" using slot_addr_inject [OF assms] by (simp add: inj_def)
    then have "card (slot_addr sa ` used_slots sa') = card (used_slots sa')"
      and c: "card (slot_addr sa ` used_slots sa) = card (used_slots sa)"
      by (simp_all add: card_image inj_on_subset)
    moreover have "card (slot_addr sa ` used_slots sa') = n + card (used_slots sa)"
      using fresh c unfolding slot_addr_same_pool [OF conjunct1 [OF geo]]
      by (simp add: card_Un_disjoint Int_commute distinct_card)
    moreover have "card (used_slots sa') \<le> sa_num_slots sa"
      using used_slots_bound [of sa'] fresh geo
      by (metis card_lessThan card_mono finite_lessThan same_pool_def)
    ultimately show "n + card (used_slots sa) \<le> sa_num_slots sa" by simp
  next
    assume "n + card (used_slots sa) \<le> sa_num_slots sa"
    with slab_run_enough [OF assms] show "alloc_many slab_alloc_opt n sa \<noteq> None" by fastforce
  qed
qed

theorem slab_run_correct_witness:
  "slab_inv example_slab \<and>
   (\<exists>offs sa'. alloc_many slab_alloc_opt 2 example_slab = Some (offs, sa') \<and> length offs = 2)"
proof -
  have "used_slots example_slab = {0, 1}"
    by (simp add: used_slots_code example_slab_def upt_rec)
  then have "2 + card (used_slots example_slab) \<le> sa_num_slots example_slab"
    by (simp add: example_slab_def)
  then show ?thesis
    using slab_inv_example slab_run_correct [OF slab_inv_example, of 2] by auto
qed

section \<open>The three pools\<close>

definition pool_bytes :: "SlabAllocator \<Rightarrow> nat set" where
  "pool_bytes sa = (\<Union>i < sa_num_slots sa. {slot_addr sa i..<slot_addr sa i + sa_slot_size sa})"

lemma pool_bytes_subset:
  "pool_bytes sa \<subseteq> {sa_base sa..<sa_base sa + sa_num_slots sa * sa_slot_size sa}"
proof -
  have "slot_addr sa i + sa_slot_size sa \<le> sa_base sa + sa_num_slots sa * sa_slot_size sa"
    if "i < sa_num_slots sa" for i
  proof -
    have "Suc i * sa_slot_size sa \<le> sa_num_slots sa * sa_slot_size sa"
      using that by (intro mult_le_mono1) simp
    then show ?thesis by (simp add: slot_addr_def)
  qed
  then show ?thesis by (force simp: pool_bytes_def slot_addr_def)
qed

text \<open>
  The pools of a compute server are created without error and well formed; the head leaf's
  handle slot is the only slot in use; the three pools occupy disjoint byte ranges inside the
  reserved region at the start of the memory server.
\<close>

lemma new_SlabPools_correct:
  "\<exists>p. new_SlabPools = Inr p \<and>
     slab_inv (sp_handles p) \<and> slab_inv (sp_leaves p) \<and> slab_inv (sp_indices p) \<and>
     used_slots (sp_handles p) = {0} \<and> used_slots (sp_leaves p) = {} \<and>
     used_slots (sp_indices p) = {} \<and> slot_addr (sp_handles p) 0 = kHeadLeafHandleOffset \<and>
     pool_bytes (sp_handles p) \<inter> pool_bytes (sp_leaves p) = {} \<and>
     pool_bytes (sp_handles p) \<inter> pool_bytes (sp_indices p) = {} \<and>
     pool_bytes (sp_leaves p) \<inter> pool_bytes (sp_indices p) = {} \<and>
     pool_bytes (sp_handles p) \<union> pool_bytes (sp_leaves p) \<union> pool_bytes (sp_indices p)
       \<subseteq> {kSkipVectorRegionBase..<kSkipVectorRegionBase + kSkipVectorRegionBytes}"
proof -
  obtain h where h: "new_SlabAllocator 0 8 33554432 1 = Inr h"
    by (simp add: new_SlabAllocator_def)
  obtain l where l: "new_SlabAllocator 268435456 1152 466033 0 = Inr l"
    by (simp add: new_SlabAllocator_def)
  obtain i where i: "new_SlabAllocator 805306368 1152 466033 0 = Inr i"
    by (simp add: new_SlabAllocator_def)
  have p: "new_SlabPools = Inr \<lparr>sp_handles = h, sp_leaves = l, sp_indices = i\<rparr>"
    using h l i by (simp add: new_SlabPools_def dm_sizes)
  have B: "(805306368::nat) + 466033 * 1152 < kBad" "(0::nat) + 33554432 * 8 < kBad"
    "(268435456::nat) + 466033 * 1152 < kBad" by (simp_all add: kBad_def)
  note hs = slab_inv_new [OF h _ _ B(2), simplified]
    and ls = slab_inv_new [OF l _ _ B(3), simplified]
    and ixs = slab_inv_new [OF i _ _ B(1), simplified]
  have H: "pool_bytes h \<subseteq> {0..<268435456}"
    using pool_bytes_subset [of h] hs by simp
  have L: "pool_bytes l \<subseteq> {268435456..<805306368}"
    by (rule order_trans [OF pool_bytes_subset]) (simp add: ls)
  have I: "pool_bytes i \<subseteq> {805306368..<1342177280}"
    by (rule order_trans [OF pool_bytes_subset]) (simp add: ixs)
  have region: "{kSkipVectorRegionBase..<kSkipVectorRegionBase + kSkipVectorRegionBytes} =
      {0..<1342177280}" by (simp add: dm_sizes)
  have "pool_bytes h \<inter> pool_bytes l = {}" "pool_bytes h \<inter> pool_bytes i = {}"
    "pool_bytes l \<inter> pool_bytes i = {}"
    using H L I by fastforce+
  moreover have "pool_bytes h \<union> pool_bytes l \<union> pool_bytes i \<subseteq> {0..<1342177280}"
    using H L I by fastforce
  moreover have "slot_addr h 0 = kHeadLeafHandleOffset" "used_slots h = {0}"
    using hs by (auto simp: slot_addr_def dm_sizes)
  ultimately show ?thesis unfolding region using p hs(1) ls(1,2) ixs(1,2)
    by (intro exI [of _ "\<lparr>sp_handles = h, sp_leaves = l, sp_indices = i\<rparr>"]) simp
qed

section \<open>A pool without unreserved slots\<close>

text \<open>
  C31: when every slot is reserved the constructor accepts the pool but \<open>alloc()\<close> does not report
  exhaustion: its first probe reads the bitmap one past its end.
\<close>

theorem slab_alloc_all_reserved:
  assumes "0 < n"
  shows "\<exists>sa. new_SlabAllocator b s n n = Inr sa \<and> slab_alloc sa = Inl OutOfBounds"
proof -
  obtain m where m: "n = Suc m" using assms by (cases n) auto
  have "alloc_loop n sa = Inl OutOfBounds" if "sa_next_hint sa = n" "length (sa_bitmap sa) = n" for sa
    using that by (simp add: m Let_def)
  then show ?thesis
    by (simp add: new_SlabAllocator_def slab_alloc_def foldl_set_prefix)
qed

theorem slab_alloc_all_reserved_witness:
  "\<exists>sa. new_SlabAllocator 4096 8 1 1 = Inr sa \<and> slab_alloc sa = Inl OutOfBounds"
  using slab_alloc_all_reserved [of 1 4096 8] by simp

end
