(* ===== verification/LeafContents.thy ===== *)
theory LeafContents
  imports SlabAllocator
begin

text \<open>
  Model of \<open>SkipVectorDM/include/skipvector/LeafContents.h\<close>: the body of a skip-vector leaf, the
  packed image its checksum covers, and the two searches. The checksum itself is Boost's
  \<open>crc_32_type\<close>, a parameter \<open>crc32\<close> from bytes to a 32-bit word.
\<close>

record LeafContents =
  lc_kmin :: KeyType
  lc_kmax :: KeyType
  next_handle_offset :: u64
  is_orphan :: u32
  entry_count :: u32
  lc_keys :: "KeyType list"
  lc_vals :: "ValueType list"
  lc_crc :: u32
  lc_pad0 :: u32

text \<open>The two C arrays have \<open>kFanoutData\<close> elements.\<close>

definition lc_wf :: "LeafContents \<Rightarrow> bool" where
  "lc_wf c \<longleftrightarrow> length (lc_keys c) = kFanoutData \<and> length (lc_vals c) = kFanoutData"

text \<open>The packed bytes in front of the \<open>crc\<close> member, in declaration order.\<close>

definition crc_span :: "LeafContents \<Rightarrow> u8 list" where
  "crc_span c =
     key_bytes (lc_kmin c) @ key_bytes (lc_kmax c) @ le_bytes 8 (next_handle_offset c) @
     le_bytes 4 (is_orphan c) @ le_bytes 4 (entry_count c) @
     concat (map key_bytes (lc_keys c)) @ concat (map (le_bytes VALUE_SIZE) (lc_vals c))"

definition crc_span_bytes :: nat where
  [dm_sizes]: "crc_span_bytes =
     KEY_SIZE + KEY_SIZE + 8 + 4 + 4 + kFanoutData * KEY_SIZE + kFanoutData * VALUE_SIZE"

definition sizeof_LeafContents :: nat where
  [dm_sizes]: "sizeof_LeafContents = crc_span_bytes + 4 + 4"

definition compute_and_set_crc :: "(u8 list \<Rightarrow> u32) \<Rightarrow> LeafContents \<Rightarrow> LeafContents" where
  "compute_and_set_crc crc32 c = c\<lparr>lc_crc := crc32 (crc_span c)\<rparr>"

definition verify_crc :: "(u8 list \<Rightarrow> u32) \<Rightarrow> LeafContents \<Rightarrow> bool" where
  "verify_crc crc32 c \<longleftrightarrow> lc_crc c = crc32 (crc_span c)"

definition init_empty :: LeafContents where
  "init_empty =
     \<lparr>lc_kmin = mk_key [], lc_kmax = mk_key [], next_handle_offset = 0, is_orphan = 0,
      entry_count = 0, lc_keys = replicate kFanoutData (mk_key []),
      lc_vals = replicate kFanoutData 0, lc_crc = 0, lc_pad0 = 0\<rparr>"

definition covers :: "LeafContents \<Rightarrow> KeyType \<Rightarrow> bool" where
  "covers c k \<longleftrightarrow> \<not> k < lc_kmin c \<and> \<not> lc_kmax c < k"

text \<open>
  \<open>find_index\<close> trusts \<open>entry_count\<close>, a word read from remote memory: past the end of \<open>keys\<close> the
  access is out of bounds.
\<close>

fun find_index_from :: "nat \<Rightarrow> nat \<Rightarrow> KeyType list \<Rightarrow> KeyType \<Rightarrow> int result" where
  "find_index_from 0 i ks k = Inr (-1)"
| "find_index_from (Suc left) i ks k =
     (if length ks \<le> i then Inl OutOfBounds
      else if ks ! i = k then Inr (int i)
      else find_index_from left (Suc i) ks k)"

definition find_index :: "LeafContents \<Rightarrow> KeyType \<Rightarrow> int result" where
  "find_index c k = find_index_from (unat (entry_count c)) 0 (lc_keys c) k"

section \<open>The image\<close>

lemma length_concat_const:
  "\<forall>x \<in> set xs. length (f x) = n \<Longrightarrow> length (concat (map f xs)) = length xs * n"
  by (induction xs) auto

lemma length_crc_span: "lc_wf c \<Longrightarrow> length (crc_span c) = crc_span_bytes"
  by (simp add: crc_span_def lc_wf_def length_concat_const [where n = 24]
      length_concat_const [where n = 8] dm_sizes)

lemma concat_map_inject:
  assumes "\<And>x. length (f x) = n" and "\<And>x y. f x = f y \<Longrightarrow> x = y"
  shows "length xs = length ys \<Longrightarrow> concat (map f xs) = concat (map f ys) \<Longrightarrow> xs = ys"
  by (induction xs ys rule: list_induct2) (use assms in auto)

lemma concat_key_bytes_inject:
  "length xs = length ys \<Longrightarrow> concat (map key_bytes xs) = concat (map key_bytes ys) \<Longrightarrow> xs = ys"
  by (rule concat_map_inject [where n = 24]) (auto simp: key_bytes_inject)

lemma concat_val_bytes_inject:
  fixes xs ys :: "u64 list"
  assumes "length xs = length ys"
    and "concat (map (le_bytes VALUE_SIZE) xs) = concat (map (le_bytes VALUE_SIZE) ys)"
  shows "xs = ys"
  by (rule concat_map_inject [OF _ _ assms]) (auto simp: VALUE_SIZE_def intro: le_bytes_inject)

lemma crc_span_inject:
  assumes "lc_wf c" and "lc_wf d" and "crc_span c = crc_span d"
  shows "c\<lparr>lc_crc := x, lc_pad0 := y\<rparr> = d\<lparr>lc_crc := x, lc_pad0 := y\<rparr>"
proof -
  have len: "length (concat (map key_bytes (lc_keys c))) = length (concat (map key_bytes (lc_keys d)))"
    using assms(1,2) by (simp add: lc_wf_def length_concat_const [where n = 24])
  have "lc_kmin c = lc_kmin d" "lc_kmax c = lc_kmax d"
    "next_handle_offset c = next_handle_offset d" "is_orphan c = is_orphan d"
    "entry_count c = entry_count d"
    using assms(3) len
    by (auto simp: crc_span_def key_bytes_inject intro: le_bytes_inject)
  moreover have "lc_keys c = lc_keys d" "lc_vals c = lc_vals d"
    using assms len
    by (auto simp: crc_span_def lc_wf_def intro: concat_key_bytes_inject concat_val_bytes_inject)
  ultimately show ?thesis by (cases c; cases d) simp
qed

text \<open>
  C29: after \<open>compute_and_set_crc\<close> the leaf verifies. A well-formed image that verifies and carries
  the checksum of another sealed leaf either is that leaf (in every field but the padding word
  behind the checksum, which is not covered) or is a collision of the checksum function on two
  different byte strings of the covered span; and the structure fits its slab slot.
\<close>

theorem leaf_crc_detects:
  assumes "lc_wf c" and "lc_wf d" and "verify_crc crc32 d"
    and "lc_crc d = lc_crc (compute_and_set_crc crc32 c)"
  shows "verify_crc crc32 (compute_and_set_crc crc32 c) \<and>
         (d\<lparr>lc_pad0 := lc_pad0 c\<rparr> = compute_and_set_crc crc32 c \<or>
          crc_span c \<noteq> crc_span d \<and> crc32 (crc_span c) = crc32 (crc_span d)) \<and>
         length (crc_span d) + 8 = sizeof_LeafContents \<and> sizeof_LeafContents \<le> kLeafContentSize"
proof (intro conjI)
  show "verify_crc crc32 (compute_and_set_crc crc32 c)"
    by (simp add: verify_crc_def compute_and_set_crc_def crc_span_def)
  have "d\<lparr>lc_pad0 := lc_pad0 c\<rparr> = compute_and_set_crc crc32 c" if "crc_span c = crc_span d"
    using crc_span_inject [OF assms(1,2) that, where x = "lc_crc d" and y = "lc_pad0 c"] assms(4)
    by (simp add: compute_and_set_crc_def)
  moreover have "crc32 (crc_span c) = crc32 (crc_span d)"
    using assms(3,4) by (simp add: verify_crc_def compute_and_set_crc_def)
  ultimately show "d\<lparr>lc_pad0 := lc_pad0 c\<rparr> = compute_and_set_crc crc32 c \<or>
      crc_span c \<noteq> crc_span d \<and> crc32 (crc_span c) = crc32 (crc_span d)" by blast
  show "length (crc_span d) + 8 = sizeof_LeafContents"
    using assms(2) by (simp add: length_crc_span sizeof_LeafContents_def)
  show "sizeof_LeafContents \<le> kLeafContentSize" by (simp add: dm_sizes)
qed

theorem leaf_crc_detects_witness:
  "lc_wf init_empty \<and> verify_crc (\<lambda>bs. of_nat (length bs)) (compute_and_set_crc (\<lambda>bs. of_nat (length bs)) init_empty)"
proof -
  have wf: "lc_wf init_empty" "lc_wf (compute_and_set_crc f init_empty)" for f
    by (simp_all add: lc_wf_def init_empty_def compute_and_set_crc_def)
  have "verify_crc f (compute_and_set_crc f init_empty)" for f
    by (simp add: verify_crc_def compute_and_set_crc_def crc_span_def)
  from leaf_crc_detects [OF wf(1) wf(2) this refl] wf(1) show ?thesis by blast
qed

section \<open>Searching\<close>

lemma find_index_from_eq:
  "i + left \<le> length ks \<Longrightarrow>
     find_index_from left i ks k =
       Inr (case scan_from (\<lambda>x. x = k) (take left (drop i ks)) i of None \<Rightarrow> -1 | Some j \<Rightarrow> int j)"
proof (induction left arbitrary: i)
  case 0
  then show ?case by simp
next
  case (Suc left)
  then have "drop i ks = ks ! i # drop (Suc i) ks" by (simp add: Cons_nth_drop_Suc)
  with Suc show ?case by simp
qed

text \<open>
  While \<open>entry_count\<close> is at most the fan-out, \<open>find_index\<close> returns the least index below
  \<open>entry_count\<close> that holds the key, and -1 exactly when no live entry holds it.
\<close>

lemma find_index_correct:
  assumes "lc_wf c" and "unat (entry_count c) \<le> kFanoutData"
  shows "\<exists>r. find_index c k = Inr r \<and>
     (if k \<in> set (take (unat (entry_count c)) (lc_keys c))
      then \<exists>i. r = int i \<and> i < unat (entry_count c) \<and> lc_keys c ! i = k \<and>
             (\<forall>j < i. lc_keys c ! j \<noteq> k)
      else r = -1)"
proof -
  let ?n = "unat (entry_count c)" and ?P = "\<lambda>x. x = k"
  have n: "?n \<le> length (lc_keys c)" using assms by (simp add: lc_wf_def)
  have eq: "find_index c k =
      Inr (case scan_from ?P (take ?n (lc_keys c)) 0 of None \<Rightarrow> -1 | Some j \<Rightarrow> int j)"
    using n by (simp add: find_index_def find_index_from_eq)
  show ?thesis
  proof (cases "scan_from ?P (take ?n (lc_keys c)) 0")
    case None
    then have "k \<notin> set (take ?n (lc_keys c))" by (auto simp: scan_from_None_iff)
    with eq None show ?thesis by simp
  next
    case (Some i)
    note s = scan_from_0_SomeD [OF Some]
    have "i < ?n" using s(1) by simp
    with s n have "lc_keys c ! i = k" "\<forall>j < i. lc_keys c ! j \<noteq> k" by auto
    moreover have "k \<in> set (take ?n (lc_keys c))"
      using s(1,2) nth_mem [of i "take ?n (lc_keys c)"] by simp
    ultimately show ?thesis using eq Some \<open>i < ?n\<close> by simp
  qed
qed

lemma find_index_correct_witness:
  "lc_wf (init_empty\<lparr>entry_count := 2\<rparr>) \<and> find_index (init_empty\<lparr>entry_count := 2\<rparr>) KeyNull = Inr 0"
proof -
  let ?c = "init_empty\<lparr>entry_count := 2\<rparr>"
  have wf: "lc_wf ?c" by (simp add: lc_wf_def init_empty_def)
  have n: "unat (entry_count ?c) \<le> kFanoutData" by (simp add: dm_sizes)
  have z: "lc_keys ?c ! 0 = KeyNull" "KeyNull \<in> set (take (unat (entry_count ?c)) (lc_keys ?c))"
    by (simp_all add: init_empty_def KeyNull_def dm_sizes)
  from find_index_correct [OF wf n, of KeyNull] z(2) obtain i where
    "find_index ?c KeyNull = Inr (int i)" "\<forall>j < i. lc_keys ?c ! j \<noteq> KeyNull" by auto
  with z(1) have "i = 0" by auto
  with \<open>find_index ?c KeyNull = Inr (int i)\<close> wf show ?thesis by simp
qed

end
