(* ===== verification/ReplicaGroup.thy ===== *)
theory ReplicaGroup
  imports SlabAllocator
begin

unbundle bit_operations_syntax

text \<open>
  Model of \<open>SkipVectorDM/src/skipvector/ReplicaGroup.cc\<close>: one logical operation fanned out to all
  replicas, and the wait for its completions. The RDMA fabric is outside the sources. It appears
  as two arguments: the list of results of successive polls of the completion queue, and the
  order in which the posted verbs reach the memory servers. A verb posted by an operation carries
  the replica index as its work-request id.
\<close>

section \<open>Memory servers and verbs\<close>

type_synonym mem = "nat \<Rightarrow> u8"

datatype verb = VRead nat nat | VWrite nat "u8 list" | VCas nat u64 u64

definition mem_read :: "mem \<Rightarrow> nat \<Rightarrow> nat \<Rightarrow> u8 list" where
  "mem_read m off size' = map m [off..<off + size']"

definition mem_write :: "mem \<Rightarrow> nat \<Rightarrow> u8 list \<Rightarrow> mem" where
  "mem_write m off bs = (\<lambda>a. if off \<le> a \<and> a < off + length bs then bs ! (a - off) else m a)"

text \<open>The one-sided verbs: each is atomic at the memory server and answers with the bytes it read.\<close>

fun exec_verb :: "verb \<Rightarrow> mem \<Rightarrow> u8 list \<times> mem" where
  "exec_verb (VRead off n) m = (mem_read m off n, m)"
| "exec_verb (VWrite off bs) m = ([], mem_write m off bs)"
| "exec_verb (VCas off e d) m =
     (let old = mem_read m off 8
      in (old, if le_word old = e then mem_write m off (le_bytes 8 d) else m))"

section \<open>Polling\<close>

text \<open>\<open>1u << i\<close>.\<close>

definition one_bit :: "nat \<Rightarrow> u32" where "one_bit i = push_bit i 1"

text \<open>What \<open>poll_rdma_cq_once\<close> finds: nothing, a failed work request, or a successful one.\<close>

datatype poll = PollEmpty | PollErr u64 | PollOk u64

definition poll_rdma_cq_once :: "poll \<Rightarrow> u64 option" where
  "poll_rdma_cq_once p = (case p of PollEmpty \<Rightarrow> None | PollErr _ \<Rightarrow> None | PollOk wr_id \<Rightarrow> Some wr_id)"

text \<open>
  \<open>wait_quorum_\<close>. The loop polls until as many successes as posted verbs have arrived; if the
  list of polls ends first it is still polling, which is the value \<open>Inl OutOfFuel\<close>.
\<close>

fun wait_loop :: "nat \<Rightarrow> nat \<Rightarrow> nat \<Rightarrow> u32 \<Rightarrow> poll list \<Rightarrow> (u32 \<times> poll list) result" where
  "wait_loop posted successes completions success_mask ps =
     (if completions < posted
      then (case ps of
              [] \<Rightarrow> Inl OutOfFuel
            | p # ps' \<Rightarrow>
                (case poll_rdma_cq_once p of
                   Some wr_id \<Rightarrow>
                     res_bind (res_assert ''wr_id must be a valid replica index'' (wr_id < 32)) (\<lambda>_.
                     wait_loop posted (Suc successes) (Suc completions)
                       (success_mask OR one_bit (unat wr_id)) ps')
                 | None \<Rightarrow> wait_loop posted successes completions success_mask ps'))
      else Inr (success_mask, ps))"

declare wait_loop.simps [simp del]

definition wait_quorum :: "nat \<Rightarrow> nat \<Rightarrow> poll list \<Rightarrow> (u32 \<times> poll list) result" where
  "wait_quorum posted quorum ps = wait_loop posted 0 0 0 ps"

section \<open>The group and its operations\<close>

record ReplicaGroup =
  num_replicas :: nat
  drop_mask :: u32

definition new_ReplicaGroup :: "nat \<Rightarrow> ReplicaGroup result" where
  "new_ReplicaGroup n =
     res_bind (res_assert ''num_replicas > 0 && num_replicas <= 32'' (0 < n \<and> n \<le> 32)) (\<lambda>_.
     Inr \<lparr>num_replicas = n, drop_mask = 0\<rparr>)"

definition set_drop_mask :: "u32 \<Rightarrow> ReplicaGroup \<Rightarrow> ReplicaGroup" where
  "set_drop_mask m rg = rg\<lparr>drop_mask := m\<rparr>"

text \<open>\<open>FaultInjection::is_dropped\<close>.\<close>

definition is_dropped :: "u32 \<Rightarrow> nat \<Rightarrow> bool" where
  "is_dropped msk i \<longleftrightarrow> drop_bit i msk AND 1 \<noteq> 0"

definition popcount :: "u32 \<Rightarrow> nat" where
  "popcount w = length (filter (bit w) [0..<32])"

text \<open>
  The posting loop: verbs to dropped replicas are skipped. What is posted is the list of replica
  indices; the verb is the same for every replica.
\<close>

definition posted_replicas :: "ReplicaGroup \<Rightarrow> nat list" where
  "posted_replicas rg = filter (\<lambda>i. drop_mask rg AND one_bit i = 0) [0..<num_replicas rg]"

definition read_all_posts :: "ReplicaGroup \<Rightarrow> nat \<Rightarrow> nat \<Rightarrow> (nat \<times> verb) list" where
  "read_all_posts rg off size' = map (\<lambda>i. (i, VRead off size')) (posted_replicas rg)"

definition write_all_posts :: "ReplicaGroup \<Rightarrow> nat \<Rightarrow> u8 list \<Rightarrow> (nat \<times> verb) list" where
  "write_all_posts rg off buf = map (\<lambda>i. (i, VWrite off buf)) (posted_replicas rg)"

definition cas_all_posts :: "ReplicaGroup \<Rightarrow> nat \<Rightarrow> u64 \<Rightarrow> u64 \<Rightarrow> (nat \<times> verb) list" where
  "cas_all_posts rg off expected desired = map (\<lambda>i. (i, VCas off expected desired)) (posted_replicas rg)"

text \<open>What each operation computes once its verbs are posted: the result and the out-mask.\<close>

definition read_all :: "ReplicaGroup \<Rightarrow> nat \<Rightarrow> poll list \<Rightarrow> (bool \<times> u32 \<times> poll list) result" where
  "read_all rg quorum ps =
     res_bind (wait_quorum (length (posted_replicas rg)) quorum ps) (\<lambda>(m, ps').
     Inr (quorum \<le> popcount m, m, ps'))"

definition write_all :: "ReplicaGroup \<Rightarrow> nat \<Rightarrow> poll list \<Rightarrow> (bool \<times> u32 \<times> poll list) result" where
  "write_all rg quorum ps =
     res_bind (wait_quorum (length (posted_replicas rg)) quorum ps) (\<lambda>(m, ps').
     Inr (quorum \<le> popcount m, m, ps'))"

text \<open>\<open>prev_vals i\<close> is the 8-byte buffer of replica \<open>i\<close> after the wait.\<close>

definition won_mask :: "nat \<Rightarrow> u32 \<Rightarrow> (nat \<Rightarrow> u64) \<Rightarrow> u64 \<Rightarrow> u32" where
  "won_mask n completed prev_vals expected =
     foldl (\<lambda>wins i. if completed AND one_bit i = 0 then wins
                     else if prev_vals i = expected then wins OR one_bit i else wins)
       0 [0..<n]"

definition cas_all ::
  "ReplicaGroup \<Rightarrow> u64 \<Rightarrow> (nat \<Rightarrow> u64) \<Rightarrow> nat \<Rightarrow> poll list \<Rightarrow> (bool \<times> u32 \<times> poll list) result" where
  "cas_all rg expected prev_vals quorum ps =
     res_bind (wait_quorum (length (posted_replicas rg)) quorum ps) (\<lambda>(completed, ps').
     let wins = won_mask (num_replicas rg) completed prev_vals expected
     in Inr (quorum \<le> popcount wins, wins, ps'))"

section \<open>Carrying verbs out\<close>

text \<open>
  The verbs of several clients reach the memory servers in some order: a list of triples of a
  client, a replica and a verb. \<open>run_verbs\<close> gives the memories afterwards and the answer each
  client's verb got at each replica.
\<close>

fun run_verbs ::
  "(nat \<times> nat \<times> verb) list \<Rightarrow> (nat \<Rightarrow> mem) \<Rightarrow> (nat \<Rightarrow> nat \<Rightarrow> u8 list) \<Rightarrow>
     (nat \<Rightarrow> mem) \<times> (nat \<Rightarrow> nat \<Rightarrow> u8 list)" where
  "run_verbs [] ms rsp = (ms, rsp)"
| "run_verbs ((c, i, v) # vs) ms rsp =
     (case exec_verb v (ms i) of
        (r, m) \<Rightarrow> run_verbs vs (ms(i := m)) (rsp(c := (rsp c)(i := r))))"

definition tag_client :: "nat \<Rightarrow> (nat \<times> verb) list \<Rightarrow> (nat \<times> nat \<times> verb) list" where
  "tag_client c = map (\<lambda>(i, v). (c, i, v))"

text \<open>
  What the code relies on of the verbs library: a success is reported for posted work requests
  only, at most once each. \<open>cq_sound\<close> says so of a list of polls.
\<close>

definition oks :: "poll list \<Rightarrow> u64 list" where
  "oks ps = List.map_filter poll_rdma_cq_once ps"

definition cq_sound :: "ReplicaGroup \<Rightarrow> poll list \<Rightarrow> bool" where
  "cq_sound rg ps \<longleftrightarrow> distinct (oks ps) \<and> set (oks ps) \<subseteq> of_nat ` set (posted_replicas rg)"

definition rg_wf :: "ReplicaGroup \<Rightarrow> bool" where
  "rg_wf rg \<longleftrightarrow> 0 < num_replicas rg \<and> num_replicas rg \<le> 32"

section \<open>Masks\<close>

lemma bit_single [simp]: "bit (one_bit i) j \<longleftrightarrow> j = i \<and> i < 32"
  by (auto simp: one_bit_def bit_simps)

lemma and_single_eq_0: "(w::u32) AND one_bit i = 0 \<longleftrightarrow> \<not> bit w i"
proof
  assume "w AND one_bit i = 0"
  then have "\<not> bit (w AND one_bit i) i" by simp
  then show "\<not> bit w i"
    using bit_imp_le_length [of w i] unfolding bit_and_iff by auto
next
  assume "\<not> bit w i"
  then show "w AND one_bit i = 0" by (intro bit_word_eqI) (auto simp: bit_and_iff)
qed

lemma is_dropped_iff: "is_dropped msk i \<longleftrightarrow> msk AND one_bit i \<noteq> 0"
  by (simp add: is_dropped_def and_single_eq_0 and_one_eq odd_iff_mod_2_eq_one [symmetric] bit_iff_odd_drop_bit)

definition mask_set :: "u32 \<Rightarrow> nat set" where
  "mask_set w = {j. bit w j}"

lemma mask_set_simps [simp]:
  "mask_set 0 = {}"
  "i < 32 \<Longrightarrow> mask_set (w OR one_bit i) = insert i (mask_set w)"
  by (auto simp: mask_set_def bit_or_iff)

lemma popcount_card: "popcount w = card (mask_set w)"
proof -
  have "mask_set w = set (filter (bit w) [0..<32])"
    by (auto simp: mask_set_def dest: bit_imp_le_length)
  then show ?thesis by (simp add: popcount_def distinct_card del: set_filter)
qed

lemma finite_mask_set [simp]: "finite (mask_set w)"
  by (rule finite_subset [of _ "{..<32}"]) (auto simp: mask_set_def dest: bit_imp_le_length)

lemma set_posted_replicas:
  "set (posted_replicas rg) = {i. i < num_replicas rg \<and> \<not> bit (drop_mask rg) i}"
  by (auto simp: posted_replicas_def and_single_eq_0)

lemma distinct_posted_replicas [simp]: "distinct (posted_replicas rg)"
  by (simp add: posted_replicas_def)

lemma posted_lt_32: "rg_wf rg \<Longrightarrow> i \<in> set (posted_replicas rg) \<Longrightarrow> i < 32"
  by (simp add: set_posted_replicas rg_wf_def)

lemma mask_set_won_mask:
  assumes "n \<le> 32"
  shows "mask_set (won_mask n c pv e) = {i. i < n \<and> i \<in> mask_set c \<and> pv i = e}"
  using assms
proof (induction n)
  case 0
  then show ?case by (simp add: won_mask_def)
next
  case (Suc n)
  have "won_mask (Suc n) c pv e =
      (if c AND one_bit n = 0 then won_mask n c pv e
       else if pv n = e then won_mask n c pv e OR one_bit n else won_mask n c pv e)"
    by (simp add: won_mask_def)
  with Suc show ?case
    by (auto simp: and_single_eq_0 mask_set_def [of c] less_Suc_eq)
qed

text \<open>Two majorities out of \<open>n\<close> replicas share one.\<close>

lemma quorums_intersect:
  assumes "A \<subseteq> {..<n}" and "B \<subseteq> {..<n}" and "q1 \<le> card A" and "q2 \<le> card B" and "n < q1 + q2"
  shows "\<exists>i. i \<in> A \<and> i \<in> B"
proof (rule ccontr)
  assume "\<not> ?thesis"
  then have "A \<inter> B = {}" by blast
  then have "card A + card B = card (A \<union> B)"
    using assms(1,2) by (metis card_Un_disjoint finite_lessThan finite_subset)
  also have "\<dots> \<le> n" using card_mono [of "{..<n}" "A \<union> B"] assms(1,2) by simp
  finally show False using assms(3-5) by simp
qed

section \<open>The wait\<close>

lemma oks_simps [simp]:
  "oks [] = []" "oks (PollEmpty # ps) = oks ps" "oks (PollErr w # ps) = oks ps"
  "oks (PollOk w # ps) = w # oks ps"
  by (simp_all add: oks_def poll_rdma_cq_once_def List.map_filter_simps)

lemma wait_loop_step:
  "c < n \<Longrightarrow> wait_loop n s c m [] = Inl OutOfFuel"
  "c < n \<Longrightarrow> wait_loop n s c m (PollEmpty # ps) = wait_loop n s c m ps"
  "c < n \<Longrightarrow> wait_loop n s c m (PollErr w # ps) = wait_loop n s c m ps"
  "c < n \<Longrightarrow> w < 32 \<Longrightarrow> wait_loop n s c m (PollOk w # ps) =
     wait_loop n (Suc s) (Suc c) (m OR one_bit (unat w)) ps"
  "\<not> c < n \<Longrightarrow> wait_loop n s c m ps = Inr (m, ps)"
  by (subst wait_loop.simps, simp add: poll_rdma_cq_once_def)+

lemma unat_less_32: "(w::u64) < 32 \<Longrightarrow> unat w < 32"
  by (simp add: word_less_nat_alt)

lemma wait_loop_hangs:
  "\<forall>w \<in> set (oks ps). w < 32 \<Longrightarrow> length (oks ps) < n - c \<Longrightarrow>
     wait_loop n s c m ps = Inl OutOfFuel"
proof (induction ps arbitrary: s c m)
  case Nil
  then show ?case by (simp add: wait_loop_step)
next
  case (Cons p ps)
  then show ?case by (cases p) (auto simp: wait_loop_step)
qed

lemma wait_loop_returns:
  "\<forall>w \<in> set (oks ps). w < 32 \<Longrightarrow> n - c \<le> length (oks ps) \<Longrightarrow>
     \<exists>m' ps'. wait_loop n s c m ps = Inr (m', ps') \<and>
       mask_set m' = mask_set m \<union> unat ` set (take (n - c) (oks ps))"
proof (induction ps arbitrary: s c m)
  case Nil
  then show ?case by (simp add: wait_loop_step)
next
  case (Cons p ps)
  show ?case
  proof (cases "c < n")
    case False
    then show ?thesis by (simp add: wait_loop_step)
  next
    case True
    show ?thesis
    proof (cases p)
      case (PollOk w)
      with Cons.prems True have "w < 32" "n - Suc c \<le> length (oks ps)" by simp_all
      with Cons.IH [of "Suc c" "Suc s" "m OR one_bit (unat w)"] Cons.prems(1) PollOk
      obtain m' ps' where "wait_loop n (Suc s) (Suc c) (m OR one_bit (unat w)) ps = Inr (m', ps')"
        "mask_set m' = insert (unat w) (mask_set m) \<union> unat ` set (take (n - Suc c) (oks ps))"
        by (auto simp: unat_less_32)
      moreover have "n - c = Suc (n - Suc c)" using True by simp
      ultimately show ?thesis using PollOk True \<open>w < 32\<close> by (auto simp: wait_loop_step)
    qed (use Cons True in \<open>auto simp: wait_loop_step\<close>)
  qed
qed

lemma cq_sound_lt_32:
  assumes "rg_wf rg" and "cq_sound rg ps"
  shows "\<forall>w \<in> set (oks ps). w < 32"
proof
  fix w assume "w \<in> set (oks ps)"
  then obtain i where "i \<in> set (posted_replicas rg)" "w = of_nat i"
    using assms(2) by (auto simp: cq_sound_def)
  with posted_lt_32 [OF assms(1), of i] show "w < 32"
    by (simp add: word_less_nat_alt unat_of_nat)
qed

lemma unat_image_posted:
  assumes "rg_wf rg"
  shows "unat ` (of_nat ` set (posted_replicas rg) :: u64 set) = set (posted_replicas rg)"
proof -
  have "unat (of_nat i :: u64) = i" if "i \<in> set (posted_replicas rg)" for i
    using posted_lt_32 [OF assms that] by (simp add: unat_of_nat)
  then show ?thesis by (simp add: image_image)
qed

lemma inj_on_posted:
  assumes "rg_wf rg"
  shows "inj_on (of_nat :: nat \<Rightarrow> u64) (set (posted_replicas rg))"
proof (rule inj_onI)
  fix x y
  assume "x \<in> set (posted_replicas rg)" "y \<in> set (posted_replicas rg)" "(of_nat x :: u64) = of_nat y"
  then show "x = y"
    using posted_lt_32 [OF assms, of x] posted_lt_32 [OF assms, of y]
    by (auto dest!: arg_cong [of _ _ unat] simp: unat_of_nat)
qed

text \<open>Under the queue's contract the wait ends exactly when every posted verb has succeeded.\<close>

lemma wait_quorum_cases:
  assumes wf: "rg_wf rg" and cq: "cq_sound rg ps"
  obtains (all_ok) m ps' where "set (oks ps) = of_nat ` set (posted_replicas rg)"
      and "wait_quorum (length (posted_replicas rg)) q ps = Inr (m, ps')"
      and "mask_set m = set (posted_replicas rg)"
    | (missing) i where "i \<in> set (posted_replicas rg)" and "of_nat i \<notin> set (oks ps)"
      and "wait_quorum (length (posted_replicas rg)) q ps = Inl OutOfFuel"
proof -
  let ?P = "set (posted_replicas rg)" and ?n = "length (posted_replicas rg)"
  note lt = cq_sound_lt_32 [OF wf cq]
  have d: "distinct (oks ps)" and sub: "set (oks ps) \<subseteq> of_nat ` ?P"
    using cq by (simp_all add: cq_sound_def)
  have cP: "card (of_nat ` ?P :: u64 set) = ?n"
    using inj_on_posted [OF wf] by (simp add: card_image distinct_card)
  have co: "card (set (oks ps)) = length (oks ps)" using d by (simp add: distinct_card)
  show ?thesis
  proof (cases "set (oks ps) = of_nat ` ?P")
    case True
    then have n: "length (oks ps) = ?n" using cP co by simp
    then obtain m ps' where "wait_quorum ?n q ps = Inr (m, ps')"
      "mask_set m = unat ` set (oks ps)"
      using wait_loop_returns [OF lt, of ?n 0 0 0] by (auto simp: wait_quorum_def)
    with True show ?thesis using all_ok unat_image_posted [OF wf] by simp
  next
    case False
    with sub have "set (oks ps) \<subset> of_nat ` ?P" by blast
    then have "length (oks ps) < ?n" using psubset_card_mono [of "of_nat ` ?P :: u64 set" "set (oks ps)"] cP co by simp
    then have "wait_quorum ?n q ps = Inl OutOfFuel"
      using wait_loop_hangs [OF lt] by (simp add: wait_quorum_def)
    with False sub show ?thesis using missing by blast
  qed
qed

text \<open>
  C26: on a queue that reports each posted verb at most once, \<open>read_all\<close> returns exactly when every
  posted verb has succeeded, whatever the quorum; the success mask is then the set of replicas that
  are not dropped, and the result says whether these are at least \<open>quorum\<close> many. If some posted
  verb never reports success (it fails, or its replica is dead without being masked), the call is
  still polling after any number of polls, even when a quorum has answered.
\<close>

theorem read_all_waits_for_all:
  assumes "rg_wf rg" and "cq_sound rg ps"
  shows "if of_nat ` set (posted_replicas rg) \<subseteq> set (oks ps)
         then \<exists>m ps'. read_all rg quorum ps = Inr (quorum \<le> length (posted_replicas rg), m, ps') \<and>
                mask_set m = {i. i < num_replicas rg \<and> \<not> bit (drop_mask rg) i}
         else read_all rg quorum ps = Inl OutOfFuel"
  using assms
proof (cases rule: wait_quorum_cases [where q = quorum])
  case (all_ok m ps')
  then have "popcount m = length (posted_replicas rg)"
    by (simp add: popcount_card distinct_card)
  with all_ok show ?thesis by (simp add: read_all_def set_posted_replicas)
next
  case (missing i)
  then show ?thesis by (auto simp: read_all_def)
qed

definition example_rg :: ReplicaGroup where
  "example_rg = \<lparr>num_replicas = 3, drop_mask = 0\<rparr>"

lemma example_rg_wf: "rg_wf example_rg"
  by (simp add: rg_wf_def example_rg_def)

lemma example_posted: "posted_replicas example_rg = [0, 1, 2]"
  by (simp add: posted_replicas_def example_rg_def upt_rec)

lemma example_cq: "cq_sound example_rg [PollOk 1, PollEmpty, PollOk 0, PollOk 2]"
  by (simp add: cq_sound_def example_posted)

theorem read_all_waits_for_all_witness:
  "rg_wf example_rg \<and> cq_sound example_rg [PollOk 1, PollErr 2, PollOk 0] \<and>
   read_all example_rg 2 [PollOk 1, PollErr 2, PollOk 0] = Inl OutOfFuel"
proof -
  have cq: "cq_sound example_rg [PollOk 1, PollErr 2, PollOk 0]"
    by (simp add: cq_sound_def example_posted)
  show ?thesis
    using read_all_waits_for_all [OF example_rg_wf cq, of 2] example_rg_wf cq
    by (simp add: example_posted)
qed

section \<open>A quorum read sees a quorum write\<close>

lemma mem_read_write_same: "mem_read (mem_write m off bs) off (length bs) = bs"
  by (rule nth_equalityI) (simp_all add: mem_read_def mem_write_def)

lemma mem_write_idem [simp]: "mem_write (mem_write m off bs) off bs = mem_write m off bs"
  by (rule ext) (simp add: mem_write_def)

lemma run_verbs_writes:
  assumes "run_verbs vs ms rsp = (ms', rsp')" and "\<forall>(c, i, v) \<in> set vs. v = VWrite off buf"
  shows "ms' i = (if i \<in> (\<lambda>x. fst (snd x)) ` set vs then mem_write (ms i) off buf else ms i)"
  using assms
proof (induction vs arbitrary: ms rsp)
  case Nil
  then show ?case by simp
next
  case (Cons x vs)
  obtain c j where x: "x = (c, j, VWrite off buf)" using Cons.prems(2) by (cases x) auto
  with Cons.prems have
    "run_verbs vs (ms(j := mem_write (ms j) off buf)) (rsp(c := (rsp c)(j := []))) = (ms', rsp')"
    "\<forall>(c, i, v) \<in> set vs. v = VWrite off buf" by simp_all
  from Cons.IH [OF this] x show ?case by auto
qed

lemma run_verbs_reads:
  assumes "run_verbs vs ms rsp = (ms', rsp')" and "\<forall>(c, i, v) \<in> set vs. c = d \<and> v = VRead off n"
  shows "ms' = ms \<and>
         rsp' d i = (if i \<in> (\<lambda>x. fst (snd x)) ` set vs then mem_read (ms i) off n else rsp d i)"
  using assms
proof (induction vs arbitrary: rsp)
  case Nil
  then show ?case by simp
next
  case (Cons x vs)
  obtain j where x: "x = (d, j, VRead off n)" using Cons.prems(2) by (cases x) auto
  with Cons.prems have
    "run_verbs vs ms (rsp(d := (rsp d)(j := mem_read (ms j) off n))) = (ms', rsp')"
    "\<forall>(c, i, v) \<in> set vs. c = d \<and> v = VRead off n" by simp_all
  from Cons.IH [OF this] x show ?case by auto
qed

lemma run_verbs_append:
  "run_verbs (vs @ ws) ms rsp = (case run_verbs vs ms rsp of (ms', rsp') \<Rightarrow> run_verbs ws ms' rsp')"
  by (induction vs arbitrary: ms rsp) (auto split: prod.splits)

lemma fan_out_replicas [simp]:
  "(\<lambda>x. fst (snd x)) ` set (tag_client c (write_all_posts rg off buf)) = set (posted_replicas rg)"
  "(\<lambda>x. fst (snd x)) ` set (tag_client c (read_all_posts rg off n)) = set (posted_replicas rg)"
  by (simp_all add: tag_client_def write_all_posts_def read_all_posts_def image_image)

lemma write_all_read_all_mask:
  assumes "rg_wf rg" and "cq_sound rg ps"
  shows "read_all rg q ps = Inr (True, m, ps') \<Longrightarrow> mask_set m = set (posted_replicas rg) \<and> q \<le> card (mask_set m)"
    and "write_all rg q ps = Inr (True, m, ps') \<Longrightarrow> mask_set m = set (posted_replicas rg) \<and> q \<le> card (mask_set m)"
  using wait_quorum_cases [OF assms, of q]
  by (auto simp: read_all_def write_all_def popcount_card res_bind_eq_Inr)

text \<open>
  C5: let a client's \<open>write_all\<close> and then another's \<open>read_all\<close> of the same range succeed, with any
  drop masks, their verbs carried out in any order within each call. If the two quorums add up to
  more than the number of replicas, some replica answered both, and the buffer read from it holds
  exactly the bytes written.
\<close>

theorem quorum_read_sees_write:
  assumes "rg_wf rg" and "rg_wf rg'" and "num_replicas rg' = num_replicas rg"
    and "cq_sound rg ps" and "cq_sound rg' qs"
    and "num_replicas rg < q1 + q2"
    and "set vs = set (tag_client c (write_all_posts rg off buf))"
    and "set ws = set (tag_client d (read_all_posts rg' off (length buf)))"
    and "run_verbs (vs @ ws) ms rsp = (ms', rsp')"
    and "write_all rg q1 ps = Inr (True, m1, ps')"
    and "read_all rg' q2 qs = Inr (True, m2, qs')"
  shows "\<exists>i < num_replicas rg. bit m1 i \<and> bit m2 i \<and> rsp' d i = buf"
proof -
  note w = write_all_read_all_mask(2) [OF assms(1,4,10)]
    and r = write_all_read_all_mask(1) [OF assms(2,5,11)]
  have "set (posted_replicas rg) \<subseteq> {..<num_replicas rg}"
    "set (posted_replicas rg') \<subseteq> {..<num_replicas rg}"
    using assms(3) by (auto simp: set_posted_replicas)
  then have sub: "mask_set m1 \<subseteq> {..<num_replicas rg}" "mask_set m2 \<subseteq> {..<num_replicas rg}"
    using w r by simp_all
  obtain i where i: "i \<in> mask_set m1" "i \<in> mask_set m2"
    using quorums_intersect [OF sub _ _ assms(6)] w r by blast
  with sub have "i < num_replicas rg" by blast
  obtain ms1 rsp1 where run1: "run_verbs vs ms rsp = (ms1, rsp1)" by fastforce
  with assms(9) have run2: "run_verbs ws ms1 rsp1 = (ms', rsp')"
    by (simp add: run_verbs_append)
  have "\<forall>(c, i, v) \<in> set vs. v = VWrite off buf"
    unfolding assms(7) by (auto simp: tag_client_def write_all_posts_def)
  from run_verbs_writes [OF run1 this, of i] have "ms1 i = mem_write (ms i) off buf"
    unfolding assms(7) using i(1) w by simp
  moreover have "\<forall>(c, i, v) \<in> set ws. c = d \<and> v = VRead off (length buf)"
    unfolding assms(8) by (auto simp: tag_client_def read_all_posts_def)
  from run_verbs_reads [OF run2 this, of i] have "rsp' d i = mem_read (ms1 i) off (length buf)"
    unfolding assms(8) using i(2) r by simp
  ultimately have "rsp' d i = buf" by (simp add: mem_read_write_same)
  with i \<open>i < num_replicas rg\<close> show ?thesis by (auto simp: mask_set_def)
qed

lemma example_reads: "\<exists>m ps'. read_all example_rg 2 [PollOk 1, PollEmpty, PollOk 0, PollOk 2] = Inr (True, m, ps')"
  "\<exists>m ps'. write_all example_rg 2 [PollOk 1, PollEmpty, PollOk 0, PollOk 2] = Inr (True, m, ps')"
  by (simp_all add: read_all_def write_all_def wait_quorum_def example_posted wait_loop_step
      popcount_def upt_rec one_bit_def bit_simps)

theorem quorum_read_sees_write_witness:
  "\<exists>i < 3. snd (run_verbs (tag_client 0 (write_all_posts example_rg 8 [7]) @
                       tag_client 1 (read_all_posts example_rg 8 1)) (\<lambda>_ _. 0) (\<lambda>_ _. [])) 1 i = [7]"
proof -
  let ?ps = "[PollOk 1, PollEmpty, PollOk 0, PollOk 2]"
  let ?vs = "tag_client 0 (write_all_posts example_rg 8 [7])"
  let ?ws = "tag_client 1 (read_all_posts example_rg 8 (length [7::u8]))"
  obtain ms rsp where run: "run_verbs (?vs @ ?ws) (\<lambda>_ _. 0) (\<lambda>_ _. []) = (ms, rsp)" by fastforce
  obtain m1 ps1 m2 ps2 where ok: "write_all example_rg 2 ?ps = Inr (True, m1, ps1)"
    "read_all example_rg 2 ?ps = Inr (True, m2, ps2)" using example_reads by blast
  have n: "num_replicas example_rg < 2 + 2" "num_replicas example_rg = 3"
    by (simp_all add: example_rg_def)
  from quorum_read_sees_write [OF example_rg_wf example_rg_wf refl example_cq example_cq n(1)
      refl refl run ok] run n(2) show ?thesis by auto
qed

section \<open>Competing compare-and-swaps\<close>

text \<open>
  \<open>cas_trace off e vs\<close>: every verb of the trace is a compare-and-swap at \<open>off\<close> away from \<open>e\<close>, and
  no client has two of them at the same replica.
\<close>

definition cas_trace :: "nat \<Rightarrow> u64 \<Rightarrow> (nat \<times> nat \<times> verb) list \<Rightarrow> bool" where
  "cas_trace off e vs \<longleftrightarrow>
     (\<forall>(c, i, v) \<in> set vs. \<exists>d. v = VCas off e d \<and> d \<noteq> e) \<and>
     distinct (map (\<lambda>(c, i, v). (c, i)) vs)"

definition at_replica :: "nat \<Rightarrow> nat \<Rightarrow> (nat \<times> nat \<times> verb) list \<Rightarrow> bool" where
  "at_replica c i vs \<longleftrightarrow> (c, i) \<in> (\<lambda>(c, i, v). (c, i)) ` set vs"

lemma at_replica_Cons [simp]:
  "\<not> at_replica c i []"
  "at_replica c i ((c', i', v) # vs) \<longleftrightarrow> (c, i) = (c', i') \<or> at_replica c i vs"
  by (auto simp: at_replica_def)

lemma cas_trace_Cons:
  "cas_trace off e ((c, i, v) # vs) \<longleftrightarrow>
     (\<exists>d. v = VCas off e d \<and> d \<noteq> e) \<and> \<not> at_replica c i vs \<and> cas_trace off e vs"
  by (auto simp: cas_trace_def at_replica_def image_iff)

lemma run_verbs_other:
  "run_verbs vs ms rsp = (ms', rsp') \<Longrightarrow> \<not> at_replica c i vs \<Longrightarrow> rsp' c i = rsp c i"
proof (induction vs arbitrary: ms rsp)
  case Nil
  then show ?case by simp
next
  case (Cons x vs)
  obtain c' j v where x: "x = (c', j, v)" by (cases x)
  obtain r m where e: "exec_verb v (ms j) = (r, m)" by fastforce
  with Cons.prems x have
    "run_verbs vs (ms(j := m)) (rsp(c' := (rsp c')(j := r))) = (ms', rsp')"
    "\<not> at_replica c i vs" "c \<noteq> c' \<or> i \<noteq> j" by auto
  from Cons.IH [OF this(1,2)] this(3) show ?case by auto
qed

lemma mem_read_le_bytes: "le_word (mem_read (mem_write m off (le_bytes 8 d)) off 8) = (d :: u64)"
  using mem_read_write_same [of m off "le_bytes 8 d"] by (simp add: le_word_le_bytes_id)

text \<open>Once the word differs from the expected value, no later compare-and-swap wins there.\<close>

lemma cas_trace_lost:
  "run_verbs vs ms rsp = (ms', rsp') \<Longrightarrow> cas_trace off e vs \<Longrightarrow>
     le_word (mem_read (ms i) off 8) \<noteq> e \<Longrightarrow> at_replica c i vs \<Longrightarrow> le_word (rsp' c i) \<noteq> e"
proof (induction vs arbitrary: ms rsp)
  case Nil
  then show ?case by simp
next
  case (Cons x vs)
  obtain c' j d where x: "x = (c', j, VCas off e d)" "d \<noteq> e" and n: "\<not> at_replica c' j vs"
    and tr: "cas_trace off e vs"
    using Cons.prems(2) by (cases x) (auto simp: cas_trace_Cons)
  obtain r m where em: "exec_verb (VCas off e d) (ms j) = (r, m)" by fastforce
  then have r: "r = mem_read (ms j) off 8" and m: "i = j \<Longrightarrow> m = ms i"
    using Cons.prems(3) by (auto simp: Let_def)
  have run: "run_verbs vs (ms(j := m)) (rsp(c' := (rsp c')(j := r))) = (ms', rsp')"
    using Cons.prems(1) x em by simp
  have lost: "le_word (mem_read ((ms(j := m)) i) off 8) \<noteq> e"
    using Cons.prems(3) m by auto
  show ?case
  proof (cases "at_replica c i vs")
    case True
    from Cons.IH [OF run tr lost this] show ?thesis .
  next
    case False
    with Cons.prems(4) x have "c = c'" "i = j" by auto
    with run_verbs_other [OF run False] r Cons.prems(3) show ?thesis by simp
  qed
qed

text \<open>At one replica at most one of two clients wins.\<close>

lemma cas_trace_exclusive:
  "run_verbs vs ms rsp = (ms', rsp') \<Longrightarrow> cas_trace off e vs \<Longrightarrow>
     at_replica c1 i vs \<Longrightarrow> at_replica c2 i vs \<Longrightarrow> c1 \<noteq> c2 \<Longrightarrow>
     le_word (rsp' c1 i) = e \<Longrightarrow> le_word (rsp' c2 i) \<noteq> e"
proof (induction vs arbitrary: ms rsp)
  case Nil
  then show ?case by simp
next
  case (Cons x vs)
  obtain c' j d where x: "x = (c', j, VCas off e d)" "d \<noteq> e" and n: "\<not> at_replica c' j vs"
    and tr: "cas_trace off e vs"
    using Cons.prems(2) by (cases x) (auto simp: cas_trace_Cons)
  obtain r m where em: "exec_verb (VCas off e d) (ms j) = (r, m)" by fastforce
  have run: "run_verbs vs (ms(j := m)) (rsp(c' := (rsp c')(j := r))) = (ms', rsp')"
    using Cons.prems(1) x em by simp
  have first: "le_word (rsp' b i) \<noteq> e"
    if "a = c'" "i = j" "at_replica b i vs" "le_word (rsp' a i) = e" for a b
  proof -
    have "rsp' a i = r" using run_verbs_other [OF run n] that by simp
    then have "m = mem_write (ms j) off (le_bytes 8 d)"
      using em that(4) by (auto simp: Let_def)
    then have "le_word (mem_read ((ms(j := m)) i) off 8) \<noteq> e"
      using x(2) that(2) by (simp add: mem_read_le_bytes)
    from cas_trace_lost [OF run tr this that(3)] show ?thesis .
  qed
  consider "c1 = c'" "i = j" "at_replica c2 i vs" | "c2 = c'" "i = j" "at_replica c1 i vs"
    | "at_replica c1 i vs" "at_replica c2 i vs"
    using Cons.prems(3,4,5) x by auto
  then show ?case
  proof cases
    case 1
    with first [OF 1] Cons.prems(6) show ?thesis by simp
  next
    case 2
    with first [OF 2] Cons.prems(6) show ?thesis by auto
  next
    case 3
    from Cons.IH [OF run tr this Cons.prems(5,6)] show ?thesis .
  qed
qed

lemma cas_all_wins:
  assumes "rg_wf rg" and "cq_sound rg ps" and "cas_all rg e pv q ps = Inr (True, w, ps')"
  shows "mask_set w = {i \<in> set (posted_replicas rg). pv i = e} \<and> q \<le> card (mask_set w)"
  using assms(1,2)
proof (cases rule: wait_quorum_cases [where q = q])
  case (all_ok m ps'')
  then show ?thesis
    using assms(1,3) mask_set_won_mask [of "num_replicas rg" m pv e]
    by (auto simp: cas_all_def Let_def popcount_card rg_wf_def set_posted_replicas)
next
  case (missing i)
  with assms(3) show ?thesis by (simp add: cas_all_def)
qed

lemma cas_trace_two_clients:
  assumes "distinct vs" and "c1 \<noteq> c2" and "d1 \<noteq> e" and "d2 \<noteq> e"
    and vs: "set vs = set (tag_client c1 (cas_all_posts rg1 off e d1)) \<union>
                   set (tag_client c2 (cas_all_posts rg2 off e d2))"
  shows "cas_trace off e vs"
    and "i \<in> set (posted_replicas rg1) \<Longrightarrow> at_replica c1 i vs"
    and "i \<in> set (posted_replicas rg2) \<Longrightarrow> at_replica c2 i vs"
proof -
  have mem: "(c, i, v) \<in> set vs \<longleftrightarrow>
      c = c1 \<and> i \<in> set (posted_replicas rg1) \<and> v = VCas off e d1 \<or>
      c = c2 \<and> i \<in> set (posted_replicas rg2) \<and> v = VCas off e d2" for c i v
    unfolding vs by (auto simp: tag_client_def cas_all_posts_def)
  have "inj_on (\<lambda>(c, i, v). (c, i)) (set vs)"
    using assms(2) by (auto simp: inj_on_def mem)
  then show "cas_trace off e vs"
    using assms(1,3,4) by (auto simp: cas_trace_def distinct_map mem)
  show "i \<in> set (posted_replicas rg1) \<Longrightarrow> at_replica c1 i vs"
    "i \<in> set (posted_replicas rg2) \<Longrightarrow> at_replica c2 i vs"
    using mem by (force simp: at_replica_def)+
qed

text \<open>
  C6: two clients run \<open>cas_all\<close> on the same word from the same expected value, each to a value
  different from it, their verbs interleaved at the replicas in any way. If the quorums add up to
  more than the number of replicas, the calls do not both report success.
\<close>

theorem cas_all_exclusive:
  assumes "rg_wf rg1" and "rg_wf rg2" and "num_replicas rg2 = num_replicas rg1"
    and "cq_sound rg1 ps" and "cq_sound rg2 qs"
    and "num_replicas rg1 < q1 + q2" and "d1 \<noteq> e" and "d2 \<noteq> e" and "c1 \<noteq> c2"
    and "distinct vs"
    and "set vs = set (tag_client c1 (cas_all_posts rg1 off e d1)) \<union>
                  set (tag_client c2 (cas_all_posts rg2 off e d2))"
    and "run_verbs vs ms rsp = (ms', rsp')"
    and "cas_all rg1 e (\<lambda>i. le_word (rsp' c1 i)) q1 ps = Inr (b1, w1, ps')"
    and "cas_all rg2 e (\<lambda>i. le_word (rsp' c2 i)) q2 qs = Inr (b2, w2, qs')"
  shows "\<not> (b1 \<and> b2)"
proof
  assume b: "b1 \<and> b2"
  have "cas_all rg1 e (\<lambda>i. le_word (rsp' c1 i)) q1 ps = Inr (True, w1, ps')"
    "cas_all rg2 e (\<lambda>i. le_word (rsp' c2 i)) q2 qs = Inr (True, w2, qs')"
    using assms(13,14) b by simp_all
  note w1 = cas_all_wins [OF assms(1,4) this(1)] and w2 = cas_all_wins [OF assms(2,5) this(2)]
  have W: "mask_set w1 = {i \<in> set (posted_replicas rg1). le_word (rsp' c1 i) = e}"
      "q1 \<le> card (mask_set w1)"
      "mask_set w2 = {i \<in> set (posted_replicas rg2). le_word (rsp' c2 i) = e}"
      "q2 \<le> card (mask_set w2)"
    using w1 w2 by blast+
  have sub: "mask_set w1 \<subseteq> {..<num_replicas rg1}" "mask_set w2 \<subseteq> {..<num_replicas rg1}"
    using W(1,3) assms(3) by (auto simp: set_posted_replicas)
  obtain i where i: "i \<in> mask_set w1" "i \<in> mask_set w2"
    using quorums_intersect [OF sub W(2,4) assms(6)] by blast
  note tr = cas_trace_two_clients [OF assms(10,9,7,8,11)]
  from i W have p: "i \<in> set (posted_replicas rg1)" "i \<in> set (posted_replicas rg2)" by auto
  have "le_word (rsp' c2 i) \<noteq> e"
    by (rule cas_trace_exclusive [OF assms(12) tr(1) tr(2) [OF p(1)] tr(3) [OF p(2)] assms(9)])
      (use i W in simp)
  with i W show False by simp
qed

theorem cas_all_exclusive_witness:
  "\<exists>ms rsp b1 b2. run_verbs (tag_client 0 (cas_all_posts example_rg 8 0 5) @
                        tag_client 1 (cas_all_posts example_rg 8 0 6)) (\<lambda>_ _. 0) (\<lambda>_ _. []) = (ms, rsp) \<and>
     \<not> (b1 \<and> b2) \<and>
     (\<exists>w qs. cas_all example_rg 0 (\<lambda>i. le_word (rsp 0 i)) 2 [PollOk 1, PollEmpty, PollOk 0, PollOk 2] = Inr (b1, w, qs)) \<and>
     (\<exists>w qs. cas_all example_rg 0 (\<lambda>i. le_word (rsp 1 i)) 2 [PollOk 1, PollEmpty, PollOk 0, PollOk 2] = Inr (b2, w, qs))"
proof -
  let ?ps = "[PollOk 1, PollEmpty, PollOk 0, PollOk 2]"
  let ?vs = "tag_client 0 (cas_all_posts example_rg 8 0 5) @ tag_client 1 (cas_all_posts example_rg 8 0 6)"
  obtain ms rsp where run: "run_verbs ?vs (\<lambda>_ _. 0) (\<lambda>_ _. []) = (ms, rsp)" by fastforce
  have ret: "\<exists>b w qs. cas_all example_rg 0 pv 2 ?ps = Inr (b, w, qs)" for pv
    by (simp add: cas_all_def wait_quorum_def example_posted wait_loop_step Let_def)
  obtain b1 w1 q1 b2 w2 q2 where ok:
    "cas_all example_rg 0 (\<lambda>i. le_word (rsp 0 i)) 2 ?ps = Inr (b1, w1, q1)"
    "cas_all example_rg 0 (\<lambda>i. le_word (rsp 1 i)) 2 ?ps = Inr (b2, w2, q2)" using ret by metis
  have n: "num_replicas example_rg < 2 + 2" by (simp add: example_rg_def)
  have d: "distinct ?vs" by (simp add: tag_client_def cas_all_posts_def example_posted)
  have s: "set ?vs = set (tag_client 0 (cas_all_posts example_rg 8 0 5)) \<union>
      set (tag_client 1 (cas_all_posts example_rg 8 0 6))" by simp
  have "\<not> (b1 \<and> b2)"
    by (rule cas_all_exclusive [OF example_rg_wf example_rg_wf refl example_cq example_cq n
        _ _ _ d s run ok]) simp_all
  with run ok show ?thesis by blast
qed

end
