(* ===== verification/Hashing.thy ===== *)
theory Hashing
  imports KVConfig
begin

unbundle bit_operations_syntax

text \<open>
  Model of \<open>DMTree/include/third_party/hash.h\<close> (MurmurHash3, MurmurHash64A, FNV-1a) and of
  \<open>LeafNode::cal_key_fp\<close>, the one-byte fingerprint of a key built from them.
\<close>

definition kHashSeed :: "u32 list" where
  "kHashSeed = [0xcc9e2d51, 0x1b873593, 0x7acd3f21, 0xbc891e4d,
                0x569a3bfd, 0x2e6d9c78, 0xa7f1456e, 0xe3b7f849]"

definition rotl32 :: "u32 \<Rightarrow> nat \<Rightarrow> u32" where
  "rotl32 x r = push_bit r x OR drop_bit (32 - r) x"

definition fmix32 :: "u32 \<Rightarrow> u32" where
  "fmix32 h =
     (let h = h XOR drop_bit 16 h;
          h = h * 0x85ebca6b;
          h = h XOR drop_bit 13 h;
          h = h * 0xc2b2ae35
      in h XOR drop_bit 16 h)"

definition murmur_c1 :: u32 where "murmur_c1 = 0xcc9e2d51"
definition murmur_c2 :: u32 where "murmur_c2 = 0x1b873593"

definition murmur_k1 :: "u32 \<Rightarrow> u32" where
  "murmur_k1 k1 = rotl32 (k1 * murmur_c1) 15 * murmur_c2"

text \<open>The block loop, four bytes at a time, then the tail of the \<open>switch\<close> with its fall-through.\<close>

fun murmur_body :: "u8 list \<Rightarrow> u32 \<Rightarrow> u32" where
  "murmur_body (a # b # c # d # rest) h1 =
     murmur_body rest (rotl32 (h1 XOR murmur_k1 (le_word [a, b, c, d])) 13 * 5 + 0xe6546b64)"
| "murmur_body [a, b, c] h1 =
     h1 XOR murmur_k1 (push_bit 16 (ucast c) XOR push_bit 8 (ucast b) XOR ucast a)"
| "murmur_body [a, b] h1 = h1 XOR murmur_k1 (push_bit 8 (ucast b) XOR ucast a)"
| "murmur_body [a] h1 = h1 XOR murmur_k1 (ucast a)"
| "murmur_body [] h1 = h1"

definition MurmurHash3_x86_32 :: "u8 list \<Rightarrow> u32 \<Rightarrow> u32" where
  "MurmurHash3_x86_32 key seed = fmix32 (murmur_body key seed XOR of_nat (length key))"

text \<open>The key is one 8-byte block, so the loop runs once and the tail \<open>switch\<close> selects no case.\<close>

definition MurmurHash64A :: "u64 \<Rightarrow> u32 \<Rightarrow> u64" where
  "MurmurHash64A key seed =
     (let m = 0xc6a4a7935bd1e995;
          h = ucast seed XOR (8 * m);
          k = key * m;
          k = k XOR drop_bit 47 k;
          k = k * m;
          h = (h XOR k) * m;
          h = h XOR drop_bit 47 h;
          h = h * m
      in h XOR drop_bit 47 h)"

definition kFNVOffsetBasis64 :: u64 where "kFNVOffsetBasis64 = 0xCBF29CE484222325"
definition kFNVPrime64 :: u64 where "kFNVPrime64 = 1099511628211"

primrec fnv_loop :: "nat \<Rightarrow> u64 \<Rightarrow> u64 \<Rightarrow> u64" where
  "fnv_loop 0 val hash = hash"
| "fnv_loop (Suc i) val hash =
     fnv_loop i (drop_bit 8 val) ((hash XOR (val AND 0xff)) * kFNVPrime64)"

definition FNVHash64 :: "u64 \<Rightarrow> u64" where
  "FNVHash64 val = fnv_loop 8 val kFNVOffsetBasis64"

definition cal_key_fp :: "KeyType \<Rightarrow> u8" where
  "cal_key_fp key =
     (let hash = MurmurHash3_x86_32 (key_bytes key) (hd kHashSeed);
          hash = ucast (FNVHash64 (ucast hash) mod 0xffffffff) :: u32;
          b = ucast (drop_bit 24 hash AND 0xff) :: u8
      in if b = 0 then 1 else b)"

lemma cal_key_fp_neq_0 [simp]: "cal_key_fp key \<noteq> 0"
  by (simp add: cal_key_fp_def Let_def)

section \<open>The mixing steps are permutations\<close>

text \<open>\<open>h ^= h >> n\<close> loses nothing: from the top, \<open>n\<close> bits at a time, \<open>h\<close> can be recovered.\<close>

lemma xorshift_inject:
  fixes x y :: "'a::len word"
  assumes "0 < n" and eq: "x XOR drop_bit n x = y XOR drop_bit n y"
  shows "x = y"
proof (rule bit_word_eqI)
  have step: "(bit x i \<noteq> bit x (n + i)) = (bit y i \<noteq> bit y (n + i))" for i
    using arg_cong [OF eq, of "\<lambda>w. bit w i"] by (simp add: bit_xor_iff bit_drop_bit_eq)
  fix i assume "i < LENGTH('a)"
  then show "bit x i = bit y i"
  proof (induction "LENGTH('a) - i" arbitrary: i rule: less_induct)
    case less
    show ?case
    proof (cases "n + i < LENGTH('a)")
      case True
      then have "bit x (n + i) = bit y (n + i)" using less assms(1) by simp
      with step [of i] show ?thesis by blast
    next
      case False
      then have "\<not> bit x (n + i)" "\<not> bit y (n + i)" by (auto dest: bit_imp_le_length)
      with step [of i] show ?thesis by blast
    qed
  qed
qed

lemma times_unit_inject:
  fixes x y m i :: "'a::len word"
  assumes "m * i = 1" and "x * m = y * m"
  shows "x = y"
proof -
  have "x * m * i = y * m * i" using assms(2) by simp
  then show ?thesis using assms(1) by (simp add: mult.assoc)
qed

lemma fmix32_inject: "fmix32 x = fmix32 y \<Longrightarrow> x = y"
  unfolding fmix32_def Let_def
  by (drule xorshift_inject [rotated], simp,
      drule times_unit_inject [of _ "0x7ed1b41d", rotated], simp,
      drule xorshift_inject [rotated], simp,
      drule times_unit_inject [of _ "0xa5cb9243", rotated], simp,
      drule xorshift_inject [rotated], simp, simp)

lemma MurmurHash64A_inject: "MurmurHash64A x seed = MurmurHash64A y seed \<Longrightarrow> x = y"
  unfolding MurmurHash64A_def Let_def
  by (drule xorshift_inject [rotated], simp,
      drule times_unit_inject [of _ "0x5f7a0ea7e59b19bd", rotated], simp,
      drule xorshift_inject [rotated], simp,
      drule times_unit_inject [of _ "0x5f7a0ea7e59b19bd", rotated], simp,
      drule arg_cong [of _ _ "\<lambda>w. (ucast seed XOR (8 * 0xc6a4a7935bd1e995)) XOR w"],
      simp only: bit.xor_left_self,
      drule times_unit_inject [of _ "0x5f7a0ea7e59b19bd", rotated], simp,
      drule xorshift_inject [rotated], simp,
      drule times_unit_inject [of _ "0x5f7a0ea7e59b19bd", rotated], simp, simp)

lemma rotl32_inject:
  assumes "r \<le> 32" and "rotl32 x r = rotl32 y r"
  shows "x = y"
proof (rule bit_word_eqI)
  fix i assume "i < LENGTH(32)"
  then have i: "i < 32" by simp
  let ?j = "if i + r < 32 then i + r else i + r - 32"
  have "bit (rotl32 z r) ?j = bit z i" for z
    using i assms(1) by (auto simp: rotl32_def bit_or_iff bit_push_bit_iff bit_drop_bit_eq
        dest: bit_imp_le_length)
  from this [of x] this [of y] assms(2) show "bit x i = bit y i" by simp
qed

lemma murmur_k1_inject: "murmur_k1 x = murmur_k1 y \<Longrightarrow> x = y"
  unfolding murmur_k1_def murmur_c1_def murmur_c2_def
  by (drule times_unit_inject [of _ "0x56ed309b", rotated], simp,
      drule rotl32_inject [rotated], simp,
      drule times_unit_inject [of _ "0xdee13bb1", rotated], simp, simp)

lemma murmur3_block_inject:
  assumes len: "length xs = 4" "length ys = 4"
    and eq: "MurmurHash3_x86_32 xs seed = MurmurHash3_x86_32 ys seed"
  shows "xs = ys"
proof -
  have body: "murmur_body zs seed = rotl32 (seed XOR murmur_k1 (le_word zs)) 13 * 5 + 0xe6546b64"
    if "length zs = 4" for zs
    using that by (auto simp: eval_nat_numeral length_Suc_conv simp del: le_word.simps)
  have "murmur_body xs seed = murmur_body ys seed"
    using fmix32_inject [OF eq [unfolded MurmurHash3_x86_32_def]] len
    by (simp, metis bit.xor_left_self xor.commute)
  then have "rotl32 (seed XOR murmur_k1 (le_word xs)) 13 * 5 = rotl32 (seed XOR murmur_k1 (le_word ys)) 13 * 5"
    using body len by simp
  then have "rotl32 (seed XOR murmur_k1 (le_word xs)) 13 = rotl32 (seed XOR murmur_k1 (le_word ys)) 13"
    by (rule times_unit_inject [of _ "0xcccccccd", rotated]) simp
  then have "seed XOR murmur_k1 (le_word xs) = seed XOR murmur_k1 (le_word ys)"
    by (rule rotl32_inject [rotated]) simp
  then have "murmur_k1 (le_word xs) = murmur_k1 (le_word ys)" by (metis bit.xor_left_self)
  then have "(le_word xs :: u32) = le_word ys" by (rule murmur_k1_inject)
  then show ?thesis
    using le_bytes_le_word [of xs, where 'a = 32] le_bytes_le_word [of ys, where 'a = 32] len by simp
qed

text \<open>
  C30: for every seed \<open>MurmurHash64A\<close> is a bijection of the 64-bit keys and \<open>MurmurHash3\<close> is
  injective on inputs of one block, so neither has a collision there; and no key has fingerprint 0, the byte that marks a free slot
  of a fingerprint table.
\<close>

theorem hash_bijections:
  "bij (\<lambda>key. MurmurHash64A key seed) \<and>
   inj_on (\<lambda>bs. MurmurHash3_x86_32 bs seed) {bs. length bs = 4} \<and>
   (\<forall>key. cal_key_fp key \<noteq> 0)"
proof (intro conjI allI)
  show "inj_on (\<lambda>bs. MurmurHash3_x86_32 bs seed) {bs. length bs = 4}"
    by (rule inj_onI) (auto intro: murmur3_block_inject)
  have "inj (\<lambda>key. MurmurHash64A key seed)" by (rule injI) (rule MurmurHash64A_inject)
  then show "bij (\<lambda>key. MurmurHash64A key seed)" by (simp add: bij_def finite_UNIV_inj_surj)
  show "cal_key_fp key \<noteq> 0" for key by simp
qed

text \<open>Published test vectors of the two byte hashes.\<close>

lemma murmur3_test_vectors:
  "MurmurHash3_x86_32 [] 0 = 0"
  "MurmurHash3_x86_32 [] 1 = 0x514E28B7"
  "MurmurHash3_x86_32 [97, 98, 99] 0 = 0xB3DD93FA"
  "MurmurHash3_x86_32 [0x21, 0x43, 0x65, 0x87] 0 = 0xF55B516B"
  by code_simp+

end
