(* ===== verification/LeafNode.thy ===== *)
theory LeafNode
  imports Hashing RdmaConfig
begin

text \<open>
  Model of \<open>DMTree/include/LeafNode.h\<close>: entries, fingerprint tables, leaf headers and the sizes
  of a leaf. A leaf is a header and \<open>capacity\<close> entries in a memory server; its fingerprint table
  is a separate object. \<open>ENABLE_ENTRY_CRC\<close> is not defined, so an entry has no checksum and
  \<open>Entry::check_consistent\<close> is constantly true. \<open>CityHash32\<close> is a library function, the parameter
  \<open>city\<close>.
\<close>

definition LeafNodeCapacity :: nat where [dm_sizes]: "LeafNodeCapacity = 32"
definition MaxNodeCapacity :: nat where [dm_sizes]: "MaxNodeCapacity = 128"

section \<open>Entries\<close>

record Entry =
  e_valid :: u8
  e_version :: "56 word"
  e_key :: KeyType
  e_value :: ValueType

text \<open>An entry after \<open>memset\<close> to zero.\<close>

definition entry_zero :: Entry where
  "entry_zero = \<lparr>e_valid = 0, e_version = 0, e_key = KeyNull, e_value = 0\<rparr>"

definition entry_add_version :: "Entry \<Rightarrow> Entry" where
  "entry_add_version e = e\<lparr>e_version := e_version e + 1\<rparr>"

definition entry_set_version :: "u64 \<Rightarrow> Entry \<Rightarrow> Entry" where
  "entry_set_version v e = e\<lparr>e_version := ucast v\<rparr>"

definition entry_search :: "KeyType \<Rightarrow> Entry \<Rightarrow> bool \<times> ValueType" where
  "entry_search k e =
     (if e_valid e = 1 \<and> e_key e = k then (True, e_value e) else (False, ValueNull))"

definition entry_insert :: "KeyType \<Rightarrow> ValueType \<Rightarrow> Entry \<Rightarrow> bool \<times> Entry" where
  "entry_insert k v e =
     (if e_valid e = 0 then (True, e\<lparr>e_key := k, e_value := v, e_valid := 1\<rparr>)
      else if e_key e = k then (True, e\<lparr>e_value := v\<rparr>)
      else (False, e))"

definition entry_clean :: "Entry \<Rightarrow> Entry result" where
  "entry_clean e =
     res_bind (res_assert ''this->valid == 1'' (e_valid e = 1)) (\<lambda>_.
     Inr (e\<lparr>e_valid := 0, e_key := KeyNull\<rparr>))"

record EntryPos =
  ep_key :: KeyType
  ep_value :: ValueType

definition EntryPos_of :: "Entry \<Rightarrow> EntryPos" where
  "EntryPos_of e = \<lparr>ep_key = e_key e, ep_value = e_value e\<rparr>"

definition entry_cmp :: "EntryPos \<Rightarrow> EntryPos \<Rightarrow> bool" where
  "entry_cmp a b \<longleftrightarrow> ep_key a < ep_key b"

section \<open>Fingerprint tables\<close>

record FPTable =
  ft_version :: u64
  ft_fp :: "u8 list"
  ft_crc :: u64
  ft_lock :: u64

definition fp_capacity :: "FPTable \<Rightarrow> nat" where
  "fp_capacity t = length (ft_fp t)"

text \<open>
  The image of a table in memory, and \<open>attach\<close>, which lays the four pointers over a buffer. A
  buffer that is too short for the capacity is an out-of-bounds access.
\<close>

definition fp_bytes :: "FPTable \<Rightarrow> u8 list" where
  "fp_bytes t = le_bytes 8 (ft_version t) @ ft_fp t @ le_bytes 8 (ft_crc t) @ le_bytes 8 (ft_lock t)"

definition fp_get_size :: "nat \<Rightarrow> nat" where
  [dm_sizes]: "fp_get_size c = 1 * c + 8 * 3"

definition fp_get_lock_offset :: "nat \<Rightarrow> nat" where
  [dm_sizes]: "fp_get_lock_offset c = fp_get_size c - 8"

definition fp_attach :: "u8 list \<Rightarrow> nat \<Rightarrow> FPTable result" where
  "fp_attach buffer c =
     (if length buffer < fp_get_size c then Inl OutOfBounds
      else Inr \<lparr>ft_version = le_word (take 8 buffer), ft_fp = take c (drop 8 buffer),
                ft_crc = le_word (take 8 (drop (8 + c) buffer)),
                ft_lock = le_word (take 8 (drop (16 + c) buffer))\<rparr>)"

definition fp_get_entry_num :: "FPTable \<Rightarrow> nat" where
  "fp_get_entry_num t = foldl (\<lambda>n f. if f \<noteq> 0 then n + 1 else n) 0 (ft_fp t)"

text \<open>The checksum covers the version and the fingerprints.\<close>

definition fp_hash :: "(u8 list \<Rightarrow> u32) \<Rightarrow> FPTable \<Rightarrow> u32" where
  "fp_hash city t = city (le_bytes 8 (ft_version t) @ ft_fp t)"

definition fp_set_consistent :: "(u8 list \<Rightarrow> u32) \<Rightarrow> FPTable \<Rightarrow> FPTable" where
  "fp_set_consistent city t = t\<lparr>ft_crc := ucast (fp_hash city t)\<rparr>"

definition fp_check_consistent :: "(u8 list \<Rightarrow> u32) \<Rightarrow> FPTable \<Rightarrow> bool" where
  "fp_check_consistent city t \<longleftrightarrow> ucast (ft_crc t) = fp_hash city t"

definition fp_insert :: "(u8 list \<Rightarrow> u32) \<Rightarrow> u8 \<Rightarrow> FPTable \<Rightarrow> (nat \<times> FPTable) option" where
  "fp_insert city f t =
     (case scan_from (\<lambda>x. x = 0) (ft_fp t) 0 of
        None \<Rightarrow> None
      | Some i \<Rightarrow> Some (i, fp_set_consistent city (t\<lparr>ft_fp := (ft_fp t)[i := f]\<rparr>)))"

definition fp_search :: "u8 \<Rightarrow> FPTable \<Rightarrow> nat option" where
  "fp_search f t = scan_from (\<lambda>x. x = f) (ft_fp t) 0"

text \<open>
  \<open>FPTable::add_version\<close> is \<open>*version++\<close>, which moves the pointer. It needs the pointers of the
  class, as byte addresses in a buffer: \<open>fp_pointers\<close> is \<open>attach\<close>, \<open>fp_set_consistent_at\<close> is
  \<open>set_consistent\<close> through the pointers.
\<close>

record FPPointers =
  fq_version :: nat
  fq_fp :: nat
  fq_crc :: nat
  fq_lock :: nat
  fq_capacity :: nat

definition fp_pointers :: "nat \<Rightarrow> nat \<Rightarrow> FPPointers" where
  "fp_pointers buffer c =
     \<lparr>fq_version = buffer, fq_fp = buffer + 8, fq_crc = buffer + 8 + c, fq_lock = buffer + 8 + c + 8,
      fq_capacity = c\<rparr>"

definition fp_set_consistent_at ::
  "(u8 list \<Rightarrow> u32) \<Rightarrow> FPPointers \<Rightarrow> u8 list \<Rightarrow> u8 list result" where
  "fp_set_consistent_at city p mem =
     (let crc_size = fp_get_size (fq_capacity p) - 8 * 2 in
      if length mem < fq_version p + crc_size \<or> length mem < fq_crc p + 8 then Inl OutOfBounds
      else let crc = ucast (city (take crc_size (drop (fq_version p) mem))) :: u64 in
           Inr (take (fq_crc p) mem @ le_bytes 8 crc @ drop (fq_crc p + 8) mem))"

definition fp_add_version ::
  "(u8 list \<Rightarrow> u32) \<Rightarrow> FPPointers \<Rightarrow> u8 list \<Rightarrow> (FPPointers \<times> u8 list) result" where
  "fp_add_version city p mem =
     (let p' = p\<lparr>fq_version := fq_version p + 8\<rparr> in
      res_bind (fp_set_consistent_at city p' mem) (\<lambda>mem'. Inr (p', mem')))"

definition fp_set_version :: "(u8 list \<Rightarrow> u32) \<Rightarrow> u64 \<Rightarrow> FPTable \<Rightarrow> FPTable" where
  "fp_set_version city v t = fp_set_consistent city (t\<lparr>ft_version := v\<rparr>)"

definition fp_unlock :: "FPTable \<Rightarrow> FPTable" where
  "fp_unlock t = t\<lparr>ft_lock := 0\<rparr>"

definition fp_clean :: "(u8 list \<Rightarrow> u32) \<Rightarrow> FPTable \<Rightarrow> FPTable" where
  "fp_clean city t = fp_set_consistent city (t\<lparr>ft_fp := map (\<lambda>_. 0) (ft_fp t)\<rparr>)"

text \<open>A table after \<open>memset\<close> to zero.\<close>

definition fp_zero :: "nat \<Rightarrow> FPTable" where
  "fp_zero c = \<lparr>ft_version = 0, ft_fp = replicate c 0, ft_crc = 0, ft_lock = 0\<rparr>"

section \<open>Leaf headers and leaves\<close>

record LeafHeader =
  lf_max_key :: KeyType
  lf_min_key :: KeyType
  lf_capacity :: int
  lf_version :: int
  lf_right_addr :: Gaddr
  lf_right_fp_addr :: Gaddr
  lf_right_capacity :: u64

text \<open>
  The default constructor leaves the two addresses uninitialised: \<open>ra\<close> and \<open>rfa\<close> are what the
  memory held.
\<close>

definition new_LeafHeader :: "Gaddr \<Rightarrow> Gaddr \<Rightarrow> LeafHeader" where
  "new_LeafHeader ra rfa =
     \<lparr>lf_max_key = KeyMax, lf_min_key = KeyNull, lf_capacity = 0, lf_version = 0,
      lf_right_addr = ra, lf_right_fp_addr = rfa, lf_right_capacity = 0\<rparr>"

definition update_right :: "Gaddr \<Rightarrow> Gaddr \<Rightarrow> u64 \<Rightarrow> LeafHeader \<Rightarrow> LeafHeader" where
  "update_right r_a r_fp_a r_c h =
     h\<lparr>lf_right_addr := r_a, lf_right_fp_addr := r_fp_a, lf_right_capacity := r_c\<rparr>"

definition sizeof_Entry :: nat where [dm_sizes]: "sizeof_Entry = 8 + KEY_SIZE + VALUE_SIZE"
definition sizeof_LeafHeader :: nat where
  [dm_sizes]: "sizeof_LeafHeader = KEY_SIZE + KEY_SIZE + 4 + 4 + 8 + 8 + 8"

text \<open>\<open>class LeafNode\<close> only holds the capacity set by \<open>attach_node\<close>.\<close>

definition attach_node :: "u64 \<Rightarrow> nat result" where
  "attach_node c = res_bind (res_assert ''capacity > 0'' (0 < c)) (\<lambda>_. Inr (unat c))"

definition cur_node_mag :: "nat \<Rightarrow> nat" where
  "cur_node_mag c = c div LeafNodeCapacity"

definition cur_node_size :: "nat \<Rightarrow> nat" where
  [dm_sizes]: "cur_node_size c = sizeof_LeafHeader + c * sizeof_Entry"

definition get_entry_offset :: "nat \<Rightarrow> nat" where
  [dm_sizes]: "get_entry_offset e_id = sizeof_LeafHeader + e_id * sizeof_Entry"

record LeafTable =
  lt_hdr :: LeafHeader
  lt_entries :: "Entry list"

section \<open>Entries: behaviour\<close>

text \<open>
  On an entry whose flag is 0 or 1, \<open>insert\<close> fails exactly when the entry holds another key,
  and then changes nothing; otherwise a search for the key finds the value, a search for another
  key that found nothing before finds nothing, and the version is kept. \<open>clean\<close> aborts on a free
  entry; on a used one it gives an entry in which no search succeeds.
\<close>

lemma entry_insert_correct:
  assumes "e_valid e = 0 \<or> e_valid e = 1"
  shows "case entry_insert k v e of (ok, e') \<Rightarrow>
           ok = (e_valid e = 0 \<or> e_key e = k) \<and>
           e_version e' = e_version e \<and> (e_valid e' = 0 \<or> e_valid e' = 1) \<and>
           (if ok then entry_search k e' = (True, v) else e' = e) \<and>
           (\<forall>k'. k' \<noteq> k \<and> \<not> fst (entry_search k' e) \<longrightarrow> \<not> fst (entry_search k' e')) \<and>
           (case entry_clean e' of
              Inr e'' \<Rightarrow> \<forall>k'. entry_search k' e'' = (False, ValueNull)
            | Inl _ \<Rightarrow> e_valid e' = 0)"
  using assms by (auto simp: entry_insert_def entry_search_def entry_clean_def)

lemma entry_insert_correct_witness:
  "\<exists>e'. entry_insert KeyMax 7 entry_zero = (True, e') \<and> entry_search KeyMax e' = (True, 7)"
proof -
  have z: "e_valid entry_zero = 0" by (simp add: entry_zero_def)
  obtain ok e' where r: "entry_insert KeyMax 7 entry_zero = (ok, e')" by fastforce
  with entry_insert_correct [OF disjI1 [OF z], of KeyMax 7] z show ?thesis by auto
qed

section \<open>Fingerprint tables: behaviour\<close>

lemma length_fp_bytes: "length (fp_bytes t) = fp_get_size (fp_capacity t)"
  by (simp add: fp_bytes_def fp_get_size_def fp_capacity_def)

lemma fp_attach_bytes: "fp_attach (fp_bytes t @ rest) (fp_capacity t) = Inr t"
proof -
  have "fp_attach (fp_bytes t @ rest) (fp_capacity t) =
      Inr \<lparr>ft_version = ft_version t, ft_fp = ft_fp t, ft_crc = ft_crc t, ft_lock = ft_lock t\<rparr>"
    by (simp add: fp_attach_def fp_bytes_def fp_get_size_def fp_capacity_def le_word_le_bytes_id)
  then show ?thesis by simp
qed

lemma fp_get_entry_num_eq: "fp_get_entry_num t = length (filter (\<lambda>f. f \<noteq> 0) (ft_fp t))"
proof -
  have "foldl (\<lambda>n f. if f \<noteq> (0::u8) then n + 1 else n) m fs = m + length (filter (\<lambda>f. f \<noteq> 0) fs)"
    for m :: nat and fs
    by (induction fs arbitrary: m) auto
  then show ?thesis by (simp add: fp_get_entry_num_def)
qed

lemma fp_check_set_consistent [simp]: "fp_check_consistent city (fp_set_consistent city t)"
proof -
  have "ucast (ucast (fp_hash city t) :: u64) = fp_hash city t"
    by (rule bit_word_eqI) (auto simp: bit_simps)
  then show ?thesis by (simp add: fp_check_consistent_def fp_set_consistent_def fp_hash_def)
qed

lemma fp_set_consistent_simps [simp]:
  "ft_fp (fp_set_consistent city t) = ft_fp t"
  "ft_version (fp_set_consistent city t) = ft_version t"
  "ft_lock (fp_set_consistent city t) = ft_lock t"
  by (simp_all add: fp_set_consistent_def)

lemma fp_insert_SomeD:
  assumes "fp_insert city f t = Some (i, t')"
  shows "i < fp_capacity t" and "ft_fp t ! i = 0" and "\<forall>j < i. ft_fp t ! j \<noteq> 0"
    and "ft_fp t' = (ft_fp t)[i := f]" and "fp_check_consistent city t'"
    and "ft_version t' = ft_version t" and "ft_lock t' = ft_lock t"
  using assms scan_from_0_SomeD [of "\<lambda>x. x = 0" "ft_fp t" i]
  by (auto simp: fp_insert_def fp_capacity_def split: option.splits)

lemma fp_insert_None_iff: "fp_insert city f t = None \<longleftrightarrow> 0 \<notin> set (ft_fp t)"
proof -
  have "fp_insert city f t = None \<longleftrightarrow> scan_from (\<lambda>x. x = 0) (ft_fp t) 0 = None"
    by (simp add: fp_insert_def split: option.splits)
  then show ?thesis by (auto simp: scan_from_None_iff)
qed

lemma length_filter_update:
  "i < length xs \<Longrightarrow> \<not> P (xs ! i) \<Longrightarrow> P x \<Longrightarrow>
     length (filter P (xs[i := x])) = Suc (length (filter P xs))"
proof (induction xs arbitrary: i)
  case Nil
  then show ?case by simp
next
  case (Cons y ys)
  then show ?case by (cases i) auto
qed

text \<open>
  \<open>FPTable::insert\<close> fails exactly on a full table. Otherwise it stores the fingerprint in the
  first free slot and nowhere else, keeps version and lock, leaves the table consistent, the
  entry count grows by one, and \<open>search\<close> for that fingerprint then succeeds. The table round-trips
  through its memory image.
\<close>

lemma fp_insert_correct:
  assumes "f \<noteq> 0"
  shows "case fp_insert city f t of
      None \<Rightarrow> fp_get_entry_num t = fp_capacity t
    | Some (i, t') \<Rightarrow>
        i < fp_capacity t \<and> ft_fp t ! i = 0 \<and> (\<forall>j < i. ft_fp t ! j \<noteq> 0) \<and>
        ft_fp t' = (ft_fp t)[i := f] \<and> ft_version t' = ft_version t \<and> ft_lock t' = ft_lock t \<and>
        fp_check_consistent city t' \<and> fp_get_entry_num t' = fp_get_entry_num t + 1 \<and>
        fp_search f t' \<noteq> None \<and> fp_attach (fp_bytes t') (fp_capacity t) = Inr t'"
proof (cases "fp_insert city f t")
  case None
  then have "0 \<notin> set (ft_fp t)" by (simp add: fp_insert_None_iff)
  then have "filter (\<lambda>x. x \<noteq> 0) (ft_fp t) = ft_fp t" by (auto simp: filter_id_conv)
  with None show ?thesis by (simp add: fp_get_entry_num_eq fp_capacity_def)
next
  case (Some p)
  obtain i t' where p: "p = (i, t')" by (cases p)
  note D = fp_insert_SomeD [OF Some [unfolded p]]
  have i: "i < length (ft_fp t)" using D(1) by (simp add: fp_capacity_def)
  have "fp_get_entry_num t' = fp_get_entry_num t + 1"
    unfolding fp_get_entry_num_eq D(4) using length_filter_update [OF i] D(2) assms by simp
  moreover have "f \<in> set (ft_fp t')" using D(4) i by (simp add: set_update_memI)
  then have "fp_search f t' \<noteq> None" unfolding fp_search_def scan_from_None_iff by blast
  moreover have "fp_attach (fp_bytes t') (fp_capacity t) = Inr t'"
    using fp_attach_bytes [of t' "[]"] D(4) by (simp add: fp_capacity_def)
  ultimately show ?thesis using D Some p by simp
qed

lemma fp_insert_correct_witness:
  "\<exists>t'. fp_insert (\<lambda>_. 0) 9 (fp_zero 2) = Some (0, t') \<and> fp_get_entry_num t' = 1"
proof -
  have z: "(9::u8) \<noteq> 0" by simp
  obtain t' where r: "fp_insert (\<lambda>_. 0) 9 (fp_zero 2) = Some (0, t')"
    by (simp add: fp_insert_def fp_zero_def numeral_2_eq_2)
  have "fp_get_entry_num (fp_zero 2) = 0" by (simp add: fp_get_entry_num_eq fp_zero_def)
  with fp_insert_correct [OF z, where city = "\<lambda>_. 0" and t = "fp_zero 2"] r show ?thesis by simp
qed

text \<open>
  Through the pointers of \<open>attach\<close>, \<open>set_consistent\<close> is the update of the table. After
  \<open>add_version\<close> the version pointer is at the fingerprints, the version in memory is what it was,
  and the checksum is a hash of the fingerprints and the old checksum.
\<close>

lemma fp_set_consistent_at_table:
  "fp_set_consistent_at city (fp_pointers (length a) (fp_capacity t)) (a @ fp_bytes t @ b) =
     Inr (a @ fp_bytes (fp_set_consistent city t) @ b)"
  by (simp add: fp_set_consistent_at_def fp_pointers_def fp_get_size_def fp_capacity_def fp_bytes_def
      fp_set_consistent_def fp_hash_def)

lemma fp_add_version_table:
  "fp_add_version city (fp_pointers (length a) (fp_capacity t)) (a @ fp_bytes t @ b) =
     Inr ((fp_pointers (length a) (fp_capacity t))\<lparr>fq_version := length a + 8\<rparr>,
          a @ fp_bytes (t\<lparr>ft_crc := ucast (city (ft_fp t @ le_bytes 8 (ft_crc t)))\<rparr>) @ b)"
  by (simp add: fp_add_version_def fp_set_consistent_at_def fp_pointers_def fp_get_size_def
      fp_capacity_def fp_bytes_def)

end
