(* ===== verification/LeafOps.thy ===== *)
theory LeafOps
  imports LeafNode "HOL-Library.Multiset"
begin

text \<open>
  The loops over one leaf in \<open>DMTree/src/DMTree.cc\<close>: the slot loop of \<open>leaf_search\<close>, the update
  and insert part of \<open>leaf_insert\<close>, the table part of \<open>leaf_resize\<close>, and \<open>read_table\<close>. They work on
  the fingerprint table and the entries; the tree theories bring both from the store. The main
  lemmas say that a well-formed leaf is a finite map and that these loops are lookup, update and
  split of that map.
\<close>

section \<open>The loops\<close>

datatype slot_res = Found | Stale | Absent

text \<open>
  The loop of \<open>leaf_search\<close>. \<open>value\<close> is the caller's variable: a failed \<open>Entry::search\<close> overwrites
  it with \<open>ValueNull\<close>.
\<close>

fun search_slots ::
  "u8 \<Rightarrow> KeyType \<Rightarrow> 56 word \<Rightarrow> u8 list \<Rightarrow> Entry list \<Rightarrow> ValueType \<Rightarrow> (slot_res \<times> ValueType) result" where
  "search_slots f k ver [] es value = Inr (Absent, value)"
| "search_slots f k ver (x # xs) [] value = Inl BadAddress"
| "search_slots f k ver (x # xs) (e # es) value =
     (if x \<noteq> f then search_slots f k ver xs es value
      else if e_version e \<noteq> ver then Inr (Stale, value)
      else (case entry_search k e of
              (True, v) \<Rightarrow> Inr (Found, v)
            | (False, v) \<Rightarrow> search_slots f k ver xs es v))"

text \<open>The first loop of \<open>leaf_insert\<close>: the index and new content of the entry it writes back.\<close>

fun insert_slots ::
  "u8 \<Rightarrow> KeyType \<Rightarrow> ValueType \<Rightarrow> 56 word \<Rightarrow> nat \<Rightarrow> u8 list \<Rightarrow> Entry list \<Rightarrow> (nat \<times> Entry) option result" where
  "insert_slots f k v ver i [] es = Inr None"
| "insert_slots f k v ver i (x # xs) [] = Inl BadAddress"
| "insert_slots f k v ver i (x # xs) (e # es) =
     (if x \<noteq> f then insert_slots f k v ver (Suc i) xs es
      else res_bind (res_assert ''entry->get_version() == path.version'' (e_version e = ver)) (\<lambda>_.
           case entry_insert k v e of
             (True, e') \<Rightarrow> Inr (Some (i, e'))
           | (False, _) \<Rightarrow> insert_slots f k v ver (Suc i) xs es))"

datatype put_res = Updated "Entry list" | Added FPTable "Entry list" | Full

text \<open>The locked part of \<open>leaf_insert\<close>, from the fingerprint to the call of \<open>leaf_resize\<close>.\<close>

definition leaf_put ::
  "(u8 list \<Rightarrow> u32) \<Rightarrow> KeyType \<Rightarrow> ValueType \<Rightarrow> 56 word \<Rightarrow> FPTable \<Rightarrow> Entry list \<Rightarrow> put_res result" where
  "leaf_put city k v ver ft es =
     (let fp = cal_key_fp k in
      res_bind (insert_slots fp k v ver 0 (ft_fp ft) es) (\<lambda>hit.
      case hit of
        Some (i, e') \<Rightarrow> Inr (Updated (es[i := e']))
      | None \<Rightarrow>
          (case fp_insert city fp ft of
             Some (i, ft') \<Rightarrow>
               (if length es \<le> i then Inl BadAddress
                else (case entry_insert k v (entry_set_version (ucast ver) entry_zero) of
                        (ok, e') \<Rightarrow>
                          res_bind (res_assert ''entry->insert(key, value)'' ok) (\<lambda>_.
                          Inr (Added (fp_unlock ft') (es[i := e'])))))
           | None \<Rightarrow> Inr Full)))"

text \<open>
  The first loop of \<open>leaf_resize\<close>: every entry gets the next version; the used ones are collected
  and cleaned.
\<close>

fun collect_entries :: "Entry list \<Rightarrow> (Entry list \<times> EntryPos list) result" where
  "collect_entries [] = Inr ([], [])"
| "collect_entries (e # es) =
     (let e1 = entry_add_version e in
      if e_valid e1 = 1
      then res_bind (entry_clean e1) (\<lambda>e2.
           res_bind (collect_entries es) (\<lambda>(es', ps). Inr (e2 # es', EntryPos_of e1 # ps)))
      else res_bind (collect_entries es) (\<lambda>(es', ps). Inr (e1 # es', ps)))"

text \<open>The body of the loop that distributes the collected entries, and the loop over one side.\<close>

definition place_entry ::
  "(u8 list \<Rightarrow> u32) \<Rightarrow> EntryPos \<Rightarrow> FPTable \<times> Entry list \<Rightarrow> (FPTable \<times> Entry list) result" where
  "place_entry city p = (\<lambda>(ft, es).
     case fp_insert city (cal_key_fp (ep_key p)) ft of
       None \<Rightarrow> Inl (AssertFail ''fp_table->insert(fp, e_id)'')
     | Some (i, ft') \<Rightarrow>
         (if length es \<le> i then Inl OutOfBounds
          else (case entry_insert (ep_key p) (ep_value p) (es ! i) of
                  (ok, e') \<Rightarrow>
                    res_bind (res_assert ''entry->insert(key, value)'' ok) (\<lambda>_.
                    Inr (ft', es[i := e'])))))"

fun place_entries ::
  "(u8 list \<Rightarrow> u32) \<Rightarrow> EntryPos list \<Rightarrow> FPTable \<times> Entry list \<Rightarrow> (FPTable \<times> Entry list) result" where
  "place_entries city [] s = Inr s"
| "place_entries city (p # ps) s = res_bind (place_entry city p s) (place_entries city ps)"

record resize_out =
  ro_cur :: LeafTable
  ro_cur_ft :: FPTable
  ro_sib :: LeafTable
  ro_sib_ft :: FPTable

text \<open>
  \<open>leaf_resize\<close> between the read of the node and the writes: \<open>buffer\<close> and \<open>sibling_buffer\<close> are the
  addresses of the RDMA buffers for the leaf and the new sibling, each followed by its fingerprint
  table, \<open>sib_cap\<close> is the capacity that \<open>adapt_capacity\<close> chose and \<open>sib_a\<close>, \<open>sib_fa\<close> are the
  allocated addresses. When the two images overlap, clearing the sibling destroys entries of the
  leaf and the function goes on with corrupt tables (or stops at a failing \<open>assert\<close>); this appears
  as the error \<open>BufferOverlap\<close>. Incrementing the \<open>int\<close> version past its maximum is undefined and
  appears as an error.
\<close>

definition leaf_image :: "nat \<Rightarrow> nat" where
  [dm_sizes]: "leaf_image c = cur_node_size c + fp_get_size c"

definition resize_tables ::
  "(u8 list \<Rightarrow> u32) \<Rightarrow> nat \<Rightarrow> nat \<Rightarrow> nat \<Rightarrow> nat \<Rightarrow> KeyType \<Rightarrow> ValueType \<Rightarrow> Gaddr \<Rightarrow> Gaddr \<Rightarrow> LeafTable \<Rightarrow>
     resize_out result" where
  "resize_tables city buffer sibling_buffer cur_cap sib_cap k v sib_a sib_fa lt =
     res_bind (collect_entries (lt_entries lt)) (\<lambda>(es, collected).
     if images_overlap buffer (leaf_image cur_cap) sibling_buffer (leaf_image sib_cap)
     then Inl BufferOverlap
     else
     let node_entries = sort_key ep_key (\<lparr>ep_key = k, ep_value = v\<rparr> # collected);
         split = (if sib_cap > cur_cap then 0 else length node_entries div 2);
         hdr = lt_hdr lt
     in if lf_version hdr = 2 ^ 31 - 1 then Inl IntOverflow
        else
     let cur_hdr = (update_right sib_a sib_fa (of_nat sib_cap)
                      (hdr\<lparr>lf_version := lf_version hdr + 1\<rparr>))
                    \<lparr>lf_max_key := ep_key (node_entries ! split)\<rparr>;
         cur_ft = fp_set_version city (of_int (lf_version cur_hdr)) (fp_zero cur_cap)
     in res_bind (place_entries city (take split node_entries) (cur_ft, es)) (\<lambda>(cur_ft', cur_es).
        res_bind (place_entries city (drop split node_entries)
                    (fp_zero sib_cap, replicate sib_cap entry_zero)) (\<lambda>(sib_ft, sib_es).
        Inr \<lparr>ro_cur = \<lparr>lt_hdr = cur_hdr, lt_entries = cur_es\<rparr>, ro_cur_ft = cur_ft',
             ro_sib = \<lparr>lt_hdr = hdr\<lparr>lf_version := 0, lf_capacity := int sib_cap,
                                  lf_min_key := lf_max_key cur_hdr\<rparr>,
                       lt_entries = sib_es\<rparr>,
             ro_sib_ft = sib_ft\<rparr>)))"

text \<open>
  \<open>read_table\<close>: how many entries it reads, and the check that they carry one version.
\<close>

definition read_num :: "nat \<Rightarrow> nat \<Rightarrow> nat" where
  "read_num cap entry_num = (if entry_num < cap then entry_num + 1 else entry_num)"

definition read_table :: "nat \<Rightarrow> LeafTable \<Rightarrow> nat \<Rightarrow> bool" where
  "read_table cap lt entry_num =
     (case take (read_num cap entry_num) (lt_entries lt) of
        [] \<Rightarrow> True
      | e # es \<Rightarrow> list_all (\<lambda>e'. e_version e' = e_version e) es)"

text \<open>The loop of \<open>leaf_scan\<close> over the entries it read.\<close>

definition scan_entries :: "KeyType \<Rightarrow> Entry list \<Rightarrow> EntryPos list" where
  "scan_entries from es = map EntryPos_of (filter (\<lambda>e. e_valid e = 1 \<and> from \<le> e_key e) es)"

section \<open>A leaf as a finite map\<close>

lemma ucast_56_64: "ucast (ucast (x :: 56 word) :: u64) = x"
  by (rule bit_word_eqI) (auto simp: bit_simps)

definition table_kvs :: "Entry list \<Rightarrow> (KeyType \<times> ValueType) list" where
  "table_kvs es = map (\<lambda>e. (e_key e, e_value e)) (filter (\<lambda>e. e_valid e = 1) es)"

definition table_map :: "Entry list \<Rightarrow> KeyType \<rightharpoonup> ValueType" where
  "table_map es = map_of (table_kvs es)"

text \<open>A slot is free in both tables, or used in both with the key's fingerprint.\<close>

definition slot_ok :: "56 word \<Rightarrow> u8 \<Rightarrow> Entry \<Rightarrow> bool" where
  "slot_ok ver f e \<longleftrightarrow>
     e_version e = ver \<and>
     (f = 0 \<and> e_valid e = 0 \<or> f = cal_key_fp (e_key e) \<and> e_valid e = 1)"

definition table_wf :: "(u8 list \<Rightarrow> u32) \<Rightarrow> 56 word \<Rightarrow> FPTable \<Rightarrow> Entry list \<Rightarrow> bool" where
  "table_wf city ver ft es \<longleftrightarrow>
     list_all2 (slot_ok ver) (ft_fp ft) es \<and> distinct (map fst (table_kvs es)) \<and>
     ft_version ft = ucast ver \<and> fp_check_consistent city ft"

lemma table_kvs_simps [simp]:
  "table_kvs [] = []"
  "table_kvs (e # es) = (if e_valid e = 1 then (e_key e, e_value e) # table_kvs es else table_kvs es)"
  "table_kvs (es @ es') = table_kvs es @ table_kvs es'"
  by (simp_all add: table_kvs_def)

lemma table_map_Cons:
  "table_map (e # es) =
     (if e_valid e = 1 then (table_map es)(e_key e \<mapsto> e_value e) else table_map es)"
  by (simp add: table_map_def)

lemma table_map_Nil [simp]: "table_map [] = Map.empty"
  by (simp add: table_map_def)

lemma table_map_None_iff: "table_map es k = None \<longleftrightarrow> (\<forall>e \<in> set es. e_valid e = 1 \<longrightarrow> e_key e \<noteq> k)"
  by (induction es) (auto simp: table_map_Cons)

section \<open>Search\<close>

lemma search_slots_correct:
  assumes "list_all2 (slot_ok ver) fps es" and "distinct (map fst (table_kvs es))"
  shows "case table_map es k of
      Some v \<Rightarrow> search_slots (cal_key_fp k) k ver fps es val = Inr (Found, v)
    | None \<Rightarrow> \<exists>v'. search_slots (cal_key_fp k) k ver fps es val = Inr (Absent, v') \<and>
                    (v' = val \<or> v' = ValueNull)"
  using assms
proof (induction arbitrary: val rule: list_all2_induct)
  case Nil
  then show ?case by simp
next
  case (Cons x xs e es)
  have IH: "case table_map es k of
      Some v \<Rightarrow> search_slots (cal_key_fp k) k ver xs es w = Inr (Found, v)
    | None \<Rightarrow> \<exists>v'. search_slots (cal_key_fp k) k ver xs es w = Inr (Absent, v') \<and>
                    (v' = w \<or> v' = ValueNull)" for w
    using Cons.IH Cons.prems by (simp split: if_splits)
  show ?case
  proof (cases "e_valid e = 1 \<and> e_key e = k")
    case True
    with Cons.hyps show ?thesis
      by (auto simp: slot_ok_def entry_search_def table_map_Cons)
  next
    case False
    then have m: "table_map (e # es) k = table_map es k" by (auto simp: table_map_Cons)
    show ?thesis
    proof (cases "x = cal_key_fp k")
      case True
      with Cons.hyps False have "search_slots (cal_key_fp k) k ver (x # xs) (e # es) val =
          search_slots (cal_key_fp k) k ver xs es ValueNull"
        by (auto simp: slot_ok_def entry_search_def)
      with IH [of ValueNull] m show ?thesis by (auto split: option.splits)
    qed (use IH [of val] m in \<open>auto split: option.splits\<close>)
  qed
qed

text \<open>Whatever fingerprints guide it, a search only reports values of the table.\<close>

lemma search_slots_sound:
  assumes "search_slots f k ver fps es val = Inr (Found, v)" and "distinct (map fst (table_kvs es))"
  shows "table_map es k = Some v"
  using assms
proof (induction f k ver fps es val rule: search_slots.induct)
  case (3 f k ver x xs e es val)
  show ?case
  proof (cases "e_valid e = 1 \<and> e_key e = k")
    case True
    show ?thesis
    proof (cases "x = f")
      case False
      with 3 True have "table_map es k = Some v" by simp
      with 3(4) True show ?thesis
        by (auto simp: table_map_def dest!: map_of_SomeD intro: rev_image_eqI)
    qed (use 3 True in \<open>auto simp: entry_search_def table_map_Cons split: if_splits\<close>)
  next
    case False
    then have m: "table_map (e # es) k = table_map es k" by (auto simp: table_map_Cons)
    have d: "distinct (map fst (table_kvs es))" using 3(4) by (simp split: if_splits)
    show ?thesis unfolding m
      using 3 False d by (auto simp: entry_search_def split: if_splits)
  qed
qed simp_all

lemma search_slots_total:
  assumes "length fps = length es" and "\<forall>e \<in> set es. e_version e = ver"
  shows "\<exists>r v. search_slots f k ver fps es val = Inr (r, v) \<and> r \<noteq> Stale"
  using assms
proof (induction fps es arbitrary: val rule: list_induct2)
  case Nil
  then show ?case by simp
next
  case (Cons x xs e es)
  then show ?case by (cases "entry_search k e") (auto split: bool.splits)
qed

section \<open>Insertion\<close>

lemma insert_slots_correct:
  assumes "list_all2 (slot_ok ver) fps es"
  shows "case insert_slots (cal_key_fp k) k v ver base fps es of
      Inl _ \<Rightarrow> False
    | Inr None \<Rightarrow> table_map es k = None
    | Inr (Some (i, e')) \<Rightarrow>
        base \<le> i \<and> i - base < length es \<and> e_valid (es ! (i - base)) = 1 \<and> e_key (es ! (i - base)) = k \<and>
        e' = (es ! (i - base))\<lparr>e_value := v\<rparr>"
  using assms
proof (induction arbitrary: base rule: list_all2_induct)
  case Nil
  then show ?case by simp
next
  case (Cons x xs e es)
  let ?r = "insert_slots (cal_key_fp k) k v ver (Suc base) xs es"
  show ?case
  proof (cases "x = cal_key_fp k \<and> e_key e = k")
    case True
    with Cons.hyps have "e_valid e = 1" "e_version e = ver" by (auto simp: slot_ok_def)
    with True show ?thesis by (simp add: entry_insert_def)
  next
    case False
    have eq: "insert_slots (cal_key_fp k) k v ver base (x # xs) (e # es) = ?r"
      using False Cons.hyps by (auto simp: slot_ok_def entry_insert_def)
    have "table_map (e # es) k = table_map es k"
      using False Cons.hyps by (auto simp: slot_ok_def table_map_Cons)
    with Cons.IH [of "Suc base"] show ?thesis unfolding eq
      by (auto simp: Suc_diff_Suc nth_Cons' split: sum.splits option.splits)
  qed
qed

lemma table_kvs_update:
  assumes "i < length es"
  shows "table_kvs (es[i := e]) =
     table_kvs (take i es) @ (if e_valid e = 1 then [(e_key e, e_value e)] else []) @
     table_kvs (drop (Suc i) es)"
  using assms by (simp add: upd_conv_take_nth_drop)

lemma table_kvs_split:
  assumes "i < length es"
  shows "table_kvs es =
     table_kvs (take i es) @ (if e_valid (es ! i) = 1 then [(e_key (es ! i), e_value (es ! i))] else []) @
     table_kvs (drop (Suc i) es)"
  using table_kvs_update [OF assms, of "es ! i"] by simp

lemma map_of_insert_mid:
  "k \<notin> fst ` set as \<Longrightarrow> map_of (as @ (k, v) # bs) = (map_of (as @ bs))(k \<mapsto> v)"
  by (induction as) auto

lemma table_wf_update:
  assumes wf: "table_wf city ver ft es" and i: "i < length es" and e: "e_valid (es ! i) = 1"
  shows "table_wf city ver ft (es[i := (es ! i)\<lparr>e_value := v\<rparr>])"
    and "table_map (es[i := (es ! i)\<lparr>e_value := v\<rparr>]) = (table_map es)(e_key (es ! i) \<mapsto> v)"
proof -
  let ?e = "(es ! i)\<lparr>e_value := v\<rparr>" and ?A = "table_kvs (take i es)" and ?B = "table_kvs (drop (Suc i) es)"
  have old: "table_kvs es = ?A @ (e_key (es ! i), e_value (es ! i)) # ?B"
    using table_kvs_split [OF i] e by simp
  have new: "table_kvs (es[i := ?e]) = ?A @ (e_key (es ! i), v) # ?B"
    using table_kvs_update [OF i, of ?e] e by simp
  have d: "distinct (map fst (?A @ (e_key (es ! i), e_value (es ! i)) # ?B))"
    using wf old by (simp add: table_wf_def)
  have la: "list_all2 (slot_ok ver) (ft_fp ft) es" using wf by (simp add: table_wf_def)
  have "slot_ok ver (ft_fp ft ! i) (es ! i)"
    using list_all2_nthD2 [OF la i] .
  then have "slot_ok ver (ft_fp ft ! i) ?e" by (simp add: slot_ok_def)
  then have "list_all2 (slot_ok ver) ((ft_fp ft)[i := ft_fp ft ! i]) (es[i := ?e])"
    using la by (rule list_all2_update_cong [rotated])
  then show "table_wf city ver ft (es[i := ?e])"
    using wf d new by (simp add: table_wf_def)
  have "e_key (es ! i) \<notin> fst ` set ?A" using d by auto
  then show "table_map (es[i := ?e]) = (table_map es)(e_key (es ! i) \<mapsto> v)"
    unfolding table_map_def old new by (simp add: map_of_insert_mid del: map_of_append)
qed

text \<open>Filling a free slot with an entry for a new key.\<close>

lemma table_wf_fill:
  assumes la: "list_all2 (slot_ok ver) fps es" and d: "distinct (map fst (table_kvs es))"
    and i: "i < length es" and free: "fps ! i = 0" and new: "table_map es (e_key e) = None"
    and e: "e_valid e = 1" "e_version e = ver"
  shows "list_all2 (slot_ok ver) (fps[i := cal_key_fp (e_key e)]) (es[i := e])"
    and "distinct (map fst (table_kvs (es[i := e])))"
    and "table_map (es[i := e]) = (table_map es)(e_key e \<mapsto> e_value e)"
    and "length (table_kvs (es[i := e])) = Suc (length (table_kvs es))"
proof -
  let ?A = "table_kvs (take i es)" and ?B = "table_kvs (drop (Suc i) es)"
  have "slot_ok ver (fps ! i) (es ! i)" using list_all2_nthD2 [OF la i] .
  then have "e_valid (es ! i) = 0" using free by (auto simp: slot_ok_def)
  then have old: "table_kvs es = ?A @ ?B" using table_kvs_split [OF i] by simp
  have upd: "table_kvs (es[i := e]) = ?A @ (e_key e, e_value e) # ?B"
    using table_kvs_update [OF i, of e] e by simp
  have notin: "e_key e \<notin> fst ` set (?A @ ?B)"
    using new unfolding table_map_def old by (simp add: map_of_eq_None_iff image_Un)
  show "list_all2 (slot_ok ver) (fps[i := cal_key_fp (e_key e)]) (es[i := e])"
    by (rule list_all2_update_cong [OF la]) (use e in \<open>simp add: slot_ok_def\<close>)
  show "distinct (map fst (table_kvs (es[i := e])))"
    using d notin unfolding upd old by auto
  show "table_map (es[i := e]) = (table_map es)(e_key e \<mapsto> e_value e)"
    unfolding table_map_def upd old using notin by (simp add: map_of_insert_mid image_Un del: map_of_append)
  show "length (table_kvs (es[i := e])) = Suc (length (table_kvs es))"
    unfolding upd old by simp
qed

lemma table_full_length:
  assumes "list_all2 (slot_ok ver) fps es" and "0 \<notin> set fps"
  shows "length (table_kvs es) = length es"
  using assms by (induction rule: list_all2_induct) (auto simp: slot_ok_def)

text \<open>The locked part of an insertion, against the map.\<close>

lemma leaf_put_cases:
  assumes wf: "table_wf city ver ft es"
  obtains (updated) es' where "leaf_put city k v ver ft es = Inr (Updated es')"
      and "table_map es k \<noteq> None" and "table_wf city ver ft es'"
      and "table_map es' = (table_map es)(k \<mapsto> v)" and "length es' = length es"
    | (added) ft' es' where "leaf_put city k v ver ft es = Inr (Added ft' es')"
      and "table_map es k = None" and "table_wf city ver ft' es'" and "ft_lock ft' = 0"
      and "fp_capacity ft' = fp_capacity ft" and "table_map es' = (table_map es)(k \<mapsto> v)"
      and "length es' = length es"
    | (full) "leaf_put city k v ver ft es = Inr Full" and "table_map es k = None"
      and "length (table_kvs es) = length es"
proof -
  have la: "list_all2 (slot_ok ver) (ft_fp ft) es" and d: "distinct (map fst (table_kvs es))"
    using wf by (simp_all add: table_wf_def)
  then have len: "fp_capacity ft = length es" by (simp add: fp_capacity_def list_all2_lengthD)
  note slots = insert_slots_correct [OF la, where k = k and v = v and base = 0]
  show ?thesis
  proof (cases "insert_slots (cal_key_fp k) k v ver 0 (ft_fp ft) es")
    case (Inl err)
    with slots show ?thesis by simp
  next
    case (Inr hit)
    show ?thesis
    proof (cases hit)
      case (Some ie)
      obtain i e' where "ie = (i, e')" by (cases ie)
      with slots Inr Some have i: "i < length es" "e_valid (es ! i) = 1" "e_key (es ! i) = k"
        and eq: "leaf_put city k v ver ft es = Inr (Updated (es[i := (es ! i)\<lparr>e_value := v\<rparr>]))"
        by (auto simp: leaf_put_def)
      have "table_map es k \<noteq> None" using i by (auto simp: table_map_None_iff)
      with table_wf_update [OF wf i(1,2), of v] i(3) show ?thesis
        by (intro updated [OF eq]) simp_all
    next
      case None
      with slots Inr have new: "table_map es k = None" by simp
      show ?thesis
      proof (cases "fp_insert city (cal_key_fp k) ft")
        case None2: None
        then have "leaf_put city k v ver ft es = Inr Full" using Inr None by (simp add: leaf_put_def)
        moreover have "0 \<notin> set (ft_fp ft)" using None2 by (simp add: fp_insert_None_iff)
        ultimately show ?thesis using full new table_full_length [OF la] by blast
      next
        case (Some it)
        obtain i ft' where it: "it = (i, ft')" by (cases it)
        note D = fp_insert_SomeD [OF Some [unfolded it]]
        let ?e = "entry_zero\<lparr>e_version := ver, e_key := k, e_value := v, e_valid := 1\<rparr>"
        have i: "i < length es" using D(1) len by simp
        have "entry_insert k v (entry_set_version (ucast ver) entry_zero) = (True, ?e)"
          by (simp add: entry_insert_def entry_set_version_def entry_zero_def ucast_56_64)
        then have eq: "leaf_put city k v ver ft es = Inr (Added (fp_unlock ft') (es[i := ?e]))"
          using Inr None Some it i by (simp add: leaf_put_def)
        note fill = table_wf_fill [OF la d i D(2), of ?e]
        have "table_wf city ver (fp_unlock ft') (es[i := ?e])"
          using fill(1,2) new D(4,5,6) wf
          by (simp add: table_wf_def fp_unlock_def fp_check_consistent_def fp_hash_def)
        moreover have "table_map (es[i := ?e]) = (table_map es)(k \<mapsto> v)" using fill(3) new by simp
        ultimately show ?thesis
          using new D(4) by (intro added [OF eq]) (simp_all add: fp_unlock_def fp_capacity_def)
      qed
    qed
  qed
qed

section \<open>Splitting\<close>

definition ep_kv :: "EntryPos \<Rightarrow> KeyType \<times> ValueType" where
  "ep_kv p = (ep_key p, ep_value p)"

lemma fst_ep_kv [simp]: "fst (ep_kv p) = ep_key p"
  by (simp add: ep_kv_def)

lemma collect_entries_correct:
  assumes "\<forall>e \<in> set es. (e_valid e = 0 \<or> e_valid e = 1) \<and> e_version e = ver"
  shows "\<exists>es' ps. collect_entries es = Inr (es', ps) \<and> length es' = length es \<and>
     (\<forall>e \<in> set es'. e_valid e = 0 \<and> e_version e = ver + 1) \<and> map ep_kv ps = table_kvs es"
  using assms
proof (induction es)
  case Nil
  then show ?case by simp
next
  case (Cons e es)
  then obtain es' ps where IH: "collect_entries es = Inr (es', ps)" "length es' = length es"
    "\<forall>e \<in> set es'. e_valid e = 0 \<and> e_version e = ver + 1" "map ep_kv ps = table_kvs es" by auto
  show ?case
  proof (cases "e_valid e = 1")
    case True
    moreover have "ep_kv (EntryPos_of (entry_add_version e)) = (e_key e, e_value e)"
      by (simp add: ep_kv_def EntryPos_of_def entry_add_version_def)
    ultimately show ?thesis
      using IH Cons.prems by (simp add: Let_def entry_add_version_def entry_clean_def)
  next
    case False
    with IH Cons.prems show ?thesis by (simp add: Let_def entry_add_version_def)
  qed
qed

text \<open>
  Placing entries with new keys into a table with enough free slots: the table gains exactly
  them.
\<close>

definition slots_wf :: "56 word \<Rightarrow> u8 list \<Rightarrow> Entry list \<Rightarrow> bool" where
  "slots_wf ver fps es \<longleftrightarrow> list_all2 (slot_ok ver) fps es \<and> distinct (map fst (table_kvs es))"

lemma place_entry_correct:
  assumes wf: "slots_wf ver (ft_fp ft) es" and new: "table_map es (ep_key p) = None"
    and room: "length (table_kvs es) < length es"
  shows "\<exists>ft' es'. place_entry city p (ft, es) = Inr (ft', es') \<and> slots_wf ver (ft_fp ft') es' \<and>
     table_map es' = (table_map es)(ep_key p \<mapsto> ep_value p) \<and> length es' = length es \<and>
     length (table_kvs es') = Suc (length (table_kvs es)) \<and> fp_check_consistent city ft' \<and>
     ft_version ft' = ft_version ft \<and> ft_lock ft' = ft_lock ft"
proof -
  have la: "list_all2 (slot_ok ver) (ft_fp ft) es" and d: "distinct (map fst (table_kvs es))"
    using wf by (simp_all add: slots_wf_def)
  have "0 \<in> set (ft_fp ft)" using table_full_length [OF la] room by force
  then obtain i ft' where ins: "fp_insert city (cal_key_fp (ep_key p)) ft = Some (i, ft')"
    by (cases "fp_insert city (cal_key_fp (ep_key p)) ft") (auto simp: fp_insert_None_iff)
  note D = fp_insert_SomeD [OF ins]
  have i: "i < length es" using D(1) la by (simp add: fp_capacity_def list_all2_lengthD)
  have ok: "slot_ok ver (ft_fp ft ! i) (es ! i)" using list_all2_nthD2 [OF la i] .
  then have free: "e_valid (es ! i) = 0" "e_version (es ! i) = ver"
    using D(2) by (auto simp: slot_ok_def)
  let ?e = "(es ! i)\<lparr>e_key := ep_key p, e_value := ep_value p, e_valid := 1\<rparr>"
  have eq: "place_entry city p (ft, es) = Inr (ft', es[i := ?e])"
    using ins i free by (simp add: place_entry_def entry_insert_def)
  note fill = table_wf_fill [OF la d i D(2), of ?e]
  show ?thesis
    using eq fill new free D by (intro exI [of _ ft'] exI [of _ "es[i := ?e]"]) (simp add: slots_wf_def)
qed

lemma place_entries_correct:
  assumes "slots_wf ver (ft_fp ft) es" and "distinct (map ep_key ps)"
    and "\<forall>p \<in> set ps. table_map es (ep_key p) = None"
    and "length (table_kvs es) + length ps \<le> length es"
  shows "\<exists>ft' es'. place_entries city ps (ft, es) = Inr (ft', es') \<and> slots_wf ver (ft_fp ft') es' \<and>
     table_map es' = table_map es ++ map_of (map ep_kv ps) \<and> length es' = length es \<and>
     (ps \<noteq> [] \<or> fp_check_consistent city ft \<longrightarrow> fp_check_consistent city ft') \<and>
     ft_version ft' = ft_version ft \<and> ft_lock ft' = ft_lock ft"
  using assms
proof (induction ps arbitrary: ft es)
  case Nil
  then show ?case by simp
next
  case (Cons p ps)
  have "table_map es (ep_key p) = None" "length (table_kvs es) < length es"
    using Cons.prems(3,4) by simp_all
  from place_entry_correct [OF Cons.prems(1) this, of city] obtain ft1 es1 where
    one: "place_entry city p (ft, es) = Inr (ft1, es1)" "slots_wf ver (ft_fp ft1) es1"
      "table_map es1 = (table_map es)(ep_key p \<mapsto> ep_value p)" "length es1 = length es"
      "length (table_kvs es1) = Suc (length (table_kvs es))" "fp_check_consistent city ft1"
      "ft_version ft1 = ft_version ft" "ft_lock ft1 = ft_lock ft"
    by blast
  have "\<forall>q \<in> set ps. table_map es1 (ep_key q) = None" 
  proof
    fix q assume "q \<in> set ps"
    then have "ep_key q \<in> ep_key ` set ps" by simp
    then have "ep_key q \<noteq> ep_key p" using Cons.prems(2) by auto
    then show "table_map es1 (ep_key q) = None" using Cons.prems(3) one(3) \<open>q \<in> set ps\<close> by simp
  qed
  moreover have "distinct (map ep_key ps)" using Cons.prems(2) by simp
  moreover have "length (table_kvs es1) + length ps \<le> length es1" using Cons.prems(4) one(4,5) by simp
  ultimately obtain ft2 es2 where
    rest: "place_entries city ps (ft1, es1) = Inr (ft2, es2)" "slots_wf ver (ft_fp ft2) es2"
      "table_map es2 = table_map es1 ++ map_of (map ep_kv ps)" "length es2 = length es1"
      "fp_check_consistent city ft2" "ft_version ft2 = ft_version ft1" "ft_lock ft2 = ft_lock ft1"
    using Cons.IH [OF one(2)] one(6) by blast
  have "ep_key p \<notin> dom (map_of (map ep_kv ps))"
    using Cons.prems(2) by (auto simp: dom_map_of_conv_image_fst image_image ep_kv_def)
  then have "(table_map es)(ep_key p \<mapsto> ep_value p) ++ map_of (map ep_kv ps) =
      table_map es ++ map_of (map ep_kv (p # ps))"
    by (simp add: ep_kv_def map_add_upd_left)
  then have "table_map es2 = table_map es ++ map_of (map ep_kv (p # ps))"
    using rest(3) one(3) by simp
  moreover have "place_entries city (p # ps) (ft, es) = Inr (ft2, es2)" using one(1) rest(1) by simp
  moreover have "length es2 = length es" "ft_version ft2 = ft_version ft" "ft_lock ft2 = ft_lock ft"
    using one rest by simp_all
  ultimately show ?case using rest(2,5) by blast
qed

lemma slots_wf_free:
  assumes "\<forall>e \<in> set es. e_valid e = 0 \<and> e_version e = ver"
  shows "slots_wf ver (replicate (length es) 0) es" and "table_map es = Map.empty" and "table_kvs es = []"
proof -
  show k: "table_kvs es = []" using assms by (auto simp: table_kvs_def filter_empty_conv)
  then show "table_map es = Map.empty" by (simp add: table_map_def)
  show "slots_wf ver (replicate (length es) 0) es"
    using assms k by (auto simp: slots_wf_def slot_ok_def list_all2_conv_all_nth)
qed

lemma sort_key_split:
  fixes xs :: "EntryPos list"
  assumes "distinct (map ep_key xs)" and "ys = sort_key ep_key xs" and "n < length ys"
  shows "\<forall>p \<in> set (take n ys). ep_key p < ep_key (ys ! n)"
    and "\<forall>p \<in> set (drop n ys). ep_key (ys ! n) \<le> ep_key p"
proof -
  have s: "sorted (map ep_key ys)" using assms(2) by simp
  have "mset (map ep_key ys) = mset (map ep_key xs)" using assms(2) by simp
  then have d: "distinct (map ep_key ys)" using assms(1) by (metis mset_eq_imp_distinct_iff)
  have lt: "ep_key (ys ! i) < ep_key (ys ! j)" if "i < j" "j < length ys" for i j
  proof -
    have "ep_key (ys ! i) \<le> ep_key (ys ! j)"
      using sorted_nth_mono [OF s, of i j] that by simp
    moreover have "ep_key (ys ! i) \<noteq> ep_key (ys ! j)"
      using d that nth_eq_iff_index_eq [OF d, of i j] by simp
    ultimately show ?thesis by simp
  qed
  show "\<forall>p \<in> set (take n ys). ep_key p < ep_key (ys ! n)"
    using lt assms(3) by (auto simp: in_set_conv_nth)
  show "\<forall>p \<in> set (drop n ys). ep_key (ys ! n) \<le> ep_key p"
  proof
    fix p assume "p \<in> set (drop n ys)"
    then obtain j where j: "j < length ys - n" "p = ys ! (n + j)" using assms(3) by (auto simp: in_set_conv_nth)
    then have "0 < j \<longrightarrow> ep_key (ys ! n) < ep_key (ys ! (n + j))" using lt [of n "n + j"] by simp
    then show "ep_key (ys ! n) \<le> ep_key p" using j(2) by (cases "j = 0") auto
  qed
qed

text \<open>The versions of a leaf: an \<open>int\<close> in the header, a bit field or a word elsewhere.\<close>

lemma of_int_Suc_56: "(of_int (n + 1) :: 56 word) = of_int n + 1"
  by simp

lemma ucast_of_int_56:
  assumes "0 \<le> n" and "n < 2 ^ 31"
  shows "(ucast (of_int n :: 56 word) :: u64) = of_int n"
proof -
  have "n < 2 ^ 56" "n < 2 ^ 64" using assms(2) by simp_all
  with assms(1) show ?thesis by (simp add: unsigned_of_int take_bit_int_eq_self)
qed

definition leaf_wf :: "(u8 list \<Rightarrow> u32) \<Rightarrow> LeafTable \<Rightarrow> FPTable \<Rightarrow> bool" where
  "leaf_wf city lt ft \<longleftrightarrow>
     table_wf city (of_int (lf_version (lt_hdr lt))) ft (lt_entries lt) \<and>
     0 \<le> lf_version (lt_hdr lt) \<and> lf_version (lt_hdr lt) < 2 ^ 31 \<and>
     lf_capacity (lt_hdr lt) = int (length (lt_entries lt)) \<and> 0 < length (lt_entries lt) \<and>
     length (lt_entries lt) \<le> MaxNodeCapacity \<and>
     (\<forall>k \<in> dom (table_map (lt_entries lt)). lf_min_key (lt_hdr lt) \<le> k \<and> k < lf_max_key (lt_hdr lt))"

lemma leaf_wf_flags:
  "table_wf city ver ft es \<Longrightarrow> \<forall>e \<in> set es. (e_valid e = 0 \<or> e_valid e = 1) \<and> e_version e = ver"
  by (auto simp: table_wf_def slot_ok_def in_set_conv_nth list_all2_conv_all_nth)

text \<open>Placing one half of the entries into an empty table.\<close>

lemma place_half:
  assumes free: "\<forall>e \<in> set es. e_valid e = 0 \<and> e_version e = ver"
    and ft: "ft_fp ft = replicate (length es) 0" "ft_version ft = ucast ver"
    and d: "distinct (map ep_key ps)" and room: "length ps \<le> length es"
    and cons: "ps \<noteq> [] \<or> fp_check_consistent city ft"
  shows "\<exists>ft' es'. place_entries city ps (ft, es) = Inr (ft', es') \<and> table_wf city ver ft' es' \<and>
     table_map es' = map_of (map ep_kv ps) \<and> length es' = length es \<and>
     fp_capacity ft' = length es \<and> ft_lock ft' = ft_lock ft"
proof -
  note fr = slots_wf_free [OF free]
  have "slots_wf ver (ft_fp ft) es" "\<forall>p \<in> set ps. table_map es (ep_key p) = None"
    "length (table_kvs es) + length ps \<le> length es"
    using fr ft(1) room by simp_all
  from place_entries_correct [OF this(1) d this(2,3), of city] obtain ft' es' where
    r: "place_entries city ps (ft, es) = Inr (ft', es')" "slots_wf ver (ft_fp ft') es'"
      "table_map es' = table_map es ++ map_of (map ep_kv ps)" "length es' = length es"
      "fp_check_consistent city ft'" "ft_version ft' = ft_version ft" "ft_lock ft' = ft_lock ft"
    using cons by blast
  moreover from r(2) have "fp_capacity ft' = length es'"
    by (auto simp: slots_wf_def fp_capacity_def dest: list_all2_lengthD)
  ultimately show ?thesis using fr ft(2) by (auto simp: table_wf_def slots_wf_def)
qed

lemma map_of_sorted_entries:
  assumes "distinct (map ep_key xs)"
  shows "map_of (map ep_kv (sort_key ep_key xs)) = map_of (map ep_kv xs)"
proof (rule map_of_eqI)
  show "set (map fst (map ep_kv (sort_key ep_key xs))) = set (map fst (map ep_kv xs))" by simp
  have "distinct (map ep_key (sort_key ep_key xs))"
    using assms by (metis distinct_sort mset_eq_imp_distinct_iff mset_map mset_sort)
  then have d: "distinct (map fst (map ep_kv (sort_key ep_key xs)))" "distinct (map fst (map ep_kv xs))"
    using assms by (simp_all add: comp_def)
  show "\<forall>k \<in> set (map fst (map ep_kv (sort_key ep_key xs))).
      map_of (map ep_kv (sort_key ep_key xs)) k = map_of (map ep_kv xs) k"
  proof
    fix k
    have "map_of (map ep_kv (sort_key ep_key xs)) k = Some v \<longleftrightarrow> map_of (map ep_kv xs) k = Some v" for v
      unfolding map_of_eq_Some_iff [OF d(1)] map_of_eq_Some_iff [OF d(2)] by simp
    then show "map_of (map ep_kv (sort_key ep_key xs)) k = map_of (map ep_kv xs) k"
      by (metis option.exhaust)
  qed
qed

lemma dom_map_of_ep_kv: "dom (map_of (map ep_kv ps)) = ep_key ` set ps"
  by (simp add: dom_map_of_conv_image_fst image_image)

text \<open>The collected and sorted entries of a full leaf with the new binding.\<close>

lemma resize_entries:
  assumes tw: "table_wf city ver ft es0" and full: "length (table_kvs es0) = length es0"
    and new: "table_map es0 k = None"
  obtains es ps ys where "collect_entries es0 = Inr (es, ps)" and "length es = length es0"
    and "\<forall>e \<in> set es. e_valid e = 0 \<and> e_version e = ver + 1"
    and "ys = sort_key ep_key (\<lparr>ep_key = k, ep_value = v\<rparr> # ps)"
    and "distinct (map ep_key (\<lparr>ep_key = k, ep_value = v\<rparr> # ps))"
    and "distinct (map ep_key ys)" and "length ys = Suc (length es0)"
    and "map_of (map ep_kv ys) = (table_map es0)(k \<mapsto> v)"
proof -
  let ?p = "\<lparr>ep_key = k, ep_value = v\<rparr>"
  from collect_entries_correct [OF leaf_wf_flags [OF tw]] obtain es ps where
    col: "collect_entries es0 = Inr (es, ps)" "length es = length es0"
      "\<forall>e \<in> set es. e_valid e = 0 \<and> e_version e = ver + 1" "map ep_kv ps = table_kvs es0"
    by blast
  let ?ys = "sort_key ep_key (?p # ps)"
  have "length ps = length es0" using col(4) full by (metis length_map)
  then have len: "length ?ys = Suc (length es0)" by simp
  have "map fst (map ep_kv ps) = map ep_key ps" by simp
  then have keys: "map ep_key ps = map fst (table_kvs es0)" using col(4) by simp
  have "k \<notin> set (map fst (table_kvs es0))"
    using new by (simp add: table_map_def map_of_eq_None_iff)
  moreover have "distinct (map fst (table_kvs es0))" using tw by (simp add: table_wf_def)
  ultimately have dk: "distinct (map ep_key (?p # ps))" unfolding list.map keys by simp
  have "mset (map ep_key ?ys) = mset (map ep_key (?p # ps))" by simp
  then have dy: "distinct (map ep_key ?ys)" using dk by (metis mset_eq_imp_distinct_iff)
  have "map_of (map ep_kv ?ys) = (table_map es0)(k \<mapsto> v)"
    unfolding map_of_sorted_entries [OF dk] by (simp add: ep_kv_def [of ?p] col(4) table_map_def)
  from that [OF col(1,2,3) refl dk dy len this] show ?thesis .
qed

text \<open>The buffers of a leaf that fits into one page do not overlap; otherwise the split may fail.\<close>

lemma leaf_buffers_disjoint:
  assumes "rb_wf b rb" and "get_page_buffer rb = (buf, rb1)" and "get_sibling_buffer rb1 = (sbuf, rb2)"
    and "cap \<le> LeafNodeCapacity"
  shows "\<not> images_overlap buf (leaf_image cap) sbuf (leaf_image sib_cap)"
proof -
  have "leaf_image cap \<le> 2 * KB" using assms(4) by (simp add: dm_sizes)
  moreover have "rb_wf b rb1" using rb_wf_step(2) [OF assms(1)] assms(2) by simp
  ultimately show ?thesis using page_image_disjoint [OF assms(1), of rb1 "leaf_image cap"] assms(2,3) by simp
qed

lemma resize_overlap:
  assumes "leaf_wf city lt ft" and "images_overlap buf (leaf_image cap) sbuf (leaf_image sib_cap)"
  shows "resize_tables city buf sbuf cap sib_cap k v sa sfa lt = Inl BufferOverlap"
proof -
  have tw: "table_wf city (of_int (lf_version (lt_hdr lt))) ft (lt_entries lt)" using assms(1) by (simp add: leaf_wf_def)
  obtain es ps where "collect_entries (lt_entries lt) = Inr (es, ps)"
    using collect_entries_correct [OF leaf_wf_flags [OF tw]] by blast
  with assms(2) show ?thesis by (simp add: resize_tables_def)
qed

text \<open>The split of a full leaf.\<close>

lemma resize_split:
  assumes wf: "leaf_wf city lt ft" and full: "length (table_kvs (lt_entries lt)) = length (lt_entries lt)"
    and new: "table_map (lt_entries lt) k = None"
    and range: "lf_min_key (lt_hdr lt) \<le> k" "k < lf_max_key (lt_hdr lt)"
    and cap: "cap = length (lt_entries lt)" "sib_cap = cap \<or> sib_cap = 2 * cap" "sib_cap \<le> MaxNodeCapacity"
    and ver: "lf_version (lt_hdr lt) < 2 ^ 31 - 1"
    and bufs: "\<not> images_overlap buf (leaf_image cap) sbuf (leaf_image sib_cap)"
  shows "\<exists>ro sep. resize_tables city buf sbuf cap sib_cap k v sa sfa lt = Inr ro \<and>
     leaf_wf city (ro_cur ro) (ro_cur_ft ro) \<and> leaf_wf city (ro_sib ro) (ro_sib_ft ro) \<and>
     ft_lock (ro_cur_ft ro) = 0 \<and> ft_lock (ro_sib_ft ro) = 0 \<and>
     length (lt_entries (ro_cur ro)) = cap \<and> length (lt_entries (ro_sib ro)) = sib_cap \<and>
     lt_hdr (ro_cur ro) = (lt_hdr lt)\<lparr>lf_version := lf_version (lt_hdr lt) + 1, lf_max_key := sep,
       lf_right_addr := sa, lf_right_fp_addr := sfa, lf_right_capacity := of_nat sib_cap\<rparr> \<and>
     lt_hdr (ro_sib ro) = (lt_hdr lt)\<lparr>lf_version := 0, lf_min_key := sep, lf_capacity := int sib_cap\<rparr> \<and>
     lf_min_key (lt_hdr lt) \<le> sep \<and> sep < lf_max_key (lt_hdr lt) \<and>
     (table_map (lt_entries lt))(k \<mapsto> v) =
       table_map (lt_entries (ro_cur ro)) ++ table_map (lt_entries (ro_sib ro))"
proof -
  let ?h = "lt_hdr lt" and ?es = "lt_entries lt" and ?v = "of_int (lf_version (lt_hdr lt)) :: 56 word"
  have tw: "table_wf city ?v ft ?es" and v0: "0 \<le> lf_version ?h" and hc: "lf_capacity ?h = int cap"
    and cap0: "0 < cap" "cap \<le> MaxNodeCapacity"
    and rng: "\<forall>x \<in> dom ((table_map ?es)(k \<mapsto> v)). lf_min_key ?h \<le> x \<and> x < lf_max_key ?h"
    using wf cap(1) range by (auto simp: leaf_wf_def)
  obtain es ps ys where col: "collect_entries ?es = Inr (es, ps)" "length es = cap"
      "\<forall>e \<in> set es. e_valid e = 0 \<and> e_version e = ?v + 1"
    and ys: "ys = sort_key ep_key (\<lparr>ep_key = k, ep_value = v\<rparr> # ps)"
    and dk: "distinct (map ep_key (\<lparr>ep_key = k, ep_value = v\<rparr> # ps))"
    and dy: "distinct (map ep_key ys)" and ly: "length ys = Suc cap"
    and all: "map_of (map ep_kv ys) = (table_map ?es)(k \<mapsto> v)"
    using resize_entries [OF tw full new] cap(1) by metis
  define n where "n = (if sib_cap > cap then 0 else length ys div 2)"
  define sep where "sep = ep_key (ys ! n)"
  define ch where "ch = (update_right sa sfa (of_nat sib_cap) (?h\<lparr>lf_version := lf_version ?h + 1\<rparr>))
    \<lparr>lf_max_key := sep\<rparr>"
  define cft where "cft = fp_set_version city (of_int (lf_version ch)) (fp_zero cap)"
  have n: "n < length ys" "length (take n ys) \<le> cap" "length (drop n ys) \<le> sib_cap"
    using ly cap0 cap(2) by (auto simp: n_def)
  note sp = sort_key_split [OF dk ys n(1), folded sep_def]
  have keys: "\<forall>p \<in> set ys. lf_min_key ?h \<le> ep_key p \<and> ep_key p < lf_max_key ?h"
    using rng unfolding all [symmetric] dom_map_of_ep_kv by blast
  have chv: "lf_version ch = lf_version ?h + 1" by (simp add: ch_def update_right_def)
  have v1: "(of_int (lf_version ch) :: 56 word) = ?v + 1" by (simp add: chv)
  have cv: "ft_version cft = ucast (?v + 1)"
    unfolding v1 [symmetric] using ucast_of_int_56 [of "lf_version ch"] v0 ver
    by (simp add: cft_def fp_set_version_def chv)
  have cfp: "ft_fp cft = replicate (length es) 0" "ft_lock cft = 0" "fp_check_consistent city cft"
    using col(2) by (simp_all add: cft_def fp_set_version_def fp_zero_def)
  have dt: "distinct (map ep_key (take n ys))" "distinct (map ep_key (drop n ys))"
    using dy by (simp_all add: take_map [symmetric] drop_map [symmetric])
  obtain cft' ces where cur: "place_entries city (take n ys) (cft, es) = Inr (cft', ces)"
      "table_wf city (?v + 1) cft' ces" "table_map ces = map_of (map ep_kv (take n ys))"
      "length ces = cap" "ft_lock cft' = 0"
    using place_half [OF col(3) cfp(1) cv dt(1), of city] n(2) col(2) cfp(2,3) by auto
  have z: "\<forall>e \<in> set (replicate sib_cap entry_zero). e_valid e = 0 \<and> e_version e = 0"
    by (simp add: entry_zero_def)
  have zft: "ft_fp (fp_zero sib_cap) = replicate (length (replicate sib_cap entry_zero)) 0"
    "ft_version (fp_zero sib_cap) = ucast (0 :: 56 word)" "ft_lock (fp_zero sib_cap) = 0"
    by (simp_all add: fp_zero_def)
  obtain sft ses where sib:
      "place_entries city (drop n ys) (fp_zero sib_cap, replicate sib_cap entry_zero) = Inr (sft, ses)"
      "table_wf city 0 sft ses" "table_map ses = map_of (map ep_kv (drop n ys))"
      "length ses = sib_cap" "ft_lock sft = 0"
    using place_half [OF z zft(1,2) dt(2), of city] n(1,3) zft(3) by auto
  let ?sh = "?h\<lparr>lf_version := 0, lf_capacity := int sib_cap, lf_min_key := lf_max_key ch\<rparr>"
  let ?ro = "\<lparr>ro_cur = \<lparr>lt_hdr = ch, lt_entries = ces\<rparr>, ro_cur_ft = cft',
    ro_sib = \<lparr>lt_hdr = ?sh, lt_entries = ses\<rparr>, ro_sib_ft = sft\<rparr>"
  have eq: "resize_tables city buf sbuf cap sib_cap k v sa sfa lt = Inr ?ro"
    unfolding resize_tables_def col(1) res_bind_Inr prod.case Let_def ys [symmetric]
      n_def [symmetric] sep_def [symmetric] ch_def [symmetric] cft_def [symmetric] cur(1) sib(1)
    using ver bufs by simp
  have "ys ! n \<in> set ys" using n(1) by simp
  then have sep: "lf_min_key ?h \<le> sep" "sep < lf_max_key ?h" using keys by (simp_all add: sep_def)
  have rc: "\<forall>x \<in> dom (table_map ces). lf_min_key ?h \<le> x \<and> x < sep"
    unfolding cur(3) dom_map_of_ep_kv using keys sp(1) by (auto dest: in_set_takeD)
  have rs: "\<forall>x \<in> dom (table_map ses). sep \<le> x \<and> x < lf_max_key ?h"
    unfolding sib(3) dom_map_of_ep_kv using keys sp(2) by (auto dest: in_set_dropD)
  have "leaf_wf city (ro_cur ?ro) (ro_cur_ft ?ro)"
    using cur(2,4) cap0 v0 ver hc rc v1 by (simp add: leaf_wf_def ch_def update_right_def)
  moreover have "leaf_wf city (ro_sib ?ro) (ro_sib_ft ?ro)"
    using sib(2,4) cap0 cap(2,3) rs by (auto simp: leaf_wf_def ch_def)
  moreover have "(table_map ?es)(k \<mapsto> v) = table_map ces ++ table_map ses"
  proof -
    have "dom (table_map ces) \<inter> dom (table_map ses) = {}" using rc rs by (metis disjoint_iff not_le)
    then have "table_map ces ++ table_map ses = table_map ses ++ table_map ces"
      by (rule map_add_comm)
    also have "\<dots> = map_of (map ep_kv (take n ys @ drop n ys))" by (simp only: cur(3) sib(3) map_append map_of_append)
    finally show ?thesis using all by simp
  qed
  ultimately show ?thesis
    using eq sep cur(4,5) sib(4,5) by (intro exI [of _ ?ro] exI [of _ sep]) (simp add: ch_def update_right_def)
qed

text \<open>
  C7: splitting a full, well-formed leaf for a new key of its range, with the page buffer and the
  sibling buffer that the coroutine gets next, succeeds unless the version counter is exhausted or
  the images of the two leaves overlap in the buffers, which needs a leaf of more than 32 slots.
  Both resulting leaves are well formed, unlocked and linked, the separator divides their keys, the
  two maps together are the old map with the new binding, the old leaf gets the next version and
  the new leaf version 0.
\<close>

theorem resize_tables_correct:
  assumes wf: "leaf_wf city lt ft" and full: "length (table_kvs (lt_entries lt)) = length (lt_entries lt)"
    and new: "table_map (lt_entries lt) k = None"
    and range: "lf_min_key (lt_hdr lt) \<le> k" "k < lf_max_key (lt_hdr lt)"
    and cap: "cap = length (lt_entries lt)" "sib_cap = cap \<or> sib_cap = 2 * cap" "sib_cap \<le> MaxNodeCapacity"
    and ver: "lf_version (lt_hdr lt) < 2 ^ 31 - 1"
    and bufs: "rb_wf b rb" "get_page_buffer rb = (buf, rb1)" "get_sibling_buffer rb1 = (sbuf, rb2)"
  shows "if images_overlap buf (leaf_image cap) sbuf (leaf_image sib_cap)
     then LeafNodeCapacity < cap \<and> resize_tables city buf sbuf cap sib_cap k v sa sfa lt = Inl BufferOverlap
     else \<exists>ro sep. resize_tables city buf sbuf cap sib_cap k v sa sfa lt = Inr ro \<and>
       leaf_wf city (ro_cur ro) (ro_cur_ft ro) \<and> leaf_wf city (ro_sib ro) (ro_sib_ft ro) \<and>
       ft_lock (ro_cur_ft ro) = 0 \<and> ft_lock (ro_sib_ft ro) = 0 \<and>
       length (lt_entries (ro_cur ro)) = cap \<and> length (lt_entries (ro_sib ro)) = sib_cap \<and>
       lt_hdr (ro_cur ro) = (lt_hdr lt)\<lparr>lf_version := lf_version (lt_hdr lt) + 1, lf_max_key := sep,
         lf_right_addr := sa, lf_right_fp_addr := sfa, lf_right_capacity := of_nat sib_cap\<rparr> \<and>
       lt_hdr (ro_sib ro) = (lt_hdr lt)\<lparr>lf_version := 0, lf_min_key := sep, lf_capacity := int sib_cap\<rparr> \<and>
       lf_min_key (lt_hdr lt) \<le> sep \<and> sep < lf_max_key (lt_hdr lt) \<and>
       (table_map (lt_entries lt))(k \<mapsto> v) =
         table_map (lt_entries (ro_cur ro)) ++ table_map (lt_entries (ro_sib ro))"
proof (cases "images_overlap buf (leaf_image cap) sbuf (leaf_image sib_cap)")
  case True
  then have "LeafNodeCapacity < cap" using leaf_buffers_disjoint [OF bufs, of cap sib_cap] by (meson not_le)
  with True resize_overlap [OF wf True] show ?thesis by simp
next
  case False
  with resize_split [OF wf full new range cap ver False] show ?thesis by simp
qed

definition example_key :: KeyType where "example_key = mk_key [1]"

definition example_leaf :: LeafTable where
  "example_leaf =
     \<lparr>lt_hdr = (new_LeafHeader Gaddr_Null Gaddr_Null)\<lparr>lf_capacity := 1\<rparr>,
      lt_entries = [\<lparr>e_valid = 1, e_version = 0, e_key = KeyNull, e_value = 5\<rparr>]\<rparr>"

definition example_fp :: FPTable where
  "example_fp = \<lparr>ft_version = 0, ft_fp = [cal_key_fp KeyNull], ft_crc = 0, ft_lock = 1\<rparr>"

lemma example_key_range: "KeyNull < example_key" "example_key < KeyMax"
  unfolding example_key_def KeyNull_def KeyMax_def by code_simp+

lemma example_leaf_wf: "leaf_wf (\<lambda>_. 0) example_leaf example_fp"
  by (auto simp: leaf_wf_def table_wf_def slot_ok_def example_leaf_def example_fp_def
      new_LeafHeader_def fp_check_consistent_def fp_hash_def table_map_def dm_sizes split: if_splits)

theorem resize_tables_correct_witness:
  "\<exists>ro. resize_tables (\<lambda>_. 0) (fst (get_page_buffer (new_RdmaBuffer 0)))
       (fst (get_sibling_buffer (snd (get_page_buffer (new_RdmaBuffer 0))))) 1 1 example_key 9 Gaddr_Null Gaddr_Null
       example_leaf = Inr ro \<and>
     leaf_wf (\<lambda>_. 0) (ro_sib ro) (ro_sib_ft ro)"
proof -
  have f: "length (table_kvs (lt_entries example_leaf)) = length (lt_entries example_leaf)"
    "table_map (lt_entries example_leaf) example_key = None"
    "lf_min_key (lt_hdr example_leaf) \<le> example_key" "example_key < lf_max_key (lt_hdr example_leaf)"
    "1 = length (lt_entries example_leaf)" "lf_version (lt_hdr example_leaf) < 2 ^ 31 - 1"
    using example_key_range
    by (auto simp: example_leaf_def new_LeafHeader_def table_map_def)
  have c: "1 = (1::nat) \<or> 1 = 2 * (1::nat)" "1 \<le> MaxNodeCapacity" by (simp_all add: dm_sizes)
  obtain buf rb1 sbuf rb2 where b: "get_page_buffer (new_RdmaBuffer 0) = (buf, rb1)" "get_sibling_buffer rb1 = (sbuf, rb2)"
    by (metis prod.collapse)
  have "\<not> images_overlap buf (leaf_image 1) sbuf (leaf_image 1)"
    using leaf_buffers_disjoint [OF rb_wf_new b, of 1 1] by (simp add: dm_sizes)
  with resize_tables_correct [OF example_leaf_wf f(1,2,3,4,5) c f(6) rb_wf_new b, of 9 Gaddr_Null Gaddr_Null] b
  show ?thesis by auto
qed

text \<open>
  C32: when the buffers of \<open>leaf_resize\<close> overlap. The page buffers and the sibling buffers are 2 KB
  apart, but a leaf of 64 or 128 slots with its fingerprint table takes 2728 or 5352 bytes, and the
  sibling buffers follow the page buffers. With the cursors of the page buffer and the sibling
  buffer that \<open>leaf_resize\<close> gets, the image of a leaf of 32 slots never reaches the sibling, the
  image of a leaf of 64 slots does exactly from the last page buffer into the first sibling buffer,
  and the image of a leaf of 128 slots from the last two page buffers into the first one or two.
\<close>

theorem resize_buffers_overlap:
  assumes "rb_wf b rb" and "cap \<in> {32, 64, 128}"
    and "get_page_buffer rb = (buf, rb1)" and "get_sibling_buffer rb1 = (sbuf, rb2)"
  shows "images_overlap buf (leaf_image cap) sbuf (leaf_image sib_cap) \<longleftrightarrow>
     cap = 64 \<and> rb_page_buffer_cur rb2 = 7 \<and> rb_sibling_buffer_cur rb2 = 0 \<or>
     cap = 128 \<and> (rb_page_buffer_cur rb2 = 6 \<and> rb_sibling_buffer_cur rb2 = 0 \<or>
                  rb_page_buffer_cur rb2 = 7 \<and> rb_sibling_buffer_cur rb2 \<le> 1)"
proof -
  let ?p = "rb_page_buffer_cur rb2" and ?q = "rb_sibling_buffer_cur rb2"
  have b: "buf = rb_page_buffer rb + ?p * 2048" "sbuf = rb_page_buffer rb + 16384 + ?q * 2048" "?p \<le> 7" "?q \<le> 7"
    using assms(1,3,4) by (auto simp: rb_wf_def rb_op_defs Let_def dm_sizes less_Suc_eq_le [symmetric])
  have "images_overlap buf (leaf_image cap) sbuf (leaf_image sib_cap) \<longleftrightarrow> 16384 + ?q * 2048 < ?p * 2048 + leaf_image cap"
    using b by (auto simp: images_overlap_def leaf_image_def)
  moreover have "leaf_image 32 = 1416" "leaf_image 64 = 2728" "leaf_image 128 = 5352" by (simp_all add: dm_sizes)
  ultimately show ?thesis using assms(2) b(3,4) by auto
qed

text \<open>After seven page buffers and eight sibling buffers a leaf of 64 slots does not fit.\<close>

definition example_rbuf :: RdmaBuffer where
  "example_rbuf = (new_RdmaBuffer 0)\<lparr>rb_page_buffer_cur := 6, rb_sibling_buffer_cur := 7\<rparr>"

theorem resize_buffers_overlap_witness:
  "rb_wf 0 example_rbuf \<and> (64::nat) \<in> {32, 64, 128} \<and>
   images_overlap (fst (get_page_buffer example_rbuf)) (leaf_image 64)
     (fst (get_sibling_buffer (snd (get_page_buffer example_rbuf)))) (leaf_image 64)"
proof -
  have wf: "rb_wf 0 example_rbuf"
    by (simp add: example_rbuf_def rb_wf_def new_RdmaBuffer_def set_buffer_def Let_def dm_sizes)
  obtain buf rb1 sbuf rb2 where b: "get_page_buffer example_rbuf = (buf, rb1)" "get_sibling_buffer rb1 = (sbuf, rb2)"
    by (metis prod.collapse)
  have "rb_page_buffer_cur rb2 = 7" "rb_sibling_buffer_cur rb2 = 0"
    using b by (auto simp: example_rbuf_def rb_op_defs Let_def dm_sizes new_RdmaBuffer_def set_buffer_def)
  with resize_buffers_overlap [OF wf _ b, of 64 64] wf b show ?thesis by simp
qed

text \<open>
  C9: the locked part of \<open>leaf_insert\<close> on a well-formed leaf never aborts. It updates the entry of
  the key in place, or fills a free slot and clears the lock, and the leaf's map gains exactly
  that binding; only if the key is absent and no slot is free does it call for a split. A lookup by
  the loop of \<open>leaf_search\<close> afterwards finds the value.
\<close>

theorem leaf_put_correct:
  assumes "table_wf city ver ft es"
  shows "case leaf_put city k v ver ft es of
      Inr (Updated es') \<Rightarrow>
        table_wf city ver ft es' \<and> table_map es k \<noteq> None \<and> table_map es' = (table_map es)(k \<mapsto> v) \<and>
        search_slots (cal_key_fp k) k ver (ft_fp ft) es' w = Inr (Found, v)
    | Inr (Added ft' es') \<Rightarrow>
        table_wf city ver ft' es' \<and> table_map es k = None \<and> ft_lock ft' = 0 \<and>
        table_map es' = (table_map es)(k \<mapsto> v) \<and>
        search_slots (cal_key_fp k) k ver (ft_fp ft') es' w = Inr (Found, v)
    | Inr Full \<Rightarrow> table_map es k = None \<and> length (table_kvs es) = length es
    | Inl _ \<Rightarrow> False"
proof -
  have found: "search_slots (cal_key_fp k) k ver (ft_fp ft') es' w = Inr (Found, v)"
    if "table_wf city ver ft' es'" "table_map es' = (table_map es)(k \<mapsto> v)" for ft' es'
    using search_slots_correct [of ver "ft_fp ft'" es' k w] that by (simp add: table_wf_def)
  show ?thesis
    using assms by (cases rule: leaf_put_cases [where k = k and v = v]) (simp_all add: found)
qed

theorem leaf_put_correct_witness:
  "\<exists>es'. leaf_put (\<lambda>_. 0) KeyNull 6 0 example_fp (lt_entries example_leaf) = Inr (Updated es') \<and>
     search_slots (cal_key_fp KeyNull) KeyNull 0 (ft_fp example_fp) es' 0 = Inr (Found, 6)"
proof -
  have wf: "table_wf (\<lambda>_. 0) 0 example_fp (lt_entries example_leaf)"
    using example_leaf_wf by (simp add: leaf_wf_def example_leaf_def new_LeafHeader_def)
  have k: "table_map (lt_entries example_leaf) KeyNull \<noteq> None"
    by (simp add: example_leaf_def table_map_def)
  show ?thesis
    using leaf_put_correct [OF wf, of KeyNull 6 0] k
    by (auto split: sum.splits put_res.splits)
qed

end
