(* ===== verification/InnerNode.thy ===== *)
theory InnerNode
  imports RdmaConfig "HOL-Library.Multiset"
begin

text \<open>
  Model of \<open>DMTree/include/InnerTree.h\<close>, the inner nodes of the tree: records, headers, the sorted
  record array with its search, insertion and split, and the table part of
  \<open>DMTree::node_split\<close>. \<open>CityHash32\<close> is the parameter \<open>city\<close>.
\<close>

definition InnerNodeCapacity :: nat where [dm_sizes]: "InnerNodeCapacity = 32"

section \<open>Records and headers\<close>

record Record =
  rc_valid :: u8
  rc_version :: "56 word"
  rc_key :: KeyType
  rc_addr :: Gaddr
  rc_fp_addr :: Gaddr
  rc_capacity :: int

definition new_Record :: "KeyType \<Rightarrow> Gaddr \<Rightarrow> Gaddr \<Rightarrow> int \<Rightarrow> int \<Rightarrow> Record" where
  "new_Record k a f_a c v =
     \<lparr>rc_valid = 1, rc_version = of_int v, rc_key = k, rc_addr = a, rc_fp_addr = f_a, rc_capacity = c\<rparr>"

text \<open>The copy constructor always marks the copy valid; plain assignment copies the flag.\<close>

definition copy_Record :: "Record \<Rightarrow> Record" where
  "copy_Record r = r\<lparr>rc_valid := 1\<rparr>"

record InnerHeader =
  ih_max_key :: KeyType
  ih_min_key :: KeyType
  ih_right_addr :: Gaddr
  ih_is_root :: bool
  ih_next_is_leaf :: bool
  ih_padding :: "u8 list"

text \<open>
  The default constructor leaves the right address and the two padding bytes uninitialised; \<open>ra\<close>
  and \<open>pad\<close> are what the memory held.
\<close>

definition new_InnerHeader :: "Gaddr \<Rightarrow> u8 list \<Rightarrow> InnerHeader" where
  "new_InnerHeader ra pad =
     \<lparr>ih_max_key = KeyMax, ih_min_key = KeyNull, ih_right_addr = ra, ih_is_root = False,
      ih_next_is_leaf = False, ih_padding = pad\<rparr>"

text \<open>Its copy constructor does not copy the padding.\<close>

definition copy_InnerHeader :: "u8 list \<Rightarrow> InnerHeader \<Rightarrow> InnerHeader" where
  "copy_InnerHeader pad h = h\<lparr>ih_padding := pad\<rparr>"

record InnerNode =
  in_hdr :: InnerHeader
  in_record :: "Record list"
  in_crc :: u64
  in_lock :: u64

text \<open>A node after \<open>memset\<close> to zero.\<close>

definition record_zero :: Record where
  "record_zero = \<lparr>rc_valid = 0, rc_version = 0, rc_key = KeyNull, rc_addr = Gaddr_Null,
                  rc_fp_addr = Gaddr_Null, rc_capacity = 0\<rparr>"

definition inner_zero :: InnerNode where
  "inner_zero =
     \<lparr>in_hdr = \<lparr>ih_max_key = KeyNull, ih_min_key = KeyNull, ih_right_addr = Gaddr_Null,
                ih_is_root = False, ih_next_is_leaf = False, ih_padding = [0, 0]\<rparr>,
      in_record = replicate InnerNodeCapacity record_zero, in_crc = 0, in_lock = 0\<rparr>"

section \<open>Operations of a node\<close>

text \<open>
  The bytes under the checksum: header, records, the array \<open>padding2\<close> and five alignment bytes
  (both always zero, since every node is built in zeroed memory).
\<close>

definition record_bytes :: "Record \<Rightarrow> u8 list" where
  "record_bytes r =
     rc_valid r # le_bytes 7 (rc_version r) @ key_bytes (rc_key r) @ le_bytes 8 (Gaddr_val (rc_addr r)) @
     le_bytes 8 (Gaddr_val (rc_fp_addr r)) @ le_bytes 4 (of_int (rc_capacity r) :: u32)"

definition inner_bytes :: "InnerNode \<Rightarrow> u8 list" where
  "inner_bytes n =
     key_bytes (ih_max_key (in_hdr n)) @ key_bytes (ih_min_key (in_hdr n)) @
     le_bytes 8 (Gaddr_val (ih_right_addr (in_hdr n))) @
     [of_bool (ih_is_root (in_hdr n)), of_bool (ih_next_is_leaf (in_hdr n))] @ ih_padding (in_hdr n) @
     concat (map record_bytes (in_record n)) @ replicate 12 0"

definition inner_set_consistent :: "(u8 list \<Rightarrow> u32) \<Rightarrow> InnerNode \<Rightarrow> InnerNode" where
  "inner_set_consistent city n = n\<lparr>in_crc := ucast (city (inner_bytes n))\<rparr>"

definition inner_check_consistent :: "(u8 list \<Rightarrow> u32) \<Rightarrow> InnerNode \<Rightarrow> bool" where
  "inner_check_consistent city n \<longleftrightarrow> ucast (in_crc n) = city (inner_bytes n)"

definition check_hdr :: "KeyType \<Rightarrow> InnerNode \<Rightarrow> bool" where
  "check_hdr key n \<longleftrightarrow> ih_max_key (in_hdr n) > key \<and> ih_min_key (in_hdr n) \<le> key"

definition set_hdr :: "(u8 list \<Rightarrow> u32) \<Rightarrow> InnerHeader \<Rightarrow> InnerNode \<Rightarrow> InnerNode" where
  "set_hdr city h n = inner_set_consistent city (n\<lparr>in_hdr := h\<rparr>)"

definition inner_unlock :: "InnerNode \<Rightarrow> InnerNode" where
  "inner_unlock n = n\<lparr>in_lock := 0\<rparr>"

definition sort_node :: "InnerNode \<Rightarrow> InnerNode result" where
  "sort_node n =
     (let count = length (filter (\<lambda>r. rc_valid r = 1) (in_record n)) in
      res_bind (res_assert ''count > 0'' (0 < count)) (\<lambda>_.
      Inr (if count \<noteq> 1
           then n\<lparr>in_record := sort_key rc_key (take count (in_record n)) @ drop count (in_record n)\<rparr>
           else n)))"

text \<open>
  \<open>search\<close> returns the record before the first one that is free or has a larger key; if that is
  the first record, the code reads before the array.
\<close>

definition inner_find :: "KeyType \<Rightarrow> InnerNode \<Rightarrow> (Record \<times> bool) result" where
  "inner_find key n =
     (let i = (case scan_from (\<lambda>r. rc_valid r = 0 \<or> rc_key r > key) (in_record n) 0 of
                 Some j \<Rightarrow> j
               | None \<Rightarrow> length (in_record n))
      in if i = 0 then Inl OutOfBounds
         else Inr (in_record n ! (i - 1), ih_next_is_leaf (in_hdr n)))"

definition inner_ins :: "(u8 list \<Rightarrow> u32) \<Rightarrow> Record \<Rightarrow> InnerNode \<Rightarrow> InnerNode option result" where
  "inner_ins city rec n =
     (case scan_from (\<lambda>r. rc_valid r = 0 \<or> rc_key r = rc_key rec) (in_record n) 0 of
        None \<Rightarrow> Inr None
      | Some i \<Rightarrow>
          (if rc_valid (in_record n ! i) = 0
           then res_bind (sort_node (n\<lparr>in_record := (in_record n)[i := rec\<lparr>rc_valid := 1\<rparr>]\<rparr>)) (\<lambda>n'.
                Inr (Some (inner_set_consistent city n')))
           else Inr (Some (inner_set_consistent city (n\<lparr>in_record := (in_record n)[i := rec]\<rparr>)))))"

text \<open>\<open>split(true, ...)\<close> gives the separating record and the records to migrate.\<close>

definition split_origin :: "(u8 list \<Rightarrow> u32) \<Rightarrow> InnerNode \<Rightarrow> InnerNode \<times> Record list \<times> Record" where
  "split_origin city n =
     (let half_id = InnerNodeCapacity div 2; rs = in_record n; record_pos = rs ! half_id in
      (inner_set_consistent city
         (n\<lparr>in_record := take half_id rs @ map (\<lambda>r. r\<lparr>rc_valid := 0\<rparr>) (drop half_id rs)\<rparr>),
       copy_Record record_pos # map copy_Record (drop (half_id + 1) rs),
       record_pos))"

text \<open>\<open>split(false, ...)\<close> stores the migrated records in front.\<close>

definition split_sibling :: "(u8 list \<Rightarrow> u32) \<Rightarrow> Record list \<Rightarrow> InnerNode \<Rightarrow> InnerNode result" where
  "split_sibling city mig n =
     (if length (in_record n) < length mig then Inl OutOfBounds
      else Inr (inner_set_consistent city
             (n\<lparr>in_record := map (\<lambda>r. r\<lparr>rc_valid := 1\<rparr>) mig @ drop (length mig) (in_record n)\<rparr>)))"

definition inner_scan :: "InnerNode \<Rightarrow> Record list" where
  "inner_scan n = map copy_Record (filter (\<lambda>r. rc_valid r \<noteq> 0) (in_record n))"

text \<open>
  \<open>DMTree::node_split\<close> on the node in the buffer, between the allocation of \<open>sibling_addr\<close> and
  the two writes: the old node, the new node and the record for the level above. A node whose
  insertion assertion fails aborts. \<open>pad1\<close> and \<open>pad2\<close> are the padding bytes of the two header
  copies on the stack.
\<close>

definition assert_ins :: "(u8 list \<Rightarrow> u32) \<Rightarrow> Record \<Rightarrow> InnerNode \<Rightarrow> InnerNode result" where
  "assert_ins city rec n =
     res_bind (inner_ins city rec n) (\<lambda>r.
     case r of Some n' \<Rightarrow> Inr n' | None \<Rightarrow> Inl (AssertFail ''node->insert(record)''))"

definition split_nodes ::
  "(u8 list \<Rightarrow> u32) \<Rightarrow> u8 list \<Rightarrow> u8 list \<Rightarrow> Gaddr \<Rightarrow> Record \<Rightarrow> InnerNode \<Rightarrow>
     (InnerNode \<times> InnerNode \<times> Record) result" where
  "split_nodes city pad1 pad2 sibling_addr rec n0 =
     (let n = inner_unlock n0;
          origin_hdr = copy_InnerHeader pad1 (in_hdr n); sibling_hdr = copy_InnerHeader pad2 (in_hdr n);
          (n1, records, pos) = split_origin city n;
          upper = pos\<lparr>rc_addr := sibling_addr\<rparr>;
          n2 = set_hdr city (origin_hdr\<lparr>ih_right_addr := sibling_addr, ih_max_key := rc_key upper,
                                ih_is_root := False\<rparr>) n1
      in res_bind (if rc_key upper > rc_key rec then assert_ins city rec n2 else Inr n2) (\<lambda>n3.
         let s1 = set_hdr city (sibling_hdr\<lparr>ih_min_key := rc_key upper, ih_is_root := False\<rparr>) inner_zero in
         res_bind (split_sibling city records s1) (\<lambda>s2.
         res_bind (if rc_key upper < rc_key rec then assert_ins city rec s2 else Inr s2) (\<lambda>s3.
         Inr (n3, s3, rec\<lparr>rc_key := rc_key upper, rc_addr := rc_addr upper\<rparr>)))))"

section \<open>A node as a sorted list of records\<close>

definition inner_wf :: "(u8 list \<Rightarrow> u32) \<Rightarrow> InnerNode \<Rightarrow> Record list \<Rightarrow> bool" where
  "inner_wf city n ls \<longleftrightarrow>
     (\<exists>zs. in_record n = ls @ zs \<and> (\<forall>r \<in> set zs. rc_valid r = 0)) \<and>
     length (in_record n) = InnerNodeCapacity \<and> (\<forall>r \<in> set ls. rc_valid r = 1) \<and>
     sorted_wrt (<) (map rc_key ls) \<and> ls \<noteq> [] \<and> rc_key (hd ls) = ih_min_key (in_hdr n) \<and>
     (\<forall>r \<in> set ls. rc_key r < ih_max_key (in_hdr n)) \<and> inner_check_consistent city n"

text \<open>Insertion into a sorted list of records, replacing a record with the same key.\<close>

fun insert_rec :: "Record \<Rightarrow> Record list \<Rightarrow> Record list" where
  "insert_rec r [] = [r]"
| "insert_rec r (x # xs) =
     (if rc_key r < rc_key x then r # x # xs
      else if rc_key r = rc_key x then r # xs
      else x # insert_rec r xs)"

lemma insert_rec_set: "set (insert_rec r ls) \<subseteq> insert r (set ls)" "r \<in> set (insert_rec r ls)"
  by (induction ls) auto

lemma insert_rec_keys: "rc_key ` set (insert_rec r ls) = insert (rc_key r) (rc_key ` set ls)"
  by (induction ls) auto

lemma insert_rec_sorted:
  "sorted_wrt (<) (map rc_key ls) \<Longrightarrow> sorted_wrt (<) (map rc_key (insert_rec r ls))"
proof (induction ls)
  case Nil
  then show ?case by simp
next
  case (Cons x xs)
  have "\<forall>y \<in> rc_key ` set (insert_rec r xs). rc_key x < y" if "rc_key x < rc_key r"
    using Cons.prems that unfolding insert_rec_keys by auto
  with Cons show ?case by auto
qed

lemma insert_rec_mset:
  "rc_key r \<notin> rc_key ` set ls \<Longrightarrow> mset (insert_rec r ls) = add_mset r (mset ls)"
  by (induction ls) auto

lemma insert_rec_length:
  "length (insert_rec r ls) = (if rc_key r \<in> rc_key ` set ls then length ls else Suc (length ls))"
  if "sorted_wrt (<) (map rc_key ls)"
  using that by (induction ls) auto

lemma insert_rec_hd:
  "ls \<noteq> [] \<Longrightarrow> rc_key (hd ls) \<le> rc_key r \<Longrightarrow> rc_key (hd (insert_rec r ls)) = rc_key (hd ls)"
  by (cases ls) auto

lemma insert_rec_append:
  "(\<forall>x \<in> set as. rc_key x < rc_key r) \<Longrightarrow> insert_rec r (as @ bs) = as @ insert_rec r bs"
  by (induction as) auto

lemma insert_rec_before:
  "bs \<noteq> [] \<Longrightarrow> rc_key r < rc_key (hd bs) \<Longrightarrow> insert_rec r (as @ bs) = insert_rec r as @ bs"
proof (induction as)
  case Nil
  then show ?case by (cases bs) auto
qed auto

lemma insert_rec_replace:
  "sorted_wrt (<) (map rc_key ls) \<Longrightarrow> i < length ls \<Longrightarrow> rc_key (ls ! i) = rc_key r \<Longrightarrow>
     insert_rec r ls = ls[i := r]"
proof (induction ls arbitrary: i)
  case Nil
  then show ?case by simp
next
  case (Cons x xs)
  show ?case
  proof (cases i)
    case 0
    with Cons.prems show ?thesis by simp
  next
    case (Suc j)
    then have "rc_key x < rc_key r" using Cons.prems by (auto simp: set_conv_nth)
    with Cons Suc show ?thesis by auto
  qed
qed

lemma sort_snoc_insert_rec:
  assumes "sorted_wrt (<) (map rc_key ls)" and "rc_key r \<notin> rc_key ` set ls"
  shows "sort_key rc_key (ls @ [r]) = insert_rec r ls"
proof (rule sort_key_inj_key_eq)
  show "mset (ls @ [r]) = mset (insert_rec r ls)" using insert_rec_mset [OF assms(2)] by simp
  have "distinct (map rc_key ls)" using assms(1) by (simp add: strict_sorted_iff)
  then show "inj_on rc_key (set (ls @ [r]))" using assms(2) by (auto simp: distinct_map inj_on_insert)
  show "sorted (map rc_key (insert_rec r ls))"
    using insert_rec_sorted [OF assms(1), of r] by (simp add: strict_sorted_iff)
qed

lemma inner_check_set_consistent [simp]: "inner_check_consistent city (inner_set_consistent city n)"
proof -
  have "ucast (ucast x :: u64) = x" for x :: u32
    by (rule bit_word_eqI) (auto simp: bit_simps)
  then show ?thesis
    by (simp add: inner_check_consistent_def inner_set_consistent_def inner_bytes_def)
qed

lemma inner_set_consistent_simps [simp]:
  "in_record (inner_set_consistent city n) = in_record n"
  "in_hdr (inner_set_consistent city n) = in_hdr n"
  "in_lock (inner_set_consistent city n) = in_lock n"
  by (simp_all add: inner_set_consistent_def)

section \<open>Search\<close>

lemma scan_prefix:
  assumes "\<forall>x \<in> set as. \<not> P x" and "bs = [] \<or> P (hd bs)"
  shows "scan_from P (as @ bs) i = (if bs = [] then None else Some (i + length as))"
  using assms by (induction as arbitrary: i) (cases bs; simp)+

lemma inner_find_correct:
  assumes wf: "inner_wf city n ls" and key: "ih_min_key (in_hdr n) \<le> key"
  shows "\<exists>i < length ls. inner_find key n = Inr (ls ! i, ih_next_is_leaf (in_hdr n)) \<and>
     rc_key (ls ! i) \<le> key \<and> (Suc i < length ls \<longrightarrow> key < rc_key (ls ! Suc i))"
proof -
  let ?P = "\<lambda>r. rc_valid r = 0 \<or> rc_key r > key" and ?Q = "\<lambda>r. rc_key r \<le> key"
  obtain zs where rec: "in_record n = ls @ zs" "\<forall>r \<in> set zs. rc_valid r = 0"
    and v: "\<forall>r \<in> set ls. rc_valid r = 1" and ne: "ls \<noteq> []"
    and hd: "rc_key (hd ls) = ih_min_key (in_hdr n)" and srt: "sorted_wrt (<) (map rc_key ls)"
    using wf by (auto simp: inner_wf_def)
  let ?as = "takeWhile ?Q ls" and ?bs = "dropWhile ?Q ls @ zs"
  define i where "i = length ?as"
  have "hd ls \<in> set ?as" using ne hd key by (cases ls) auto
  then have i0: "0 < i" by (auto simp: i_def)
  have il: "i \<le> length ls" unfolding i_def by (rule length_takeWhile_le)
  have rec': "in_record n = ?as @ ?bs" by (simp add: rec(1))
  have sc: "scan_from ?P (?as @ ?bs) 0 = (if ?bs = [] then None else Some (0 + length ?as))"
  proof (rule scan_prefix)
    show "\<forall>x \<in> set ?as. \<not> ?P x" using v by (force dest: set_takeWhileD)
    show "?bs = [] \<or> ?P (hd ?bs)"
    proof (cases "dropWhile ?Q ls = []")
      case True
      show ?thesis unfolding True using rec(2) by (cases zs) simp_all
    next
      case False
      then show ?thesis using hd_dropWhile [OF False] by (simp add: hd_append2 not_le)
    qed
  qed
  have "(case scan_from ?P (in_record n) 0 of Some j \<Rightarrow> j | None \<Rightarrow> length (in_record n)) = i"
    unfolding rec' sc i_def by (cases "?bs = []") (simp_all del: append_is_Nil_conv)
  then have "inner_find key n = Inr (in_record n ! (i - 1), ih_next_is_leaf (in_hdr n))"
    using i0 by (simp add: inner_find_def)
  moreover have "in_record n ! (i - 1) = ls ! (i - 1)" using rec(1) i0 il by (simp add: nth_append)
  moreover have "ls ! (i - 1) = ?as ! (i - 1)" using i0 by (simp add: i_def takeWhile_nth)
  then have "rc_key (ls ! (i - 1)) \<le> key"
    using set_takeWhileD [of "ls ! (i - 1)" ?Q ls] i0 by (simp add: i_def)
  moreover have "key < rc_key (ls ! Suc (i - 1))" if "Suc (i - 1) < length ls"
    using nth_length_takeWhile [of ?Q ls] that i0 by (simp add: i_def)
  ultimately show ?thesis using i0 il by (intro exI [of _ "i - 1"]) auto
qed

section \<open>Insertion\<close>

lemma inner_wf_insert:
  assumes wf: "inner_wf city n ls" and rng: "ih_min_key (in_hdr n) \<le> rc_key rec" "rc_key rec < ih_max_key (in_hdr n)"
    and valid: "rc_valid rec = 1"
    and n': "in_record n' = insert_rec rec ls @ zs" "\<forall>r \<in> set zs. rc_valid r = 0"
      "length (in_record n') = InnerNodeCapacity" "in_hdr n' = in_hdr n"
  shows "inner_wf city (inner_set_consistent city n') (insert_rec rec ls)"
proof -
  have "\<forall>r \<in> set (insert_rec rec ls). rc_valid r = 1 \<and> rc_key r < ih_max_key (in_hdr n)"
    using wf valid rng(2) insert_rec_set(1) [of rec ls] by (auto simp: inner_wf_def)
  moreover have "sorted_wrt (<) (map rc_key (insert_rec rec ls))"
    using wf by (simp add: inner_wf_def insert_rec_sorted)
  moreover have "insert_rec rec ls \<noteq> []" using insert_rec_set(2) [of rec ls] by auto
  moreover have "rc_key (hd (insert_rec rec ls)) = ih_min_key (in_hdr n)"
    using wf rng(1) insert_rec_hd [of ls rec] by (simp add: inner_wf_def)
  ultimately show ?thesis using n' by (auto simp: inner_wf_def)
qed

lemma inner_ins_replace:
  assumes wf: "inner_wf city n ls" and i: "i < length ls" "rc_key (ls ! i) = rc_key rec"
  shows "inner_ins city rec n =
     Inr (Some (inner_set_consistent city (n\<lparr>in_record := (in_record n)[i := rec]\<rparr>)))"
proof -
  let ?P = "\<lambda>r. rc_valid r = 0 \<or> rc_key r = rc_key rec"
  obtain zs where rec: "in_record n = ls @ zs" and v: "\<forall>r \<in> set ls. rc_valid r = 1"
    and srt: "sorted_wrt (<) (map rc_key ls)"
    using wf by (auto simp: inner_wf_def)
  have d: "rc_key (ls ! j) < rc_key (ls ! i)" if "j < i" for j
    using sorted_wrt_nth_less [OF srt, of j i] that i(1) by simp
  have "scan_from ?P (take i ls @ (drop i ls @ zs)) 0 =
      (if drop i ls @ zs = [] then None else Some (0 + length (take i ls)))"
  proof (rule scan_prefix)
    show "\<forall>x \<in> set (take i ls). \<not> ?P x"
    proof
      fix x assume "x \<in> set (take i ls)"
      then obtain j where "j < i" "j < length ls" "x = ls ! j" by (auto simp: in_set_conv_nth)
      with d [of j] v i(2) show "\<not> ?P x" by auto
    qed
    show "drop i ls @ zs = [] \<or> ?P (hd (drop i ls @ zs))"
      using i by (simp add: hd_append2 hd_drop_conv_nth)
  qed
  moreover have "take i ls @ drop i ls @ zs = in_record n" using rec by simp
  ultimately have "scan_from ?P (in_record n) 0 = Some i" using i(1) by (simp only:) simp
  moreover have "rc_valid (in_record n ! i) = 1" using v rec i(1) by (simp add: nth_append)
  ultimately show ?thesis by (simp add: inner_ins_def)
qed

lemma inner_ins_new:
  assumes wf: "inner_wf city n ls" and new: "rc_key rec \<notin> rc_key ` set ls" and valid: "rc_valid rec = 1"
    and rec: "in_record n = ls @ z # zs"
  shows "inner_ins city rec n =
     Inr (Some (inner_set_consistent city (n\<lparr>in_record := insert_rec rec ls @ zs\<rparr>)))"
proof -
  let ?P = "\<lambda>r. rc_valid r = 0 \<or> rc_key r = rc_key rec"
  have v: "\<forall>r \<in> set ls. rc_valid r = 1" and ne: "ls \<noteq> []" and srt: "sorted_wrt (<) (map rc_key ls)"
    and z: "\<forall>r \<in> set (z # zs). rc_valid r = 0"
    using wf rec by (auto simp: inner_wf_def append_eq_append_conv)
  have newk: "\<forall>x \<in> set ls. rc_key x \<noteq> rc_key rec" using new by (metis image_eqI)
  have "scan_from ?P (ls @ z # zs) 0 = (if z # zs = [] then None else Some (0 + length ls))"
    by (rule scan_prefix) (use v newk z in simp_all)
  then have sc: "scan_from ?P (in_record n) 0 = Some (length ls)" using rec by simp
  let ?n = "n\<lparr>in_record := (in_record n)[length ls := rec\<lparr>rc_valid := 1\<rparr>]\<rparr>"
  have r1: "rec\<lparr>rc_valid := 1\<rparr> = rec" using valid by simp
  have rs: "in_record ?n = ls @ rec # zs" using rec r1 by (simp add: list_update_append)
  have "filter (\<lambda>r. rc_valid r = 1) (in_record ?n) = ls @ [rec]"
    unfolding rs using v z valid by (auto simp: filter_id_conv filter_empty_conv)
  then have "sort_node ?n = Inr (?n\<lparr>in_record := insert_rec rec ls @ zs\<rparr>)"
    using ne sort_snoc_insert_rec [OF srt new] rs by (simp add: sort_node_def)
  moreover have "rc_valid (in_record n ! length ls) = 0" using rec z by simp
  ultimately show ?thesis using sc by (simp add: inner_ins_def)
qed

lemma inner_ins_correct:
  assumes wf: "inner_wf city n ls" and rng: "ih_min_key (in_hdr n) \<le> rc_key rec" "rc_key rec < ih_max_key (in_hdr n)"
    and valid: "rc_valid rec = 1"
  shows "if rc_key rec \<in> rc_key ` set ls \<or> length ls < InnerNodeCapacity
         then \<exists>n'. inner_ins city rec n = Inr (Some n') \<and> inner_wf city n' (insert_rec rec ls) \<and>
                in_hdr n' = in_hdr n \<and> in_lock n' = in_lock n
         else inner_ins city rec n = Inr None"
proof -
  obtain zs where rs: "in_record n = ls @ zs" "\<forall>r \<in> set zs. rc_valid r = 0"
    and v: "\<forall>r \<in> set ls. rc_valid r = 1" and srt: "sorted_wrt (<) (map rc_key ls)"
    and len: "length (in_record n) = InnerNodeCapacity"
    using wf by (auto simp: inner_wf_def)
  show ?thesis
  proof (cases "rc_key rec \<in> rc_key ` set ls")
    case True
    then obtain i where i: "i < length ls" "rc_key (ls ! i) = rc_key rec"
      by (auto simp: in_set_conv_nth)
    let ?n = "n\<lparr>in_record := (in_record n)[i := rec]\<rparr>"
    have "in_record ?n = insert_rec rec ls @ zs"
      using rs(1) i by (simp add: insert_rec_replace [OF srt i] list_update_append)
    from inner_wf_insert [OF wf rng valid this rs(2)] len True inner_ins_replace [OF wf i]
    show ?thesis by simp
  next
    case new: False
    show ?thesis
    proof (cases zs)
      case Nil
      have "\<forall>x \<in> set ls. rc_key x \<noteq> rc_key rec" using new by (metis image_eqI)
      then have "scan_from (\<lambda>r. rc_valid r = 0 \<or> rc_key r = rc_key rec) (in_record n) 0 = None"
        using Nil rs(1) v by (simp add: scan_from_None_iff)
      moreover have "length ls = InnerNodeCapacity" using Nil rs(1) len by simp
      ultimately show ?thesis using new by (simp add: inner_ins_def)
    next
      case (Cons z zs')
      let ?n = "n\<lparr>in_record := insert_rec rec ls @ zs'\<rparr>"
      have eq: "inner_ins city rec n = Inr (Some (inner_set_consistent city ?n))"
        using inner_ins_new [OF wf new valid] rs(1) Cons by simp
      have l: "length (in_record ?n) = InnerNodeCapacity"
        using len rs(1) Cons new insert_rec_length [OF srt, of rec] by simp
      have "length ls < InnerNodeCapacity" using len rs(1) Cons by simp
      with inner_wf_insert [OF wf rng valid, of ?n zs'] eq l rs(2) Cons new show ?thesis by simp
    qed
  qed
qed

text \<open>
  C10: on a well-formed inner node and a key of its range, \<open>search\<close> returns the record of the child
  that covers the key and never reads outside the array; \<open>insert\<close> of a valid record keeps the node
  well formed and sorted, adds or replaces exactly that record, and fails exactly when the key is
  new and all 32 records are used.
\<close>

theorem inner_node_correct:
  assumes "inner_wf city n ls" and "check_hdr (rc_key rec) n" and "rc_valid rec = 1"
  shows "(\<exists>i < length ls. inner_find (rc_key rec) n = Inr (ls ! i, ih_next_is_leaf (in_hdr n)) \<and>
            rc_key (ls ! i) \<le> rc_key rec \<and> (Suc i < length ls \<longrightarrow> rc_key rec < rc_key (ls ! Suc i))) \<and>
         (if rc_key rec \<in> rc_key ` set ls \<or> length ls < InnerNodeCapacity
          then \<exists>n'. inner_ins city rec n = Inr (Some n') \<and> inner_wf city n' (insert_rec rec ls) \<and>
                 in_hdr n' = in_hdr n \<and> in_lock n' = in_lock n \<and>
                 inner_find (rc_key rec) n' = Inr (rec, ih_next_is_leaf (in_hdr n))
          else inner_ins city rec n = Inr None)"
proof -
  have rng: "ih_min_key (in_hdr n) \<le> rc_key rec" "rc_key rec < ih_max_key (in_hdr n)"
    using assms(2) by (simp_all add: check_hdr_def)
  have found: "inner_find (rc_key rec) n' = Inr (rec, ih_next_is_leaf (in_hdr n))"
    if wf': "inner_wf city n' (insert_rec rec ls)" and h: "in_hdr n' = in_hdr n" for n'
  proof -
    let ?ls = "insert_rec rec ls"
    obtain i where i: "i < length ?ls" "inner_find (rc_key rec) n' = Inr (?ls ! i, ih_next_is_leaf (in_hdr n'))"
      "rc_key (?ls ! i) \<le> rc_key rec" "Suc i < length ?ls \<longrightarrow> rc_key rec < rc_key (?ls ! Suc i)"
      using inner_find_correct [OF wf', of "rc_key rec"] rng(1) h by auto
    obtain j where j: "j < length ?ls" "?ls ! j = rec" using insert_rec_set(2) by (metis in_set_conv_nth)
    have srt: "sorted_wrt (<) (map rc_key ?ls)" using wf' by (simp add: inner_wf_def)
    have less: "rc_key (?ls ! a) < rc_key (?ls ! b)" if "a < b" "b < length ?ls" for a b
      using sorted_wrt_nth_less [OF srt, of a b] that by simp
    have "i = j"
    proof (rule ccontr)
      assume "i \<noteq> j"
      then consider "i < j" | "j < i" by linarith
      then show False
      proof cases
        case 1
        then have "rc_key rec < rc_key (?ls ! Suc i)" using i(4) j(1) by simp
        moreover have "rc_key (?ls ! Suc i) \<le> rc_key (?ls ! j)"
          using 1 less [of "Suc i" j] j(1) by (cases "Suc i = j") auto
        ultimately show False using j(2) by simp
      next
        case 2
        then show False using less [of j i] i(1,3) j(2) by simp
      qed
    qed
    with i(2) j(2) h show ?thesis by simp
  qed
  show ?thesis
    using inner_find_correct [OF assms(1) rng(1)] inner_ins_correct [OF assms(1) rng assms(3)] found
    by (simp split: if_splits) blast
qed

definition example_record :: Record where
  "example_record = new_Record KeyNull (mk_Gaddr 1 64) (mk_Gaddr 1 128) 32 0"

definition example_node :: InnerNode where
  "example_node = inner_set_consistent (\<lambda>_. 0)
     (inner_zero\<lparr>in_hdr := new_InnerHeader Gaddr_Null [0, 0],
                 in_record := example_record # replicate 31 record_zero\<rparr>)"

lemma example_node_wf: "inner_wf (\<lambda>_. 0) example_node [example_record]"
  unfolding inner_wf_def
proof (intro conjI)
  show "\<exists>zs. in_record example_node = [example_record] @ zs \<and> (\<forall>r \<in> set zs. rc_valid r = 0)"
    by (simp add: example_node_def record_zero_def)
qed (simp_all add: example_node_def example_record_def new_Record_def new_InnerHeader_def dm_sizes)

theorem inner_node_correct_witness:
  "\<exists>n'. inner_ins (\<lambda>_. 0) (new_Record (mk_key [1]) (mk_Gaddr 1 8) (mk_Gaddr 1 9) 32 0) example_node =
      Inr (Some n')"
proof -
  let ?r = "new_Record (mk_key [1]) (mk_Gaddr 1 8) (mk_Gaddr 1 9) 32 0"
  have "mk_key [1] < KeyMax" "KeyNull \<le> mk_key [1]" unfolding KeyMax_def KeyNull_def by code_simp+
  then have c: "check_hdr (rc_key ?r) example_node"
    by (simp add: check_hdr_def example_node_def new_InnerHeader_def new_Record_def)
  have v: "rc_valid ?r = 1" by (simp add: new_Record_def)
  show ?thesis
    using inner_node_correct [OF example_node_wf c v] by (auto simp: dm_sizes)
qed

section \<open>Splitting\<close>

lemma inner_wf_set_hdr:
  assumes "in_record n = ls @ zs" and "\<forall>r \<in> set zs. rc_valid r = 0" and "length (in_record n) = InnerNodeCapacity"
    and "\<forall>r \<in> set ls. rc_valid r = 1" and "sorted_wrt (<) (map rc_key ls)" and "ls \<noteq> []"
    and "rc_key (hd ls) = ih_min_key (in_hdr n)" and "\<forall>r \<in> set ls. rc_key r < ih_max_key (in_hdr n)"
    and "inner_check_consistent city n"
  shows "inner_wf city n ls"
  using assms by (auto simp: inner_wf_def)

lemma map_valid_id: "\<forall>r \<in> set ls. rc_valid r = 1 \<Longrightarrow> map (\<lambda>r. r\<lparr>rc_valid := 1\<rparr>) ls = ls"
  by (rule map_idI) simp

lemma assert_ins_correct:
  assumes wf: "inner_wf city n ls" and rng: "ih_min_key (in_hdr n) \<le> rc_key rec" "rc_key rec < ih_max_key (in_hdr n)"
    and valid: "rc_valid rec = 1" and room: "length ls < InnerNodeCapacity"
  shows "\<exists>n'. assert_ins city rec n = Inr n' \<and> inner_wf city n' (insert_rec rec ls) \<and>
      in_hdr n' = in_hdr n \<and> in_lock n' = in_lock n"
  using inner_ins_correct [OF wf rng valid] room by (auto simp: assert_ins_def)

text \<open>The two halves of a full node, before the new record is added.\<close>

lemma split_halves:
  assumes wf: "inner_wf city n ls" and full: "length ls = InnerNodeCapacity"
    and up: "up = rc_key (ls ! 16)"
  shows "split_origin city (inner_unlock n) =
      (inner_set_consistent city (n\<lparr>in_lock := 0, in_record := take 16 ls @ map (\<lambda>r. r\<lparr>rc_valid := 0\<rparr>) (drop 16 ls)\<rparr>),
       drop 16 ls, ls ! 16)"
    and "inner_wf city (set_hdr city ((copy_InnerHeader pa (in_hdr n))\<lparr>ih_right_addr := sa, ih_max_key := up, ih_is_root := False\<rparr>)
      (inner_set_consistent city (n\<lparr>in_lock := 0, in_record := take 16 ls @ map (\<lambda>r. r\<lparr>rc_valid := 0\<rparr>) (drop 16 ls)\<rparr>)))
      (take 16 ls)"
    and "\<exists>s. split_sibling city (drop 16 ls)
      (set_hdr city ((copy_InnerHeader pb (in_hdr n))\<lparr>ih_min_key := up, ih_is_root := False\<rparr>) inner_zero) = Inr s \<and>
      inner_wf city s (drop 16 ls) \<and>
      in_hdr s = (copy_InnerHeader pb (in_hdr n))\<lparr>ih_min_key := up, ih_is_root := False\<rparr> \<and> in_lock s = 0"
    and "ih_min_key (in_hdr n) < up" and "up < ih_max_key (in_hdr n)"
proof -
  have rs: "in_record n = ls" and len: "length ls = 32" and v: "\<forall>r \<in> set ls. rc_valid r = 1"
    and srt: "sorted_wrt (<) (map rc_key ls)" and ne: "ls \<noteq> []"
    and hd: "rc_key (hd ls) = ih_min_key (in_hdr n)" and mx: "\<forall>r \<in> set ls. rc_key r < ih_max_key (in_hdr n)"
    using wf full by (auto simp: inner_wf_def dm_sizes)
  have less: "rc_key (ls ! a) < rc_key (ls ! b)" if "a < b" "b < 32" for a b
    using sorted_wrt_nth_less [OF srt, of a b] that len by simp
  have d16: "drop 16 ls = ls ! 16 # drop 17 ls" using len by (simp add: Cons_nth_drop_Suc [symmetric])
  have cp: "copy_Record (ls ! 16) = ls ! 16" "map copy_Record (drop 17 ls) = drop 17 ls"
  proof -
    show "copy_Record (ls ! 16) = ls ! 16" using v len by (simp add: copy_Record_def)
    show "map copy_Record (drop 17 ls) = drop 17 ls"
      by (rule map_idI) (use v in \<open>auto simp: copy_Record_def dest: in_set_dropD\<close>)
  qed
  show "split_origin city (inner_unlock n) =
      (inner_set_consistent city (n\<lparr>in_lock := 0, in_record := take 16 ls @ map (\<lambda>r. r\<lparr>rc_valid := 0\<rparr>) (drop 16 ls)\<rparr>),
       drop 16 ls, ls ! 16)"
    using rs cp d16 by (simp add: split_origin_def inner_unlock_def dm_sizes Let_def)
  have hd0: "hd ls = ls ! 0" using ne by (simp add: hd_conv_nth)
  have tk: "\<forall>r \<in> set (take 16 ls). rc_key r < up"
    using less len unfolding up by (auto simp: in_set_conv_nth)
  have st: "sorted_wrt (<) (map rc_key (take 16 ls))" "sorted_wrt (<) (map rc_key (drop 16 ls))"
    using srt by (simp_all add: take_map [symmetric] drop_map [symmetric] sorted_wrt_take sorted_wrt_drop)
  show "inner_wf city (set_hdr city ((copy_InnerHeader pa (in_hdr n))\<lparr>ih_right_addr := sa, ih_max_key := up, ih_is_root := False\<rparr>)
      (inner_set_consistent city (n\<lparr>in_lock := 0, in_record := take 16 ls @ map (\<lambda>r. r\<lparr>rc_valid := 0\<rparr>) (drop 16 ls)\<rparr>)))
      (take 16 ls)"
    by (rule inner_wf_set_hdr [of _ _ "map (\<lambda>r. r\<lparr>rc_valid := 0\<rparr>) (drop 16 ls)"])
      (use v len st(1) hd tk ne in \<open>auto simp: set_hdr_def copy_InnerHeader_def dm_sizes hd_take dest: in_set_takeD\<close>)
  let ?s = "inner_set_consistent city ((set_hdr city ((copy_InnerHeader pb (in_hdr n))\<lparr>ih_min_key := up, ih_is_root := False\<rparr>) inner_zero)
    \<lparr>in_record := drop 16 ls @ replicate 16 record_zero\<rparr>)"
  have mv: "map (\<lambda>r. r\<lparr>rc_valid := 1\<rparr>) (drop 16 ls) = drop 16 ls"
    by (rule map_valid_id) (use v in \<open>auto dest: in_set_dropD\<close>)
  have "split_sibling city (drop 16 ls)
      (set_hdr city ((copy_InnerHeader pb (in_hdr n))\<lparr>ih_min_key := up, ih_is_root := False\<rparr>) inner_zero) = Inr ?s"
    unfolding split_sibling_def mv using len by (simp add: set_hdr_def inner_zero_def dm_sizes)
  moreover have "inner_wf city ?s (drop 16 ls)"
    by (rule inner_wf_set_hdr [of _ _ "replicate 16 record_zero"])
      (use v len st(2) mx up d16 in \<open>auto simp: set_hdr_def copy_InnerHeader_def record_zero_def dm_sizes hd_drop_conv_nth dest: in_set_dropD\<close>)
  ultimately show "\<exists>s. split_sibling city (drop 16 ls)
      (set_hdr city ((copy_InnerHeader pb (in_hdr n))\<lparr>ih_min_key := up, ih_is_root := False\<rparr>) inner_zero) = Inr s \<and>
      inner_wf city s (drop 16 ls) \<and>
      in_hdr s = (copy_InnerHeader pb (in_hdr n))\<lparr>ih_min_key := up, ih_is_root := False\<rparr> \<and> in_lock s = 0"
    by (intro exI [of _ ?s]) (simp add: set_hdr_def inner_zero_def)
  show "ih_min_key (in_hdr n) < up" using less [of 0 16] hd hd0 up by simp
  show "up < ih_max_key (in_hdr n)" using mx len up by simp
qed

lemma split_nodes_halves:
  assumes wf: "inner_wf city n ls" and full: "length ls = InnerNodeCapacity"
    and rng: "ih_min_key (in_hdr n) \<le> rc_key rec" "rc_key rec < ih_max_key (in_hdr n)"
    and valid: "rc_valid rec = 1" and new: "rc_key rec \<notin> rc_key ` set ls"
  shows "\<exists>n' s' up as bs.
     split_nodes city pad1 pad2 sa rec n = Inr (n', s', rec\<lparr>rc_key := up, rc_addr := sa\<rparr>) \<and>
     inner_wf city n' as \<and> inner_wf city s' bs \<and> as @ bs = insert_rec rec ls \<and>
     ih_min_key (in_hdr n) < up \<and> up < ih_max_key (in_hdr n) \<and> in_lock n' = 0 \<and> in_lock s' = 0 \<and>
     in_hdr n' = (in_hdr n)\<lparr>ih_right_addr := sa, ih_max_key := up, ih_is_root := False, ih_padding := pad1\<rparr> \<and>
     in_hdr s' = (in_hdr n)\<lparr>ih_min_key := up, ih_is_root := False, ih_padding := pad2\<rparr>"
proof -
  define up where "up = rc_key (ls ! 16)"
  note sh = split_halves [OF wf full up_def]
  let ?m = "inner_set_consistent city (n\<lparr>in_lock := 0, in_record := take 16 ls @ map (\<lambda>r. r\<lparr>rc_valid := 0\<rparr>) (drop 16 ls)\<rparr>)"
  define n2 where "n2 = set_hdr city ((copy_InnerHeader pad1 (in_hdr n))\<lparr>ih_right_addr := sa, ih_max_key := up, ih_is_root := False\<rparr>) ?m"
  have n2: "inner_wf city n2 (take 16 ls)" "in_lock n2 = 0"
    "in_hdr n2 = (in_hdr n)\<lparr>ih_right_addr := sa, ih_max_key := up, ih_is_root := False, ih_padding := pad1\<rparr>"
    using sh(2) [where pa = pad1 and sa = sa] by (simp_all add: n2_def set_hdr_def copy_InnerHeader_def)
  obtain s2 where s2: "split_sibling city (drop 16 ls)
      (set_hdr city ((copy_InnerHeader pad2 (in_hdr n))\<lparr>ih_min_key := up, ih_is_root := False\<rparr>) inner_zero) = Inr s2"
    "inner_wf city s2 (drop 16 ls)" "in_lock s2 = 0"
    "in_hdr s2 = (in_hdr n)\<lparr>ih_min_key := up, ih_is_root := False, ih_padding := pad2\<rparr>"
    using sh(3) [where pb = pad2] by (auto simp: copy_InnerHeader_def)
  have len: "length ls = 32" using full by (simp add: dm_sizes)
  have srt: "sorted_wrt (<) (map rc_key ls)" using wf by (simp add: inner_wf_def)
  have hdr: "in_hdr (inner_unlock n) = in_hdr n" by (simp add: inner_unlock_def)
  have "ls ! 16 \<in> set ls" using len by simp
  then have neq: "up \<noteq> rc_key rec" using new by (metis image_eqI up_def)
  have eq: "split_nodes city pad1 pad2 sa rec n =
     res_bind (if up > rc_key rec then assert_ins city rec n2 else Inr n2) (\<lambda>n3.
     res_bind (if up < rc_key rec then assert_ins city rec s2 else Inr s2) (\<lambda>s3.
     Inr (n3, s3, rec\<lparr>rc_key := up, rc_addr := sa\<rparr>)))"
    unfolding split_nodes_def Let_def sh(1) prod.case hdr
    by (simp add: n2_def [symmetric] s2(1) up_def [symmetric])
  show ?thesis
  proof (cases "rc_key rec < up")
    case True
    obtain n3 where n3: "assert_ins city rec n2 = Inr n3" "inner_wf city n3 (insert_rec rec (take 16 ls))"
      "in_hdr n3 = in_hdr n2" "in_lock n3 = in_lock n2"
      using assert_ins_correct [OF n2(1), of rec] rng True n2(3) valid len by (auto simp: dm_sizes)
    have "insert_rec rec (take 16 ls) @ drop 16 ls = insert_rec rec (take 16 ls @ drop 16 ls)"
      using insert_rec_before [of "drop 16 ls" rec "take 16 ls"] True len
      by (simp add: hd_drop_conv_nth up_def)
    then have ab: "insert_rec rec (take 16 ls) @ drop 16 ls = insert_rec rec ls" by simp
    have r: "split_nodes city pad1 pad2 sa rec n = Inr (n3, s2, rec\<lparr>rc_key := up, rc_addr := sa\<rparr>)"
      using eq n3(1) True by (simp add: less_not_sym)
    show ?thesis
      by (intro exI conjI) (rule r n3(2) s2(2) ab sh(4,5) s2(3,4) | simp add: n2 n3)+
  next
    case False
    with neq have gt: "up < rc_key rec" by simp
    obtain s3 where s3: "assert_ins city rec s2 = Inr s3" "inner_wf city s3 (insert_rec rec (drop 16 ls))"
      "in_hdr s3 = in_hdr s2" "in_lock s3 = in_lock s2"
      using assert_ins_correct [OF s2(2), of rec] rng less_imp_le [OF gt] s2(4) valid len
      by (auto simp: dm_sizes)
    have "\<forall>x \<in> set (take 16 ls). rc_key x < rc_key rec"
    proof
      fix x assume "x \<in> set (take 16 ls)"
      then obtain j where "j < 16" "x = ls ! j" using len by (auto simp: in_set_conv_nth)
      then have "rc_key x < up" using sorted_wrt_nth_less [OF srt, of j 16] len by (simp add: up_def)
      with gt show "rc_key x < rc_key rec" by simp
    qed
    then have ab: "take 16 ls @ insert_rec rec (drop 16 ls) = insert_rec rec ls"
      using insert_rec_append [of "take 16 ls" rec "drop 16 ls"] by simp
    have r: "split_nodes city pad1 pad2 sa rec n = Inr (n2, s3, rec\<lparr>rc_key := up, rc_addr := sa\<rparr>)"
      using eq s3(1) False gt by simp
    show ?thesis
      by (intro exI conjI) (rule r s3(2) n2(1) ab sh(4,5) n2(2,3) | simp add: s2 s3)+
  qed
qed

text \<open>
  C8: splitting a full, well-formed inner node for a record with a new key of its range always
  succeeds: the two resulting nodes are well formed, unlocked, not marked as root and linked, the
  separator lies strictly inside the old range, and their records in order are the old records
  with the new one inserted at its place.
\<close>

theorem split_nodes_correct:
  assumes wf: "inner_wf city n ls" and full: "length ls = InnerNodeCapacity"
    and rng: "ih_min_key (in_hdr n) \<le> rc_key rec" "rc_key rec < ih_max_key (in_hdr n)"
    and valid: "rc_valid rec = 1" and new: "rc_key rec \<notin> rc_key ` set ls"
  shows "\<exists>n' s' up as bs.
     split_nodes city pad1 pad2 sa rec n = Inr (n', s', rec\<lparr>rc_key := up, rc_addr := sa\<rparr>) \<and>
     inner_wf city n' as \<and> inner_wf city s' bs \<and> as @ bs = insert_rec rec ls \<and>
     ih_min_key (in_hdr n) < up \<and> up < ih_max_key (in_hdr n) \<and> in_lock n' = 0 \<and> in_lock s' = 0 \<and>
     in_hdr n' = (in_hdr n)\<lparr>ih_right_addr := sa, ih_max_key := up, ih_is_root := False, ih_padding := pad1\<rparr> \<and>
     in_hdr s' = (in_hdr n)\<lparr>ih_min_key := up, ih_is_root := False, ih_padding := pad2\<rparr>"
  using split_nodes_halves [OF assms] .

definition example_full_records :: "Record list" where
  "example_full_records = map (\<lambda>i. new_Record (mk_key [of_nat i]) (mk_Gaddr 1 64) (mk_Gaddr 1 128) 32 0) [0..<32]"

definition example_full :: InnerNode where
  "example_full = inner_set_consistent (\<lambda>_. 0)
     (inner_zero\<lparr>in_hdr := new_InnerHeader Gaddr_Null [0, 0], in_record := example_full_records\<rparr>)"

lemma mk_key_single_less: "mk_key [a] < mk_key [b] \<longleftrightarrow> a < b"
  by (simp add: less_KeyType_def KEY_SIZE_def eval_nat_numeral)

lemma mk_key_single_max: "i < 122 \<Longrightarrow> mk_key [i] < KeyMax"
  by (simp add: less_KeyType_def KeyMax_def KEY_SIZE_def eval_nat_numeral)

lemma example_full_wf: "inner_wf (\<lambda>_. 0) example_full example_full_records"
proof (rule inner_wf_set_hdr [of _ _ "[]"])
  show "sorted_wrt (<) (map rc_key example_full_records)"
    by (simp add: example_full_records_def sorted_wrt_iff_nth_less new_Record_def mk_key_single_less
        word_less_nat_alt unat_of_nat)
  show "rc_key (hd example_full_records) = ih_min_key (in_hdr example_full)"
    by (simp add: example_full_def example_full_records_def new_Record_def new_InnerHeader_def upt_rec
        KeyNull_def mk_key_def KEY_SIZE_def eval_nat_numeral)
  show "\<forall>r \<in> set example_full_records. rc_key r < ih_max_key (in_hdr example_full)"
    by (auto simp: example_full_def example_full_records_def new_Record_def new_InnerHeader_def
        word_less_nat_alt unat_of_nat intro!: mk_key_single_max)
qed (simp_all add: example_full_def example_full_records_def dm_sizes new_Record_def)

theorem split_nodes_correct_witness:
  "\<exists>n' s' r. split_nodes (\<lambda>_. 0) [0, 0] [0, 0] (mk_Gaddr 1 256)
      (new_Record (mk_key [100]) (mk_Gaddr 1 8) (mk_Gaddr 1 9) 32 0) example_full = Inr (n', s', r)"
proof -
  let ?r = "new_Record (mk_key [100]) (mk_Gaddr 1 8) (mk_Gaddr 1 9) 32 0"
  have l: "length example_full_records = InnerNodeCapacity"
    by (simp add: example_full_records_def dm_sizes)
  have r: "ih_min_key (in_hdr example_full) \<le> rc_key ?r" "rc_key ?r < ih_max_key (in_hdr example_full)"
    "rc_valid ?r = 1"
    using mk_key_single_max [of 100]
    by (simp_all add: example_full_def new_InnerHeader_def new_Record_def)
  have "mk_key [of_nat i] \<noteq> mk_key [100]" if "i < 32" for i
    using mk_key_single_less [of "of_nat i" 100] that by (auto simp: word_less_nat_alt unat_of_nat)
  then have n: "rc_key ?r \<notin> rc_key ` set example_full_records"
    by (force simp: example_full_records_def new_Record_def)
  show ?thesis
    using split_nodes_correct [OF example_full_wf l r n, of "[0, 0]" "[0, 0]"] by blast
qed

end
