(* ===== verification/Allocators.thy ===== *)
theory Allocators
  imports SlabAllocator
begin

text \<open>
  Model of the memory allocation of the tree: \<open>GlobalAllocator\<close> and \<open>Directory\<close>
  (\<open>DMTree/include/Directory.h\<close>, \<open>DMTree/src/Directory.cc\<close>, and the reservation in
  \<open>SkipVectorDM/src/Directory.cc\<close>), \<open>LocalAllocator\<close>, \<open>memory_alloc\<close> and \<open>compute_alloc\<close>
  (\<open>DMTree/include/DMVerbs.h\<close>). The request to a directory and its answer are one synchronous
  step; both allocation functions run under \<open>alloc_lock\<close>.
\<close>

definition NR_DIRECTORY :: nat where [dm_sizes]: "NR_DIRECTORY = 1"

section \<open>Chunks of a memory server\<close>

record GlobalAllocator =
  ga_start :: Gaddr
  ga_bitmap :: "bool list"
  ga_bitmap_tail :: nat

definition new_GlobalAllocator :: "Gaddr \<Rightarrow> nat \<Rightarrow> GlobalAllocator result" where
  "new_GlobalAllocator start size' =
     (let bitmap_len = size' div kChunkSize in
      if bitmap_len = 0 then Inl OutOfBounds
      else Inr \<lparr>ga_start = start, ga_bitmap = (replicate bitmap_len False)[0 := True],
                ga_bitmap_tail = 1\<rparr>)"

definition alloc_chunck :: "GlobalAllocator \<Rightarrow> (Gaddr \<times> GlobalAllocator) result" where
  "alloc_chunck ga =
     (let res = ga_start ga; t = ga_bitmap_tail ga in
      if length (ga_bitmap ga) \<le> t then Inl (AssertFail ''false'')
      else if \<not> ga_bitmap ga ! t
      then Inr (res\<lparr>offset := offset res + of_nat (t * kChunkSize)\<rparr>,
                ga\<lparr>ga_bitmap := (ga_bitmap ga)[t := True], ga_bitmap_tail := t + 1\<rparr>)
      else Inl (AssertFail ''false''))"

definition free_chunk :: "Gaddr \<Rightarrow> GlobalAllocator \<Rightarrow> GlobalAllocator result" where
  "free_chunk addr ga =
     (let i = unat (ucast (offset addr) - ucast (offset (ga_start ga)) :: u64) div kChunkSize in
      if length (ga_bitmap ga) \<le> i then Inl OutOfBounds
      else Inr (ga\<lparr>ga_bitmap := (ga_bitmap ga)[i := False]\<rparr>))"

section \<open>Directories\<close>

datatype RpcType = MALLOC | FREE | NEW_ROOT | NOP

record RawMessage =
  rm_type :: RpcType
  rm_node_id :: u16
  rm_app_id :: u16
  rm_addr :: Gaddr
  rm_level :: int

record Directory =
  dir_alloc :: GlobalAllocator
  g_root_ptr :: Gaddr
  g_root_level :: int
  dir_enable_cache :: bool

definition new_Directory :: "nat \<Rightarrow> u64 \<Rightarrow> u64 \<Rightarrow> Directory result" where
  "new_Directory dsm_size dir_id node_id =
     (let per = dsm_size div NR_DIRECTORY in
      res_bind (new_GlobalAllocator (mk_Gaddr node_id (of_nat per * dir_id)) per) (\<lambda>ga.
      Inr \<lparr>dir_alloc = ga, g_root_ptr = Gaddr_Null, g_root_level = -1, dir_enable_cache = False\<rparr>))"

text \<open>The directory of \<open>SkipVectorDM\<close> first takes the chunks of the skip-vector region.\<close>

primrec burn_chunks :: "nat \<Rightarrow> GlobalAllocator \<Rightarrow> GlobalAllocator result" where
  "burn_chunks 0 ga = Inr ga"
| "burn_chunks (Suc n) ga = res_bind (alloc_chunck ga) (\<lambda>(_, ga'). burn_chunks n ga')"

definition new_Directory_sv :: "nat \<Rightarrow> u64 \<Rightarrow> u64 \<Rightarrow> Directory result" where
  "new_Directory_sv dsm_size dir_id node_id =
     res_bind (new_Directory dsm_size dir_id node_id) (\<lambda>d.
     if dir_id = 0
     then res_bind (burn_chunks ((kSkipVectorRegionBytes + kChunkSize - 1) div kChunkSize) (dir_alloc d)) (\<lambda>ga.
          Inr (d\<lparr>dir_alloc := ga\<rparr>))
     else Inr d)"

text \<open>
  \<open>process_message\<close>: the message sent back, if any, with the node and thread it goes to, and the
  new state.
\<close>

definition process_message :: "RawMessage \<Rightarrow> Directory \<Rightarrow> ((Gaddr \<times> u16 \<times> u16) option \<times> Directory) result" where
  "process_message m d =
     (case rm_type m of
        MALLOC \<Rightarrow>
          res_bind (alloc_chunck (dir_alloc d)) (\<lambda>(a, ga).
          Inr (Some (a, rm_node_id m, rm_app_id m), d\<lparr>dir_alloc := ga\<rparr>))
      | NEW_ROOT \<Rightarrow>
          Inr (None,
               if g_root_level d < rm_level m
               then d\<lparr>g_root_ptr := rm_addr m, g_root_level := rm_level m,
                      dir_enable_cache := (dir_enable_cache d \<or> 3 \<le> rm_level m)\<rparr>
               else d)
      | _ \<Rightarrow> Inl (AssertFail ''false''))"

section \<open>The allocator of a client\<close>

record LocalAllocator =
  la_head :: Gaddr
  la_cur :: Gaddr
  la_log_heads :: "Gaddr list"

definition new_LocalAllocator :: LocalAllocator where
  "new_LocalAllocator = \<lparr>la_head = Gaddr_Null, la_cur = Gaddr_Null, la_log_heads = []\<rparr>"

text \<open>The address, whether a chunk is needed, and the new state.\<close>

definition la_malloc :: "nat \<Rightarrow> LocalAllocator \<Rightarrow> Gaddr \<times> bool \<times> LocalAllocator" where
  "la_malloc size' la =
     (let res = la_cur la in
      if la_log_heads la = [] \<or> unat (offset (la_cur la)) + size' > unat (offset (la_head la)) + kChunkSize
      then (res, True, la)
      else (res, False, la\<lparr>la_cur := (la_cur la)\<lparr>offset := offset (la_cur la) + of_nat size'\<rparr>\<rparr>))"

definition set_chunck :: "Gaddr \<Rightarrow> LocalAllocator \<Rightarrow> LocalAllocator" where
  "set_chunck addr la = \<lparr>la_head = addr, la_cur = addr, la_log_heads = la_log_heads la @ [addr]\<rparr>"

text \<open>
  The state of \<open>DMVerbs\<close> that allocation uses, with the directories of all servers. The
  thread-local targets are initialised by the first call.
\<close>

record DMAlloc =
  da_dirs :: "nat \<Rightarrow> nat \<Rightarrow> Directory"
  da_memory :: LocalAllocator
  da_compute :: LocalAllocator
  da_memory_nodes :: nat
  da_compute_nodes :: nat
  da_use_memory_fp :: bool
  da_mtarget :: "(nat \<times> nat) option"
  da_ctarget :: "(nat \<times> nat) option"

record DMConf =
  MemoryNumber :: nat
  ComputeNumber :: nat
  my_thread_id :: nat
  my_node_id :: nat

text \<open>\<open>rpc_call_dir\<close> with a \<open>MALLOC\<close> message and \<open>rpc_wait\<close>: the client's identity is filled in by the call.\<close>

definition rpc_malloc :: "DMConf \<Rightarrow> nat \<Rightarrow> nat \<Rightarrow> DMAlloc \<Rightarrow> (Gaddr \<times> DMAlloc) result" where
  "rpc_malloc conf node dir da =
     res_bind (process_message
       \<lparr>rm_type = MALLOC, rm_node_id = of_nat (my_node_id conf), rm_app_id = of_nat (my_thread_id conf),
        rm_addr = Gaddr_Null, rm_level = 0\<rparr> (da_dirs da node dir)) (\<lambda>(reply, d).
     case reply of
       None \<Rightarrow> Inl OutOfFuel
     | Some (addr, _, _) \<Rightarrow> Inr (addr, da\<lparr>da_dirs := (da_dirs da)(node := (da_dirs da node)(dir := d))\<rparr>))"

definition memory_alloc :: "DMConf \<Rightarrow> nat \<Rightarrow> DMAlloc \<Rightarrow> (Gaddr \<times> DMAlloc) result" where
  "memory_alloc conf size' da =
     (let (tn, td) = (case da_mtarget da of
                        Some t \<Rightarrow> t
                      | None \<Rightarrow> (da_memory_nodes da mod MemoryNumber conf,
                                 (my_thread_id conf + my_node_id conf) mod NR_DIRECTORY));
          (addr, need_chunk, la) = la_malloc size' (da_memory da)
      in if need_chunk
         then res_bind (rpc_malloc conf tn td da) (\<lambda>(chunk, da1).
              let la1 = set_chunck chunk la;
                  da2 = (if td + 1 = NR_DIRECTORY
                         then let mn = (da_memory_nodes da + 1) mod MemoryNumber conf
                              in da1\<lparr>da_memory_nodes := mn, da_mtarget := Some (mn, 0)\<rparr>
                         else da1\<lparr>da_mtarget := Some (tn, td + 1)\<rparr>);
                  (addr2, _, la2) = la_malloc size' la1
              in Inr (addr2, da2\<lparr>da_memory := la2\<rparr>))
         else Inr (addr, da\<lparr>da_memory := la, da_mtarget := Some (tn, td)\<rparr>))"

text \<open>The first half of \<open>compute_alloc\<close>, before the node is overwritten.\<close>

definition compute_step :: "DMConf \<Rightarrow> nat \<Rightarrow> DMAlloc \<Rightarrow> (Gaddr \<times> DMAlloc) result" where
  "compute_step conf size' da =
     (let (tn, td) = (case da_ctarget da of
                        Some t \<Rightarrow> t
                      | None \<Rightarrow> (da_compute_nodes da mod ComputeNumber conf,
                                 (my_thread_id conf + my_node_id conf) mod NR_DIRECTORY));
          (addr, need_chunk, la) = la_malloc size' (da_compute da)
      in if need_chunk
         then res_bind (rpc_malloc conf (0 + MemoryNumber conf) td da) (\<lambda>(chunk, da1).
              let la1 = set_chunck chunk la;
                  da2 = (if td + 1 = NR_DIRECTORY
                         then let cn = (da_compute_nodes da + 1) mod ComputeNumber conf
                              in da1\<lparr>da_compute_nodes := cn, da_ctarget := Some (cn, 0)\<rparr>
                         else da1\<lparr>da_ctarget := Some (tn, td + 1)\<rparr>);
                  (addr2, _, la2) = la_malloc size' la1
              in Inr (addr2, da2\<lparr>da_compute := la2\<rparr>))
         else Inr (addr, da\<lparr>da_compute := la, da_ctarget := Some (tn, td)\<rparr>))"

definition compute_alloc :: "DMConf \<Rightarrow> nat \<Rightarrow> DMAlloc \<Rightarrow> (Gaddr \<times> DMAlloc) result" where
  "compute_alloc conf size' da =
     (if da_use_memory_fp da then memory_alloc conf size' da
      else res_bind (compute_step conf size' da) (\<lambda>(a, da').
        let a' = a\<lparr>nodeID := of_nat (da_compute_nodes da' + MemoryNumber conf)\<rparr>
        in if (kLeafCacheSize - 1) * MB \<le> unat (offset a')
           then memory_alloc conf size' (da'\<lparr>da_use_memory_fp := True\<rparr>)
           else Inr (a', da')))"

section \<open>Chunks are handed out once\<close>

definition off :: "Gaddr \<Rightarrow> nat" where
  "off a = unat (offset a)"

text \<open>
  A chunk allocator whose chunks up to the tail are taken and the others free, at an address range
  that fits into 48 bits.
\<close>

definition ga_inv :: "GlobalAllocator \<Rightarrow> bool" where
  "ga_inv ga \<longleftrightarrow>
     1 \<le> ga_bitmap_tail ga \<and> ga_bitmap_tail ga \<le> length (ga_bitmap ga) \<and>
     (\<forall>i. i < length (ga_bitmap ga) \<longrightarrow> ga_bitmap ga ! i = (i < ga_bitmap_tail ga)) \<and>
     off (ga_start ga) + length (ga_bitmap ga) * kChunkSize < 2 ^ 48"

definition chunk_addr :: "GlobalAllocator \<Rightarrow> nat \<Rightarrow> Gaddr" where
  "chunk_addr ga i = (ga_start ga)\<lparr>offset := offset (ga_start ga) + of_nat (i * kChunkSize)\<rparr>"

lemma off_update: "off (a\<lparr>offset := offset a + of_nat n\<rparr>) = off a + n" if "off a + n < 2 ^ 48"
proof -
  have "n < 2 ^ 48" using that by simp
  then have "unat (of_nat n :: 48 word) = n" by (simp add: unat_of_nat)
  then show ?thesis using that by (simp add: off_def unat_plus_if')
qed

lemma chunk_addr_simps:
  assumes "ga_inv ga" and "i < length (ga_bitmap ga)"
  shows "off (chunk_addr ga i) = off (ga_start ga) + i * kChunkSize"
    and "off (chunk_addr ga i) + kChunkSize < 2 ^ 48"
    and "nodeID (chunk_addr ga i) = nodeID (ga_start ga)"
proof -
  have "Suc i * kChunkSize \<le> length (ga_bitmap ga) * kChunkSize"
    using assms(2) by (intro mult_le_mono1) simp
  then have b: "off (ga_start ga) + i * kChunkSize + kChunkSize < 2 ^ 48"
    using assms(1) by (simp add: ga_inv_def)
  then show o: "off (chunk_addr ga i) = off (ga_start ga) + i * kChunkSize"
    unfolding chunk_addr_def by (intro off_update) simp
  show "off (chunk_addr ga i) + kChunkSize < 2 ^ 48" using b o by simp
  show "nodeID (chunk_addr ga i) = nodeID (ga_start ga)" by (simp add: chunk_addr_def)
qed

lemma alloc_chunck_eq:
  assumes "ga_inv ga"
  shows "alloc_chunck ga =
    (if ga_bitmap_tail ga < length (ga_bitmap ga)
     then Inr (chunk_addr ga (ga_bitmap_tail ga),
               ga\<lparr>ga_bitmap := (ga_bitmap ga)[ga_bitmap_tail ga := True], ga_bitmap_tail := ga_bitmap_tail ga + 1\<rparr>)
     else Inl (AssertFail ''false''))"
  using assms by (simp add: alloc_chunck_def ga_inv_def chunk_addr_def Let_def)

lemma ga_inv_alloc:
  assumes inv: "ga_inv ga" and eq: "alloc_chunck ga = Inr (a, ga')"
  shows "ga_inv ga'" and "ga_start ga' = ga_start ga" and "ga_bitmap_tail ga' = ga_bitmap_tail ga + 1"
    and "length (ga_bitmap ga') = length (ga_bitmap ga)" and "a = chunk_addr ga (ga_bitmap_tail ga)"
    and "ga_bitmap_tail ga < length (ga_bitmap ga)"
proof -
  show t: "ga_bitmap_tail ga < length (ga_bitmap ga)"
    using eq unfolding alloc_chunck_eq [OF inv] by (simp split: if_splits)
  then have ga': "ga' = ga\<lparr>ga_bitmap := (ga_bitmap ga)[ga_bitmap_tail ga := True],
      ga_bitmap_tail := ga_bitmap_tail ga + 1\<rparr>" and a: "a = chunk_addr ga (ga_bitmap_tail ga)"
    using eq unfolding alloc_chunck_eq [OF inv] by simp_all
  show "a = chunk_addr ga (ga_bitmap_tail ga)" by (rule a)
  show "ga_inv ga'" using inv t unfolding ga' ga_inv_def by (auto simp: nth_list_update)
  show "ga_start ga' = ga_start ga" "ga_bitmap_tail ga' = ga_bitmap_tail ga + 1"
    "length (ga_bitmap ga') = length (ga_bitmap ga)" by (simp_all add: ga')
qed

lemma new_GlobalAllocator_inv:
  assumes "new_GlobalAllocator start n = Inr ga" and "off start + n < 2 ^ 48"
  shows "ga_inv ga" and "ga_start ga = start" and "ga_bitmap_tail ga = 1"
    and "length (ga_bitmap ga) = n div kChunkSize"
proof -
  have ga: "ga = \<lparr>ga_start = start, ga_bitmap = (replicate (n div kChunkSize) False)[0 := True], ga_bitmap_tail = 1\<rparr>"
    and l: "0 < n div kChunkSize"
    using assms(1) by (auto simp: new_GlobalAllocator_def Let_def split: if_splits)
  have "n div kChunkSize * kChunkSize \<le> n" by simp
  with assms(2) have "off start + n div kChunkSize * kChunkSize < 2 ^ 48" by linarith
  then show "ga_inv ga" using l by (auto simp: ga ga_inv_def nth_list_update)
  show "ga_start ga = start" "ga_bitmap_tail ga = 1" "length (ga_bitmap ga) = n div kChunkSize"
    by (simp_all add: ga)
qed

text \<open>\<open>alloc_chunck\<close> as an allocator: what is in use are the chunks below the tail.\<close>

definition alloc_chunck_opt :: "GlobalAllocator \<Rightarrow> (Gaddr \<times> GlobalAllocator) option" where
  "alloc_chunck_opt ga = (case alloc_chunck ga of Inr r \<Rightarrow> Some r | Inl _ \<Rightarrow> None)"

definition used_chunks :: "GlobalAllocator \<Rightarrow> Gaddr set" where
  "used_chunks ga = chunk_addr ga ` {..<ga_bitmap_tail ga}"

lemma chunk_addr_inject:
  assumes "ga_inv ga" and "i < length (ga_bitmap ga)" and "j < length (ga_bitmap ga)"
  shows "chunk_addr ga i = chunk_addr ga j \<longleftrightarrow> i = j"
proof
  assume "chunk_addr ga i = chunk_addr ga j"
  then have "off (chunk_addr ga i) = off (chunk_addr ga j)" by simp
  then have "i * kChunkSize = j * kChunkSize"
    unfolding chunk_addr_simps(1) [OF assms(1,2)] chunk_addr_simps(1) [OF assms(1,3)] by simp
  then show "i = j" by (simp add: kChunkSize_def MB_def)
qed simp

interpretation dir: fresh_allocator alloc_chunck_opt used_chunks ga_inv
proof
  fix ga a ga'
  assume inv: "ga_inv ga" and "alloc_chunck_opt ga = Some (a, ga')"
  then have eq: "alloc_chunck ga = Inr (a, ga')" by (simp add: alloc_chunck_opt_def split: sum.splits)
  note D = ga_inv_alloc [OF inv eq]
  show "ga_inv ga'" by (rule D(1))
  have c: "chunk_addr ga' = chunk_addr ga" using D(2) by (auto simp: chunk_addr_def)
  show "a \<notin> used_chunks ga"
  proof
    assume "a \<in> used_chunks ga"
    then obtain i where "i < ga_bitmap_tail ga" "a = chunk_addr ga i" by (auto simp: used_chunks_def)
    with chunk_addr_inject [OF inv D(6), of i] D(5,6) show False by simp
  qed
  show "used_chunks ga' = insert a (used_chunks ga)"
    unfolding used_chunks_def c D(3,5) by (simp add: lessThan_Suc)
qed

section \<open>The reserved region\<close>

lemma burn_chunks_inv:
  assumes "ga_inv ga" and "ga_bitmap_tail ga + n \<le> length (ga_bitmap ga)"
  shows "\<exists>ga'. burn_chunks n ga = Inr ga' \<and> ga_inv ga' \<and> ga_start ga' = ga_start ga \<and>
     ga_bitmap_tail ga' = ga_bitmap_tail ga + n \<and> length (ga_bitmap ga') = length (ga_bitmap ga)"
  using assms
proof (induction n arbitrary: ga)
  case 0
  then show ?case by simp
next
  case (Suc n)
  then obtain a ga1 where a: "alloc_chunck ga = Inr (a, ga1)" by (simp add: alloc_chunck_eq)
  note D = ga_inv_alloc [OF Suc.prems(1) a]
  have "ga_bitmap_tail ga1 + n \<le> length (ga_bitmap ga1)" using Suc.prems(2) D by simp
  from Suc.IH [OF D(1) this] obtain ga' where "burn_chunks n ga1 = Inr ga'" "ga_inv ga'"
    "ga_start ga' = ga_start ga1" "ga_bitmap_tail ga' = ga_bitmap_tail ga1 + n"
    "length (ga_bitmap ga') = length (ga_bitmap ga1)" by blast
  with a D show ?case by simp
qed

lemma alloc_many_chunks_tail:
  assumes "ga_inv ga" and "alloc_many alloc_chunck_opt n ga = Some (cs, ga')"
  shows "\<forall>c \<in> set cs. \<exists>i. ga_bitmap_tail ga \<le> i \<and> i < length (ga_bitmap ga) \<and> c = chunk_addr ga i"
  using assms
proof (induction n arbitrary: ga cs)
  case 0
  then show ?case by simp
next
  case (Suc n)
  from Suc.prems(2) obtain c ga1 cs1 where c: "alloc_chunck_opt ga = Some (c, ga1)"
    and rest: "alloc_many alloc_chunck_opt n ga1 = Some (cs1, ga')" and cs: "cs = c # cs1"
    by (auto split: option.splits)
  have eq: "alloc_chunck ga = Inr (c, ga1)" using c by (simp add: alloc_chunck_opt_def split: sum.splits)
  note D = ga_inv_alloc [OF Suc.prems(1) eq]
  have ca: "chunk_addr ga1 i = chunk_addr ga i" for i using D(2) by (simp add: chunk_addr_def)
  from Suc.IH [OF D(1) rest] show ?case
    unfolding cs ca D(3,4) using D(5,6) by (auto intro: Suc_leD)
qed

text \<open>
  C15: with at least 41 chunks of memory the \<open>SkipVectorDM\<close> directory starts, and no chunk it hands
  out afterwards touches the skip-vector region; the chunks of a run are distinct and lie inside
  the server's memory.
\<close>

theorem sv_region_reserved:
  assumes "41 * kChunkSize \<le> dsm_size" and "dsm_size < 2 ^ 48"
  shows "\<exists>d. new_Directory_sv dsm_size 0 node = Inr d \<and>
     (\<forall>n cs ga. alloc_many alloc_chunck_opt n (dir_alloc d) = Some (cs, ga) \<longrightarrow>
        distinct cs \<and> length cs = n \<and>
        (\<forall>c \<in> set cs. nodeID c = ucast node \<and>
           kSkipVectorRegionBase + kSkipVectorRegionBytes \<le> off c \<and> off c + kChunkSize \<le> dsm_size))"
proof -
  let ?len = "dsm_size div kChunkSize"
  have len: "41 \<le> ?len" using assms(1) by (simp add: less_eq_div_iff_mult_less_eq dm_sizes)
  then obtain ga0 where ga0: "new_GlobalAllocator (mk_Gaddr node 0) dsm_size = Inr ga0"
    by (auto simp: new_GlobalAllocator_def Let_def)
  have o0: "off (mk_Gaddr node 0) = 0" by (simp add: off_def)
  have "off (mk_Gaddr node 0) + dsm_size < 2 ^ 48" using o0 assms(2) by simp
  note N = new_GlobalAllocator_inv [OF ga0 this]
  have "(kSkipVectorRegionBytes + kChunkSize - 1) div kChunkSize = 40" by (simp add: dm_sizes)
  moreover obtain ga1 where ga1: "burn_chunks 40 ga0 = Inr ga1" "ga_inv ga1"
    "ga_start ga1 = mk_Gaddr node 0" "ga_bitmap_tail ga1 = 41" "length (ga_bitmap ga1) = ?len"
    using burn_chunks_inv [OF N(1), of 40] N len by auto
  ultimately obtain d where d: "new_Directory_sv dsm_size 0 node = Inr d" "dir_alloc d = ga1"
    using ga0 by (simp add: new_Directory_sv_def new_Directory_def NR_DIRECTORY_def Let_def)
  have "distinct cs \<and> length cs = n \<and>
      (\<forall>c \<in> set cs. nodeID c = ucast node \<and>
         kSkipVectorRegionBase + kSkipVectorRegionBytes \<le> off c \<and> off c + kChunkSize \<le> dsm_size)"
    if run: "alloc_many alloc_chunck_opt n (dir_alloc d) = Some (cs, ga)" for n cs ga
  proof (intro conjI ballI)
    note fr = dir.alloc_many_fresh [OF ga1(2) run [unfolded d(2)]]
    show "distinct cs" "length cs = n" using fr by simp_all
    fix c assume "c \<in> set cs"
    then obtain i where i: "41 \<le> i" "i < ?len" "c = chunk_addr ga1 i"
      using alloc_many_chunks_tail [OF ga1(2) run [unfolded d(2)]] ga1(4,5) by auto
    note C = chunk_addr_simps [OF ga1(2), of i, unfolded ga1(3,5), OF i(2)]
    show "nodeID c = ucast node" using C(3) i(3) by simp
    show "kSkipVectorRegionBase + kSkipVectorRegionBytes \<le> off c"
      using C(1) i(1,3) o0 by (simp add: dm_sizes)
    have "Suc i * kChunkSize \<le> ?len * kChunkSize" using i(2) by (intro mult_le_mono1) simp
    also have "\<dots> \<le> dsm_size" by simp
    finally show "off c + kChunkSize \<le> dsm_size" using C(1) i(3) o0 by simp
  qed
  with d(1) show ?thesis by blast
qed

theorem sv_region_reserved_witness:
  "\<exists>d. new_Directory_sv (8 * GB) 0 1 = Inr d"
proof -
  have "41 * kChunkSize \<le> 8 * GB" "8 * GB < 2 ^ 48" by (simp_all add: dm_sizes)
  from sv_region_reserved [OF this, of 1] show ?thesis by blast
qed

text \<open>
  The region overlaps two fixed words of the tree: the handle of the head leaf is the word of the
  tree's global lock, and the root pointer is an unreserved slot of the handle pool.
\<close>

lemma sv_region_collides_with_tree:
  "\<exists>p. new_SlabPools = Inr p \<and>
     slot_addr (sp_handles p) 0 = kLockStartAddr \<and> kHeadLeafHandleOffset = kLockStartAddr \<and>
     (\<exists>i. sa_first_free (sp_handles p) \<le> i \<and> i < sa_num_slots (sp_handles p) \<and>
          i \<notin> used_slots (sp_handles p) \<and> slot_addr (sp_handles p) i = kRootPointerStoreOffest)"
proof -
  obtain h where h: "new_SlabAllocator 0 8 33554432 1 = Inr h" by (simp add: new_SlabAllocator_def)
  obtain p where p: "new_SlabPools = Inr p" "sp_handles p = h"
    using h by (simp add: new_SlabPools_def dm_sizes new_SlabAllocator_def [of 268435456]
        new_SlabAllocator_def [of 805306368])
  have B: "(0::nat) + 33554432 * 8 < kBad" by (simp add: kBad_def)
  note hs = slab_inv_new [OF h _ _ B, simplified]
  have "slot_addr h 2097152 = kRootPointerStoreOffest" "slot_addr h 0 = kLockStartAddr"
    using hs by (simp_all add: slot_addr_def dm_sizes)
  moreover have "2097152 \<notin> used_slots h" using hs by simp
  ultimately show ?thesis
    using p hs by (intro exI [of _ p]) (auto simp: dm_sizes intro: exI [of _ 2097152])
qed

section \<open>Blocks of a client are disjoint\<close>

definition block :: "Gaddr \<Rightarrow> nat \<Rightarrow> (16 word \<times> nat) set" where
  "block a n = {(nodeID a, b) |b. off a \<le> b \<and> b < off a + n}"

text \<open>The rest of the current chunk holds nothing that is in use.\<close>

definition la_inv :: "(16 word \<times> nat) set \<Rightarrow> LocalAllocator \<Rightarrow> bool" where
  "la_inv A la \<longleftrightarrow>
     (la_log_heads la \<noteq> [] \<longrightarrow>
        nodeID (la_cur la) = nodeID (la_head la) \<and> off (la_head la) \<le> off (la_cur la) \<and>
        off (la_cur la) \<le> off (la_head la) + kChunkSize \<and> off (la_head la) + kChunkSize < 2 ^ 48 \<and>
        (\<forall>b. off (la_cur la) \<le> b \<and> b < off (la_head la) + kChunkSize \<longrightarrow> (nodeID (la_head la), b) \<notin> A))"

lemma la_malloc_need:
  "la_malloc n la = (a, True, la') \<Longrightarrow> la' = la"
  by (auto simp: la_malloc_def Let_def split: if_splits)

lemma la_malloc_block:
  assumes inv: "la_inv A la" and eq: "la_malloc n la = (a, False, la')"
  shows "block a n \<inter> A = {}" and "la_inv (A \<union> block a n) la'"
    and "la_log_heads la' = la_log_heads la" and "la_head la' = la_head la"
    and "nodeID a = nodeID (la_head la)" and "off (la_head la) \<le> off a"
    and "off a + n \<le> off (la_head la) + kChunkSize" and "la_log_heads la \<noteq> []"
proof -
  have ne: "la_log_heads la \<noteq> []" and fit: "off (la_cur la) + n \<le> off (la_head la) + kChunkSize"
    and a: "a = la_cur la"
    and la': "la' = la\<lparr>la_cur := (la_cur la)\<lparr>offset := offset (la_cur la) + of_nat n\<rparr>\<rparr>"
    using eq by (auto simp: la_malloc_def Let_def off_def split: if_splits)
  have I: "nodeID (la_cur la) = nodeID (la_head la)" "off (la_head la) \<le> off (la_cur la)"
    "off (la_head la) + kChunkSize < 2 ^ 48"
    "\<And>b. off (la_cur la) \<le> b \<Longrightarrow> b < off (la_head la) + kChunkSize \<Longrightarrow> (nodeID (la_head la), b) \<notin> A"
    using inv ne by (auto simp: la_inv_def)
  have cur': "off (la_cur la') = off (la_cur la) + n"
    unfolding la' using off_update [of "la_cur la" n] fit I(3) by simp
  show "block a n \<inter> A = {}" using I(1,4) fit by (auto simp: block_def a)
  show "la_log_heads la' = la_log_heads la" "la_head la' = la_head la" by (simp_all add: la')
  show "nodeID a = nodeID (la_head la)" "off (la_head la) \<le> off a"
    "off a + n \<le> off (la_head la) + kChunkSize" using I fit a by simp_all
  show "la_log_heads la \<noteq> []" by (rule ne)
  have "nodeID (la_cur la') = nodeID (la_head la')" using I(1) by (simp add: la')
  moreover have "(nodeID (la_head la'), b) \<notin> A \<union> block a n"
    if "off (la_cur la') \<le> b" "b < off (la_head la') + kChunkSize" for b
    using that I(4) [of b] cur' by (auto simp: block_def a la')
  ultimately show "la_inv (A \<union> block a n) la'"
    unfolding la_inv_def using I cur' fit by (simp add: la')
qed

lemma la_inv_set_chunck:
  assumes "block c kChunkSize \<inter> A = {}" and "off c + kChunkSize < 2 ^ 48"
  shows "la_inv A (set_chunck c la)"
  using assms by (auto simp: la_inv_def set_chunck_def block_def)

lemma la_malloc_set_chunck:
  assumes "n \<le> kChunkSize"
  shows "\<exists>a la'. la_malloc n (set_chunck c la) = (a, False, la')"
  using assms by (simp add: la_malloc_def set_chunck_def Let_def)

text \<open>
  The directory of node \<open>n\<close> owns the memory from offset 0 on, and the blocks in use lie in chunks
  that it has handed out.
\<close>

definition dir_ok :: "nat \<Rightarrow> (16 word \<times> nat) set \<Rightarrow> DMAlloc \<Rightarrow> bool" where
  "dir_ok n A da \<longleftrightarrow>
     (let ga = dir_alloc (da_dirs da n 0) in
      ga_inv ga \<and> ga_start ga = mk_Gaddr (of_nat n) 0 \<and>
      (\<forall>b. (of_nat n, b) \<in> A \<longrightarrow> kChunkSize \<le> b \<and> b < ga_bitmap_tail ga * kChunkSize))"

lemma rpc_malloc_ok:
  assumes ok: "dir_ok n A da" and eq: "rpc_malloc conf n 0 da = Inr (c, da')"
  shows "dir_ok n (A \<union> block c kChunkSize) da'" and "block c kChunkSize \<inter> A = {}"
    and "off c + kChunkSize < 2 ^ 48" and "nodeID c = of_nat n" and "kChunkSize \<le> off c"
    and "\<exists>d. da' = da\<lparr>da_dirs := (da_dirs da)(n := (da_dirs da n)(0 := d))\<rparr>"
proof -
  let ?ga = "dir_alloc (da_dirs da n 0)"
  have inv: "ga_inv ?ga" and st: "ga_start ?ga = mk_Gaddr (of_nat n) 0"
    and A: "\<And>b. (of_nat n, b) \<in> A \<Longrightarrow> kChunkSize \<le> b \<and> b < ga_bitmap_tail ?ga * kChunkSize"
    using ok by (auto simp: dir_ok_def Let_def)
  obtain ga' where al: "alloc_chunck ?ga = Inr (c, ga')"
    and da': "da' = da\<lparr>da_dirs := (da_dirs da)(n := (da_dirs da n)(0 := (da_dirs da n 0)\<lparr>dir_alloc := ga'\<rparr>))\<rparr>"
    using eq by (auto simp: rpc_malloc_def process_message_def res_bind_eq_Inr)
  note D = ga_inv_alloc [OF inv al]
  note C = chunk_addr_simps [OF inv D(6), folded D(5)]
  have o0: "off (ga_start ?ga) = 0" by (simp add: st off_def)
  have node: "(ucast (of_nat n :: u64) :: 16 word) = of_nat n"
    by (rule bit_word_eqI) (simp add: bit_simps)
  show cn: "nodeID c = of_nat n" using C(3) st node by simp
  have oc: "off c = ga_bitmap_tail ?ga * kChunkSize" using C(1) o0 by simp
  have "1 \<le> ga_bitmap_tail ?ga" using inv by (simp add: ga_inv_def)
  then show oc1: "kChunkSize \<le> off c" using oc by simp
  show "off c + kChunkSize < 2 ^ 48" by (rule C(2))
  show "block c kChunkSize \<inter> A = {}" using A cn oc by (fastforce simp: block_def)
  show "\<exists>d. da' = da\<lparr>da_dirs := (da_dirs da)(n := (da_dirs da n)(0 := d))\<rparr>" using da' by blast
  have "kChunkSize \<le> b \<and> b < ga_bitmap_tail ga' * kChunkSize"
    if inn: "(of_nat n, b) \<in> A \<union> block c kChunkSize" for b
  proof -
    consider "(of_nat n, b) \<in> A" | "off c \<le> b" "b < off c + kChunkSize"
      using inn by (auto simp: block_def)
    then show ?thesis
    proof cases
      case 1
      from A [OF this] D(3) show ?thesis by simp
    next
      case 2
      then show ?thesis using le_trans [OF oc1 2(1)] oc D(3) by simp
    qed
  qed
  then show "dir_ok n (A \<union> block c kChunkSize) da'"
    using D(1,2) st by (simp add: dir_ok_def Let_def da')
qed

text \<open>
  The invariant of one side, memory or compute: \<open>K\<close> are the bytes of the chunks taken so far, \<open>A\<close>
  those of the blocks, \<open>N\<close> the servers whose directories it uses.
\<close>

definition side_inv :: "nat set \<Rightarrow> (16 word \<times> nat) set \<Rightarrow> (16 word \<times> nat) set \<Rightarrow> LocalAllocator \<Rightarrow> DMAlloc \<Rightarrow> bool" where
  "side_inv N A K la da \<longleftrightarrow>
     A \<subseteq> K \<and> (\<forall>n \<in> N. n < 2 ^ 16 \<and> dir_ok n K da) \<and> K \<subseteq> (of_nat ` N) \<times> UNIV \<and> la_inv A la \<and>
     (la_log_heads la \<noteq> [] \<longrightarrow> block (la_head la) kChunkSize \<subseteq> K)"

lemma dir_ok_other:
  assumes "dir_ok n A da" and "da_dirs da' n 0 = da_dirs da n 0" and "\<And>b. (of_nat n, b) \<in> B \<Longrightarrow> (of_nat n, b) \<in> A"
  shows "dir_ok n B da'"
  using assms by (auto simp: dir_ok_def Let_def)

lemma side_inv_frame:
  assumes "side_inv N A K la da" and "\<And>n. n \<in> N \<Longrightarrow> da_dirs da' n 0 = da_dirs da n 0"
  shows "side_inv N A K la da'"
  using assms by (auto simp: side_inv_def intro: dir_ok_other)

lemma of_nat_16_inject:
  assumes "m < 2 ^ 16" and "n < 2 ^ 16" and "(of_nat m :: 16 word) = of_nat n"
  shows "m = n"
  using assms by (auto dest!: arg_cong [of _ _ unat] simp: unat_of_nat)

lemma side_inv_chunk:
  assumes inv: "side_inv N A K la da" and n: "n \<in> N" and eq: "rpc_malloc conf n 0 da = Inr (c, da')"
  shows "side_inv N A (K \<union> block c kChunkSize) (set_chunck c la) da'"
    and "\<exists>d. da' = da\<lparr>da_dirs := (da_dirs da)(n := (da_dirs da n)(0 := d))\<rparr>"
proof -
  have I: "A \<subseteq> K" "\<And>m. m \<in> N \<Longrightarrow> m < 2 ^ 16 \<and> dir_ok m K da" "K \<subseteq> (of_nat ` N) \<times> UNIV"
    using inv by (auto simp: side_inv_def)
  note R = rpc_malloc_ok [OF conjunct2 [OF I(2) [OF n]] eq]
  show "\<exists>d. da' = da\<lparr>da_dirs := (da_dirs da)(n := (da_dirs da n)(0 := d))\<rparr>" by (rule R(6))
  have "dir_ok m (K \<union> block c kChunkSize) da'" if m: "m \<in> N" for m
  proof (cases "m = n")
    case True
    then show ?thesis using R(1) by simp
  next
    case False
    have "m < 2 ^ 16" "n < 2 ^ 16" using I(2) m n by blast+
    then have ne: "(of_nat m :: 16 word) \<noteq> of_nat n" using False of_nat_16_inject [of m n] by blast
    have same: "da_dirs da' m 0 = da_dirs da m 0" using R(6) False by auto
    have "(of_nat m, b) \<notin> block c kChunkSize" for b using ne R(4) by (simp add: block_def)
    then show ?thesis
      using dir_ok_other [OF conjunct2 [OF I(2) [OF m]] same, of "K \<union> block c kChunkSize"] by blast
  qed
  moreover have "la_inv A (set_chunck c la)"
    using R(2,3) I(1) by (intro la_inv_set_chunck) auto
  moreover have "block c kChunkSize \<subseteq> (of_nat ` N) \<times> UNIV" using R(4) n by (auto simp: block_def)
  ultimately show "side_inv N A (K \<union> block c kChunkSize) (set_chunck c la) da'"
    using I by (auto simp: side_inv_def set_chunck_def)
qed

lemma side_inv_malloc:
  assumes inv: "side_inv N A K la da" and eq: "la_malloc n la = (a, False, la')"
  shows "side_inv N (A \<union> block a n) K la' da" and "block a n \<inter> A = {}" and "block a n \<subseteq> K"
proof -
  have I: "A \<subseteq> K" "la_inv A la" "la_log_heads la \<noteq> [] \<longrightarrow> block (la_head la) kChunkSize \<subseteq> K"
    using inv by (auto simp: side_inv_def)
  note B = la_malloc_block [OF I(2) eq]
  show "block a n \<inter> A = {}" by (rule B(1))
  show sub: "block a n \<subseteq> K"
    using I(3) B(5,6,7,8) by (auto simp: block_def)
  show "side_inv N (A \<union> block a n) K la' da"
    using inv sub B(2,3,4) by (auto simp: side_inv_def)
qed

lemma side_inv_block_bounds:
  assumes "side_inv N A K la da" and "block a n \<subseteq> K" and "0 < n"
  shows "\<exists>m \<in> N. nodeID a = of_nat m" and "kChunkSize \<le> off a"
proof -
  have p: "(nodeID a, off a) \<in> K" using assms(2,3) by (auto simp: block_def)
  have "K \<subseteq> (of_nat ` N) \<times> UNIV" using assms(1) by (simp add: side_inv_def)
  with p obtain m where m: "m \<in> N" "nodeID a = of_nat m" by blast
  then show "\<exists>m \<in> N. nodeID a = of_nat m" by blast
  show "kChunkSize \<le> off a" using p m assms(1) by (auto simp: side_inv_def dir_ok_def Let_def)
qed

text \<open>The invariant of a client: the memory side uses the memory servers, the compute side the
  directory of the first compute server.\<close>

definition conf_ok :: "DMConf \<Rightarrow> bool" where
  "conf_ok conf \<longleftrightarrow>
     0 < MemoryNumber conf \<and> 0 < ComputeNumber conf \<and> MemoryNumber conf + ComputeNumber conf < 2 ^ 16"

definition mem_inv :: "DMConf \<Rightarrow> (16 word \<times> nat) set \<Rightarrow> DMAlloc \<Rightarrow> bool" where
  "mem_inv conf A da \<longleftrightarrow>
     (\<exists>K. side_inv {..<MemoryNumber conf} A K (da_memory da) da) \<and>
     (\<forall>tn td. da_mtarget da = Some (tn, td) \<longrightarrow> tn < MemoryNumber conf \<and> td = 0)"

definition comp_inv :: "DMConf \<Rightarrow> (16 word \<times> nat) set \<Rightarrow> DMAlloc \<Rightarrow> bool" where
  "comp_inv conf C da \<longleftrightarrow>
     (\<exists>K. side_inv {MemoryNumber conf} C K (da_compute da) da) \<and>
     (\<forall>tn td. da_ctarget da = Some (tn, td) \<longrightarrow> td = 0) \<and>
     (la_log_heads (da_compute da) \<noteq> [] \<longrightarrow> da_compute_nodes da < ComputeNumber conf)"

text \<open>What an allocation on the memory side leaves alone.\<close>

definition same_compute :: "DMConf \<Rightarrow> DMAlloc \<Rightarrow> DMAlloc \<Rightarrow> bool" where
  "same_compute conf da da' \<longleftrightarrow>
     da_compute da' = da_compute da \<and> da_compute_nodes da' = da_compute_nodes da \<and>
     da_ctarget da' = da_ctarget da \<and> da_use_memory_fp da' = da_use_memory_fp da \<and>
     (\<forall>n. MemoryNumber conf \<le> n \<longrightarrow> da_dirs da' n = da_dirs da n)"

lemma memory_alloc_ok:
  assumes conf: "conf_ok conf" and inv: "mem_inv conf A da" and n: "0 < n" "n \<le> kChunkSize"
    and eq: "memory_alloc conf n da = Inr (a, da')"
  shows "mem_inv conf (A \<union> block a n) da'" and "block a n \<inter> A = {}"
    and "unat (nodeID a) < MemoryNumber conf" and "kChunkSize \<le> off a" and "same_compute conf da da'"
proof -
  let ?M = "MemoryNumber conf" and ?la = "da_memory da"
  obtain K where K: "side_inv {..<?M} A K ?la da" using inv by (auto simp: mem_inv_def)
  obtain tn td where t: "(tn, td) = (case da_mtarget da of Some t \<Rightarrow> t
      | None \<Rightarrow> (da_memory_nodes da mod ?M, (my_thread_id conf + my_node_id conf) mod NR_DIRECTORY))"
    by (metis surj_pair)
  have tn: "tn < ?M" "td = 0"
    using t inv conf by (auto simp: mem_inv_def conf_ok_def NR_DIRECTORY_def split: option.splits)
  have node: "unat (nodeID a) < ?M \<and> kChunkSize \<le> off a"
    if "side_inv {..<?M} B K' la d" "block a n \<subseteq> K'" for B K' la d
    using side_inv_block_bounds [OF that n(1)] conf
    by (auto simp: conf_ok_def unat_of_nat)
  obtain a0 need la0 where m: "la_malloc n ?la = (a0, need, la0)" by (metis prod_cases3)
  have "mem_inv conf (A \<union> block a n) da' \<and> block a n \<inter> A = {} \<and>
      (unat (nodeID a) < ?M \<and> kChunkSize \<le> off a) \<and> same_compute conf da da'"
  proof (cases need)
    case False
    then have da': "da' = da\<lparr>da_memory := la0, da_mtarget := Some (tn, td)\<rparr>" "a = a0"
      using eq m t by (auto simp: memory_alloc_def Let_def split: prod.splits)
    have "la_malloc n ?la = (a, False, la0)" using m False da'(2) by simp
    note B = side_inv_malloc [OF K this]
    have "side_inv {..<?M} (A \<union> block a n) K la0 da'"
      by (rule side_inv_frame [OF B(1)]) (simp add: da')
    then show ?thesis using B(2) node [OF B(1,3)] tn da' by (auto simp: mem_inv_def same_compute_def)
  next
    case True
    then have la0: "la0 = ?la" using m la_malloc_need [of n ?la a0 la0] by simp
    obtain chunk da1 where rpc: "rpc_malloc conf tn 0 da = Inr (chunk, da1)"
      using eq m t True tn by (cases "rpc_malloc conf tn 0 da") (auto simp: memory_alloc_def Let_def split: prod.splits)
    obtain a2 la2 where la2: "la_malloc n (set_chunck chunk ?la) = (a2, False, la2)"
      using la_malloc_set_chunck [OF n(2)] by blast
    let ?mn = "(da_memory_nodes da + 1) mod ?M"
    have "memory_alloc conf n da =
        Inr (a2, da1\<lparr>da_memory_nodes := ?mn, da_mtarget := Some (?mn, 0), da_memory := la2\<rparr>)"
      unfolding memory_alloc_def t [symmetric] using m True tn(2) la0 rpc la2
      by (simp add: Let_def NR_DIRECTORY_def)
    with eq have aa: "a2 = a"
      and da': "da' = da1\<lparr>da_memory_nodes := ?mn, da_mtarget := Some (?mn, 0), da_memory := la2\<rparr>" by simp_all
    have mn: "?mn < ?M" using conf by (simp add: conf_ok_def)
    note la2 = la2 [unfolded aa] and C = side_inv_chunk [OF K _ rpc]
    note B = side_inv_malloc [OF C(1) la2]
    have "tn \<in> {..<?M}" using tn by simp
    note C = C [OF this] and B = B [OF this]
    have "side_inv {..<?M} (A \<union> block a n) (K \<union> block chunk kChunkSize) la2 da'"
      by (rule side_inv_frame [OF B(1)]) (simp add: da')
    then show ?thesis using B(2) node [OF B(1,3)] tn mn da' C(2) by (auto simp: mem_inv_def same_compute_def)
  qed
  then show "mem_inv conf (A \<union> block a n) da'" and "block a n \<inter> A = {}"
    and "unat (nodeID a) < ?M" and "kChunkSize \<le> off a" and "same_compute conf da da'"
    by simp_all
qed

definition comp_block :: "DMConf \<Rightarrow> Gaddr \<Rightarrow> nat \<Rightarrow> (16 word \<times> nat) set" where
  "comp_block conf a n = block (a\<lparr>nodeID := of_nat (MemoryNumber conf)\<rparr>) n"

lemma mem_inv_frame:
  assumes "mem_inv conf A da" and "da_memory da' = da_memory da" and "da_mtarget da' = da_mtarget da"
    and "\<And>n. n < MemoryNumber conf \<Longrightarrow> da_dirs da' n 0 = da_dirs da n 0"
  shows "mem_inv conf A da'"
proof -
  obtain K where "side_inv {..<MemoryNumber conf} A K (da_memory da) da"
    using assms(1) by (auto simp: mem_inv_def)
  then have "side_inv {..<MemoryNumber conf} A K (da_memory da') da'"
    unfolding assms(2) by (rule side_inv_frame) (simp add: assms(4))
  with assms(1,3) show ?thesis by (auto simp: mem_inv_def)
qed

lemma comp_inv_frame:
  assumes "comp_inv conf C da" and "same_compute conf da da'"
  shows "comp_inv conf C da'"
proof -
  obtain K where "side_inv {MemoryNumber conf} C K (da_compute da) da"
    using assms(1) by (auto simp: comp_inv_def)
  then have "side_inv {MemoryNumber conf} C K (da_compute da') da'"
    using assms(2) by (auto simp: same_compute_def intro: side_inv_frame)
  with assms show ?thesis by (auto simp: comp_inv_def same_compute_def)
qed

lemma compute_step_ok:
  assumes conf: "conf_ok conf" and inv: "comp_inv conf C da" and n: "0 < n" "n \<le> kChunkSize"
    and eq: "compute_step conf n da = Inr (a, da')"
  shows "comp_inv conf (C \<union> block a n) da'" and "block a n \<inter> C = {}"
    and "nodeID a = of_nat (MemoryNumber conf)" and "kChunkSize \<le> off a"
    and "da_compute_nodes da' < ComputeNumber conf"
    and "da_memory da' = da_memory da" and "da_mtarget da' = da_mtarget da"
    and "\<And>m. m < MemoryNumber conf \<Longrightarrow> da_dirs da' m 0 = da_dirs da m 0"
proof -
  let ?M = "MemoryNumber conf" and ?la = "da_compute da"
  obtain K where K: "side_inv {?M} C K ?la da" using inv by (auto simp: comp_inv_def)
  obtain tn td where t: "(tn, td) = (case da_ctarget da of Some t \<Rightarrow> t
      | None \<Rightarrow> (da_compute_nodes da mod ComputeNumber conf, (my_thread_id conf + my_node_id conf) mod NR_DIRECTORY))"
    by (metis surj_pair)
  have td: "td = 0"
    using t inv by (auto simp: comp_inv_def NR_DIRECTORY_def split: option.splits)
  have node: "nodeID a = of_nat ?M \<and> kChunkSize \<le> off a"
    if "side_inv {?M} B K' la d" "block a n \<subseteq> K'" for B K' la d
    using side_inv_block_bounds [OF that n(1)] by auto
  obtain a0 need la0 where m: "la_malloc n ?la = (a0, need, la0)" by (metis prod_cases3)
  have "comp_inv conf (C \<union> block a n) da' \<and> block a n \<inter> C = {} \<and> (nodeID a = of_nat ?M \<and> kChunkSize \<le> off a) \<and>
      da_compute_nodes da' < ComputeNumber conf \<and> da_memory da' = da_memory da \<and>
      da_mtarget da' = da_mtarget da \<and> (\<forall>m < ?M. da_dirs da' m 0 = da_dirs da m 0)"
  proof (cases need)
    case False
    then have da': "da' = da\<lparr>da_compute := la0, da_ctarget := Some (tn, td)\<rparr>" "a = a0"
      using eq m t by (auto simp: compute_step_def Let_def split: prod.splits)
    have m': "la_malloc n ?la = (a, False, la0)" using m False da'(2) by simp
    note B = side_inv_malloc [OF K m']
    have "la_inv C ?la" using K by (simp add: side_inv_def)
    then have cn: "da_compute_nodes da < ComputeNumber conf"
      using la_malloc_block(8) [OF _ m'] inv by (simp add: comp_inv_def)
    have "side_inv {?M} (C \<union> block a n) K la0 da'"
      by (rule side_inv_frame [OF B(1)]) (simp add: da')
    then show ?thesis using B(2) node [OF B(1,3)] td cn da' by (auto simp: comp_inv_def)
  next
    case True
    then have la0: "la0 = ?la" using m la_malloc_need [of n ?la a0 la0] by simp
    obtain chunk da1 where rpc: "rpc_malloc conf ?M 0 da = Inr (chunk, da1)"
      using eq m t True td by (cases "rpc_malloc conf ?M 0 da") (auto simp: compute_step_def Let_def split: prod.splits)
    obtain a2 la2 where la2: "la_malloc n (set_chunck chunk ?la) = (a2, False, la2)"
      using la_malloc_set_chunck [OF n(2)] by blast
    let ?cn = "(da_compute_nodes da + 1) mod ComputeNumber conf"
    have "compute_step conf n da =
        Inr (a2, da1\<lparr>da_compute_nodes := ?cn, da_ctarget := Some (?cn, 0), da_compute := la2\<rparr>)"
      unfolding compute_step_def t [symmetric] using m True td la0 rpc la2
      by (simp add: Let_def NR_DIRECTORY_def)
    with eq have aa: "a2 = a"
      and da': "da' = da1\<lparr>da_compute_nodes := ?cn, da_ctarget := Some (?cn, 0), da_compute := la2\<rparr>" by simp_all
    have cn: "?cn < ComputeNumber conf" using conf by (simp add: conf_ok_def)
    note C = side_inv_chunk [OF K _ rpc, simplified]
    note B = side_inv_malloc [OF C(1) la2 [unfolded aa]]
    have "side_inv {?M} (C \<union> block a n) (K \<union> block chunk kChunkSize) la2 da'"
      by (rule side_inv_frame [OF B(1)]) (simp add: da')
    then show ?thesis using B(2) node [OF B(1,3)] cn da' C(2) by (auto simp: comp_inv_def)
  qed
  then show "comp_inv conf (C \<union> block a n) da'" and "block a n \<inter> C = {}"
    and "nodeID a = of_nat ?M" and "kChunkSize \<le> off a" and "da_compute_nodes da' < ComputeNumber conf"
    and "da_memory da' = da_memory da" and "da_mtarget da' = da_mtarget da"
    and "\<And>m. m < ?M \<Longrightarrow> da_dirs da' m 0 = da_dirs da m 0"
    by simp_all
qed

lemma compute_alloc_ok:
  assumes conf: "conf_ok conf" and mi: "mem_inv conf A da" and ci: "comp_inv conf C da"
    and n: "0 < n" "n \<le> kChunkSize" and eq: "compute_alloc conf n da = Inr (a, da')"
  shows "kChunkSize \<le> off a \<and>
     (if unat (nodeID a) < MemoryNumber conf
      then block a n \<inter> A = {} \<and> mem_inv conf (A \<union> block a n) da' \<and> (\<exists>C'. C \<subseteq> C' \<and> comp_inv conf C' da')
      else comp_block conf a n \<inter> C = {} \<and> comp_inv conf (C \<union> comp_block conf a n) da' \<and> mem_inv conf A da')"
proof (cases "da_use_memory_fp da")
  case True
  then have eq': "memory_alloc conf n da = Inr (a, da')" using eq by (simp add: compute_alloc_def)
  note M = memory_alloc_ok [OF conf mi n eq']
  show ?thesis using M comp_inv_frame [OF ci M(5)] by auto
next
  case False
  then obtain a1 da1 where st: "compute_step conf n da = Inr (a1, da1)"
    using eq by (cases "compute_step conf n da") (auto simp: compute_alloc_def)
  note S = compute_step_ok [OF conf ci n st]
  let ?a = "a1\<lparr>nodeID := of_nat (da_compute_nodes da1 + MemoryNumber conf)\<rparr>"
  have mi1: "mem_inv conf A da1" by (rule mem_inv_frame [OF mi S(6,7,8)])
  show ?thesis
  proof (cases "(kLeafCacheSize - 1) * MB \<le> unat (offset ?a)")
    case True
    let ?da = "da1\<lparr>da_use_memory_fp := True\<rparr>"
    have eq': "memory_alloc conf n ?da = Inr (a, da')"
      using eq st True False by (simp add: compute_alloc_def Let_def)
    have "mem_inv conf A ?da" by (rule mem_inv_frame [OF mi1]) simp_all
    note M = memory_alloc_ok [OF conf this n eq']
    obtain K where "side_inv {MemoryNumber conf} (C \<union> block a1 n) K (da_compute da1) da1"
      using S(1) by (auto simp: comp_inv_def)
    then have "side_inv {MemoryNumber conf} (C \<union> block a1 n) K (da_compute ?da) ?da"
      by (auto intro: side_inv_frame)
    then have "\<exists>K. side_inv {MemoryNumber conf} (C \<union> block a1 n) K (da_compute ?da) ?da" by blast
    then have "comp_inv conf (C \<union> block a1 n) ?da"
      using S(1) by (simp add: comp_inv_def)
    then have "comp_inv conf (C \<union> block a1 n) da'" by (rule comp_inv_frame [OF _ M(5)])
    then have "\<exists>C'. C \<subseteq> C' \<and> comp_inv conf C' da'" by (intro exI [of _ "C \<union> block a1 n"]) simp
    with M(1-4) show ?thesis by simp
  next
    case fits: False
    then have "compute_alloc conf n da = Inr (?a, da1)"
      using st False by (simp add: compute_alloc_def Let_def)
    then have r: "a = ?a" "da' = da1" using eq by simp_all
    have "unat (nodeID ?a) = da_compute_nodes da1 + MemoryNumber conf"
      using S(5) conf by (simp add: conf_ok_def unat_of_nat del: of_nat_add)
    then have notm: "\<not> unat (nodeID a) < MemoryNumber conf" using r by simp
    have "comp_block conf a n = block a1 n"
      using S(3) by (simp add: comp_block_def block_def off_def r)
    moreover have "off a = off a1" by (simp add: off_def r)
    ultimately show ?thesis using notm S mi1 r(2) by simp
  qed
qed

datatype alloc_req = MemReq nat | CompReq nat

fun req_size :: "alloc_req \<Rightarrow> nat" where
  "req_size (MemReq n) = n"
| "req_size (CompReq n) = n"

fun run_allocs :: "DMConf \<Rightarrow> alloc_req list \<Rightarrow> DMAlloc \<Rightarrow> ((Gaddr \<times> nat) list \<times> DMAlloc) result" where
  "run_allocs conf [] da = Inr ([], da)"
| "run_allocs conf (r # rs) da =
     res_bind (case r of MemReq n \<Rightarrow> memory_alloc conf n da | CompReq n \<Rightarrow> compute_alloc conf n da) (\<lambda>(a, da1).
     res_bind (run_allocs conf rs da1) (\<lambda>(bs, da2). Inr ((a, req_size r) # bs, da2)))"

definition disjoint_blocks :: "Gaddr \<times> nat \<Rightarrow> Gaddr \<times> nat \<Rightarrow> bool" where
  "disjoint_blocks p q \<longleftrightarrow>
     nodeID (fst p) \<noteq> nodeID (fst q) \<or> off (fst p) + snd p \<le> off (fst q) \<or> off (fst q) + snd q \<le> off (fst p)"

text \<open>A block that shares no byte with the used sets, on its side.\<close>

definition fresh_block :: "DMConf \<Rightarrow> (16 word \<times> nat) set \<Rightarrow> (16 word \<times> nat) set \<Rightarrow> Gaddr \<times> nat \<Rightarrow> bool" where
  "fresh_block conf A C p \<longleftrightarrow>
     (if unat (nodeID (fst p)) < MemoryNumber conf then block (fst p) (snd p) \<inter> A = {}
      else comp_block conf (fst p) (snd p) \<inter> C = {})"

lemma run_allocs_ok:
  assumes "conf_ok conf" and "mem_inv conf A da" and "comp_inv conf C da"
    and "\<forall>r \<in> set rs. 0 < req_size r \<and> req_size r \<le> kChunkSize" and "run_allocs conf rs da = Inr (bs, da')"
  shows "sorted_wrt disjoint_blocks bs \<and> map snd bs = map req_size rs \<and>
     (\<forall>p \<in> set bs. kChunkSize \<le> off (fst p) \<and> fresh_block conf A C p)"
  using assms
proof (induction rs arbitrary: A C da bs)
  case Nil
  then show ?case by simp
next
  case (Cons r rs)
  let ?n = "req_size r" and ?M = "MemoryNumber conf"
  from Cons.prems(5) obtain a da1 bs1 where
    one: "(case r of MemReq n \<Rightarrow> memory_alloc conf n da | CompReq n \<Rightarrow> compute_alloc conf n da) = Inr (a, da1)"
    and rest: "run_allocs conf rs da1 = Inr (bs1, da')" and bs: "bs = (a, ?n) # bs1"
    by (auto simp: res_bind_eq_Inr)
  have n: "0 < ?n" "?n \<le> kChunkSize" using Cons.prems(4) by simp_all
  have "\<exists>A' C'. kChunkSize \<le> off a \<and> fresh_block conf A C (a, ?n) \<and> mem_inv conf A' da1 \<and> comp_inv conf C' da1 \<and>
      A \<subseteq> A' \<and> C \<subseteq> C' \<and> (if unat (nodeID a) < ?M then block a ?n \<subseteq> A' else comp_block conf a ?n \<subseteq> C')"
  proof (cases r)
    case (MemReq m)
    then have eq: "memory_alloc conf ?n da = Inr (a, da1)" using one by simp
    note M = memory_alloc_ok [OF Cons.prems(1,2) n eq]
    show ?thesis
      using M comp_inv_frame [OF Cons.prems(3) M(5)]
      by (intro exI [of _ "A \<union> block a ?n"] exI [of _ C]) (simp add: fresh_block_def)
  next
    case (CompReq m)
    then have eq: "compute_alloc conf ?n da = Inr (a, da1)" using one by simp
    note R = compute_alloc_ok [OF Cons.prems(1,2,3) n eq]
    show ?thesis
    proof (cases "unat (nodeID a) < ?M")
      case True
      with R obtain C' where "C \<subseteq> C'" "comp_inv conf C' da1" by auto
      with R True show ?thesis
        by (intro exI [of _ "A \<union> block a ?n"] exI [of _ C']) (simp add: fresh_block_def)
    next
      case False
      with R show ?thesis
        by (intro exI [of _ A] exI [of _ "C \<union> comp_block conf a ?n"]) (simp add: fresh_block_def)
    qed
  qed
  then obtain A' C' where A': "kChunkSize \<le> off a" "fresh_block conf A C (a, ?n)" "mem_inv conf A' da1"
    "comp_inv conf C' da1" "A \<subseteq> A'" "C \<subseteq> C'"
    "if unat (nodeID a) < ?M then block a ?n \<subseteq> A' else comp_block conf a ?n \<subseteq> C'" by blast
  have IH: "sorted_wrt disjoint_blocks bs1" "map snd bs1 = map req_size rs"
    "\<forall>p \<in> set bs1. kChunkSize \<le> off (fst p) \<and> fresh_block conf A' C' p"
    using Cons.IH [OF Cons.prems(1) A'(3,4) _ rest] Cons.prems(4) by simp_all
  have "fresh_block conf A C p" if "p \<in> set bs1" for p
  proof -
    have "fresh_block conf A' C' p" using IH(3) that by blast
    moreover have "X \<inter> A = {}" if "X \<inter> A' = {}" for X using that A'(5) by blast
    moreover have "X \<inter> C = {}" if "X \<inter> C' = {}" for X using that A'(6) by blast
    ultimately show ?thesis unfolding fresh_block_def by (simp split: if_splits)
  qed
  moreover have "disjoint_blocks (a, ?n) p" if p: "p \<in> set bs1" for p
  proof (rule ccontr)
    assume nd: "\<not> disjoint_blocks (a, ?n) p"
    then have nn: "nodeID (fst p) = nodeID a" by (auto simp: disjoint_blocks_def)
    have pos: "0 < snd p" 
    proof -
      have "snd p \<in> set (map snd bs1)" using p by simp
      then have "snd p \<in> set (map req_size rs)" using IH(2) by simp
      then show ?thesis using Cons.prems(4) by auto
    qed
    have fp: "fresh_block conf A' C' p" using IH(3) p by blast
    let ?b = "max (off a) (off (fst p))"
    have b: "off a \<le> ?b" "?b < off a + ?n" "off (fst p) \<le> ?b" "?b < off (fst p) + snd p"
      using nd n(1) pos by (auto simp: disjoint_blocks_def)
    show False
    proof (cases "unat (nodeID a) < ?M")
      case True
      have "(nodeID a, ?b) \<in> block a ?n" "(nodeID a, ?b) \<in> block (fst p) (snd p)"
        using b nn unfolding block_def by auto
      moreover have "block (fst p) (snd p) \<inter> A' = {}" "block a ?n \<subseteq> A'"
        using fp nn True A'(7) by (simp_all add: fresh_block_def)
      ultimately show False by blast
    next
      case False
      have "(of_nat ?M, ?b) \<in> comp_block conf a ?n" "(of_nat ?M, ?b) \<in> comp_block conf (fst p) (snd p)"
        using b unfolding comp_block_def block_def by (auto simp: off_def)
      moreover have "comp_block conf (fst p) (snd p) \<inter> C' = {}" "comp_block conf a ?n \<subseteq> C'"
        using fp nn False A'(7) by (simp_all add: fresh_block_def)
      ultimately show False by blast
    qed
  qed
  ultimately show ?case using bs IH A'(1,2) by simp
qed

text \<open>A client that has not allocated yet, with the directories as their constructors leave them.\<close>

definition new_DMAlloc :: "DMConf \<Rightarrow> nat \<Rightarrow> nat \<Rightarrow> (nat \<Rightarrow> nat \<Rightarrow> Directory) \<Rightarrow> DMAlloc" where
  "new_DMAlloc conf mn cn dirs =
     \<lparr>da_dirs = dirs, da_memory = new_LocalAllocator, da_compute = new_LocalAllocator,
      da_memory_nodes = mn, da_compute_nodes = cn, da_use_memory_fp = False, da_mtarget = None,
      da_ctarget = None\<rparr>"

lemma new_DMAlloc_inv:
  assumes conf: "conf_ok conf" and size: "dsm_size < 2 ^ 48"
    and dirs: "\<forall>n \<le> MemoryNumber conf. new_Directory dsm_size 0 (of_nat n) = Inr (dirs n 0)"
  shows "mem_inv conf {} (new_DMAlloc conf mn cn dirs)" and "comp_inv conf {} (new_DMAlloc conf mn cn dirs)"
proof -
  let ?da = "new_DMAlloc conf mn cn dirs"
  have ok: "dir_ok n {} ?da" if "n \<le> MemoryNumber conf" for n
  proof -
    have "new_Directory dsm_size 0 (of_nat n) = Inr (dirs n 0)" using dirs that by blast
    then obtain x where "new_GlobalAllocator (mk_Gaddr (of_nat n) 0) dsm_size = Inr x"
      "\<lparr>dir_alloc = x, g_root_ptr = Gaddr_Null, g_root_level = -1, dir_enable_cache = False\<rparr> = dirs n 0"
      by (auto simp: new_Directory_def NR_DIRECTORY_def Let_def res_bind_eq_Inr)
    then have "new_GlobalAllocator (mk_Gaddr (of_nat n) 0) dsm_size = Inr (dir_alloc (dirs n 0))"
      by (metis Directory.select_convs(1))
    moreover have "off (mk_Gaddr (of_nat n) 0) + dsm_size < 2 ^ 48" using size by (simp add: off_def)
    ultimately show ?thesis
      using new_GlobalAllocator_inv by (simp add: dir_ok_def new_DMAlloc_def Let_def)
  qed
  have la: "la_inv {} new_LocalAllocator" by (simp add: la_inv_def new_LocalAllocator_def)
  have "side_inv {..<MemoryNumber conf} {} {} (da_memory ?da) ?da"
    using ok la conf by (auto simp: side_inv_def conf_ok_def new_DMAlloc_def new_LocalAllocator_def)
  then show "mem_inv conf {} ?da" by (auto simp: mem_inv_def new_DMAlloc_def)
  have "side_inv {MemoryNumber conf} {} {} (da_compute ?da) ?da"
    using ok la conf by (auto simp: side_inv_def conf_ok_def new_DMAlloc_def new_LocalAllocator_def)
  then show "comp_inv conf {} ?da" by (auto simp: comp_inv_def new_DMAlloc_def new_LocalAllocator_def)
qed

text \<open>
  C14: any sequence of \<open>memory_alloc\<close> and \<open>compute_alloc\<close> calls of a client, with sizes of at most a
  chunk, returns pairwise disjoint blocks, none of which starts in the first chunk of a server: no
  block is the null address, the root pointer or the lock word.
\<close>

theorem allocations_disjoint:
  assumes "conf_ok conf" and "dsm_size < 2 ^ 48"
    and "\<forall>n \<le> MemoryNumber conf. new_Directory dsm_size 0 (of_nat n) = Inr (dirs n 0)"
    and "\<forall>r \<in> set rs. 0 < req_size r \<and> req_size r \<le> kChunkSize"
    and "run_allocs conf rs (new_DMAlloc conf mn cn dirs) = Inr (bs, da')"
  shows "sorted_wrt disjoint_blocks bs \<and> map snd bs = map req_size rs \<and>
     (\<forall>p \<in> set bs. kChunkSize \<le> off (fst p) \<and> kRootPointerStoreOffest < off (fst p) \<and> fst p \<noteq> Gaddr_Null)"
proof -
  note inv = new_DMAlloc_inv [OF assms(1,2), where dirs = dirs and mn = mn and cn = cn, OF assms(3)]
  note R = run_allocs_ok [OF assms(1) inv assms(4,5)]
  have "kRootPointerStoreOffest < off a \<and> a \<noteq> Gaddr_Null" if "kChunkSize \<le> off a" for a
    using that by (auto simp: dm_sizes off_def Gaddr_Null_def)
  with R show ?thesis by blast
qed

definition example_conf :: DMConf where
  "example_conf = \<lparr>MemoryNumber = 1, ComputeNumber = 1, my_thread_id = 0, my_node_id = 1\<rparr>"

definition example_dirs :: "nat \<Rightarrow> nat \<Rightarrow> Directory" where
  "example_dirs n d =
     \<lparr>dir_alloc = \<lparr>ga_start = mk_Gaddr (of_nat n) 0, ga_bitmap = [True, False], ga_bitmap_tail = 1\<rparr>,
      g_root_ptr = Gaddr_Null, g_root_level = -1, dir_enable_cache = False\<rparr>"

theorem allocations_disjoint_witness:
  "\<exists>bs da'. run_allocs example_conf [MemReq 1752, CompReq 56, MemReq 1360] (new_DMAlloc example_conf 0 1 example_dirs) = Inr (bs, da') \<and>
     sorted_wrt disjoint_blocks bs \<and> length bs = 3"
proof -
  let ?rs = "[MemReq 1752, CompReq 56, MemReq 1360]"
  have c: "conf_ok example_conf" by (simp add: conf_ok_def example_conf_def)
  have d: "64 * MB < 2 ^ 48" by (simp add: dm_sizes)
  have dirs: "\<forall>n \<le> MemoryNumber example_conf. new_Directory (64 * MB) 0 (of_nat n) = Inr (example_dirs n 0)"
    by (simp add: new_Directory_def new_GlobalAllocator_def example_dirs_def dm_sizes Let_def numeral_2_eq_2)
  have rs: "\<forall>r \<in> set ?rs. 0 < req_size r \<and> req_size r \<le> kChunkSize" by (simp add: dm_sizes)
  have "\<not> isl (run_allocs example_conf ?rs (new_DMAlloc example_conf 0 1 example_dirs))"
    by (simp add: new_DMAlloc_def example_conf_def memory_alloc_def compute_alloc_def compute_step_def
        la_malloc_def new_LocalAllocator_def rpc_malloc_def process_message_def alloc_chunck_def
        example_dirs_def set_chunck_def Let_def dm_sizes)
  then obtain bs da' where run: "run_allocs example_conf ?rs (new_DMAlloc example_conf 0 1 example_dirs) = Inr (bs, da')"
    by (metis isl_def old.sum.exhaust surj_pair)
  from allocations_disjoint [OF c d dirs rs run] have "sorted_wrt disjoint_blocks bs" "map snd bs = map req_size ?rs"
    by blast+
  moreover from this(2) have "length bs = 3" by (metis length_map length_Cons list.size(3) numeral_3_eq_3)
  ultimately show ?thesis using run by blast
qed

end
