(* ===== verification/LocalLock.thy ===== *)
theory LocalLock
  imports RdmaConfig
begin

text \<open>
  Model of \<open>DMTree/include/LocalLockTable.h\<close>: the per-client table of ticket locks with read
  delegation (a waiting reader takes over the result of the reader before it) and write
  combining (a waiting writer leaves its value to the writer before it).

  Every operation is a function on the \<open>LocalLockNode\<close> it works on. The operations are cut into
  blocks at the points where other threads can interfere; \<open>LocalLockSteps\<close> interleaves the blocks.
  Run alone, a thread that has to wait for its ticket spins forever, which is \<open>Inl OutOfFuel\<close>.
  \<open>std::atomic\<close> accesses are sequentially consistent. \<open>unique_read_key\<close> and \<open>unique_write_key\<close>
  are pointers to heap copies of keys; here they are the key pointed to.
\<close>

definition MAX_HOCL_HANDOVER :: nat where [dm_sizes]: "MAX_HOCL_HANDOVER = 8"

record LocalLockNode =
  ll_read_current :: u32
  ll_read_ticket :: u32
  ll_read_handover :: bool
  ll_write_current :: u32
  ll_write_ticket :: u32
  ll_write_handover :: bool
  ll_window_start :: bool
  ll_read_window :: u32
  ll_write_window :: u32
  ll_unique_read_key :: "KeyType option"
  ll_unique_write_key :: "KeyType option"
  ll_unique_addr :: Gaddr
  ll_res :: bool
  ll_ret_value :: ValueType
  ll_wc_buffer :: ValueType
  ll_handover_cnt :: int

text \<open>The constructor leaves \<open>res\<close>, the union and \<open>wc_buffer\<close> as they are: \<open>r\<close>, \<open>w\<close> and \<open>b\<close>.\<close>

definition new_LocalLockNode :: "bool \<Rightarrow> ValueType \<Rightarrow> ValueType \<Rightarrow> LocalLockNode" where
  "new_LocalLockNode r w b =
     \<lparr>ll_read_current = 0, ll_read_ticket = 0, ll_read_handover = False,
      ll_write_current = 0, ll_write_ticket = 0, ll_write_handover = False,
      ll_window_start = False, ll_read_window = 0, ll_write_window = 0,
      ll_unique_read_key = None, ll_unique_write_key = None, ll_unique_addr = Gaddr_Null,
      ll_res = r, ll_ret_value = w, ll_wc_buffer = b, ll_handover_cnt = 0\<rparr>"

text \<open>\<open>((1UL << 32) + ticket - current) % (1UL << 32)\<close>, computed in 64 bits.\<close>

definition ticket_dist :: "u32 \<Rightarrow> u32 \<Rightarrow> nat" where
  "ticket_dist ticket current = (2 ^ 32 + unat ticket - unat current) mod 2 ^ 32"

lemma ticket_dist_eq: "ticket_dist t c = unat (t - c)"
proof -
  have "unat c < 2 ^ 32" using unat_less_pow [of c] by simp
  moreover have "unat t < 2 ^ 32" using unat_less_pow [of t] by simp
  ultimately show ?thesis
    by (auto simp: ticket_dist_def unat_sub_if' mod_if)
qed

section \<open>Read delegation\<close>

text \<open>The compare-and-swap of \<open>unique_read_key\<close> against \<open>nullptr\<close>.\<close>

definition read_cas :: "KeyType \<Rightarrow> LocalLockNode \<Rightarrow> bool \<times> LocalLockNode" where
  "read_cas k n =
     (case ll_unique_read_key n of
        None \<Rightarrow> (True, n\<lparr>ll_unique_read_key := Some k\<rparr>)
      | Some _ \<Rightarrow> (False, n))"

definition read_full :: "LocalLockNode \<Rightarrow> bool" where
  "read_full n \<longleftrightarrow> MAX_HOCL_HANDOVER < ticket_dist (ll_read_ticket n) (ll_read_current n)"

definition read_take :: "LocalLockNode \<Rightarrow> u32 \<times> LocalLockNode" where
  "read_take n = (ll_read_ticket n, n\<lparr>ll_read_ticket := ll_read_ticket n + 1\<rparr>)"

text \<open>
  The decrement of a time window, as it stands in the readers' code (it closes the window when
  the last of both windows is used up).
\<close>

definition read_window_dec :: "LocalLockNode \<Rightarrow> LocalLockNode" where
  "read_window_dec n =
     (if ll_read_window n \<noteq> 0
      then let n1 = n\<lparr>ll_read_window := ll_read_window n - 1\<rparr>
           in if ll_read_window n1 = 0 \<and> ll_write_window n1 = 0
              then n1\<lparr>ll_window_start := False\<rparr> else n1
      else n)"

text \<open>What a reader does once its ticket is served; the pair is (handover, conflict).\<close>

definition read_turn :: "KeyType \<Rightarrow> LocalLockNode \<Rightarrow> (bool \<times> bool) \<times> LocalLockNode" where
  "read_turn k n =
     (if ll_unique_read_key n \<noteq> Some k
      then let n1 = read_window_dec n
           in ((False, True), n1\<lparr>ll_read_current := ll_read_current n1 + 1\<rparr>)
      else let n1 = (if ll_read_window n = 0 then n\<lparr>ll_read_handover := False\<rparr> else n)
           in ((ll_read_handover n1, False), n1))"

definition acquire_local_read_lock ::
  "KeyType \<Rightarrow> LocalLockNode \<Rightarrow> ((bool \<times> bool) \<times> LocalLockNode) result" where
  "acquire_local_read_lock k n =
     (case read_cas k n of (res, n1) \<Rightarrow>
        if \<not> res \<and> ll_unique_read_key n1 \<noteq> Some k then Inr ((False, True), n1)
        else if read_full n1 then Inr ((False, True), n1)
        else (case read_take n1 of (ticket, n2) \<Rightarrow>
                if ticket \<noteq> ll_read_current n2 then Inl OutOfFuel
                else Inr (read_turn k n2)))"

text \<open>
  \<open>release_local_read_lock\<close> up to the new \<open>read_handover\<close>: the winner publishes its result, the
  others take the published one; the winner opens a time window if none is open.
\<close>

definition read_rel_start ::
  "bool \<Rightarrow> ValueType \<Rightarrow> LocalLockNode \<Rightarrow> (bool \<times> ValueType) \<times> LocalLockNode" where
  "read_rel_start res v n =
     (let n1 = (if \<not> ll_read_handover n then n\<lparr>ll_res := res, ll_ret_value := v\<rparr> else n);
          out = (if \<not> ll_read_handover n then (res, v) else (ll_res n, ll_ret_value n));
          ticket = ll_read_ticket n1; current = ll_read_current n1;
          n2 = (if \<not> ll_read_handover n1 \<and> \<not> ll_window_start n1
                then n1\<lparr>ll_window_start := True,
                        ll_read_window := of_nat (ticket_dist ticket current),
                        ll_write_window :=
                          of_nat (ticket_dist (ll_write_ticket n1) (ll_write_current n1))\<rparr>
                else n1)
      in (out, n2\<lparr>ll_read_handover := (ticket \<noteq> current + 1)\<rparr>))"

definition read_rel_key :: "LocalLockNode \<Rightarrow> LocalLockNode" where
  "read_rel_key n = (if \<not> ll_read_handover n then n\<lparr>ll_unique_read_key := None\<rparr> else n)"

definition read_rel_end :: "LocalLockNode \<Rightarrow> LocalLockNode" where
  "read_rel_end n =
     (let n1 = read_window_dec n in n1\<lparr>ll_read_current := ll_read_current n1 + 1\<rparr>)"

definition release_local_read_lock ::
  "bool \<times> bool \<Rightarrow> bool \<Rightarrow> ValueType \<Rightarrow> LocalLockNode \<Rightarrow> (bool \<times> ValueType) \<times> LocalLockNode" where
  "release_local_read_lock acquire_ret res v n =
     (if snd acquire_ret then ((res, v), n)
      else case read_rel_start res v n of (out, n1) \<Rightarrow> (out, read_rel_end (read_rel_key n1)))"

section \<open>Write combining\<close>

definition write_cas :: "KeyType \<Rightarrow> LocalLockNode \<Rightarrow> bool \<times> LocalLockNode" where
  "write_cas k n =
     (case ll_unique_write_key n of
        None \<Rightarrow> (True, n\<lparr>ll_unique_write_key := Some k\<rparr>)
      | Some _ \<Rightarrow> (False, n))"

definition write_take :: "LocalLockNode \<Rightarrow> u32 \<times> LocalLockNode" where
  "write_take n = (ll_write_ticket n, n\<lparr>ll_write_ticket := ll_write_ticket n + 1\<rparr>)"

definition write_window_dec :: "LocalLockNode \<Rightarrow> LocalLockNode" where
  "write_window_dec n =
     (if ll_write_window n \<noteq> 0
      then let n1 = n\<lparr>ll_write_window := ll_write_window n - 1\<rparr>
           in if ll_read_window n1 = 0 \<and> ll_write_window n1 = 0
              then n1\<lparr>ll_window_start := False\<rparr> else n1
      else n)"

definition write_turn :: "KeyType \<Rightarrow> LocalLockNode \<Rightarrow> (bool \<times> bool) \<times> LocalLockNode" where
  "write_turn k n =
     (if ll_unique_write_key n \<noteq> Some k
      then let n1 = write_window_dec n
           in ((False, True), n1\<lparr>ll_write_current := ll_write_current n1 + 1\<rparr>)
      else let n1 = (if ll_write_window n = 0 then n\<lparr>ll_write_handover := False\<rparr> else n)
           in ((ll_write_handover n1, False), n1))"

definition acquire_local_write_lock ::
  "KeyType \<Rightarrow> ValueType \<Rightarrow> LocalLockNode \<Rightarrow> ((bool \<times> bool) \<times> LocalLockNode) result" where
  "acquire_local_write_lock k v n =
     (case write_cas k n of (res, n1) \<Rightarrow>
        if \<not> res \<and> ll_unique_write_key n1 \<noteq> Some k then Inr ((False, True), n1)
        else (case write_take (n1\<lparr>ll_wc_buffer := v\<rparr>) of (ticket, n2) \<Rightarrow>
                if ticket \<noteq> ll_write_current n2 then Inl OutOfFuel
                else Inr (write_turn k n2)))"

text \<open>The result says whether the value was replaced by a combined one.\<close>

definition get_combining_value :: "KeyType \<Rightarrow> ValueType \<Rightarrow> LocalLockNode \<Rightarrow> bool \<times> ValueType" where
  "get_combining_value k v n =
     (if ll_unique_write_key n = Some k then (ll_wc_buffer n \<noteq> v, ll_wc_buffer n) else (False, v))"

definition write_rel_start :: "LocalLockNode \<Rightarrow> LocalLockNode" where
  "write_rel_start n =
     (let ticket = ll_write_ticket n; current = ll_write_current n;
          n1 = (if \<not> ll_write_handover n \<and> \<not> ll_window_start n
                then n\<lparr>ll_window_start := True,
                       ll_read_window :=
                         of_nat (ticket_dist (ll_read_ticket n) (ll_read_current n)),
                       ll_write_window := of_nat (ticket_dist ticket current)\<rparr>
                else n)
      in n1\<lparr>ll_write_handover := (ticket \<noteq> current + 1)\<rparr>)"

definition write_rel_key :: "LocalLockNode \<Rightarrow> LocalLockNode" where
  "write_rel_key n = (if \<not> ll_write_handover n then n\<lparr>ll_unique_write_key := None\<rparr> else n)"

definition write_rel_end :: "LocalLockNode \<Rightarrow> LocalLockNode" where
  "write_rel_end n =
     (let n1 = write_window_dec n in n1\<lparr>ll_write_current := ll_write_current n1 + 1\<rparr>)"

definition release_local_write_lock :: "bool \<times> bool \<Rightarrow> LocalLockNode \<Rightarrow> LocalLockNode" where
  "release_local_write_lock acquire_ret n =
     (if snd acquire_ret then n else write_rel_end (write_rel_key (write_rel_start n)))"

section \<open>Lock handover\<close>

text \<open>
  The baseline locks: the returned flag says that the remote lock of \<open>addr\<close> is inherited from the
  previous holder. The callbacks that reach the memory server are recorded in the order of the
  calls.
\<close>

datatype remote_call =
    UnlockFunc Gaddr
  | WriteWithoutUnlock Gaddr
  | WriteAndUnlock Gaddr
  | WriteFunc ValueType

definition addr_turn :: "Gaddr \<Rightarrow> LocalLockNode \<Rightarrow> bool \<times> LocalLockNode" where
  "addr_turn addr n =
     (let n1 = (if \<not> ll_write_handover n then n\<lparr>ll_unique_addr := addr\<rparr> else n)
      in (ll_write_handover n1 \<and> ll_unique_addr n1 = addr, n1))"

definition acquire_local_lock :: "Gaddr \<Rightarrow> LocalLockNode \<Rightarrow> (bool \<times> LocalLockNode) result" where
  "acquire_local_lock addr n =
     (case write_take n of (ticket, n1) \<Rightarrow>
        if ticket \<noteq> ll_write_current n1 then Inl OutOfFuel else Inr (addr_turn addr n1))"

text \<open>The first component is \<open>lock_success\<close>, the second the return value.\<close>

definition acquire_local_lock_once :: "Gaddr \<Rightarrow> LocalLockNode \<Rightarrow> bool \<times> bool \<times> LocalLockNode" where
  "acquire_local_lock_once addr n =
     (if ll_write_ticket n = ll_write_current n
      then (True, addr_turn addr (snd (write_take n)))
      else (False, False, n))"

definition update_handover :: "LocalLockNode \<Rightarrow> LocalLockNode" where
  "update_handover n =
     (let h = (ll_write_ticket n \<noteq> ll_write_current n + 1);
          h' = (if ll_handover_cnt n > int MAX_HOCL_HANDOVER then False else h)
      in n\<lparr>ll_write_handover := h',
           ll_handover_cnt := (if \<not> h' then 0 else ll_handover_cnt n + 1)\<rparr>)"

definition can_hand_over :: "Gaddr \<Rightarrow> LocalLockNode \<Rightarrow> bool \<times> Gaddr list \<times> LocalLockNode" where
  "can_hand_over addr n =
     (let n1 = update_handover n
      in (ll_write_handover n1,
          (if ll_unique_addr n1 \<noteq> addr then [addr] else []) @
          (if \<not> ll_write_handover n1 then [ll_unique_addr n1] else []),
          n1))"

definition write_serve :: "LocalLockNode \<Rightarrow> LocalLockNode" where
  "write_serve n = n\<lparr>ll_write_current := ll_write_current n + 1\<rparr>"

definition release_local_lock :: "LocalLockNode \<Rightarrow> LocalLockNode" where
  "release_local_lock n = write_serve n"

definition release_local_lock_unlock :: "Gaddr \<Rightarrow> LocalLockNode \<Rightarrow> remote_call list \<times> LocalLockNode" where
  "release_local_lock_unlock addr n =
     (let n1 = update_handover n
      in ((if ll_unique_addr n1 \<noteq> addr then [UnlockFunc addr] else []) @
          (if \<not> ll_write_handover n1 then [UnlockFunc (ll_unique_addr n1)] else []),
          write_serve n1))"

definition release_local_lock_embed :: "Gaddr \<Rightarrow> LocalLockNode \<Rightarrow> remote_call list \<times> LocalLockNode" where
  "release_local_lock_embed addr n =
     (let n1 = update_handover n
      in (if \<not> ll_write_handover n1
          then if ll_unique_addr n1 \<noteq> addr
               then [UnlockFunc (ll_unique_addr n1), WriteAndUnlock addr]
               else [WriteAndUnlock addr]
          else if ll_unique_addr n1 \<noteq> addr then [WriteAndUnlock addr]
               else [WriteWithoutUnlock addr],
          write_serve n1))"

text \<open>The variant keyed by a key (its release is commented out in the source).\<close>

definition acquire_local_lock_key :: "KeyType \<Rightarrow> LocalLockNode \<Rightarrow> (bool \<times> LocalLockNode) result" where
  "acquire_local_lock_key k n =
     (case write_take n of (ticket, n1) \<Rightarrow>
        if ticket \<noteq> ll_write_current n1 then Inl OutOfFuel
        else let n2 = (if \<not> ll_write_handover n1 then n1\<lparr>ll_unique_write_key := Some k\<rparr> else n1)
             in Inr (ll_write_handover n2 \<and> ll_unique_write_key n2 = Some k, n2))"

section \<open>The variants for testing\<close>

definition acquire_local_write_lock_addr ::
  "Gaddr \<Rightarrow> ValueType \<Rightarrow> LocalLockNode \<Rightarrow> (bool \<times> LocalLockNode) result" where
  "acquire_local_write_lock_addr addr v n =
     (case write_take (n\<lparr>ll_wc_buffer := v\<rparr>) of (ticket, n1) \<Rightarrow>
        if ticket \<noteq> ll_write_current n1 then Inl OutOfFuel else Inr (addr_turn addr n1))"

definition release_local_write_lock_addr ::
  "Gaddr \<Rightarrow> ValueType \<Rightarrow> LocalLockNode \<Rightarrow> remote_call list \<times> LocalLockNode" where
  "release_local_write_lock_addr addr v n =
     ((if \<not> ll_write_handover n
       then [WriteFunc (ll_wc_buffer n), UnlockFunc (ll_unique_addr n)] else []) @
      (if ll_unique_addr n \<noteq> addr then [WriteFunc v, UnlockFunc addr] else []),
      write_serve (n\<lparr>ll_write_handover := (ll_write_ticket n \<noteq> ll_write_current n + 1)\<rparr>))"

definition acquire_local_read_lock_addr :: "Gaddr \<Rightarrow> LocalLockNode \<Rightarrow> (bool \<times> LocalLockNode) result" where
  "acquire_local_read_lock_addr addr n =
     (case read_take n of (ticket, n1) \<Rightarrow>
        if ticket \<noteq> ll_read_current n1 then Inl OutOfFuel
        else let n2 = (if \<not> ll_read_handover n1 then n1\<lparr>ll_unique_addr := addr\<rparr> else n1)
             in Inr (ll_read_handover n2 \<and> ll_unique_addr n2 = addr, n2))"

definition release_local_read_lock_addr ::
  "Gaddr \<Rightarrow> bool \<Rightarrow> ValueType \<Rightarrow> LocalLockNode \<Rightarrow> (bool \<times> ValueType) \<times> LocalLockNode" where
  "release_local_read_lock_addr addr res v n =
     (let winner = (ll_unique_addr n = addr \<and> \<not> ll_read_handover n);
          loser = (ll_unique_addr n = addr \<and> ll_read_handover n);
          n1 = (if winner then n\<lparr>ll_res := res, ll_ret_value := v\<rparr> else n)
      in (if loser then (ll_res n, ll_ret_value n) else (res, v),
          n1\<lparr>ll_read_handover := (ll_read_ticket n1 \<noteq> ll_read_current n1 + 1),
             ll_read_current := ll_read_current n1 + 1\<rparr>))"

section \<open>The table\<close>

text \<open>
  \<open>local_locks\<close> as a function; \<open>city64\<close> is \<open>CityHash64\<close>. The handover locks index the array by the
  offset of the address, which the code does not check.
\<close>

type_synonym LocalLockTable = "nat \<Rightarrow> LocalLockNode"

definition get_hashed_lock_index :: "(u8 list \<Rightarrow> u64) \<Rightarrow> KeyType \<Rightarrow> nat" where
  "get_hashed_lock_index city64 k = unat (city64 (key_bytes k)) mod kLocalLockNum"

definition get_hashed_lock_index_addr :: "(u8 list \<Rightarrow> u64) \<Rightarrow> Gaddr \<Rightarrow> nat" where
  "get_hashed_lock_index_addr city64 a = unat (city64 (le_bytes 8 (Gaddr_val a))) mod kLocalLockNum"

definition handover_lock_index :: "Gaddr \<Rightarrow> nat result" where
  "handover_lock_index a =
     (let i = unat (offset a) div 8 in if i < kLocalLockNum then Inr i else Inl OutOfBounds)"

definition table_acquire_read ::
  "(u8 list \<Rightarrow> u64) \<Rightarrow> KeyType \<Rightarrow> LocalLockTable \<Rightarrow> ((bool \<times> bool) \<times> LocalLockTable) result" where
  "table_acquire_read city64 k t =
     (let i = get_hashed_lock_index city64 k
      in res_bind (acquire_local_read_lock k (t i)) (\<lambda>(r, n). Inr (r, t(i := n))))"

definition table_release_read ::
  "(u8 list \<Rightarrow> u64) \<Rightarrow> KeyType \<Rightarrow> bool \<times> bool \<Rightarrow> bool \<Rightarrow> ValueType \<Rightarrow> LocalLockTable \<Rightarrow>
     (bool \<times> ValueType) \<times> LocalLockTable" where
  "table_release_read city64 k r res v t =
     (let i = get_hashed_lock_index city64 k
      in case release_local_read_lock r res v (t i) of (out, n) \<Rightarrow> (out, t(i := n)))"

definition table_acquire_write ::
  "(u8 list \<Rightarrow> u64) \<Rightarrow> KeyType \<Rightarrow> ValueType \<Rightarrow> LocalLockTable \<Rightarrow> ((bool \<times> bool) \<times> LocalLockTable) result" where
  "table_acquire_write city64 k v t =
     (let i = get_hashed_lock_index city64 k
      in res_bind (acquire_local_write_lock k v (t i)) (\<lambda>(r, n). Inr (r, t(i := n))))"

definition table_release_write ::
  "(u8 list \<Rightarrow> u64) \<Rightarrow> KeyType \<Rightarrow> bool \<times> bool \<Rightarrow> LocalLockTable \<Rightarrow> LocalLockTable" where
  "table_release_write city64 k r t =
     (let i = get_hashed_lock_index city64 k
      in t(i := release_local_write_lock r (t i)))"

definition table_combining ::
  "(u8 list \<Rightarrow> u64) \<Rightarrow> KeyType \<Rightarrow> ValueType \<Rightarrow> LocalLockTable \<Rightarrow> ValueType" where
  "table_combining city64 k v t = snd (get_combining_value k v (t (get_hashed_lock_index city64 k)))"

section \<open>Lock handover keeps the remote locks in balance\<close>

text \<open>
  Between two holders the client holds the remote lock of \<open>unique_addr\<close> if the lock is handed
  over, and none otherwise; the handover counter stays small.
\<close>

definition remote_held :: "LocalLockNode \<Rightarrow> Gaddr set" where
  "remote_held n = (if ll_write_handover n then {ll_unique_addr n} else {})"

definition handover_wf :: "LocalLockNode \<Rightarrow> bool" where
  "handover_wf n \<longleftrightarrow> 0 \<le> ll_handover_cnt n \<and> ll_handover_cnt n \<le> 9 \<and>
     (\<not> ll_write_handover n \<longrightarrow> ll_handover_cnt n = 0)"

primrec unlocks :: "remote_call \<Rightarrow> Gaddr list" where
  "unlocks (UnlockFunc a) = [a]"
| "unlocks (WriteWithoutUnlock a) = []"
| "unlocks (WriteAndUnlock a) = [a]"
| "unlocks (WriteFunc v) = []"

text \<open>
  C38: lock handover keeps the remote locks in balance. A holder of \<open>addr\<close> whose turn has come takes
  the remote lock unless it inherits it; it never takes one the client already holds. While it
  works any number of threads may queue up. Each of the three ways to release unlocks only locks
  that are held, each once, and leaves exactly the lock that is handed over; nothing stays locked
  when the handover ends, and the lock is handed over at most nine times in a row.
\<close>

theorem lock_handover_balanced:
  assumes "handover_wf n" and turn: "addr_turn addr n = (inherit, n1)"
    and held: "held = (if inherit then remote_held n else insert addr (remote_held n))"
    and n2: "n2 = n1\<lparr>ll_write_ticket := ll_write_ticket n1 + arrivals\<rparr>"
    and rel: "(us, n3) = (case release_local_lock_unlock addr n2 of (cs, m) \<Rightarrow> (concat (map unlocks cs), m)) \<or>
              (us, n3) = (case release_local_lock_embed addr n2 of (cs, m) \<Rightarrow> (concat (map unlocks cs), m)) \<or>
              (us, n3) = (case can_hand_over addr n2 of (_, as, m) \<Rightarrow> (as, release_local_lock m))"
  shows "(\<not> inherit \<longrightarrow> addr \<notin> remote_held n) \<and> distinct us \<and> set us \<subseteq> held \<and>
         remote_held n3 = held - set us \<and> handover_wf n3 \<and>
         (ll_write_handover n3 \<longrightarrow> ll_handover_cnt n3 = ll_handover_cnt n + 1) \<and>
         ll_write_current n3 = ll_write_current n + 1"
proof -
  have n3: "n3 = write_serve (update_handover n2)"
    using rel by (auto simp: release_local_lock_unlock_def release_local_lock_embed_def
      can_hand_over_def release_local_lock_def Let_def)
  define u where "u = ll_unique_addr n2"
  define h where "h = ll_write_handover n3"
  have us: "distinct us" "set us = (if u \<noteq> addr then {addr} else {}) \<union> (if h then {} else {u})"
    using rel unfolding u_def h_def
    by (auto simp: n3 release_local_lock_unlock_def release_local_lock_embed_def can_hand_over_def
      release_local_lock_def write_serve_def update_handover_def Let_def split: if_splits)
  have u: "u = (if ll_write_handover n then ll_unique_addr n else addr)"
    "inherit = (ll_write_handover n \<and> ll_unique_addr n = addr)"
    using turn by (auto simp: u_def n2 addr_turn_def Let_def split: if_splits)
  have "remote_held n3 = (if h then {u} else {})"
    by (simp add: remote_held_def h_def u_def n3 write_serve_def update_handover_def Let_def)
  moreover have "handover_wf n3" "ll_write_handover n3 \<longrightarrow> ll_handover_cnt n3 = ll_handover_cnt n + 1"
    using assms(1) turn
    by (auto simp: n3 n2 handover_wf_def write_serve_def update_handover_def addr_turn_def Let_def dm_sizes split: if_splits)
  moreover have "ll_write_current n3 = ll_write_current n + 1"
    using turn by (auto simp: n3 n2 write_serve_def update_handover_def addr_turn_def Let_def split: if_splits)
  ultimately show ?thesis using us u held by (auto simp: remote_held_def)
qed

definition example_lock :: LocalLockNode where
  "example_lock = (new_LocalLockNode False 0 0)\<lparr>ll_write_handover := True, ll_write_ticket := 2,
     ll_write_current := 1, ll_handover_cnt := 1\<rparr>"

theorem lock_handover_balanced_witness:
  "handover_wf example_lock \<and> addr_turn (mk_Gaddr 1 64) example_lock = (False, example_lock) \<and>
   release_local_lock_unlock (mk_Gaddr 1 64) example_lock =
     ([UnlockFunc (mk_Gaddr 1 64), UnlockFunc Gaddr_Null],
      example_lock\<lparr>ll_write_handover := False, ll_handover_cnt := 0, ll_write_current := 2\<rparr>) \<and>
   remote_held (example_lock\<lparr>ll_write_handover := False, ll_handover_cnt := 0, ll_write_current := 2\<rparr>) = {}"
proof -
  have ne: "mk_Gaddr 1 64 \<noteq> Gaddr_Null" by (simp add: Gaddr_Null_def mk_Gaddr_def)
  have wf: "handover_wf example_lock"
    by (simp add: handover_wf_def example_lock_def new_LocalLockNode_def)
  have turn: "addr_turn (mk_Gaddr 1 64) example_lock = (False, example_lock)"
    using ne by (auto simp: addr_turn_def example_lock_def new_LocalLockNode_def)
  have rel: "release_local_lock_unlock (mk_Gaddr 1 64) example_lock =
     ([UnlockFunc (mk_Gaddr 1 64), UnlockFunc Gaddr_Null],
      example_lock\<lparr>ll_write_handover := False, ll_handover_cnt := 0, ll_write_current := 2\<rparr>)"
    using ne by (simp add: release_local_lock_unlock_def update_handover_def write_serve_def
      example_lock_def new_LocalLockNode_def MAX_HOCL_HANDOVER_def)
  have held: "insert (mk_Gaddr 1 64) (remote_held example_lock) = {mk_Gaddr 1 64, Gaddr_Null}"
    by (simp add: remote_held_def example_lock_def new_LocalLockNode_def)
  show ?thesis
    using lock_handover_balanced [OF wf turn refl, of example_lock 0 _ _, OF _ disjI1] wf turn rel held
    by simp
qed

section \<open>A thread alone\<close>

text \<open>A node that no thread uses; an operation that runs alone finds and leaves it so.\<close>

definition ll_idle :: "LocalLockNode \<Rightarrow> bool" where
  "ll_idle n \<longleftrightarrow> ll_read_ticket n = ll_read_current n \<and> ll_write_ticket n = ll_write_current n \<and>
     ll_unique_read_key n = None \<and> ll_unique_write_key n = None \<and>
     \<not> ll_read_handover n \<and> \<not> ll_write_handover n \<and>
     ll_read_window n = 0 \<and> ll_write_window n = 0 \<and> \<not> ll_window_start n"

lemma ll_idle_new [simp]: "ll_idle (new_LocalLockNode r w b)"
  by (simp add: ll_idle_def new_LocalLockNode_def)

lemmas read_op_defs = acquire_local_read_lock_def release_local_read_lock_def read_cas_def
  read_full_def read_take_def read_turn_def read_rel_start_def read_rel_key_def read_rel_end_def
  read_window_dec_def Let_def

lemmas write_op_defs = acquire_local_write_lock_def release_local_write_lock_def write_cas_def
  write_take_def write_turn_def write_rel_start_def write_rel_key_def write_rel_end_def
  write_window_dec_def get_combining_value_def Let_def

lemma idle_read:
  assumes "ll_idle n"
  obtains n1 where "acquire_local_read_lock k n = Inr ((False, False), n1)"
    and "\<And>res v. \<exists>n2. release_local_read_lock (False, False) res v n1 = ((res, v), n2) \<and> ll_idle n2"
proof -
  define n1 where "n1 = n\<lparr>ll_unique_read_key := Some k, ll_read_ticket := ll_read_ticket n + 1\<rparr>"
  have "acquire_local_read_lock k n = Inr ((False, False), n1)"
    using assms by (simp add: ll_idle_def read_op_defs ticket_dist_eq n1_def)
  moreover have "\<exists>n2. release_local_read_lock (False, False) res v n1 = ((res, v), n2) \<and> ll_idle n2" for res v
    using assms by (simp add: ll_idle_def read_op_defs ticket_dist_eq n1_def)
  ultimately show thesis using that by blast
qed

lemma idle_write:
  assumes "ll_idle n"
  obtains n1 where "acquire_local_write_lock k v n = Inr ((False, False), n1)"
    and "get_combining_value k v n1 = (False, v)"
    and "ll_idle (release_local_write_lock (False, False) n1)"
proof -
  define n1 where "n1 = n\<lparr>ll_unique_write_key := Some k, ll_wc_buffer := v,
    ll_write_ticket := ll_write_ticket n + 1\<rparr>"
  have "acquire_local_write_lock k v n = Inr ((False, False), n1)"
    using assms by (simp add: ll_idle_def write_op_defs ticket_dist_eq n1_def)
  moreover have "get_combining_value k v n1 = (False, v)"
    by (simp add: write_op_defs n1_def)
  moreover have "ll_idle (release_local_write_lock (False, False) n1)"
    using assms by (simp add: ll_idle_def write_op_defs ticket_dist_eq n1_def)
  ultimately show thesis using that by blast
qed

end
