(* ===== verification/LocalLockSteps.thy ===== *)
theory LocalLockSteps
  imports LocalLock
begin

text \<open>
  The threads of a client at one node of the local lock table, interleaved. A thread runs
  \<open>DMTree::read\<close> or \<open>DMTree::write\<close>: it acquires the local lock, works on the remote memory unless
  the lock is handed over, and releases. One call of \<open>ll_move\<close> is one block of \<open>LocalLock\<close> of one
  thread. The remote memory maps the keys that are present to their values; other clients change
  it at any time. Keys are never removed.
\<close>

section \<open>Threads\<close>

text \<open>
  \<open>ORead k c\<close> is \<open>read\<close> called with a variable for the result that holds \<open>c\<close>. When the key is absent,
  \<open>leaf_search\<close> leaves the variable as it is, unless the leaf has an entry of another key with the
  same fingerprint: \<open>Entry::search\<close> then sets the variable to \<open>ValueNull\<close>.
\<close>

datatype ll_op = ORead KeyType ValueType | OWrite KeyType ValueType

primrec is_read :: "ll_op \<Rightarrow> bool" where
  "is_read (ORead k c) = True"
| "is_read (OWrite k v) = False"

text \<open>
  The position of a thread. \<open>PCmp e\<close> is between the failed compare-and-swap and the comparison of
  the key behind the pointer it returned, \<open>e\<close> counting the deletions before the load; a
  comparison after a deletion reads freed memory and is \<open>PFault\<close>. The ticket of a thread is kept
  from \<open>PSpin\<close> on.
\<close>

datatype ll_pc =
    PStart
  | PCmp nat
  | PFull
  | PBuf
  | PTick
  | PSpin u32
  | PTurn u32
  | PHold u32 bool
  | PInstall u32 ValueType
  | PRel u32 ValueType
  | PRelKey u32 ValueType
  | PRelEnd u32 ValueType
  | PDirect
  | PPut ValueType
  | PDone ValueType
  | PFault

record ll_thread =
  th_op :: ll_op
  th_pc :: ll_pc

text \<open>
  \<open>sy_clash\<close> tells for which keys the leaf has another entry with the same fingerprint. For the
  statements only: \<open>sy_src\<close> is the key of the reader that stored \<open>ret_value\<close> last, \<open>sy_hist\<close>
  the values each key has had in the remote memory, \<open>sy_miss\<close> the keys that a reader looked up and
  did not find, with the value that its variable had.
\<close>

record ll_sys =
  sy_node :: LocalLockNode
  sy_thr :: "nat \<Rightarrow> ll_thread"
  sy_mem :: "KeyType \<rightharpoonup> ValueType"
  sy_clash :: "KeyType \<Rightarrow> bool"
  sy_rdel :: nat
  sy_wdel :: nat
  sy_src :: "KeyType option"
  sy_hist :: "(KeyType \<times> ValueType) set"
  sy_miss :: "(KeyType \<times> ValueType) set"

definition set_pc :: "nat \<Rightarrow> ll_pc \<Rightarrow> ll_sys \<Rightarrow> ll_sys" where
  "set_pc t p s = s\<lparr>sy_thr := (sy_thr s)(t := (sy_thr s t)\<lparr>th_pc := p\<rparr>)\<rparr>"

definition set_node :: "LocalLockNode \<Rightarrow> ll_sys \<Rightarrow> ll_sys" where
  "set_node n s = s\<lparr>sy_node := n\<rparr>"

definition set_mem :: "KeyType \<Rightarrow> ValueType \<Rightarrow> ll_sys \<Rightarrow> ll_sys" where
  "set_mem k v s = s\<lparr>sy_mem := (sy_mem s)(k \<mapsto> v), sy_hist := insert (k, v) (sy_hist s)\<rparr>"

text \<open>The remote read of \<open>k\<close> into a variable that holds \<open>c\<close>: the variable afterwards.\<close>

definition remote_read :: "KeyType \<Rightarrow> ValueType \<Rightarrow> ll_sys \<Rightarrow> ValueType \<times> ll_sys" where
  "remote_read k c s =
     (case sy_mem s k of
        Some v \<Rightarrow> (v, s)
      | None \<Rightarrow> (if sy_clash s k then ValueNull else c, s\<lparr>sy_miss := insert (k, c) (sy_miss s)\<rparr>))"

text \<open>One block of a reader of \<open>k\<close> in thread \<open>t\<close> at position \<open>p\<close>; \<open>c\<close> is in its variable.\<close>

fun read_move :: "nat \<Rightarrow> KeyType \<Rightarrow> ValueType \<Rightarrow> ll_pc \<Rightarrow> ll_sys \<Rightarrow> ll_sys" where
  "read_move t k c PStart s =
     (case read_cas k (sy_node s) of
        (res, n) \<Rightarrow> set_pc t (if res then PFull else PCmp (sy_rdel s)) (set_node n s))"
| "read_move t k c (PCmp e) s =
     set_pc t (if e \<noteq> sy_rdel s then PFault
               else if ll_unique_read_key (sy_node s) \<noteq> Some k then PDirect else PFull) s"
| "read_move t k c PFull s = set_pc t (if read_full (sy_node s) then PDirect else PTick) s"
| "read_move t k c PTick s =
     (case read_take (sy_node s) of (ticket, n) \<Rightarrow> set_pc t (PSpin ticket) (set_node n s))"
| "read_move t k c (PSpin ticket) s =
     (if ticket = ll_read_current (sy_node s) then set_pc t (PTurn ticket) s else s)"
| "read_move t k c (PTurn ticket) s =
     (case read_turn k (sy_node s) of
        ((ho, conflict), n) \<Rightarrow>
          set_pc t (if conflict then PDirect else PHold ticket ho) (set_node n s))"
| "read_move t k c (PHold ticket ho) s =
     (if ho then set_pc t (PRel ticket c) s
      else case remote_read k c s of (v, s') \<Rightarrow> set_pc t (PRel ticket v) s')"
| "read_move t k c (PRel ticket v) s =
     (case read_rel_start False v (sy_node s) of
        ((_, v'), n) \<Rightarrow>
          set_pc t (PRelKey ticket v')
            ((set_node n s)\<lparr>sy_src := (if ll_read_handover (sy_node s) then sy_src s else Some k)\<rparr>))"
| "read_move t k c (PRelKey ticket v) s =
     set_pc t (PRelEnd ticket v)
       ((set_node (read_rel_key (sy_node s)) s)
          \<lparr>sy_rdel := (if ll_read_handover (sy_node s) then sy_rdel s else sy_rdel s + 1)\<rparr>)"
| "read_move t k c (PRelEnd ticket v) s = set_pc t (PDone v) (set_node (read_rel_end (sy_node s)) s)"
| "read_move t k c PDirect s = (case remote_read k c s of (v, s') \<Rightarrow> set_pc t (PDone v) s')"
| "read_move t k c _ s = s"

text \<open>
  One block of a writer. \<open>PInstall\<close> is between \<open>get_combining_value\<close> and the remote write of the
  holder of the local lock, \<open>PPut\<close> the same for a writer that goes on without the lock:
  \<open>leaf_insert\<close> calls \<open>get_combining_value\<close> for both.
\<close>

fun write_move :: "nat \<Rightarrow> KeyType \<Rightarrow> ValueType \<Rightarrow> ll_pc \<Rightarrow> ll_sys \<Rightarrow> ll_sys" where
  "write_move t k v PStart s =
     (case write_cas k (sy_node s) of
        (res, n) \<Rightarrow> set_pc t (if res then PBuf else PCmp (sy_wdel s)) (set_node n s))"
| "write_move t k v (PCmp e) s =
     set_pc t (if e \<noteq> sy_wdel s then PFault
               else if ll_unique_write_key (sy_node s) \<noteq> Some k then PDirect else PBuf) s"
| "write_move t k v PBuf s = set_pc t PTick (set_node ((sy_node s)\<lparr>ll_wc_buffer := v\<rparr>) s)"
| "write_move t k v PTick s =
     (case write_take (sy_node s) of (ticket, n) \<Rightarrow> set_pc t (PSpin ticket) (set_node n s))"
| "write_move t k v (PSpin ticket) s =
     (if ticket = ll_write_current (sy_node s) then set_pc t (PTurn ticket) s else s)"
| "write_move t k v (PTurn ticket) s =
     (case write_turn k (sy_node s) of
        ((ho, conflict), n) \<Rightarrow>
          set_pc t (if conflict then PDirect else PHold ticket ho) (set_node n s))"
| "write_move t k v (PHold ticket ho) s =
     set_pc t (if ho then PRel ticket v
               else PInstall ticket (snd (get_combining_value k v (sy_node s)))) s"
| "write_move t k v (PInstall ticket w) s = set_pc t (PRel ticket w) (set_mem k w s)"
| "write_move t k v (PRel ticket w) s =
     set_pc t (PRelKey ticket w) (set_node (write_rel_start (sy_node s)) s)"
| "write_move t k v (PRelKey ticket w) s =
     set_pc t (PRelEnd ticket w)
       ((set_node (write_rel_key (sy_node s)) s)
          \<lparr>sy_wdel := (if ll_write_handover (sy_node s) then sy_wdel s else sy_wdel s + 1)\<rparr>)"
| "write_move t k v (PRelEnd ticket w) s =
     set_pc t (PDone w) (set_node (write_rel_end (sy_node s)) s)"
| "write_move t k v PDirect s = set_pc t (PPut (snd (get_combining_value k v (sy_node s)))) s"
| "write_move t k v (PPut w) s = set_pc t (PDone w) (set_mem k w s)"
| "write_move t k v _ s = s"

definition ll_move :: "nat \<Rightarrow> ll_sys \<Rightarrow> ll_sys" where
  "ll_move t s =
     (case th_op (sy_thr s t) of
        ORead k c \<Rightarrow> read_move t k c (th_pc (sy_thr s t)) s
      | OWrite k v \<Rightarrow> write_move t k v (th_pc (sy_thr s t)) s)"

text \<open>
  \<open>leaf_insert\<close> calls \<open>get_combining_value\<close> once more before its remote write when the slot that it
  looked at first has no room (lines 230, 249 and 298 of \<open>DMTree.cc\<close>).
\<close>

definition combine_again :: "nat \<Rightarrow> ll_sys \<Rightarrow> ll_sys" where
  "combine_again t s =
     (case (th_op (sy_thr s t), th_pc (sy_thr s t)) of
        (OWrite k v, PInstall ticket w) \<Rightarrow>
          set_pc t (PInstall ticket (snd (get_combining_value k w (sy_node s)))) s
      | (OWrite k v, PPut w) \<Rightarrow> set_pc t (PPut (snd (get_combining_value k w (sy_node s)))) s
      | _ \<Rightarrow> s)"

definition ll_start :: "nat \<Rightarrow> ll_op \<Rightarrow> ll_sys \<Rightarrow> ll_sys" where
  "ll_start t oper s = s\<lparr>sy_thr := (sy_thr s)(t := \<lparr>th_op = oper, th_pc = PStart\<rparr>)\<rparr>"

definition is_done :: "ll_pc \<Rightarrow> bool" where
  "is_done p \<longleftrightarrow> (case p of PDone _ \<Rightarrow> True | _ \<Rightarrow> False)"

text \<open>
  A step is a block of a thread, a further combination before a remote write, the start of the
  next operation of a thread that is done, a write by another client, or a change of the entries
  that share a fingerprint. The threads are \<open>0, ..., N - 1\<close>.
\<close>

inductive ll_step :: "nat \<Rightarrow> ll_sys \<Rightarrow> ll_sys \<Rightarrow> bool" for N where
  move: "t < N \<Longrightarrow> ll_step N s (ll_move t s)"
| again: "t < N \<Longrightarrow> ll_step N s (combine_again t s)"
| start: "t < N \<Longrightarrow> is_done (th_pc (sy_thr s t)) \<Longrightarrow> ll_step N s (ll_start t oper s)"
| other: "ll_step N s (set_mem k v s)"
| clash: "ll_step N s (s\<lparr>sy_clash := f\<rparr>)"

definition ll_init :: "LocalLockNode \<Rightarrow> (KeyType \<rightharpoonup> ValueType) \<Rightarrow> ll_sys" where
  "ll_init n m =
     \<lparr>sy_node = n, sy_thr = (\<lambda>_. \<lparr>th_op = OWrite KeyNull ValueNull, th_pc = PDone ValueNull\<rparr>), sy_mem = m,
      sy_clash = (\<lambda>_. False), sy_rdel = 0, sy_wdel = 0, sy_src = None, sy_hist = {(k, v). m k = Some v}, sy_miss = {}\<rparr>"

inductive ll_reachable :: "nat \<Rightarrow> ll_sys \<Rightarrow> bool" for N where
  init: "ll_reachable N (ll_init (new_LocalLockNode r w b) m)"
| step: "ll_reachable N s \<Longrightarrow> ll_step N s s' \<Longrightarrow> ll_reachable N s'"

section \<open>The tickets form a queue\<close>

primrec pc_ticket :: "ll_pc \<Rightarrow> u32 option" where
  "pc_ticket PStart = None"
| "pc_ticket (PCmp e) = None"
| "pc_ticket PFull = None"
| "pc_ticket PBuf = None"
| "pc_ticket PTick = None"
| "pc_ticket (PSpin t) = Some t"
| "pc_ticket (PTurn t) = Some t"
| "pc_ticket (PHold t ho) = Some t"
| "pc_ticket (PInstall t v) = Some t"
| "pc_ticket (PRel t v) = Some t"
| "pc_ticket (PRelKey t v) = Some t"
| "pc_ticket (PRelEnd t v) = Some t"
| "pc_ticket PDirect = None"
| "pc_ticket (PPut v) = None"
| "pc_ticket (PDone v) = None"
| "pc_ticket PFault = None"

text \<open>A thread is served when it is past the loop that waits for its ticket.\<close>

definition served :: "ll_pc \<Rightarrow> bool" where
  "served p \<longleftrightarrow> pc_ticket p \<noteq> None \<and> (case p of PSpin _ \<Rightarrow> False | _ \<Rightarrow> True)"

definition rtk :: "ll_sys \<Rightarrow> nat \<Rightarrow> u32 option" where
  "rtk s t = (if is_read (th_op (sy_thr s t)) then pc_ticket (th_pc (sy_thr s t)) else None)"

definition wtk :: "ll_sys \<Rightarrow> nat \<Rightarrow> u32 option" where
  "wtk s t = (if is_read (th_op (sy_thr s t)) then None else pc_ticket (th_pc (sy_thr s t)))"

text \<open>
  The abstraction of a ticket lock: the queue of the threads that hold a ticket, the first of
  which is served next. Tickets are counted modulo \<open>2 ^ 32\<close>.
\<close>

definition ticket_queue :: "u32 \<Rightarrow> u32 \<Rightarrow> (nat \<rightharpoonup> u32) \<Rightarrow> nat list \<Rightarrow> bool" where
  "ticket_queue cur tick tk q \<longleftrightarrow>
     distinct q \<and> dom tk = set q \<and> tick = cur + of_nat (length q) \<and>
     (\<forall>i < length q. tk (q ! i) = Some (cur + of_nat i))"

lemma ticket_queue_take:
  assumes "ticket_queue cur tick tk q" and "tk t = None"
  shows "ticket_queue cur (tick + 1) (tk(t \<mapsto> tick)) (q @ [t])"
proof -
  have "t \<notin> set q" using assms by (metis domIff ticket_queue_def)
  moreover have "\<forall>i < length q. q ! i \<noteq> t" using \<open>t \<notin> set q\<close> nth_mem by metis
  ultimately show ?thesis
    using assms(1) by (auto simp: ticket_queue_def nth_append less_Suc_eq)
qed

lemma of_nat_u32_eq: "m < 2 ^ 32 \<Longrightarrow> n < 2 ^ 32 \<Longrightarrow> of_nat m = (of_nat n :: u32) \<longleftrightarrow> m = n"
  by (simp add: of_nat_inverse unsigned_of_nat take_bit_nat_eq_self word_unat_eq_iff)

text \<open>The thread whose ticket is served is the first of the queue, and leaves it.\<close>

lemma ticket_queue_head:
  assumes "ticket_queue cur tick tk q" and "length q < 2 ^ 32" and "tk t = Some cur"
  obtains q' where "q = t # q'"
proof -
  have "t \<in> set q" using assms by (metis domI ticket_queue_def)
  then obtain i where i: "i < length q" "q ! i = t" by (auto simp: in_set_conv_nth)
  then have "cur + of_nat i = cur" using assms by (auto simp: ticket_queue_def)
  then have "of_nat i = (of_nat 0 :: u32)" by simp
  then have "i = 0" using of_nat_u32_eq [of i 0] i(1) assms(2) by simp
  with i that show thesis by (cases q) auto
qed

lemma ticket_queue_serve:
  assumes "ticket_queue cur tick tk (t # q)"
  shows "ticket_queue (cur + 1) tick (tk(t := None)) q"
proof -
  have "tk (q ! i) = Some (cur + 1 + of_nat i)" if "i < length q" for i
  proof -
    have "Suc i < length (t # q)" using that by simp
    then have "tk ((t # q) ! Suc i) = Some (cur + of_nat (Suc i))"
      using assms unfolding ticket_queue_def by blast
    then show ?thesis by (simp add: algebra_simps)
  qed
  moreover have "dom (tk(t := None)) = set q"
    using assms by (auto simp: ticket_queue_def dom_def)
  ultimately show ?thesis
    using assms by (auto simp: ticket_queue_def algebra_simps)
qed

lemma ticket_queue_empty: "ticket_queue cur cur (\<lambda>_. None) []"
  by (simp add: ticket_queue_def)

text \<open>Which blocks move the counters.\<close>

lemma read_window_dec_frame [simp]:
  "ll_read_current (read_window_dec n) = ll_read_current n"
  "ll_read_ticket (read_window_dec n) = ll_read_ticket n"
  "ll_write_current (read_window_dec n) = ll_write_current n"
  "ll_write_ticket (read_window_dec n) = ll_write_ticket n"
  "ll_unique_read_key (read_window_dec n) = ll_unique_read_key n"
  "ll_read_handover (read_window_dec n) = ll_read_handover n"
  "ll_ret_value (read_window_dec n) = ll_ret_value n"
  by (simp_all add: read_window_dec_def Let_def)

lemma write_window_dec_frame [simp]:
  "ll_read_current (write_window_dec n) = ll_read_current n"
  "ll_read_ticket (write_window_dec n) = ll_read_ticket n"
  "ll_write_current (write_window_dec n) = ll_write_current n"
  "ll_write_ticket (write_window_dec n) = ll_write_ticket n"
  "ll_unique_read_key (write_window_dec n) = ll_unique_read_key n"
  "ll_read_handover (write_window_dec n) = ll_read_handover n"
  "ll_ret_value (write_window_dec n) = ll_ret_value n"
  by (simp_all add: write_window_dec_def Let_def)

lemmas ll_block_defs = read_cas_def read_take_def read_turn_def read_rel_start_def read_rel_key_def
  read_rel_end_def write_cas_def write_take_def write_turn_def write_rel_start_def
  write_rel_key_def write_rel_end_def Let_def

lemma set_pc_simps [simp]:
  "sy_node (set_pc t p s) = sy_node s" "sy_mem (set_pc t p s) = sy_mem s"
  "sy_src (set_pc t p s) = sy_src s" "sy_hist (set_pc t p s) = sy_hist s"
  "sy_miss (set_pc t p s) = sy_miss s"
  "sy_thr (set_pc t p s) = (sy_thr s)(t := (sy_thr s t)\<lparr>th_pc := p\<rparr>)"
  by (simp_all add: set_pc_def)

lemma set_node_simps [simp]:
  "sy_node (set_node n s) = n" "sy_mem (set_node n s) = sy_mem s"
  "sy_src (set_node n s) = sy_src s" "sy_hist (set_node n s) = sy_hist s"
  "sy_miss (set_node n s) = sy_miss s"
  "sy_thr (set_node n s) = sy_thr s"
  by (simp_all add: set_node_def)

lemma set_mem_simps [simp]:
  "sy_node (set_mem k v s) = sy_node s" "sy_mem (set_mem k v s) = (sy_mem s)(k \<mapsto> v)" "sy_miss (set_mem k v s) = sy_miss s"
  "sy_src (set_mem k v s) = sy_src s" "sy_hist (set_mem k v s) = insert (k, v) (sy_hist s)"
  "sy_thr (set_mem k v s) = sy_thr s"
  by (simp_all add: set_mem_def)

lemma remote_read_simps [simp]:
  "sy_node (snd (remote_read k c s)) = sy_node s" "sy_mem (snd (remote_read k c s)) = sy_mem s"
  "sy_src (snd (remote_read k c s)) = sy_src s" "sy_hist (snd (remote_read k c s)) = sy_hist s"
  "sy_thr (snd (remote_read k c s)) = sy_thr s" "sy_miss s \<subseteq> sy_miss (snd (remote_read k c s))"
  by (auto simp: remote_read_def split: option.splits)

lemma read_move_remote [simp]:
  "read_move t k c (PHold ticket ho) s =
     (if ho then set_pc t (PRel ticket c) s
      else set_pc t (PRel ticket (fst (remote_read k c s))) (snd (remote_read k c s)))"
  "read_move t k c PDirect s =
     set_pc t (PDone (fst (remote_read k c s))) (snd (remote_read k c s))"
  by (simp_all add: case_prod_unfold)

declare read_move.simps(7,11) [simp del]

section \<open>Mutual exclusion\<close>

text \<open>What a step does to the tickets of one side.\<close>

inductive ticket_effect :: "nat \<Rightarrow> u32 \<Rightarrow> u32 \<Rightarrow> (nat \<rightharpoonup> u32) \<Rightarrow> u32 \<Rightarrow> u32 \<Rightarrow> (nat \<rightharpoonup> u32) \<Rightarrow> bool"
  for t cur tick tk where
  same: "ticket_effect t cur tick tk cur tick tk"
| take: "tk t = None \<Longrightarrow> ticket_effect t cur tick tk cur (tick + 1) (tk(t \<mapsto> tick))"
| serve: "tk t = Some cur \<Longrightarrow> ticket_effect t cur tick tk (cur + 1) tick (tk(t := None))"

definition queue_inv :: "nat \<Rightarrow> u32 \<Rightarrow> u32 \<Rightarrow> (nat \<rightharpoonup> u32) \<Rightarrow> bool" where
  "queue_inv N cur tick tk \<longleftrightarrow> (\<exists>q. ticket_queue cur tick tk q \<and> set q \<subseteq> {..<N})"

lemma queue_inv_effect:
  assumes eff: "ticket_effect t cur tick tk cur' tick' tk'" and inv: "queue_inv N cur tick tk"
    and "t < N" and "N < 2 ^ 32"
  shows "queue_inv N cur' tick' tk'"
proof -
  obtain q where q: "ticket_queue cur tick tk q" "set q \<subseteq> {..<N}"
    using inv by (auto simp: queue_inv_def)
  have len: "length q < 2 ^ 32"
  proof -
    have "length q = card (set q)" using q(1) by (simp add: ticket_queue_def distinct_card)
    also have "\<dots> \<le> N" using card_mono [OF _ q(2)] by simp
    finally show ?thesis using assms(4) by simp
  qed
  from eff show ?thesis
  proof cases
    case same
    with inv show ?thesis by simp
  next
    case take
    have "set (q @ [t]) \<subseteq> {..<N}" using q(2) assms(3) by simp
    with ticket_queue_take [OF q(1) take(4)] take(1-3) show ?thesis
      unfolding queue_inv_def by blast
  next
    case serve
    obtain q' where q': "q = t # q'" using ticket_queue_head [OF q(1) len serve(4)] .
    then have "set q' \<subseteq> {..<N}" using q(2) by auto
    with ticket_queue_serve [of cur tick tk t q'] q(1) q' serve(1-3) show ?thesis
      unfolding queue_inv_def by blast
  qed
qed

definition read_queue :: "nat \<Rightarrow> ll_sys \<Rightarrow> bool" where
  "read_queue N s \<longleftrightarrow>
     queue_inv N (ll_read_current (sy_node s)) (ll_read_ticket (sy_node s)) (rtk s) \<and>
     (\<forall>t. is_read (th_op (sy_thr s t)) \<and> served (th_pc (sy_thr s t)) \<longrightarrow>
        rtk s t = Some (ll_read_current (sy_node s)))"

definition write_queue :: "nat \<Rightarrow> ll_sys \<Rightarrow> bool" where
  "write_queue N s \<longleftrightarrow>
     queue_inv N (ll_write_current (sy_node s)) (ll_write_ticket (sy_node s)) (wtk s) \<and>
     (\<forall>t. \<not> is_read (th_op (sy_thr s t)) \<and> served (th_pc (sy_thr s t)) \<longrightarrow>
        wtk s t = Some (ll_write_current (sy_node s)))"

abbreviation read_effect :: "nat \<Rightarrow> ll_sys \<Rightarrow> ll_sys \<Rightarrow> bool" where
  "read_effect t s s' \<equiv>
     ticket_effect t (ll_read_current (sy_node s)) (ll_read_ticket (sy_node s)) (rtk s)
       (ll_read_current (sy_node s')) (ll_read_ticket (sy_node s')) (rtk s')"

abbreviation write_effect :: "nat \<Rightarrow> ll_sys \<Rightarrow> ll_sys \<Rightarrow> bool" where
  "write_effect t s s' \<equiv>
     ticket_effect t (ll_write_current (sy_node s)) (ll_write_ticket (sy_node s)) (wtk s)
       (ll_write_current (sy_node s')) (ll_write_ticket (sy_node s')) (wtk s')"

lemma ticket_effect_same: "cur' = cur \<Longrightarrow> tick' = tick \<Longrightarrow> tk' = tk \<Longrightarrow> ticket_effect t cur tick tk cur' tick' tk'"
  by (simp add: ticket_effect.same)

lemma ticket_effect_take:
  "tk t = None \<Longrightarrow> cur' = cur \<Longrightarrow> tick' = tick + 1 \<Longrightarrow> tk' = tk(t \<mapsto> tick) \<Longrightarrow> ticket_effect t cur tick tk cur' tick' tk'"
  by (simp add: ticket_effect.take)

lemma ticket_effect_serve:
  "tk t = Some cur \<Longrightarrow> cur' = cur + 1 \<Longrightarrow> tick' = tick \<Longrightarrow> tk' = tk(t := None) \<Longrightarrow> ticket_effect t cur tick tk cur' tick' tk'"
  by (simp add: ticket_effect.serve)

lemma read_move_effect:
  assumes "th_op (sy_thr s t) = ORead k c" and "th_pc (sy_thr s t) = p"
    and "served p \<Longrightarrow> rtk s t = Some (ll_read_current (sy_node s))"
  shows "read_effect t s (read_move t k c p s)"
    and "write_effect t s (read_move t k c p s)"
proof -
  have r: "rtk s t = pc_ticket p" and w: "wtk s t = None" using assms(1,2) by (simp_all add: rtk_def wtk_def)
  show "write_effect t s (read_move t k c p s)"
    by (rule ticket_effect_same; cases p)
      (auto simp: ll_block_defs wtk_def fun_eq_iff assms split: option.splits)
  show "read_effect t s (read_move t k c p s)"
  proof (cases p)
    case PTick
    then show ?thesis
      by (intro ticket_effect_take) (use r assms in \<open>auto simp: ll_block_defs rtk_def fun_eq_iff\<close>)
  next
    case (PRelEnd x v)
    then show ?thesis
      by (intro ticket_effect_serve) (use r assms in \<open>auto simp: ll_block_defs rtk_def fun_eq_iff served_def\<close>)
  next
    case (PTurn x)
    show ?thesis
    proof (cases "ll_unique_read_key (sy_node s) = Some k")
      case True
      with PTurn show ?thesis
        by (intro ticket_effect_same) (use r assms in \<open>auto simp: ll_block_defs rtk_def fun_eq_iff\<close>)
    next
      case False
      with PTurn show ?thesis
        by (intro ticket_effect_serve) (use r assms in \<open>auto simp: ll_block_defs rtk_def fun_eq_iff served_def\<close>)
    qed
  qed ((rule ticket_effect_same; use r assms in \<open>auto simp: ll_block_defs rtk_def fun_eq_iff split: option.splits\<close>)+)
qed

lemma write_move_effect:
  assumes "th_op (sy_thr s t) = OWrite k v" and "th_pc (sy_thr s t) = p"
    and "served p \<Longrightarrow> wtk s t = Some (ll_write_current (sy_node s))"
  shows "write_effect t s (write_move t k v p s)"
    and "read_effect t s (write_move t k v p s)"
proof -
  have w: "wtk s t = pc_ticket p" and r: "rtk s t = None" using assms(1,2) by (simp_all add: rtk_def wtk_def)
  show "read_effect t s (write_move t k v p s)"
    by (rule ticket_effect_same; cases p)
      (auto simp: ll_block_defs rtk_def fun_eq_iff assms split: option.splits)
  show "write_effect t s (write_move t k v p s)"
  proof (cases p)
    case PTick
    then show ?thesis
      by (intro ticket_effect_take) (use w assms in \<open>auto simp: ll_block_defs wtk_def fun_eq_iff\<close>)
  next
    case (PRelEnd x u)
    then show ?thesis
      by (intro ticket_effect_serve) (use w assms in \<open>auto simp: ll_block_defs wtk_def fun_eq_iff served_def\<close>)
  next
    case (PTurn x)
    show ?thesis
    proof (cases "ll_unique_write_key (sy_node s) = Some k")
      case True
      with PTurn show ?thesis
        by (intro ticket_effect_same) (use w assms in \<open>auto simp: ll_block_defs wtk_def fun_eq_iff\<close>)
    next
      case False
      with PTurn show ?thesis
        by (intro ticket_effect_serve) (use w assms in \<open>auto simp: ll_block_defs wtk_def fun_eq_iff served_def\<close>)
    qed
  qed ((rule ticket_effect_same; use w assms in \<open>auto simp: ll_block_defs wtk_def fun_eq_iff split: option.splits\<close>)+)
qed

text \<open>A block of a thread touches the position of that thread only.\<close>

lemma read_move_thr: "t' \<noteq> t \<Longrightarrow> sy_thr (read_move t k c p s) t' = sy_thr s t'"
  by (cases p) (auto split: prod.splits)

lemma write_move_thr: "t' \<noteq> t \<Longrightarrow> sy_thr (write_move t k v p s) t' = sy_thr s t'"
  by (cases p) (auto split: prod.splits)

lemma read_move_op: "th_op (sy_thr (read_move t k c p s) t') = th_op (sy_thr s t')"
  by (cases p) (auto split: prod.splits)

lemma write_move_op: "th_op (sy_thr (write_move t k v p s) t') = th_op (sy_thr s t')"
  by (cases p) (auto split: prod.splits)

text \<open>Two threads with the same ticket are the same, so only the served thread serves the next.\<close>

lemma queue_inv_inject:
  assumes "queue_inv N cur tick tk" and "N < 2 ^ 32" and "tk t = Some x" and "tk t' = Some x"
  shows "t = t'"
proof -
  obtain q where q: "ticket_queue cur tick tk q" "set q \<subseteq> {..<N}"
    using assms(1) by (auto simp: queue_inv_def)
  have len: "length q < 2 ^ 32"
    using card_mono [OF _ q(2)] q(1) assms(2) by (simp add: ticket_queue_def distinct_card [symmetric])
  have "t \<in> set q" "t' \<in> set q" using q(1) assms(3,4) by (metis domI ticket_queue_def)+
  then obtain i j where ij: "i < length q" "q ! i = t" "j < length q" "q ! j = t'"
    by (auto simp: in_set_conv_nth)
  then have "cur + of_nat i = cur + (of_nat j :: u32)"
    using q(1) assms(3,4) by (auto simp: ticket_queue_def)
  then have "i = j" using of_nat_u32_eq [of i j] ij(1,3) len by simp
  with ij show ?thesis by simp
qed

lemma read_move_served:
  assumes "th_op (sy_thr s t) = ORead k c" and "th_pc (sy_thr s t) = p"
    and "served (th_pc (sy_thr (read_move t k c p s) t))"
  shows "pc_ticket (th_pc (sy_thr (read_move t k c p s) t)) = Some (ll_read_current (sy_node s)) \<or>
         served p \<and> pc_ticket (th_pc (sy_thr (read_move t k c p s) t)) = pc_ticket p"
    and "ll_read_current (sy_node (read_move t k c p s)) = ll_read_current (sy_node s)"
  using assms
  by (cases p; auto simp: served_def ll_block_defs split: option.splits if_splits)+

lemma write_move_served:
  assumes "th_op (sy_thr s t) = OWrite k v" and "th_pc (sy_thr s t) = p"
    and "served (th_pc (sy_thr (write_move t k v p s) t))"
  shows "pc_ticket (th_pc (sy_thr (write_move t k v p s) t)) = Some (ll_write_current (sy_node s)) \<or>
         served p \<and> pc_ticket (th_pc (sy_thr (write_move t k v p s) t)) = pc_ticket p"
    and "ll_write_current (sy_node (write_move t k v p s)) = ll_write_current (sy_node s)"
  using assms
  by (cases p; auto simp: served_def ll_block_defs split: option.splits if_splits)+

lemma ticket_effect_other:
  assumes "ticket_effect t cur tick tk cur' tick' tk'" and "queue_inv N cur tick tk"
    and "N < 2 ^ 32" and "t' \<noteq> t" and "tk t' = Some cur"
  shows "cur' = cur" and "tk' t' = Some cur"
  using assms(1) queue_inv_inject [OF assms(2,3) _ assms(5), of t] assms(4,5)
  by (auto elim!: ticket_effect.cases)

lemma read_queue_read_move:
  assumes inv: "read_queue N s" and "N < 2 ^ 32" and "t < N"
    and oper: "th_op (sy_thr s t) = ORead k c" and pc: "th_pc (sy_thr s t) = p"
  shows "read_queue N (read_move t k c p s)"
proof -
  let ?s = "read_move t k c p s"
  have Q: "queue_inv N (ll_read_current (sy_node s)) (ll_read_ticket (sy_node s)) (rtk s)"
    and S: "\<And>u. is_read (th_op (sy_thr s u)) \<Longrightarrow> served (th_pc (sy_thr s u)) \<Longrightarrow>
      rtk s u = Some (ll_read_current (sy_node s))"
    using inv by (auto simp: read_queue_def)
  have eff: "read_effect t s ?s"
    by (rule read_move_effect(1) [OF oper pc]) (use S [of t] oper pc in simp)
  have "rtk ?s u = Some (ll_read_current (sy_node ?s))"
    if "is_read (th_op (sy_thr ?s u))" "served (th_pc (sy_thr ?s u))" for u
  proof (cases "u = t")
    case True
    with that read_move_served [OF oper pc] S [of t] oper pc show ?thesis
      by (auto simp: rtk_def read_move_op)
  next
    case False
    with that have "rtk s u = Some (ll_read_current (sy_node s))"
      by (intro S) (simp_all add: read_move_thr)
    with ticket_effect_other [OF eff Q assms(2) False] show ?thesis by simp
  qed
  with queue_inv_effect [OF eff Q assms(3,2)] show ?thesis by (simp add: read_queue_def)
qed

lemma write_queue_write_move:
  assumes inv: "write_queue N s" and "N < 2 ^ 32" and "t < N"
    and oper: "th_op (sy_thr s t) = OWrite k v" and pc: "th_pc (sy_thr s t) = p"
  shows "write_queue N (write_move t k v p s)"
proof -
  let ?s = "write_move t k v p s"
  have Q: "queue_inv N (ll_write_current (sy_node s)) (ll_write_ticket (sy_node s)) (wtk s)"
    and S: "\<And>u. \<not> is_read (th_op (sy_thr s u)) \<Longrightarrow> served (th_pc (sy_thr s u)) \<Longrightarrow>
      wtk s u = Some (ll_write_current (sy_node s))"
    using inv by (auto simp: write_queue_def)
  have eff: "write_effect t s ?s"
    by (rule write_move_effect(1) [OF oper pc]) (use S [of t] oper pc in simp)
  have "wtk ?s u = Some (ll_write_current (sy_node ?s))"
    if "\<not> is_read (th_op (sy_thr ?s u))" "served (th_pc (sy_thr ?s u))" for u
  proof (cases "u = t")
    case True
    with that write_move_served [OF oper pc] S [of t] oper pc show ?thesis
      by (auto simp: wtk_def write_move_op)
  next
    case False
    with that have "wtk s u = Some (ll_write_current (sy_node s))"
      by (intro S) (simp_all add: write_move_thr)
    with ticket_effect_other [OF eff Q assms(2) False] show ?thesis by simp
  qed
  with queue_inv_effect [OF eff Q assms(3,2)] show ?thesis by (simp add: write_queue_def)
qed

text \<open>A reader does not disturb the writers' queue, nor a writer the readers' queue.\<close>

lemma write_queue_read_move:
  assumes inv: "write_queue N s"
    and oper: "th_op (sy_thr s t) = ORead k c" and pc: "th_pc (sy_thr s t) = p"
  shows "write_queue N (read_move t k c p s)"
proof -
  let ?s = "read_move t k c p s"
  have "wtk ?s = wtk s"
    by (rule ext) (metis is_read.simps(1) oper read_move_op read_move_thr wtk_def)
  moreover have "ll_write_current (sy_node ?s) = ll_write_current (sy_node s)"
    "ll_write_ticket (sy_node ?s) = ll_write_ticket (sy_node s)"
    by (cases p; auto simp: ll_block_defs split: option.splits)+
  moreover have "sy_thr ?s u = sy_thr s u" if "\<not> is_read (th_op (sy_thr ?s u))" for u
    by (rule read_move_thr) (use that oper in \<open>auto simp: read_move_op\<close>)
  ultimately show ?thesis using inv by (auto simp: write_queue_def)
qed

lemma read_queue_write_move:
  assumes inv: "read_queue N s"
    and oper: "th_op (sy_thr s t) = OWrite k v" and pc: "th_pc (sy_thr s t) = p"
  shows "read_queue N (write_move t k v p s)"
proof -
  let ?s = "write_move t k v p s"
  have "rtk ?s = rtk s"
    by (rule ext) (metis is_read.simps(2) oper write_move_op write_move_thr rtk_def)
  moreover have "ll_read_current (sy_node ?s) = ll_read_current (sy_node s)"
    "ll_read_ticket (sy_node ?s) = ll_read_ticket (sy_node s)"
    by (cases p; auto simp: ll_block_defs split: option.splits)+
  moreover have "sy_thr ?s u = sy_thr s u" if "is_read (th_op (sy_thr ?s u))" for u
    by (rule write_move_thr) (use that oper in \<open>auto simp: write_move_op\<close>)
  ultimately show ?thesis using inv by (auto simp: read_queue_def)
qed

lemma queues_move:
  assumes "read_queue N s" and "write_queue N s" and "N < 2 ^ 32" and "t < N"
  shows "read_queue N (ll_move t s)" and "write_queue N (ll_move t s)"
proof -
  have "read_queue N (ll_move t s) \<and> write_queue N (ll_move t s)"
  proof (cases "th_op (sy_thr s t)")
    case (ORead k c)
    then show ?thesis
      using assms read_queue_read_move [OF _ _ _ ORead refl] write_queue_read_move [OF _ ORead refl]
      by (simp add: ll_move_def)
  next
    case (OWrite k v)
    then show ?thesis
      using assms write_queue_write_move [OF _ _ _ OWrite refl] read_queue_write_move [OF _ OWrite refl]
      by (simp add: ll_move_def)
  qed
  then show "read_queue N (ll_move t s)" and "write_queue N (ll_move t s)" by simp_all
qed

text \<open>A further combination changes the value that a writer is about to write, nothing else.\<close>

lemma combine_again_cases:
  obtains "combine_again t s = s"
  | k v x w w' where "th_op (sy_thr s t) = OWrite k v" and "th_pc (sy_thr s t) = PInstall x w"
      and "combine_again t s = set_pc t (PInstall x w') s"
  | k v w w' where "th_op (sy_thr s t) = OWrite k v" and "th_pc (sy_thr s t) = PPut w"
      and "combine_again t s = set_pc t (PPut w') s"
  by (cases "th_op (sy_thr s t)"; cases "th_pc (sy_thr s t)") (auto simp: combine_again_def)

lemma queues_again:
  assumes "read_queue N s" and "write_queue N s"
  shows "read_queue N (combine_again t s)" and "write_queue N (combine_again t s)"
proof -
  have "rtk (combine_again t s) = rtk s" "wtk (combine_again t s) = wtk s"
    by (rule combine_again_cases [of t s]; auto simp: rtk_def wtk_def)+
  moreover have "sy_node (combine_again t s) = sy_node s"
    by (rule combine_again_cases [of t s]) auto
  moreover have "served (th_pc (sy_thr (combine_again t s) u)) = served (th_pc (sy_thr s u))"
    "th_op (sy_thr (combine_again t s) u) = th_op (sy_thr s u)" for u
    by (rule combine_again_cases [of t s]; auto simp: served_def)+
  ultimately show "read_queue N (combine_again t s)" and "write_queue N (combine_again t s)"
    using assms by (simp_all add: read_queue_def write_queue_def)
qed

lemma queues_start:
  assumes "read_queue N s" and "write_queue N s" and "is_done (th_pc (sy_thr s t))"
  shows "read_queue N (ll_start t oper s)" and "write_queue N (ll_start t oper s)"
proof -
  have "pc_ticket (th_pc (sy_thr s t)) = None"
    using assms(3) by (cases "th_pc (sy_thr s t)") (simp_all add: is_done_def)
  then have "rtk (ll_start t oper s) = rtk s" "wtk (ll_start t oper s) = wtk s"
    by (auto simp: rtk_def wtk_def ll_start_def)
  moreover have "sy_node (ll_start t oper s) = sy_node s" by (simp add: ll_start_def)
  ultimately show "read_queue N (ll_start t oper s)" and "write_queue N (ll_start t oper s)"
    using assms(1,2) by (auto simp: read_queue_def write_queue_def ll_start_def served_def)
qed

lemma reachable_queues:
  assumes "ll_reachable N s" and "N < 2 ^ 32"
  shows "read_queue N s \<and> write_queue N s"
  using assms(1)
proof induction
  case (init r w b m)
  have "rtk (ll_init (new_LocalLockNode r w b) m) = (\<lambda>_. None)"
    "wtk (ll_init (new_LocalLockNode r w b) m) = (\<lambda>_. None)"
    by (auto simp: rtk_def wtk_def ll_init_def)
  then show ?case
    using ticket_queue_empty [of 0]
    by (auto simp: read_queue_def write_queue_def queue_inv_def ll_init_def served_def
      new_LocalLockNode_def intro!: exI [of _ "[]"])
next
  case (step s s')
  from step.hyps(2) show ?case
  proof cases
    case (move t)
    then show ?thesis using queues_move step.IH assms(2) by blast
  next
    case (again t)
    then show ?thesis using queues_again step.IH by blast
  next
    case (start t oper)
    then show ?thesis using queues_start step.IH by blast
  next
    case (other k v)
    moreover have "rtk (set_mem k v s) = rtk s" "wtk (set_mem k v s) = wtk s"
      by (auto simp: rtk_def wtk_def)
    ultimately show ?thesis using step.IH by (simp add: read_queue_def write_queue_def)
  next
    case (clash f)
    moreover have "rtk (s\<lparr>sy_clash := f\<rparr>) = rtk s" "wtk (s\<lparr>sy_clash := f\<rparr>) = wtk s"
      by (auto simp: rtk_def wtk_def)
    ultimately show ?thesis using step.IH by (simp add: read_queue_def write_queue_def)
  qed
qed

section \<open>Delegated reads\<close>

text \<open>The values that a reader of \<open>k\<close> may get, and what holds of it at each position.\<close>

definition may_read :: "ll_sys \<Rightarrow> KeyType \<Rightarrow> ValueType \<Rightarrow> bool" where
  "may_read s k v \<longleftrightarrow> (k, v) \<in> sy_hist s \<or> (\<exists>c. (k, c) \<in> sy_miss s \<and> (v = c \<or> v = ValueNull))"

primrec reader_ok :: "ll_sys \<Rightarrow> KeyType \<Rightarrow> ll_pc \<Rightarrow> bool" where
  "reader_ok s k PStart \<longleftrightarrow> True"
| "reader_ok s k (PCmp e) \<longleftrightarrow> True"
| "reader_ok s k PFull \<longleftrightarrow> True"
| "reader_ok s k PBuf \<longleftrightarrow> False"
| "reader_ok s k PTick \<longleftrightarrow> True"
| "reader_ok s k (PSpin t) \<longleftrightarrow> True"
| "reader_ok s k (PTurn t) \<longleftrightarrow> True"
| "reader_ok s k (PHold t ho) \<longleftrightarrow>
     ll_unique_read_key (sy_node s) = Some k \<and> ll_read_handover (sy_node s) = ho"
| "reader_ok s k (PInstall t v) \<longleftrightarrow> False"
| "reader_ok s k (PRel t v) \<longleftrightarrow> ll_unique_read_key (sy_node s) = Some k \<and>
     (\<not> ll_read_handover (sy_node s) \<longrightarrow> may_read s k v)"
| "reader_ok s k (PRelKey t v) \<longleftrightarrow>
     ll_unique_read_key (sy_node s) = Some k \<and> may_read s k v"
| "reader_ok s k (PRelEnd t v) \<longleftrightarrow> may_read s k v"
| "reader_ok s k PDirect \<longleftrightarrow> True"
| "reader_ok s k (PPut v) \<longleftrightarrow> False"
| "reader_ok s k (PDone v) \<longleftrightarrow> may_read s k v"
| "reader_ok s k PFault \<longleftrightarrow> True"

definition deleg :: "ll_sys \<Rightarrow> bool" where
  "deleg s \<longleftrightarrow>
     (\<forall>k v. sy_mem s k = Some v \<longrightarrow> (k, v) \<in> sy_hist s) \<and>
     (ll_read_handover (sy_node s) \<longrightarrow>
        sy_src s \<noteq> None \<and> ll_unique_read_key (sy_node s) = sy_src s) \<and>
     (\<forall>k. sy_src s = Some k \<longrightarrow> may_read s k (ll_ret_value (sy_node s))) \<and>
     (\<forall>t k c. th_op (sy_thr s t) = ORead k c \<longrightarrow> reader_ok s k (th_pc (sy_thr s t)))"

text \<open>Histories and misses only grow.\<close>

definition grows :: "ll_sys \<Rightarrow> ll_sys \<Rightarrow> bool" where
  "grows s s' \<longleftrightarrow> sy_hist s \<subseteq> sy_hist s' \<and> sy_miss s \<subseteq> sy_miss s'"

lemma may_read_grows: "grows s s' \<Longrightarrow> may_read s k v \<Longrightarrow> may_read s' k v"
  by (auto simp: grows_def may_read_def)

lemma may_read_frame [simp]:
  "may_read (set_pc t p s) = may_read s" "may_read (set_node n s) = may_read s"
  "may_read (s\<lparr>sy_src := x\<rparr>) = may_read s" "may_read (s\<lparr>sy_rdel := y\<rparr>) = may_read s"
  by (auto simp: fun_eq_iff may_read_def)

lemma read_move_grows: "grows s (read_move t k c p s)"
  by (cases p) (auto simp: grows_def ll_block_defs remote_read_def split: option.splits)

lemma write_move_grows: "grows s (write_move t k v p s)"
  by (cases p) (auto simp: grows_def ll_block_defs split: option.splits)

text \<open>The remote read gives a value of the memory, or on a miss the variable of the reader or null.\<close>

lemma remote_read_may_read:
  "deleg s \<Longrightarrow> may_read (snd (remote_read k c s)) k (fst (remote_read k c s))"
  by (auto simp: remote_read_def may_read_def deleg_def split: option.splits)

text \<open>A position that is not served does not depend on the node.\<close>

lemma reader_ok_not_served:
  "\<not> served p \<Longrightarrow> grows s s' \<Longrightarrow> reader_ok s k p \<Longrightarrow> reader_ok s' k p"
  by (cases p) (auto simp: served_def intro: may_read_grows)

text \<open>The block of the served reader leaves the other readers alone.\<close>

lemma read_move_others:
  assumes "read_queue N s" and "N < 2 ^ 32" and "t < N"
    and oper: "th_op (sy_thr s t) = ORead k c" and pc: "th_pc (sy_thr s t) = p"
    and "u \<noteq> t" and "th_op (sy_thr s u) = ORead l d" and ok: "reader_ok s l (th_pc (sy_thr s u))"
  shows "reader_ok (read_move t k c p s) l (th_pc (sy_thr s u))"
proof (cases "served (th_pc (sy_thr s u))")
  case False
  then show ?thesis using read_move_grows ok by (rule reader_ok_not_served)
next
  case True
  have Q: "queue_inv N (ll_read_current (sy_node s)) (ll_read_ticket (sy_node s)) (rtk s)"
    and S: "\<And>u. is_read (th_op (sy_thr s u)) \<Longrightarrow> served (th_pc (sy_thr s u)) \<Longrightarrow>
      rtk s u = Some (ll_read_current (sy_node s))"
    using assms(1) by (auto simp: read_queue_def)
  have "rtk s u = Some (ll_read_current (sy_node s))" using S [of u] True assms(7) by simp
  then have "\<not> served p"
    using queue_inv_inject [OF Q assms(2), of t _ u] S [of t] oper pc assms(6) by auto
  then have "ll_read_handover (sy_node (read_move t k c p s)) = ll_read_handover (sy_node s)"
    by (cases p) (auto simp: served_def ll_block_defs split: option.splits)
  moreover have "ll_unique_read_key (sy_node s) = Some l \<Longrightarrow>
      ll_unique_read_key (sy_node (read_move t k c p s)) = Some l"
    using \<open>\<not> served p\<close> by (cases p) (auto simp: served_def ll_block_defs split: option.splits)
  ultimately show ?thesis
    using ok may_read_grows [OF read_move_grows, of s l _ t k c p] by (cases "th_pc (sy_thr s u)") auto
qed

lemma read_move_self:
  assumes d: "deleg s" and oper: "th_op (sy_thr s t) = ORead k c" and pc: "th_pc (sy_thr s t) = p"
  shows "reader_ok (read_move t k c p s) k (th_pc (sy_thr (read_move t k c p s) t))"
proof -
  have ok: "reader_ok s k p" using d oper pc by (auto simp: deleg_def)
  show ?thesis
  proof (cases p)
    case (PRel x v)
    then have uk: "ll_unique_read_key (sy_node s) = Some k" using ok by simp
    show ?thesis
    proof (cases "ll_read_handover (sy_node s)")
      case True
      then have "sy_src s = Some k" using d uk by (auto simp: deleg_def)
      then have "may_read s k (ll_ret_value (sy_node s))" using d by (auto simp: deleg_def)
      with PRel uk True show ?thesis by (simp add: ll_block_defs)
    next
      case False
      with PRel ok show ?thesis by (simp add: ll_block_defs)
    qed
  qed (use ok remote_read_may_read [OF d, of k c] pc in \<open>auto simp: ll_block_defs split: option.splits\<close>)
qed

lemma deleg_read_move:
  assumes d: "deleg s" and "read_queue N s" and "N < 2 ^ 32" and "t < N"
    and oper: "th_op (sy_thr s t) = ORead k c" and pc: "th_pc (sy_thr s t) = p"
  shows "deleg (read_move t k c p s)"
proof -
  let ?s = "read_move t k c p s"
  have ok: "reader_ok s k p" using d oper pc by (auto simp: deleg_def)
  have "reader_ok ?s l (th_pc (sy_thr ?s u))" if "th_op (sy_thr ?s u) = ORead l d" for u l d
  proof (cases "u = t")
    case True
    with that oper read_move_self [OF d oper pc] show ?thesis by (simp add: read_move_op)
  next
    case False
    with that have "th_op (sy_thr s u) = ORead l d" by (simp add: read_move_op)
    with read_move_others [OF assms(2-4) oper pc False this] d False show ?thesis
      by (auto simp: read_move_thr deleg_def)
  qed
  moreover have "\<forall>k v. sy_mem ?s k = Some v \<longrightarrow> (k, v) \<in> sy_hist ?s"
    using d by (cases p) (auto simp: deleg_def ll_block_defs split: option.splits)
  moreover have "ll_read_handover (sy_node ?s) \<longrightarrow>
      sy_src ?s \<noteq> None \<and> ll_unique_read_key (sy_node ?s) = sy_src ?s"
    using d ok by (cases p) (auto simp: deleg_def ll_block_defs split: option.splits)
  moreover have "may_read ?s l (ll_ret_value (sy_node ?s))" if "sy_src ?s = Some l" for l
  proof (cases "\<exists>x v. p = PRel x v")
    case True
    with that d ok show ?thesis by (auto simp: deleg_def ll_block_defs split: if_splits)
  next
    case False
    then have "sy_src ?s = sy_src s" "ll_ret_value (sy_node ?s) = ll_ret_value (sy_node s)"
      by (cases p; auto simp: ll_block_defs split: option.splits)+
    with that d show ?thesis
      by (auto simp: deleg_def intro: may_read_grows [OF read_move_grows])
  qed
  ultimately show ?thesis by (simp add: deleg_def)
qed

text \<open>A state with the same read side and longer histories.\<close>

lemma deleg_frame:
  assumes d: "deleg s" and frame: "ll_read_handover (sy_node s') = ll_read_handover (sy_node s)"
    "ll_unique_read_key (sy_node s') = ll_unique_read_key (sy_node s)"
    "ll_ret_value (sy_node s') = ll_ret_value (sy_node s)" "sy_src s' = sy_src s"
    and g: "grows s s'" and mem: "\<And>k v. sy_mem s' k = Some v \<Longrightarrow> (k, v) \<in> sy_hist s'"
    and thr: "\<And>u l d. th_op (sy_thr s' u) = ORead l d \<Longrightarrow>
      th_pc (sy_thr s' u) = PStart \<or> sy_thr s' u = sy_thr s u"
  shows "deleg s'"
proof -
  have "reader_ok s' l (th_pc (sy_thr s' u))" if op: "th_op (sy_thr s' u) = ORead l d" for u l d
  proof (cases "th_pc (sy_thr s' u) = PStart")
    case False
    then have "sy_thr s' u = sy_thr s u" using thr op by blast
    moreover have "reader_ok s l (th_pc (sy_thr s u))"
      using d op calculation by (auto simp: deleg_def)
    ultimately show ?thesis using frame may_read_grows [OF g]
      by (cases "th_pc (sy_thr s u)") auto
  qed simp
  then show ?thesis using d frame mem may_read_grows [OF g] by (auto simp: deleg_def)
qed

lemma deleg_write_move:
  assumes d: "deleg s" and oper: "th_op (sy_thr s t) = OWrite k v" and pc: "th_pc (sy_thr s t) = p"
  shows "deleg (write_move t k v p s)"
proof (rule deleg_frame [OF d _ _ _ _ write_move_grows])
  let ?s = "write_move t k v p s"
  show "ll_read_handover (sy_node ?s) = ll_read_handover (sy_node s)"
    "ll_unique_read_key (sy_node ?s) = ll_unique_read_key (sy_node s)"
    "ll_ret_value (sy_node ?s) = ll_ret_value (sy_node s)" "sy_src ?s = sy_src s"
    by (cases p; auto simp: ll_block_defs split: option.splits)+
  show "(l, x) \<in> sy_hist ?s" if "sy_mem ?s l = Some x" for l x
    using that d by (cases p) (auto simp: deleg_def ll_block_defs split: option.splits if_splits)
  show "th_pc (sy_thr ?s u) = PStart \<or> sy_thr ?s u = sy_thr s u"
    if "th_op (sy_thr ?s u) = ORead l d" for u l d
    by (rule disjI2, rule write_move_thr) (use that oper in \<open>auto simp: write_move_op\<close>)
qed

lemma reachable_deleg:
  assumes "ll_reachable N s" and "N < 2 ^ 32"
  shows "deleg s"
  using assms(1)
proof induction
  case (init r w b m)
  then show ?case by (simp add: deleg_def ll_init_def new_LocalLockNode_def)
next
  case (step s s')
  note queues = reachable_queues [OF step.hyps(1) assms(2)]
  have mem: "sy_mem s k = Some v \<Longrightarrow> (k, v) \<in> sy_hist s" for k v
    using step.IH by (simp add: deleg_def)
  from step.hyps(2) show ?case
  proof cases
    case (move t)
    then show ?thesis
      using step.IH queues assms(2) deleg_read_move [of s N t _ _ "th_pc (sy_thr s t)"]
        deleg_write_move [of s t _ _ "th_pc (sy_thr s t)"]
      by (auto simp: ll_move_def split: ll_op.split)
  next
    case (again t)
    show ?thesis unfolding again
      by (rule combine_again_cases [of t s]; rule deleg_frame [OF step.IH])
        (use mem in \<open>auto simp: grows_def\<close>)
  next
    case (start t oper)
    show ?thesis unfolding start
      by (rule deleg_frame [OF step.IH]) (use mem in \<open>auto simp: grows_def ll_start_def\<close>)
  next
    case (other k v)
    show ?thesis unfolding other
      by (rule deleg_frame [OF step.IH]) (use mem in \<open>auto simp: grows_def split: if_splits\<close>)
  next
    case (clash f)
    show ?thesis unfolding clash
      by (rule deleg_frame [OF step.IH]) (use mem in \<open>auto simp: grows_def\<close>)
  qed
qed

text \<open>A key that the memory holds at the start is never missed.\<close>

definition no_miss :: "(KeyType \<rightharpoonup> ValueType) \<Rightarrow> ll_sys \<Rightarrow> bool" where
  "no_miss m s \<longleftrightarrow> dom m \<subseteq> dom (sy_mem s) \<and> (\<forall>(k, v) \<in> sy_miss s. m k = None)"

lemma no_miss_read_move: "no_miss m s \<Longrightarrow> no_miss m (read_move t k c p s)"
  by (cases p) (auto simp: no_miss_def ll_block_defs remote_read_def split: option.splits)

lemma no_miss_write_move: "no_miss m s \<Longrightarrow> no_miss m (write_move t k v p s)"
  by (cases p) (auto simp: no_miss_def ll_block_defs split: option.splits)

lemma no_miss_step: "ll_step N s s' \<Longrightarrow> no_miss m s \<Longrightarrow> no_miss m s'"
proof (induction rule: ll_step.induct)
  case (move t s)
  then show ?case
    by (auto simp: ll_move_def intro: no_miss_read_move no_miss_write_move split: ll_op.split)
next
  case (again t s)
  then show ?case by (cases rule: combine_again_cases [of t s]) (auto simp: no_miss_def)
qed (auto simp: no_miss_def ll_start_def)

lemma no_miss_steps: "(ll_step N)\<^sup>*\<^sup>* (ll_init n m) s \<Longrightarrow> no_miss m s"
proof (induction rule: rtranclp_induct)
  case base
  then show ?case by (simp add: no_miss_def ll_init_def)
qed (rule no_miss_step)

section \<open>Executions\<close>

fun ll_moves :: "nat list \<Rightarrow> ll_sys \<Rightarrow> ll_sys" where
  "ll_moves [] s = s"
| "ll_moves (t # ts) s = ll_moves ts (ll_move t s)"

lemma ll_moves_steps: "list_all (\<lambda>t. t < N) ts \<Longrightarrow> (ll_step N)\<^sup>*\<^sup>* s (ll_moves ts s)"
  by (induction ts arbitrary: s) (auto intro: ll_step.move converse_rtranclp_into_rtranclp)

lemma ll_reachable_steps: "(ll_step N)\<^sup>*\<^sup>* s s' \<Longrightarrow> ll_reachable N s \<Longrightarrow> ll_reachable N s'"
  by (induction rule: rtranclp_induct) (auto intro: ll_reachable.step)

lemma ll_reachable_moves:
  "ll_reachable N s \<Longrightarrow> list_all (\<lambda>t. t < N) ts \<Longrightarrow> ll_reachable N (ll_moves ts s)"
  using ll_moves_steps ll_reachable_steps by blast

lemma ll_reachable_start:
  "ll_reachable N s \<Longrightarrow> t < N \<Longrightarrow> is_done (th_pc (sy_thr s t)) \<Longrightarrow> ll_reachable N (ll_start t oper s)"
  by (blast intro: ll_reachable.step ll_step.start)

lemmas ll_exec = ll_init_def new_LocalLockNode_def ll_start_def ll_move_def set_pc_def set_node_def
  set_mem_def ll_block_defs read_window_dec_def write_window_dec_def ticket_dist_def
  get_combining_value_def remote_read_def is_done_def read_full_def MAX_HOCL_HANDOVER_def

section \<open>Properties\<close>

text \<open>
  The contract of a queue lock: the threads with a ticket form a queue without repetition, the
  first has the ticket now served, and only the first can be in the critical section.
\<close>

definition queue_lock :: "(nat \<rightharpoonup> u32) \<Rightarrow> u32 \<Rightarrow> (nat \<Rightarrow> bool) \<Rightarrow> bool" where
  "queue_lock tk cur crit \<longleftrightarrow>
     (\<exists>q. distinct q \<and> set q = dom tk \<and> (q \<noteq> [] \<longrightarrow> tk (hd q) = Some cur) \<and>
          (\<forall>t. crit t \<longrightarrow> q \<noteq> [] \<and> t = hd q))"

lemma queue_inv_queue_lock:
  assumes inv: "queue_inv N cur tick tk" and "N < 2 ^ 32" and P: "\<And>t. crit t \<Longrightarrow> tk t = Some cur"
  shows "queue_lock tk cur crit"
proof -
  obtain q where q: "ticket_queue cur tick tk q" "set q \<subseteq> {..<N}"
    using inv by (auto simp: queue_inv_def)
  have hd: "tk (hd q) = Some cur" if "q \<noteq> []"
  proof -
    have "0 < length q" using that by simp
    then have "tk (q ! 0) = Some (cur + of_nat 0)" using q(1) unfolding ticket_queue_def by blast
    with that show ?thesis by (simp add: hd_conv_nth)
  qed
  have "q \<noteq> [] \<and> t = hd q" if "crit t" for t
  proof -
    have "t \<in> set q" using q(1) P [OF that] by (metis domI ticket_queue_def)
    then have "q \<noteq> []" by auto
    with queue_inv_inject [OF inv assms(2) P [OF that] hd] show ?thesis by simp
  qed
  with q hd show ?thesis unfolding queue_lock_def ticket_queue_def by metis
qed

definition reading :: "ll_sys \<Rightarrow> nat \<Rightarrow> bool" where
  "reading s t \<longleftrightarrow> is_read (th_op (sy_thr s t)) \<and> served (th_pc (sy_thr s t))"

definition writing :: "ll_sys \<Rightarrow> nat \<Rightarrow> bool" where
  "writing s t \<longleftrightarrow> \<not> is_read (th_op (sy_thr s t)) \<and> served (th_pc (sy_thr s t))"

text \<open>
  C33: the local locks are queue locks. With fewer than \<open>2 ^ 32\<close> threads, in every reachable state
  the readers that hold a ticket form a queue without repetition whose first member has the
  ticket now served (so somebody can always go on), and only the first member can be past the
  waiting loop (so no two readers are in the critical section); likewise for the writers. The
  wrap-around of the 32-bit counters does not break this.
\<close>

theorem local_lock_refines_queue:
  assumes "ll_reachable N s" and "N < 2 ^ 32"
  shows "queue_lock (rtk s) (ll_read_current (sy_node s)) (reading s) \<and>
         queue_lock (wtk s) (ll_write_current (sy_node s)) (writing s)"
proof -
  have r: "read_queue N s" and w: "write_queue N s" using reachable_queues [OF assms] by simp_all
  have "queue_lock (rtk s) (ll_read_current (sy_node s)) (reading s)"
    by (rule queue_inv_queue_lock [OF conjunct1 [OF r [unfolded read_queue_def]] assms(2)])
      (use r in \<open>simp add: read_queue_def reading_def\<close>)
  moreover have "queue_lock (wtk s) (ll_write_current (sy_node s)) (writing s)"
    by (rule queue_inv_queue_lock [OF conjunct1 [OF w [unfolded write_queue_def]] assms(2)])
      (use w in \<open>simp add: write_queue_def writing_def\<close>)
  ultimately show ?thesis by simp
qed

text \<open>Two readers of one key wait, the first is served.\<close>

definition example_sys :: ll_sys where
  "example_sys = ll_moves [0, 0, 0, 0, 1, 1, 1, 1] (ll_start 1 (ORead KeyNull 0) (ll_start 0 (ORead KeyNull 0)
     (ll_init (new_LocalLockNode False 0 0) (\<lambda>_. Some 7))))"

lemma example_sys_reachable: "ll_reachable 2 example_sys"
  unfolding example_sys_def
  by (intro ll_reachable_moves ll_reachable_start ll_reachable.init) (simp_all add: ll_exec)

theorem local_lock_refines_queue_witness:
  "ll_reachable 2 example_sys \<and> (2::nat) < 2 ^ 32 \<and> rtk example_sys 1 \<noteq> None \<and>
   reading example_sys 0 \<and>
   queue_lock (rtk example_sys) (ll_read_current (sy_node example_sys)) (reading example_sys)"
proof (intro conjI)
  show "rtk example_sys 1 \<noteq> None" "reading example_sys 0"
    by (simp_all add: example_sys_def ll_exec rtk_def served_def reading_def)
  show "queue_lock (rtk example_sys) (ll_read_current (sy_node example_sys)) (reading example_sys)"
    using local_lock_refines_queue [OF example_sys_reachable] by simp
qed (simp_all add: example_sys_reachable)

text \<open>
  C34: read delegation never mixes up keys. Whether a reader did the remote read itself or took
  over the result of another thread, the value that its variable holds at the end is one that the
  remote memory held for its key at some time of the execution, or else the key was absent at the
  start, some reader of that same key looked it up and did not find it, and the value is what that
  reader had in its variable when it was called, or \<open>ValueNull\<close> (a miss leaves the variable of the
  caller unchanged or sets it to null, and this value is handed on to the delegated readers).
\<close>

theorem delegated_read_valid:
  assumes "(ll_step N)\<^sup>*\<^sup>* (ll_init (new_LocalLockNode r w b) m) s" and "N < 2 ^ 32"
    and "th_op (sy_thr s t) = ORead k c" and "th_pc (sy_thr s t) = PDone v"
  shows "(k, v) \<in> sy_hist s \<or>
           m k = None \<and> (\<exists>c'. (k, c') \<in> sy_miss s \<and> (v = c' \<or> v = ValueNull))"
proof -
  have "ll_reachable N s" using ll_reachable_steps [OF assms(1) ll_reachable.init] .
  then have "may_read s k v"
    using reachable_deleg [OF _ assms(2)] assms(3,4) unfolding deleg_def by (metis reader_ok.simps(15))
  then show ?thesis using no_miss_steps [OF assms(1)] by (auto simp: may_read_def no_miss_def)
qed

text \<open>
  The second reader takes over the value 5 that the first one had in its variable, since the key
  is absent, while its own variable holds 3.
\<close>

definition example_start :: ll_sys where
  "example_start = ll_init (new_LocalLockNode False 0 0) Map.empty"

definition example_handover :: ll_sys where
  "example_handover = ll_moves [0, 0, 0, 0, 1, 1, 1, 1, 0, 0, 0, 0, 0, 1, 1, 1, 1, 1, 1]
     (ll_start 1 (ORead KeyNull 3) (ll_start 0 (ORead KeyNull 5) example_start))"

lemma example_handover_steps: "(ll_step 2)\<^sup>*\<^sup>* example_start example_handover"
proof -
  have "ll_step 2 example_start (ll_start 0 (ORead KeyNull 5) example_start)"
    by (rule ll_step.start) (simp_all add: example_start_def ll_exec)
  moreover have "ll_step 2 (ll_start 0 (ORead KeyNull 5) example_start)
      (ll_start 1 (ORead KeyNull 3) (ll_start 0 (ORead KeyNull 5) example_start))"
    by (rule ll_step.start) (simp_all add: example_start_def ll_exec)
  moreover have "(ll_step 2)\<^sup>*\<^sup>* (ll_start 1 (ORead KeyNull 3) (ll_start 0 (ORead KeyNull 5) example_start))
      example_handover"
    unfolding example_handover_def by (rule ll_moves_steps) simp
  ultimately show ?thesis by (meson converse_rtranclp_into_rtranclp)
qed

theorem delegated_read_valid_witness:
  "(ll_step 2)\<^sup>*\<^sup>* (ll_init (new_LocalLockNode False 0 0) Map.empty) example_handover \<and> (2::nat) < 2 ^ 32 \<and>
   th_op (sy_thr example_handover 1) = ORead KeyNull 3 \<and>
   th_pc (sy_thr example_handover 1) = PDone 5 \<and>
   ((KeyNull, 5) \<in> sy_hist example_handover \<or>
    (\<exists>c'. (KeyNull, c') \<in> sy_miss example_handover \<and> (5 = c' \<or> 5 = ValueNull)))"
proof -
  have R: "(ll_step 2)\<^sup>*\<^sup>* (ll_init (new_LocalLockNode False 0 0) Map.empty) example_handover"
    using example_handover_steps by (simp add: example_start_def)
  have "th_op (sy_thr example_handover 1) = ORead KeyNull 3"
    "th_pc (sy_thr example_handover 1) = PDone 5"
    by (simp_all add: example_handover_def example_start_def ll_exec)
  with R delegated_read_valid [OF R, of 1 KeyNull 3 5] show ?thesis by simp
qed



text \<open>
  C37: the key that a failed compare-and-swap returned can be freed before it is compared: two
  writers reach the state in which the second one reads the key that the first one deleted.
\<close>

theorem lock_key_use_after_free:
  "\<exists>s. ll_reachable 2 s \<and> th_op (sy_thr s 1) = OWrite k v \<and> th_pc (sy_thr s 1) = PFault"
proof -
  define s where "s = ll_moves [0, 0, 0, 0, 0, 1, 0, 0, 0, 0, 0, 1]
    (ll_start 1 (OWrite k v) (ll_start 0 (OWrite k v) (ll_init (new_LocalLockNode False 0 0) (\<lambda>_. Some v))))"
  have "ll_reachable 2 s"
    unfolding s_def by (intro ll_reachable_moves ll_reachable_start ll_reachable.init) (simp_all add: ll_exec)
  moreover have "th_op (sy_thr s 1) = OWrite k v" "th_pc (sy_thr s 1) = PFault"
    by (simp_all add: s_def ll_exec)
  ultimately show ?thesis by blast
qed

end
