(* ===== verification/DMCache.thy ===== *)
theory DMCache
  imports InnerNode LeafNode
begin

text \<open>
  Model of \<open>DMTree/src/DMCache.cc\<close> and \<open>DMTree/include/DMCache.h\<close>: the client's cache of bottom inner
  nodes. The cached copies live in numbered buffers; a pool holds the free ones and a first-in
  first-out queue the candidates for eviction. The skip list that maps keys to entries is used
  through its contract only: an ordered list of entries (greatest key first, as the comparator
  says), in which \<open>Seek\<close> finds the entry with the greatest key that is at most the given one and
  \<open>InsertConcurrently\<close> refuses a key that is present. Operations run one at a time, so that the
  compare-and-swaps succeed and a queue that is empty stays empty.
\<close>

record CacheEntry =
  ce_key :: KeyType
  ce_node :: "nat option"
  ce_remote_addr :: Gaddr

record DMCache =
  dc_skiplist :: "CacheEntry list"
  dc_buf :: "nat \<Rightarrow> InnerNode"
  dc_all_node_num :: int
  dc_skipList_count :: int
  dc_free_node_count :: int
  dc_cache_pool :: "nat list"
  dc_fifo_evict_pool :: "nat list"

definition InnerNodeSize :: nat where
  [dm_sizes]: "InnerNodeSize = (2 * 24 + 8 + 4) + 32 * (8 + 24 + 8 + 8 + 4) + 12 + 8 + 8"

definition sizeof_CacheEntry :: nat where [dm_sizes]: "sizeof_CacheEntry = 24 + 8 + 8"

text \<open>The constructor; \<open>buf\<close> is what the allocated memory holds.\<close>

definition new_DMCache :: "(nat \<Rightarrow> InnerNode) \<Rightarrow> DMCache result" where
  "new_DMCache buf =
     (let n = (kInnerCacheSize * MB) div (InnerNodeSize + sizeof_CacheEntry) in
      res_bind (res_assert ''all_node_num > 0'' (0 < n)) (\<lambda>_.
      Inr \<lparr>dc_skiplist = [], dc_buf = buf, dc_all_node_num = int n, dc_skipList_count = 0,
           dc_free_node_count = int n - 1, dc_cache_pool = [0..<n - 1], dc_fifo_evict_pool = []\<rparr>))"

section \<open>The ordered list of entries\<close>

fun seek :: "KeyType \<Rightarrow> CacheEntry list \<Rightarrow> CacheEntry option" where
  "seek k [] = None"
| "seek k (e # es) = (if ce_key e \<le> k then Some e else seek k es)"

fun insert_entry :: "CacheEntry \<Rightarrow> CacheEntry list \<Rightarrow> CacheEntry list" where
  "insert_entry x [] = [x]"
| "insert_entry x (e # es) = (if ce_key e < ce_key x then x # e # es else e # insert_entry x es)"

text \<open>Storing \<open>p\<close> through the pointer to the entry that \<open>seek\<close> returned.\<close>

definition set_entry_node :: "KeyType \<Rightarrow> nat option \<Rightarrow> CacheEntry list \<Rightarrow> CacheEntry list" where
  "set_entry_node k p = map (\<lambda>e. if ce_key e = k then e\<lparr>ce_node := p\<rparr> else e)"

section \<open>Operations\<close>

definition evict_one :: "DMCache \<Rightarrow> (nat option \<times> DMCache) result" where
  "evict_one c =
     (case dc_fifo_evict_pool c of
        [] \<Rightarrow> Inl (AssertFail ''retry_count++ < skipList_count'')
      | x # xs \<Rightarrow>
          (let c1 = c\<lparr>dc_fifo_evict_pool := xs\<rparr>;
               evict_key = ih_min_key (in_hdr (dc_buf c1 x))
           in case seek evict_key (dc_skiplist c1) of
                None \<Rightarrow> Inl (AssertFail ''0'')
              | Some e \<Rightarrow>
                  (case ce_node e of
                     None \<Rightarrow> Inr (None, c1)
                   | Some p \<Rightarrow>
                       Inr (Some p, c1\<lparr>dc_skiplist := set_entry_node (ce_key e) None (dc_skiplist c1),
                                       dc_free_node_count := dc_free_node_count c1 + 1\<rparr>))))"

lemma evict_one_count: "evict_one c = Inr (a, c') \<Longrightarrow> dc_skipList_count c' = dc_skipList_count c"
  by (auto simp: evict_one_def Let_def split: list.splits option.splits)

text \<open>The loop \<open>while(alloc_node == nullptr)\<close>, with \<open>retry_count\<close> as its first argument.\<close>

function evict_retry :: "nat \<Rightarrow> nat option \<times> DMCache \<Rightarrow> (nat \<times> DMCache) result" where
  "evict_retry r (Some p, c) = Inr (p, c)"
| "evict_retry r (None, c) =
     (case evict_one c of
        Inl e \<Rightarrow> Inl e
      | Inr (a, c') \<Rightarrow>
          (if int r < dc_skipList_count c then evict_retry (Suc r) (a, c')
           else Inl (AssertFail ''retry_count++ < skipList_count'')))"
  by pat_completeness auto

termination evict_retry
  by (relation "measure (\<lambda>(r, _, c). nat (dc_skipList_count c) - r)") (auto dest: evict_one_count)

definition alloc_node_cache :: "DMCache \<Rightarrow> (nat \<times> DMCache) result" where
  "alloc_node_cache c =
     (let v = dc_free_node_count c; c1 = c\<lparr>dc_free_node_count := v - 1\<rparr> in
      if v \<le> 0 then res_bind (evict_one c1) (evict_retry 0)
      else (case dc_cache_pool c1 of
              [] \<Rightarrow> Inl (AssertFail ''retry_count++ < skipList_count'')
            | x # xs \<Rightarrow> Inr (x, c1\<lparr>dc_cache_pool := xs\<rparr>)))"

definition insert_cache :: "Record \<Rightarrow> InnerNode \<Rightarrow> DMCache \<Rightarrow> (bool \<times> DMCache) result" where
  "insert_cache record node c =
     res_bind (alloc_node_cache c) (\<lambda>(p, c1).
     let c2 = c1\<lparr>dc_buf := (dc_buf c1)(p := node)\<rparr> in
     if rc_key record \<notin> ce_key ` set (dc_skiplist c2)
     then Inr (True, c2\<lparr>dc_skiplist := insert_entry \<lparr>ce_key = rc_key record, ce_node = Some p,
                                         ce_remote_addr = rc_addr record\<rparr> (dc_skiplist c2),
                        dc_skipList_count := dc_skipList_count c2 + 1,
                        dc_fifo_evict_pool := dc_fifo_evict_pool c2 @ [p]\<rparr>)
     else (case seek (rc_key record) (dc_skiplist c2) of
             Some e \<Rightarrow>
               (if ce_key e = rc_key record
                then if ce_node e = None
                     then Inr (True, c2\<lparr>dc_skiplist := set_entry_node (ce_key e) (Some p) (dc_skiplist c2),
                                        dc_fifo_evict_pool := dc_fifo_evict_pool c2 @ [p]\<rparr>)
                     else Inr (False, c2\<lparr>dc_free_node_count := dc_free_node_count c2 + 1,
                                         dc_cache_pool := dc_cache_pool c2 @ [p]\<rparr>)
                else Inr (False, c2))
           | None \<Rightarrow> Inr (False, c2)))"

definition invalidate :: "KeyType \<Rightarrow> DMCache \<Rightarrow> nat option \<times> DMCache" where
  "invalidate k c =
     (case seek k (dc_skiplist c) of
        None \<Rightarrow> (None, c)
      | Some e \<Rightarrow>
          (case ce_node e of
             None \<Rightarrow> (None, c)
           | Some p \<Rightarrow>
               (Some p, c\<lparr>dc_skiplist := set_entry_node (ce_key e) None (dc_skiplist c),
                          dc_free_node_count := dc_free_node_count c + 1,
                          dc_cache_pool := dc_cache_pool c @ [p]\<rparr>)))"

text \<open>
  \<open>search_cache\<close>: the record found (its address null when the cache does not help), the path of two
  records if it was set, and the cache. The fingerprint address of the upper record is
  uninitialised and never read; it is null here.
\<close>

definition search_cache ::
  "(u8 list \<Rightarrow> u32) \<Rightarrow> KeyType \<Rightarrow> Record \<Rightarrow> Record list \<Rightarrow> DMCache \<Rightarrow>
     (Record \<times> Record list \<times> DMCache) result" where
  "search_cache city key inner_record path c =
     (case seek key (dc_skiplist c) of
        None \<Rightarrow> Inr (inner_record\<lparr>rc_addr := Gaddr_Null\<rparr>, path, c)
      | Some re \<Rightarrow>
          (case ce_node re of
             None \<Rightarrow> Inr (inner_record\<lparr>rc_addr := Gaddr_Null\<rparr>, path, c)
           | Some p \<Rightarrow>
               (let node = dc_buf c p in
                res_bind (inner_find key node) (\<lambda>(rec, next_is_leaf).
                let bad = (rc_capacity rec = 0 \<or> \<not> check_hdr key node \<or>
                           \<not> inner_check_consistent city node \<or> \<not> next_is_leaf);
                    c1 = (if bad then snd (invalidate key c) else c);
                    rec1 = (if bad then rec\<lparr>rc_addr := Gaddr_Null\<rparr> else rec);
                    upper = record_zero\<lparr>rc_valid := 1, rc_key := ih_min_key (in_hdr node),
                                        rc_addr := ce_remote_addr re\<rparr>
                in Inr (rec1, [upper, copy_Record rec1], c1)))))"

text \<open>
  \<open>cache_used() > 0.99\<close>; with fewer than \<open>2 ^ 40\<close> nodes the comparison of the rounded quotient agrees
  with the exact one.
\<close>

definition cache_used_over :: "DMCache \<Rightarrow> bool" where
  "cache_used_over c \<longleftrightarrow> 100 * (dc_all_node_num c - dc_free_node_count c) > 99 * dc_all_node_num c"

definition adapt_capacity :: "nat \<Rightarrow> DMCache \<Rightarrow> nat" where
  "adapt_capacity ori_capacity c =
     (if cache_used_over c then min MaxNodeCapacity (ori_capacity * 2) else ori_capacity)"

section \<open>Invariant\<close>

definition live :: "DMCache \<Rightarrow> nat set" where
  "live c = {p. \<exists>e \<in> set (dc_skiplist c). ce_node e = Some p}"

text \<open>
  Every buffer is either free or used by exactly one entry; the entry's key is the least key of
  the copy; every buffer in use is a candidate for eviction; the counters are exact.
\<close>

definition cache_wf :: "nat set \<Rightarrow> DMCache \<Rightarrow> bool" where
  "cache_wf out c \<longleftrightarrow>
     sorted_wrt (>) (map ce_key (dc_skiplist c)) \<and>
     dc_skipList_count c = int (length (dc_skiplist c)) \<and>
     distinct (dc_cache_pool c) \<and> set (dc_cache_pool c) \<inter> live c = {} \<and>
     set (dc_cache_pool c) \<union> live c = {..<nat (dc_all_node_num c) - 1} - out \<and>
     dc_free_node_count c = int (length (dc_cache_pool c)) \<and>
     (\<forall>e \<in> set (dc_skiplist c). \<forall>p. ce_node e = Some p \<longrightarrow> ih_min_key (in_hdr (dc_buf c p)) = ce_key e) \<and>
     live c \<subseteq> set (dc_fifo_evict_pool c) \<and> set (dc_fifo_evict_pool c) \<subseteq> {..<nat (dc_all_node_num c) - 1}"

text \<open>\<open>out\<close> are the buffers an operation in progress has in hand; between operations there are none.\<close>

definition cache_inv :: "DMCache \<Rightarrow> bool" where
  "cache_inv c \<longleftrightarrow> cache_wf {} c \<and> 2 \<le> dc_all_node_num c"

lemmas cache_inv_wf = cache_inv_def cache_wf_def

lemma seek_Some:
  assumes "sorted_wrt (>) (map ce_key es)"
  shows "seek k es = Some e \<longleftrightarrow>
     e \<in> set es \<and> ce_key e \<le> k \<and> (\<forall>x \<in> set es. ce_key x \<le> k \<longrightarrow> ce_key x \<le> ce_key e)"
  using assms
proof (induction es)
  case Nil
  then show ?case by simp
next
  case (Cons a es)
  have below: "ce_key x < ce_key a" if "x \<in> set es" for x using Cons.prems that by simp
  show ?case
  proof (cases "ce_key a \<le> k")
    case True
    have "e = a" if "e \<in> set (a # es)" "ce_key a \<le> ce_key e"
      using that below [of e] by (metis leD set_ConsD)
    moreover have "ce_key x \<le> ce_key a" if "x \<in> set (a # es)" for x
      using that below [of x] by auto
    ultimately show ?thesis using True by (auto simp del: set_simps) (simp_all)
  next
    case False
    with Cons show ?thesis by auto
  qed
qed

lemma seek_None: "seek k es = None \<longleftrightarrow> (\<forall>x \<in> set es. k < ce_key x)"
  by (induction es) (auto simp: not_le)

lemma sorted_keys_inject:
  assumes "sorted_wrt (>) (map ce_key es)" and "x \<in> set es" and "y \<in> set es" and "ce_key x = ce_key y"
  shows "x = y"
proof -
  have "distinct (map ce_key es)"
    using assms(1) by (induction es) auto
  with assms(2-4) show ?thesis by (auto simp: distinct_map inj_on_def)
qed

lemma seek_own_key:
  assumes "sorted_wrt (>) (map ce_key es)" and "e \<in> set es"
  shows "seek (ce_key e) es = Some e"
  using assms by (simp add: seek_Some)

lemma set_entry_node_keys [simp]:
  "map ce_key (set_entry_node k p es) = map ce_key es" "length (set_entry_node k p es) = length es"
  by (simp_all add: set_entry_node_def)

lemma set_set_entry_node:
  "set (set_entry_node k p es) = (\<lambda>e. if ce_key e = k then e\<lparr>ce_node := p\<rparr> else e) ` set es"
  by (simp add: set_entry_node_def)

lemma insert_entry_set [simp]: "set (insert_entry x es) = insert x (set es)"
  by (induction es) auto

lemma insert_entry_length [simp]: "length (insert_entry x es) = Suc (length es)"
  by (induction es) auto

lemma insert_entry_sorted:
  "sorted_wrt (>) (map ce_key es) \<Longrightarrow> ce_key x \<notin> ce_key ` set es \<Longrightarrow>
     sorted_wrt (>) (map ce_key (insert_entry x es))"
  by (induction es) (auto simp: not_less order.order_iff_strict)

text \<open>Taking the buffer of an entry away.\<close>

lemma live_clear:
  assumes "sorted_wrt (>) (map ce_key (dc_skiplist c))" and "e \<in> set (dc_skiplist c)" and "ce_node e = Some p"
    and "\<forall>e \<in> set (dc_skiplist c). \<forall>p. ce_node e = Some p \<longrightarrow> ih_min_key (in_hdr (dc_buf c p)) = ce_key e"
  shows "{q. \<exists>e \<in> set (set_entry_node (ce_key e) None (dc_skiplist c)). ce_node e = Some q} = live c - {p}"
proof -
  have same: "x = e" if "x \<in> set (dc_skiplist c)" "ce_key x = ce_key e" for x
    using sorted_keys_inject [OF assms(1) that(1) assms(2) that(2)] .
  have own: "x = e" if "x \<in> set (dc_skiplist c)" "ce_node x = Some p" for x
  proof -
    have "ih_min_key (in_hdr (dc_buf c p)) = ce_key x" using assms(4) that by blast
    moreover have "ih_min_key (in_hdr (dc_buf c p)) = ce_key e" using assms(2-4) by blast
    ultimately show ?thesis using same that(1) by simp
  qed
  show ?thesis
  proof (intro set_eqI iffI)
    fix q
    assume "q \<in> {q. \<exists>x \<in> set (set_entry_node (ce_key e) None (dc_skiplist c)). ce_node x = Some q}"
    then obtain x where x: "x \<in> set (dc_skiplist c)" "ce_key x \<noteq> ce_key e" "ce_node x = Some q"
      by (auto simp: set_set_entry_node split: if_splits)
    with own show "q \<in> live c - {p}" by (auto simp: live_def)
  next
    fix q
    assume "q \<in> live c - {p}"
    then obtain x where x: "x \<in> set (dc_skiplist c)" "ce_node x = Some q" "q \<noteq> p" by (auto simp: live_def)
    have "ce_key x \<noteq> ce_key e" using same [OF x(1)] x(2,3) assms(3) by auto
    with x show "q \<in> {q. \<exists>x \<in> set (set_entry_node (ce_key e) None (dc_skiplist c)). ce_node x = Some q}"
      by (auto simp: set_set_entry_node intro!: bexI [of _ x])
  qed
qed

lemma invalidate_inv:
  assumes inv: "cache_inv c"
  shows "cache_inv (snd (invalidate k c))"
proof (cases "seek k (dc_skiplist c)")
  case None
  with inv show ?thesis by (simp add: invalidate_def)
next
  case (Some e)
  have srt: "sorted_wrt (>) (map ce_key (dc_skiplist c))" using inv by (simp add: cache_inv_wf)
  have e: "e \<in> set (dc_skiplist c)" using Some seek_Some [OF srt] by simp
  show ?thesis
  proof (cases "ce_node e")
    case None
    with Some inv show ?thesis by (simp add: invalidate_def)
  next
    case p: (Some p)
    let ?c = "snd (invalidate k c)"
    have keyed: "\<forall>e \<in> set (dc_skiplist c). \<forall>p. ce_node e = Some p \<longrightarrow> ih_min_key (in_hdr (dc_buf c p)) = ce_key e"
      using inv by (simp add: cache_inv_wf)
    have eq: "?c = c\<lparr>dc_skiplist := set_entry_node (ce_key e) None (dc_skiplist c),
        dc_free_node_count := dc_free_node_count c + 1, dc_cache_pool := dc_cache_pool c @ [p]\<rparr>"
      using Some p by (simp add: invalidate_def)
    have lv: "live ?c = live c - {p}" using live_clear [OF srt e p keyed] by (simp add: eq live_def)
    have "p \<in> live c" using e p by (auto simp: live_def)
    moreover have "\<forall>e \<in> set (dc_skiplist ?c). \<forall>p. ce_node e = Some p \<longrightarrow> ih_min_key (in_hdr (dc_buf ?c p)) = ce_key e"
      using keyed by (auto simp: eq set_set_entry_node split: if_splits)
    ultimately show ?thesis using inv srt unfolding cache_inv_wf lv by (auto simp: eq)
  qed
qed

text \<open>
  What an operation may do to the entries: keep, or take the buffer away. Keys and remote
  addresses stay.
\<close>

definition shrinks :: "DMCache \<Rightarrow> DMCache \<Rightarrow> bool" where
  "shrinks c c' \<longleftrightarrow>
     map ce_key (dc_skiplist c') = map ce_key (dc_skiplist c) \<and> dc_buf c' = dc_buf c \<and>
     dc_all_node_num c' = dc_all_node_num c \<and>
     (\<forall>e' \<in> set (dc_skiplist c'). \<exists>e \<in> set (dc_skiplist c). ce_key e' = ce_key e \<and>
        ce_remote_addr e' = ce_remote_addr e \<and> (ce_node e' = None \<or> ce_node e' = ce_node e))"

lemma shrinks_refl: "dc_skiplist c' = dc_skiplist c \<Longrightarrow> dc_buf c' = dc_buf c \<Longrightarrow>
    dc_all_node_num c' = dc_all_node_num c \<Longrightarrow> shrinks c c'"
  by (auto simp: shrinks_def)

lemma shrinks_clear:
  assumes "dc_skiplist c' = set_entry_node k None (dc_skiplist c)" and "dc_buf c' = dc_buf c"
    and "dc_all_node_num c' = dc_all_node_num c"
  shows "shrinks c c'"
  using assms by (auto simp: shrinks_def set_set_entry_node)

lemma invalidate_shrinks: "shrinks c (snd (invalidate k c))"
proof (cases "seek k (dc_skiplist c)")
  case None
  then show ?thesis by (simp add: invalidate_def shrinks_refl)
next
  case (Some e)
  then show ?thesis
    by (cases "ce_node e") (auto simp: invalidate_def intro: shrinks_refl shrinks_clear)
qed

text \<open>With an empty pool every buffer is in use, so the first candidate can be evicted.\<close>

lemma evict_one_correct:
  assumes wf: "cache_wf {} (c\<lparr>dc_free_node_count := 0\<rparr>)" and pool: "dc_cache_pool c = []"
    and size: "2 \<le> dc_all_node_num c" and free: "dc_free_node_count c = -1"
  shows "\<exists>p c'. evict_one c = Inr (Some p, c') \<and> cache_wf {p} c' \<and> shrinks c c' \<and>
     p \<in> {..<nat (dc_all_node_num c) - 1}"
proof -
  let ?M = "{..<nat (dc_all_node_num c) - 1}"
  have srt: "sorted_wrt (>) (map ce_key (dc_skiplist c))" and cnt: "dc_skipList_count c = int (length (dc_skiplist c))"
    and lv: "live c = ?M" and fifo: "live c \<subseteq> set (dc_fifo_evict_pool c)" "set (dc_fifo_evict_pool c) \<subseteq> ?M"
    and keyed: "\<forall>e \<in> set (dc_skiplist c). \<forall>p. ce_node e = Some p \<longrightarrow> ih_min_key (in_hdr (dc_buf c p)) = ce_key e"
    using wf pool by (auto simp: cache_wf_def live_def)
  have "(0::nat) \<in> ?M" using size by (simp add: less_diff_conv)
  then have "0 \<in> set (dc_fifo_evict_pool c)" using lv fifo(1) by blast
  then obtain x xs where x: "dc_fifo_evict_pool c = x # xs" by (cases "dc_fifo_evict_pool c") auto
  then have "x \<in> live c" using lv fifo(2) by auto
  then obtain e where e: "e \<in> set (dc_skiplist c)" "ce_node e = Some x" by (auto simp: live_def)
  have key: "ih_min_key (in_hdr (dc_buf c x)) = ce_key e" using keyed e by blast
  let ?c = "c\<lparr>dc_fifo_evict_pool := xs, dc_skiplist := set_entry_node (ce_key e) None (dc_skiplist c),
    dc_free_node_count := dc_free_node_count c + 1\<rparr>"
  have ev: "evict_one c = Inr (Some x, ?c)"
    using x key e(2) seek_own_key [OF srt e(1)] by (simp add: evict_one_def)
  have lv': "live ?c = live c - {x}" using live_clear [OF srt e keyed] by (simp add: live_def)
  have keyed': "\<forall>e \<in> set (dc_skiplist ?c). \<forall>p. ce_node e = Some p \<longrightarrow> ih_min_key (in_hdr (dc_buf ?c p)) = ce_key e"
    using keyed by (auto simp: set_set_entry_node split: if_splits)
  have "cache_wf {x} ?c"
    unfolding cache_wf_def lv' using srt cnt lv fifo x pool free keyed' by auto
  moreover have "shrinks c ?c" by (rule shrinks_clear) simp_all
  moreover have "x \<in> ?M" using \<open>x \<in> live c\<close> lv by simp
  ultimately show ?thesis using ev by blast
qed

lemma alloc_node_cache_correct:
  assumes inv: "cache_inv c"
  shows "\<exists>p c'. alloc_node_cache c = Inr (p, c') \<and> cache_wf {p} c' \<and> shrinks c c' \<and>
     p \<in> {..<nat (dc_all_node_num c) - 1}"
proof (cases "dc_cache_pool c")
  case Nil
  let ?c = "c\<lparr>dc_free_node_count := -1\<rparr>"
  have z: "dc_free_node_count c = 0" using inv Nil by (simp add: cache_inv_wf)
  then have "c\<lparr>dc_free_node_count := 0\<rparr> = c" by simp
  with inv have "cache_wf {} (?c\<lparr>dc_free_node_count := 0\<rparr>)" by (simp add: cache_inv_def)
  from evict_one_correct [OF this] Nil inv obtain p c' where
    "evict_one ?c = Inr (Some p, c')" "cache_wf {p} c'" "shrinks ?c c'" "p \<in> {..<nat (dc_all_node_num c) - 1}"
    by (auto simp: cache_inv_def)
  moreover from this(3) have "shrinks c c'" by (simp add: shrinks_def)
  ultimately show ?thesis using z by (simp add: alloc_node_cache_def)
next
  case (Cons p ps)
  let ?c = "c\<lparr>dc_free_node_count := dc_free_node_count c - 1, dc_cache_pool := ps\<rparr>"
  have "alloc_node_cache c = Inr (p, ?c)" using inv Cons by (simp add: alloc_node_cache_def cache_inv_wf)
  moreover have "live ?c = live c" by (simp add: live_def)
  then have "cache_wf {p} ?c" using inv Cons unfolding cache_inv_wf by auto
  moreover have "shrinks c ?c" by (rule shrinks_refl) simp_all
  moreover have "p \<in> {..<nat (dc_all_node_num c) - 1}" using inv Cons by (auto simp: cache_inv_wf)
  ultimately show ?thesis by blast
qed

section \<open>Insertion\<close>

text \<open>
  The entries after an insertion: those of before, perhaps without their buffer, and the entry of
  the inserted node. An entry that was present keeps its remote address.
\<close>

definition extends :: "Record \<Rightarrow> InnerNode \<Rightarrow> DMCache \<Rightarrow> DMCache \<Rightarrow> bool" where
  "extends record node c c' \<longleftrightarrow>
     (\<forall>e' \<in> set (dc_skiplist c').
        (\<exists>e \<in> set (dc_skiplist c). ce_key e' = ce_key e \<and> ce_remote_addr e' = ce_remote_addr e) \<or>
        ce_key e' = rc_key record \<and> ce_remote_addr e' = rc_addr record) \<and>
     (\<forall>e' \<in> set (dc_skiplist c'). \<forall>p. ce_node e' = Some p \<longrightarrow>
        (\<exists>e \<in> set (dc_skiplist c). ce_key e' = ce_key e \<and> ce_node e = Some p \<and> dc_buf c' p = dc_buf c p) \<or>
        ce_key e' = rc_key record \<and> dc_buf c' p = node)"

lemma insert_fresh:
  assumes wf: "cache_wf {p} c1" and sh: "shrinks c c1" and p: "p \<in> {..<nat (dc_all_node_num c1) - 1}"
    and key: "ih_min_key (in_hdr node) = rc_key record" and new: "rc_key record \<notin> ce_key ` set (dc_skiplist c1)"
    and c': "c' = c1\<lparr>dc_buf := (dc_buf c1)(p := node),
      dc_skiplist := insert_entry \<lparr>ce_key = rc_key record, ce_node = Some p, ce_remote_addr = rc_addr record\<rparr> (dc_skiplist c1),
      dc_skipList_count := dc_skipList_count c1 + 1, dc_fifo_evict_pool := dc_fifo_evict_pool c1 @ [p]\<rparr>"
  shows "cache_wf {} c'" and "extends record node c c'"
proof -
  have lv: "live c' = insert p (live c1)" by (auto simp: c' live_def)
  have np: "p \<notin> live c1" using wf by (auto simp: cache_wf_def)
  have nq: "q \<noteq> p" if "e \<in> set (dc_skiplist c1)" "ce_node e = Some q" for e q
    using that np by (auto simp: live_def)
  have keyed: "\<forall>e \<in> set (dc_skiplist c'). \<forall>q. ce_node e = Some q \<longrightarrow> ih_min_key (in_hdr (dc_buf c' q)) = ce_key e"
    using wf key nq by (auto simp: c' cache_wf_def)
  have srt: "sorted_wrt (>) (map ce_key (dc_skiplist c'))"
    using insert_entry_sorted [of "dc_skiplist c1"] wf new by (simp add: c' cache_wf_def)
  show "cache_wf {} c'"
    unfolding cache_wf_def lv using wf p keyed srt by (auto simp: c' cache_wf_def)
  have old: "\<exists>e \<in> set (dc_skiplist c). ce_key e' = ce_key e \<and> ce_remote_addr e' = ce_remote_addr e \<and>
      (ce_node e' = None \<or> ce_node e' = ce_node e)" if "e' \<in> set (dc_skiplist c1)" for e'
    using sh that by (auto simp: shrinks_def)
  show "extends record node c c'"
    unfolding extends_def
  proof (intro conjI ballI allI impI)
    fix e' assume e': "e' \<in> set (dc_skiplist c')"
    then show "(\<exists>e \<in> set (dc_skiplist c). ce_key e' = ce_key e \<and> ce_remote_addr e' = ce_remote_addr e) \<or>
        ce_key e' = rc_key record \<and> ce_remote_addr e' = rc_addr record"
      using old by (auto simp: c')
    fix q assume q: "ce_node e' = Some q"
    show "(\<exists>e \<in> set (dc_skiplist c). ce_key e' = ce_key e \<and> ce_node e = Some q \<and> dc_buf c' q = dc_buf c q) \<or>
        ce_key e' = rc_key record \<and> dc_buf c' q = node"
    proof (cases "e' \<in> set (dc_skiplist c1)")
      case True
      with old [OF True] q nq [OF True q] sh show ?thesis by (auto simp: c' shrinks_def)
    next
      case False
      with e' q show ?thesis by (auto simp: c')
    qed
  qed
qed

lemma insert_refill:
  assumes wf: "cache_wf {p} c1" and sh: "shrinks c c1" and p: "p \<in> {..<nat (dc_all_node_num c1) - 1}"
    and key: "ih_min_key (in_hdr node) = rc_key record"
    and e: "e \<in> set (dc_skiplist c1)" "ce_key e = rc_key record" "ce_node e = None"
    and c': "c' = c1\<lparr>dc_buf := (dc_buf c1)(p := node),
      dc_skiplist := set_entry_node (ce_key e) (Some p) (dc_skiplist c1),
      dc_fifo_evict_pool := dc_fifo_evict_pool c1 @ [p]\<rparr>"
  shows "cache_wf {} c'" and "extends record node c c'"
proof -
  have srt1: "sorted_wrt (>) (map ce_key (dc_skiplist c1))" using wf by (simp add: cache_wf_def)
  have same: "x = e" if "x \<in> set (dc_skiplist c1)" "ce_key x = ce_key e" for x
    using sorted_keys_inject [OF srt1 that(1) e(1) that(2)] .
  have np: "p \<notin> live c1" using wf by (auto simp: cache_wf_def)
  have nq: "q \<noteq> p" if "x \<in> set (dc_skiplist c1)" "ce_node x = Some q" for x q
    using that np by (auto simp: live_def)
  have mem: "x \<in> set (dc_skiplist c') \<longleftrightarrow> x = e\<lparr>ce_node := Some p\<rparr> \<or> x \<in> set (dc_skiplist c1) \<and> ce_key x \<noteq> ce_key e" for x
    using e(1) same unfolding c' by (auto simp: set_set_entry_node)
  have lv: "live c' = insert p (live c1)"
  proof (intro set_eqI iffI)
    fix q assume "q \<in> live c'"
    then show "q \<in> insert p (live c1)" by (auto simp: live_def mem)
  next
    fix q assume "q \<in> insert p (live c1)"
    then consider "q = p" | x where "x \<in> set (dc_skiplist c1)" "ce_node x = Some q" by (auto simp: live_def)
    then show "q \<in> live c'"
    proof cases
      case 1
      have "e\<lparr>ce_node := Some p\<rparr> \<in> set (dc_skiplist c')" by (simp add: mem)
      with 1 show ?thesis unfolding live_def by force
    next
      case 2
      then have "ce_key x \<noteq> ce_key e" using same [OF 2(1)] e(3) by auto
      with 2 show ?thesis by (auto simp: live_def mem)
    qed
  qed
  have keyed: "\<forall>x \<in> set (dc_skiplist c'). \<forall>q. ce_node x = Some q \<longrightarrow> ih_min_key (in_hdr (dc_buf c' q)) = ce_key x"
  proof (intro ballI allI impI)
    fix x q assume x: "x \<in> set (dc_skiplist c')" "ce_node x = Some q"
    show "ih_min_key (in_hdr (dc_buf c' q)) = ce_key x"
    proof (cases "x = e\<lparr>ce_node := Some p\<rparr>")
      case True
      with x key e(2) show ?thesis by (simp add: c')
    next
      case False
      then have "x \<in> set (dc_skiplist c1)" using x(1) mem by blast
      with x(2) nq wf show ?thesis by (auto simp: c' cache_wf_def)
    qed
  qed
  show "cache_wf {} c'"
    unfolding cache_wf_def lv using wf p keyed by (auto simp: c' cache_wf_def)
  have old: "\<exists>y \<in> set (dc_skiplist c). ce_key x = ce_key y \<and> ce_remote_addr x = ce_remote_addr y \<and>
      (ce_node x = None \<or> ce_node x = ce_node y)" if "x \<in> set (dc_skiplist c1)" for x
    using sh that by (auto simp: shrinks_def)
  show "extends record node c c'"
    unfolding extends_def
  proof (intro conjI ballI allI impI)
    fix x assume x: "x \<in> set (dc_skiplist c')"
    show "(\<exists>y \<in> set (dc_skiplist c). ce_key x = ce_key y \<and> ce_remote_addr x = ce_remote_addr y) \<or>
        ce_key x = rc_key record \<and> ce_remote_addr x = rc_addr record"
      using x old [OF e(1)] old [of x] unfolding mem by auto
    fix q assume q: "ce_node x = Some q"
    show "(\<exists>y \<in> set (dc_skiplist c). ce_key x = ce_key y \<and> ce_node y = Some q \<and> dc_buf c' q = dc_buf c q) \<or>
        ce_key x = rc_key record \<and> dc_buf c' q = node"
    proof (cases "x = e\<lparr>ce_node := Some p\<rparr>")
      case True
      with q e(2) show ?thesis by (simp add: c')
    next
      case False
      then have "x \<in> set (dc_skiplist c1)" using x mem by blast
      with old [of x] q nq [of x q] sh show ?thesis by (auto simp: c' shrinks_def)
    qed
  qed
qed

lemma insert_cache_correct:
  assumes inv: "cache_inv c" and key: "ih_min_key (in_hdr node) = rc_key record"
  shows "\<exists>b c'. insert_cache record node c = Inr (b, c') \<and> cache_inv c' \<and> extends record node c c' \<and>
     (\<exists>e \<in> set (dc_skiplist c'). ce_key e = rc_key record \<and> ce_node e \<noteq> None)"
proof -
  obtain p c1 where al: "alloc_node_cache c = Inr (p, c1)" and wf: "cache_wf {p} c1" and sh: "shrinks c c1"
    and p: "p \<in> {..<nat (dc_all_node_num c) - 1}"
    using alloc_node_cache_correct [OF inv] by blast
  have size: "dc_all_node_num c1 = dc_all_node_num c" using sh by (simp add: shrinks_def)
  have two: "2 \<le> dc_all_node_num c" using inv by (simp add: cache_inv_def)
  have srt: "sorted_wrt (>) (map ce_key (dc_skiplist c1))" using wf by (simp add: cache_wf_def)
  show ?thesis
  proof (cases "rc_key record \<in> ce_key ` set (dc_skiplist c1)")
    case False
    define c' where c': "c' = c1\<lparr>dc_buf := (dc_buf c1)(p := node),
      dc_skiplist := insert_entry \<lparr>ce_key = rc_key record, ce_node = Some p, ce_remote_addr = rc_addr record\<rparr> (dc_skiplist c1),
      dc_skipList_count := dc_skipList_count c1 + 1, dc_fifo_evict_pool := dc_fifo_evict_pool c1 @ [p]\<rparr>"
    have "insert_cache record node c = Inr (True, c')" using al False by (simp add: insert_cache_def c')
    moreover note insert_fresh [OF wf sh p [folded size] key False c']
    moreover have "2 \<le> dc_all_node_num c'" using two size by (simp add: c')
    moreover have "\<exists>e \<in> set (dc_skiplist c'). ce_key e = rc_key record \<and> ce_node e \<noteq> None" by (simp add: c')
    ultimately show ?thesis unfolding cache_inv_def by blast
  next
    case True
    then obtain e where e: "e \<in> set (dc_skiplist c1)" "ce_key e = rc_key record" by auto
    have sk: "seek (rc_key record) (dc_skiplist c1) = Some e" using seek_own_key [OF srt e(1)] e(2) by simp
    show ?thesis
    proof (cases "ce_node e")
      case None
      define c' where c': "c' = c1\<lparr>dc_buf := (dc_buf c1)(p := node),
        dc_skiplist := set_entry_node (ce_key e) (Some p) (dc_skiplist c1),
        dc_fifo_evict_pool := dc_fifo_evict_pool c1 @ [p]\<rparr>"
      have "insert_cache record node c = Inr (True, c')"
        using al True sk e(2) None by (simp add: insert_cache_def c')
      moreover note insert_refill [OF wf sh p [folded size] key e None c']
      moreover have "2 \<le> dc_all_node_num c'" using two size by (simp add: c')
      moreover have "\<exists>e \<in> set (dc_skiplist c'). ce_key e = rc_key record \<and> ce_node e \<noteq> None"
      proof
        show "e\<lparr>ce_node := Some p\<rparr> \<in> set (dc_skiplist c')"
          using e(1) by (auto simp: c' set_set_entry_node intro!: image_eqI [of _ _ e])
      qed (use e(2) in simp)
      ultimately show ?thesis unfolding cache_inv_def by blast
    next
      case (Some q)
      define c' where c': "c' = c1\<lparr>dc_buf := (dc_buf c1)(p := node),
        dc_free_node_count := dc_free_node_count c1 + 1, dc_cache_pool := dc_cache_pool c1 @ [p]\<rparr>"
      have "insert_cache record node c = Inr (False, c')"
        using al True sk e(2) Some by (simp add: insert_cache_def c')
      moreover have np: "p \<notin> live c1" "p \<notin> set (dc_cache_pool c1)" using wf by (auto simp: cache_wf_def)
      then have nq: "q \<noteq> p" if "x \<in> set (dc_skiplist c1)" "ce_node x = Some q" for x q
        using that by (auto simp: live_def)
      have lv: "live c' = live c1" by (simp add: c' live_def)
      have keyed: "\<forall>x \<in> set (dc_skiplist c'). \<forall>q. ce_node x = Some q \<longrightarrow> ih_min_key (in_hdr (dc_buf c' q)) = ce_key x"
        using wf nq by (auto simp: c' cache_wf_def)
      have "cache_wf {} c'"
        unfolding cache_wf_def lv using wf np p size keyed by (auto simp: c' cache_wf_def)
      moreover have "2 \<le> dc_all_node_num c'" using two size by (simp add: c')
      moreover have "extends record node c c'"
        using sh nq unfolding extends_def shrinks_def by (fastforce simp: c')
      ultimately show ?thesis using e Some unfolding cache_inv_def by (auto simp: c')
    qed
  qed
qed

lemma new_DMCache_inv: "\<exists>c. new_DMCache buf = Inr c \<and> cache_inv c \<and> dc_skiplist c = []"
  by (auto simp: new_DMCache_def dm_sizes cache_inv_wf live_def)

lemma invalidate_gone:
  assumes "cache_inv c" and "seek k (dc_skiplist (snd (invalidate k c))) = Some e"
  shows "ce_node e = None"
proof -
  let ?c = "snd (invalidate k c)"
  have srt: "sorted_wrt (>) (map ce_key (dc_skiplist c))" "sorted_wrt (>) (map ce_key (dc_skiplist ?c))"
    using assms(1) invalidate_inv [OF assms(1), of k] by (simp_all add: cache_inv_wf)
  obtain x where x: "x \<in> set (dc_skiplist c)" "ce_key e = ce_key x" "ce_node e = None \<or> ce_node e = ce_node x"
    using invalidate_shrinks [of c k] assms(2) seek_Some [OF srt(2)] unfolding shrinks_def by blast
  have keys: "ce_key ` set (dc_skiplist ?c) = ce_key ` set (dc_skiplist c)"
    using invalidate_shrinks [of c k] unfolding shrinks_def by (metis set_map)
  have "ce_key y \<le> ce_key x" if "y \<in> set (dc_skiplist c)" "ce_key y \<le> k" for y
  proof -
    have "ce_key y \<in> ce_key ` set (dc_skiplist ?c)" using keys that(1) by simp
    with that(2) assms(2) seek_Some [OF srt(2)] x(2) show ?thesis by auto
  qed
  then have "seek k (dc_skiplist c) = Some x"
    using x(1,2) assms(2) seek_Some [OF srt(1)] seek_Some [OF srt(2)] by auto
  then have eq: "ce_node x = None \<or> dc_skiplist ?c = set_entry_node (ce_key x) None (dc_skiplist c)"
    by (auto simp: invalidate_def split: option.splits)
  moreover have "e \<in> set (dc_skiplist ?c)" using assms(2) seek_Some [OF srt(2)] by simp
  ultimately show ?thesis using x(2,3) by (auto simp: set_set_entry_node)
qed

text \<open>
  C39: the cache never hands out a buffer that is in use, never loses one and never aborts. From
  a well-formed cache \<open>insert_cache\<close> of a node under its least key returns, evicting an entry if all
  buffers are in use; the key then has a cached copy, every other entry still has the copy it had
  or none, and the ownership of the buffers is intact. \<open>invalidate\<close> takes away just the copy that a
  search for the key would use. The constructor sets up a well-formed cache.
\<close>

theorem cache_operations_safe:
  assumes "cache_inv c" and "ih_min_key (in_hdr node) = rc_key record"
  shows "(\<exists>b c'. insert_cache record node c = Inr (b, c') \<and> cache_inv c' \<and> extends record node c c' \<and>
            (\<exists>e \<in> set (dc_skiplist c'). ce_key e = rc_key record \<and> ce_node e \<noteq> None)) \<and>
         cache_inv (snd (invalidate k c)) \<and> shrinks c (snd (invalidate k c)) \<and>
         (\<forall>e. seek k (dc_skiplist (snd (invalidate k c))) = Some e \<longrightarrow> ce_node e = None) \<and>
         (\<exists>c0. new_DMCache buf = Inr c0 \<and> cache_inv c0)"
  using insert_cache_correct [OF assms] invalidate_inv [OF assms(1)] invalidate_shrinks
    invalidate_gone [OF assms(1)] new_DMCache_inv by blast

theorem cache_operations_safe_witness:
  "\<exists>c b c'. new_DMCache (\<lambda>_. inner_zero) = Inr c \<and> cache_inv c \<and>
     ih_min_key (in_hdr example_node) = rc_key example_record \<and>
     insert_cache example_record example_node c = Inr (b, c') \<and> cache_inv c'"
proof -
  obtain c where c: "new_DMCache (\<lambda>_. inner_zero) = Inr c" "cache_inv c" using new_DMCache_inv by blast
  have "ih_min_key (in_hdr example_node) = rc_key example_record"
    by (simp add: example_node_def example_record_def new_InnerHeader_def new_Record_def)
  with c cache_operations_safe [OF c(2) this] show ?thesis by blast
qed

end
