(* ===== verification/TreeInner.thy ===== *)
theory TreeInner
  imports DMCache LocalLock LeafOps Allocators
begin

text \<open>
  Model of \<open>DMTree/src/DMInner.cc\<close> and of the state of \<open>class DMTree\<close>: the inner index of the tree, run by
  one client. The memory of the servers is a typed store: inner nodes, leaves and fingerprint
  tables at their global addresses, the root pointer and the global lock word; an access to an
  address that holds no such object is \<open>BadAddress\<close>. Locks are compare-and-swap words of the
  objects; a lock that is held stays held while the client spins, so after a million attempts the
  \<open>Deadlock\<close> assertion fails. Loops that end only when the memory changes or after as many rounds
  as the tree has levels or siblings take fuel.
\<close>

section \<open>State\<close>

text \<open>
  \<open>tr_node\<close> is the buffer behind \<open>inner_tree[coro_id].node\<close>. \<open>tr_local_fp\<close> is the client's copy of
  fingerprint tables of other servers, by offset. \<open>tr_rbuf\<close> is the RDMA buffer of the coroutine
  with its rotating cursors: an inner node fits into one page, but the image of a leaf need not, so
  \<open>leaf_resize\<close> depends on where the cursors are.
\<close>

record dm_tree =
  tr_inner :: "Gaddr \<rightharpoonup> InnerNode"
  tr_leaf :: "Gaddr \<rightharpoonup> LeafTable"
  tr_fp :: "Gaddr \<rightharpoonup> FPTable"
  tr_root :: Gaddr
  tr_glock :: u64
  tr_alloc :: DMAlloc
  tr_local_root :: Gaddr
  tr_path :: "Record list"
  tr_node :: InnerNode
  tr_cache :: DMCache
  tr_locks :: LocalLockTable
  tr_local_fp :: "48 word \<Rightarrow> u8 list"
  tr_rbuf :: RdmaBuffer

text \<open>\<open>dmv->get_rbuf(coro_id).get_page_buffer()\<close> and \<open>get_sibling_buffer()\<close>: the cursors move.\<close>

definition next_page :: "dm_tree \<Rightarrow> dm_tree" where
  "next_page s = s\<lparr>tr_rbuf := snd (get_page_buffer (tr_rbuf s))\<rparr>"

definition next_sibling :: "dm_tree \<Rightarrow> dm_tree" where
  "next_sibling s = s\<lparr>tr_rbuf := snd (get_sibling_buffer (tr_rbuf s))\<rparr>"

text \<open>
  Library functions, the configuration, and what uninitialised memory holds: an address, two
  padding bytes and the second half of a stack buffer.
\<close>

record dm_env =
  en_city :: "u8 list \<Rightarrow> u32"
  en_city64 :: "u8 list \<Rightarrow> u64"
  en_conf :: DMConf
  en_addr :: Gaddr
  en_pad :: "u8 list"
  en_stack :: "u8 list"
  use_cache_mark :: bool

definition tree_alloc :: "dm_env \<Rightarrow> nat \<Rightarrow> dm_tree \<Rightarrow> (Gaddr \<times> dm_tree) result" where
  "tree_alloc env size' s =
     res_bind (memory_alloc (en_conf env) size' (tr_alloc s)) (\<lambda>(a, da). Inr (a, s\<lparr>tr_alloc := da\<rparr>))"

definition read_inner :: "Gaddr \<Rightarrow> dm_tree \<Rightarrow> InnerNode result" where
  "read_inner a s = (case tr_inner s a of None \<Rightarrow> Inl BadAddress | Some n \<Rightarrow> Inr n)"

definition write_inner :: "Gaddr \<Rightarrow> InnerNode \<Rightarrow> dm_tree \<Rightarrow> dm_tree" where
  "write_inner a n s = s\<lparr>tr_inner := (tr_inner s)(a \<mapsto> n)\<rparr>"

definition lock_node :: "Gaddr \<Rightarrow> dm_tree \<Rightarrow> dm_tree result" where
  "lock_node a s =
     res_bind (read_inner a s) (\<lambda>n.
     if in_lock n = 0 then Inr (write_inner a (n\<lparr>in_lock := 1\<rparr>) s)
     else Inl (AssertFail ''Deadlock''))"

definition unlock_node :: "Gaddr \<Rightarrow> dm_tree \<Rightarrow> dm_tree result" where
  "unlock_node a s =
     res_bind (read_inner a s) (\<lambda>n. Inr (write_inner a (n\<lparr>in_lock := 0\<rparr>) s))"

text \<open>\<open>path[path.size() - 1].addr = a\<close>\<close>

definition set_last_addr :: "Gaddr \<Rightarrow> Record list \<Rightarrow> Record list" where
  "set_last_addr a p = butlast p @ [(last p)\<lparr>rc_addr := a\<rparr>]"

section \<open>Search\<close>

definition get_root_addr :: "dm_tree \<Rightarrow> (Gaddr \<times> dm_tree) result" where
  "get_root_addr s =
     (if tr_local_root s \<noteq> Gaddr_Null then Inr (tr_local_root s, s)
      else let root_addr = tr_root s in
           res_bind (res_assert ''root_addr != Gaddr::Null()'' (root_addr \<noteq> Gaddr_Null)) (\<lambda>_.
           Inr (root_addr, s\<lparr>tr_local_root := root_addr\<rparr>)))"

definition cache_insert :: "dm_env \<Rightarrow> Record \<Rightarrow> InnerNode \<Rightarrow> dm_tree \<Rightarrow> dm_tree result" where
  "cache_insert env record node s =
     res_bind (insert_cache record node (tr_cache s)) (\<lambda>(_, c). Inr (s\<lparr>tr_cache := c\<rparr>))"

text \<open>
  The result is the returned flag, \<open>record\<close> and \<open>next_is_leaf\<close>. The page buffer, which the function
  gets before the label \<open>reread\<close>, is taken where it is called; likewise for \<open>bottom_search\<close>.
\<close>

fun inner_search ::
  "nat \<Rightarrow> dm_env \<Rightarrow> Gaddr \<Rightarrow> KeyType \<Rightarrow> Record \<Rightarrow> dm_tree \<Rightarrow> (bool \<times> Record \<times> bool \<times> dm_tree) result" where
  "inner_search 0 env addr key record s = Inl OutOfFuel"
| "inner_search (Suc f) env addr key record s =
     res_bind (read_inner addr s) (\<lambda>node.
     let s1 = s\<lparr>tr_node := node\<rparr> in
     if \<not> inner_check_consistent (en_city env) node then inner_search f env addr key record s1
     else if length (tr_path s1) = 1 \<and> \<not> ih_is_root (in_hdr node)
     then res_bind (get_root_addr (s1\<lparr>tr_local_root := Gaddr_Null\<rparr>)) (\<lambda>(addr', s2).
          inner_search f env addr' key record
            (s2\<lparr>tr_path := set_last_addr addr' (tr_path s2)\<rparr>))
     else if \<not> check_hdr key node
     then let right = ih_right_addr (in_hdr node) in
          res_bind (res_assert ''record.addr != Gaddr::Null()'' (right \<noteq> Gaddr_Null)) (\<lambda>_.
          Inr (False, record\<lparr>rc_addr := right\<rparr>, ih_next_is_leaf (in_hdr node),
               s1\<lparr>tr_path := set_last_addr right (tr_path s1)\<rparr>))
     else res_bind (inner_find key node) (\<lambda>(rec, next_is_leaf).
          res_bind (if use_cache_mark env \<and> next_is_leaf then cache_insert env (last (tr_path s1)) node s1
                    else Inr s1) (\<lambda>s2.
          Inr (True, rec, next_is_leaf, s2))))"

fun find_loop ::
  "nat \<Rightarrow> nat \<Rightarrow> dm_env \<Rightarrow> Gaddr \<Rightarrow> KeyType \<Rightarrow> Record \<Rightarrow> dm_tree \<Rightarrow> (Record \<times> dm_tree) result" where
  "find_loop F 0 env addr key record s = Inl OutOfFuel"
| "find_loop F (Suc f) env addr key record s =
     res_bind (inner_search F env addr key record (next_page s)) (\<lambda>(to_next, rec, next_is_leaf, s1).
     if \<not> to_next then find_loop F f env (rc_addr rec) key rec s1
     else let s2 = s1\<lparr>tr_path := tr_path s1 @ [copy_Record rec]\<rparr>
          in if next_is_leaf then Inr (rec, s2) else find_loop F f env (rc_addr rec) key rec s2)"

definition find_leaf :: "nat \<Rightarrow> dm_env \<Rightarrow> KeyType \<Rightarrow> dm_tree \<Rightarrow> (Record \<times> dm_tree) result" where
  "find_leaf F env key s =
     res_bind (get_root_addr s) (\<lambda>(addr, s1).
     let record = new_Record KeyNull addr Gaddr_Null 0 0 in
     res_bind (find_loop F F env addr key record (s1\<lparr>tr_path := [record]\<rparr>)) (\<lambda>(rec, s2).
     res_bind (res_assert ''record.capacity > 0'' (0 < rc_capacity rec)) (\<lambda>_. Inr (rec, s2))))"

fun bottom_search ::
  "nat \<Rightarrow> dm_env \<Rightarrow> Gaddr \<Rightarrow> KeyType \<Rightarrow> Record \<Rightarrow> dm_tree \<Rightarrow> (bool \<times> Record \<times> dm_tree) result" where
  "bottom_search 0 env addr key record s = Inl OutOfFuel"
| "bottom_search (Suc f) env addr key record s =
     res_bind (read_inner addr s) (\<lambda>node.
     let s1 = s\<lparr>tr_node := node\<rparr> in
     if \<not> inner_check_consistent (en_city env) node then bottom_search f env addr key record s1
     else if \<not> check_hdr key node
     then let right = ih_right_addr (in_hdr node) in
          res_bind (res_assert ''record.addr != Gaddr::Null()'' (right \<noteq> Gaddr_Null)) (\<lambda>_.
          Inr (False, record\<lparr>rc_addr := right\<rparr>, s1\<lparr>tr_path := set_last_addr right (tr_path s1)\<rparr>))
     else res_bind (inner_find key node) (\<lambda>(rec, next_is_leaf).
          res_bind (res_assert ''next_is_leaf'' next_is_leaf) (\<lambda>_.
          if use_cache_mark env
          then let upper = (last (tr_path s1))\<lparr>rc_key := ih_min_key (in_hdr node), rc_addr := addr\<rparr>;
                   s2 = s1\<lparr>tr_path := butlast (tr_path s1) @ [upper]\<rparr>
               in res_bind (cache_insert env upper node s2) (\<lambda>s3. Inr (True, rec, s3))
          else Inr (True, rec, s1))))"

fun bottom_loop ::
  "nat \<Rightarrow> nat \<Rightarrow> dm_env \<Rightarrow> Gaddr \<Rightarrow> KeyType \<Rightarrow> Record \<Rightarrow> dm_tree \<Rightarrow> (Record \<times> dm_tree) result" where
  "bottom_loop F 0 env addr key record s = Inl OutOfFuel"
| "bottom_loop F (Suc f) env addr key record s =
     res_bind (bottom_search F env addr key record (next_page s)) (\<lambda>(to_next, rec, s1).
     if \<not> to_next then bottom_loop F f env (rc_addr rec) key rec s1
     else Inr (rec, s1\<lparr>tr_path := tr_path s1 @ [copy_Record rec]\<rparr>))"

definition read_bottom_inner :: "nat \<Rightarrow> dm_env \<Rightarrow> KeyType \<Rightarrow> dm_tree \<Rightarrow> (Record \<times> dm_tree) result" where
  "read_bottom_inner F env key s =
     res_bind (res_assert ''path.size() == 2'' (length (tr_path s) = 2)) (\<lambda>_.
     let addr = rc_addr (tr_path s ! 0); record = new_Record KeyNull addr Gaddr_Null 0 0 in
     res_bind (bottom_loop F F env addr key record (s\<lparr>tr_path := [record]\<rparr>)) (\<lambda>(rec, s1).
     res_bind (res_assert ''record.capacity > 0'' (0 < rc_capacity rec)) (\<lambda>_. Inr (rec, s1))))"

section \<open>Insertion\<close>

text \<open>Locking a node and reading it.\<close>

definition lock_read :: "dm_env \<Rightarrow> Gaddr \<Rightarrow> dm_tree \<Rightarrow> dm_tree result" where
  "lock_read env a s =
     res_bind (lock_node a s) (\<lambda>s1.
     res_bind (read_inner a s1) (\<lambda>node.
     res_bind (res_assert ''node->check_consistent()'' (inner_check_consistent (en_city env) node)) (\<lambda>_.
     Inr (s1\<lparr>tr_node := node\<rparr>))))"

fun move_right :: "nat \<Rightarrow> dm_env \<Rightarrow> Gaddr \<Rightarrow> KeyType \<Rightarrow> dm_tree \<Rightarrow> (Gaddr \<times> dm_tree) result" where
  "move_right 0 env a key s = Inl OutOfFuel"
| "move_right (Suc f) env a key s =
     (if check_hdr key (tr_node s) then Inr (a, s)
      else res_bind (unlock_node a s) (\<lambda>s1.
           let a' = ih_right_addr (in_hdr (tr_node s1)) in
           res_bind (lock_read env a' s1) (move_right f env a' key)))"

text \<open>The result is the returned flag and the address of the node that was locked last.\<close>

definition inner_write ::
  "nat \<Rightarrow> dm_env \<Rightarrow> Gaddr \<Rightarrow> Record \<Rightarrow> Record \<Rightarrow> bool \<Rightarrow> dm_tree \<Rightarrow> (bool \<times> Gaddr \<times> dm_tree) result" where
  "inner_write F env addr inner_record update_record is_bottom s =
     res_bind (lock_read env addr (next_page s)) (\<lambda>s1.
     res_bind (move_right F env addr (rc_key inner_record) s1) (\<lambda>(a, s2).
     res_bind (if is_bottom
               then res_bind (res_assert ''node->get_hdr().next_is_leaf'' (ih_next_is_leaf (in_hdr (tr_node s2)))) (\<lambda>_.
                    res_bind (res_assert ''node->check_hdr(update_record.key)'' (check_hdr (rc_key update_record) (tr_node s2))) (\<lambda>_.
                    assert_ins (en_city env) update_record (tr_node s2)))
               else Inr (tr_node s2)) (\<lambda>node.
     res_bind (inner_ins (en_city env) inner_record node) (\<lambda>r.
     case r of
       Some node' \<Rightarrow> (let n = inner_unlock node' in Inr (True, a, write_inner a n (s2\<lparr>tr_node := n\<rparr>)))
     | None \<Rightarrow> Inr (False, a, s2\<lparr>tr_node := node\<rparr>)))))"

text \<open>The record for the level above is the result.\<close>

definition node_split :: "dm_env \<Rightarrow> Gaddr \<Rightarrow> Record \<Rightarrow> dm_tree \<Rightarrow> (Record \<times> dm_tree) result" where
  "node_split env addr record s =
     res_bind (tree_alloc env InnerNodeSize s) (\<lambda>(sibling_addr, s1).
     res_bind (split_nodes (en_city env) (en_pad env) (en_pad env) sibling_addr record (tr_node s1)) (\<lambda>(n, sib, rec).
     Inr (rec, write_inner addr n (write_inner sibling_addr sib ((next_sibling s1)\<lparr>tr_node := n\<rparr>)))))"

definition update_root :: "dm_env \<Rightarrow> Record \<Rightarrow> Gaddr \<Rightarrow> dm_tree \<Rightarrow> dm_tree result" where
  "update_root env record update_addr s =
     (if tr_glock s \<noteq> 0 then Inl (AssertFail ''Deadlock'')
      else
     let s1 = s\<lparr>tr_glock := 1\<rparr>; root_addr = tr_root s1 in
     res_bind (res_assert ''path[0].addr == root_addr'' (rc_addr (tr_path s1 ! 0) = root_addr)) (\<lambda>_.
     let root_hdr = (new_InnerHeader (en_addr env) (en_pad env))\<lparr>ih_is_root := True, ih_next_is_leaf := False\<rparr> in
     res_bind (tree_alloc env InnerNodeSize s1) (\<lambda>(sibling_addr, s2).
     res_bind (assert_ins (en_city env) record (set_hdr (en_city env) root_hdr inner_zero)) (\<lambda>n1.
     res_bind (assert_ins (en_city env) (new_Record KeyNull update_addr Gaddr_Null 0 0) n1) (\<lambda>n2.
     Inr ((write_inner sibling_addr n2 (next_sibling s2))\<lparr>tr_root := sibling_addr, tr_glock := 0\<rparr>))))))"

text \<open>The \<open>for\<close> loop of \<open>inner_insert\<close>, with \<open>i\<close>, \<open>is_bottom\<close> and \<open>from_cache\<close> as arguments.\<close>

fun inner_insert_loop ::
  "nat \<Rightarrow> nat \<Rightarrow> dm_env \<Rightarrow> KeyType \<Rightarrow> nat \<Rightarrow> Record \<Rightarrow> Record \<Rightarrow> bool \<Rightarrow> bool \<Rightarrow> dm_tree \<Rightarrow> dm_tree result" where
  "inner_insert_loop F 0 env key i inner_record update_record is_bottom from_cache s = Inl OutOfFuel"
| "inner_insert_loop F (Suc f) env key i inner_record update_record is_bottom from_cache s =
     (if i = 0 then Inr s
      else res_bind (inner_write F env (rc_addr (tr_path s ! (i - 1))) inner_record update_record is_bottom s)
        (\<lambda>(ok, addr, s1).
        if ok then Inr s1
        else
        let node = tr_node s1;
            s2 = s1\<lparr>tr_path := (tr_path s1)[i - 1 := (tr_path s1 ! (i - 1))\<lparr>rc_addr := addr,
                                               rc_key := ih_min_key (in_hdr node)\<rparr>]\<rparr>
        in if from_cache
           then res_bind (unlock_node addr s2) (\<lambda>s3.
                res_bind (find_leaf F env key s3) (\<lambda>(_, s4).
                inner_insert_loop F f env key (length (tr_path s4) - 1) inner_record update_record is_bottom False s4))
           else res_bind (node_split env addr inner_record s2) (\<lambda>(rec, s3).
                res_bind (if i = 1 then update_root env rec addr s3 else Inr s3) (\<lambda>s4.
                inner_insert_loop F f env key (i - 1) rec update_record False False s4))))"

definition inner_insert ::
  "nat \<Rightarrow> dm_env \<Rightarrow> KeyType \<Rightarrow> Record \<Rightarrow> Record \<Rightarrow> bool \<Rightarrow> dm_tree \<Rightarrow> dm_tree result" where
  "inner_insert F env key inner_record update_record from_cache s =
     inner_insert_loop F F env key (length (tr_path s) - 1) inner_record update_record True from_cache s"

end
