(* ===== verification/TreeOps.thy ===== *)
theory TreeOps
  imports TreeInner
begin

text \<open>
  Model of \<open>DMTree/src/DMTree.cc\<close>: the operations on leaves and the public operations \<open>read\<close>, \<open>write\<close>
  and \<open>scan\<close>, composed from the loops over one leaf in \<open>LeafOps\<close>, the inner index in \<open>TreeInner\<close>,
  the cache and the local locks; and \<open>init_root_node\<close>, which builds the empty tree. One client runs
  alone, so a combined value is the one it put there itself.
\<close>

section \<open>Leaves and fingerprint tables in the store\<close>

definition read_leaf :: "Gaddr \<Rightarrow> dm_tree \<Rightarrow> LeafTable result" where
  "read_leaf a s = (case tr_leaf s a of None \<Rightarrow> Inl BadAddress | Some lt \<Rightarrow> Inr lt)"

definition write_leaf :: "Gaddr \<Rightarrow> LeafTable \<Rightarrow> dm_tree \<Rightarrow> dm_tree" where
  "write_leaf a lt s = s\<lparr>tr_leaf := (tr_leaf s)(a \<mapsto> lt)\<rparr>"

text \<open>A table is read and locked with the layout for a capacity, which has to be its own.\<close>

definition read_fp :: "Gaddr \<Rightarrow> nat \<Rightarrow> dm_tree \<Rightarrow> FPTable result" where
  "read_fp a c s =
     (case tr_fp s a of
        None \<Rightarrow> Inl BadAddress
      | Some t \<Rightarrow> if fp_capacity t = c then Inr t else Inl BadAddress)"

definition write_fp :: "Gaddr \<Rightarrow> FPTable \<Rightarrow> dm_tree \<Rightarrow> dm_tree" where
  "write_fp a t s = s\<lparr>tr_fp := (tr_fp s)(a \<mapsto> t)\<rparr>"

definition try_lock_table :: "Gaddr \<Rightarrow> nat \<Rightarrow> dm_tree \<Rightarrow> (bool \<times> dm_tree) result" where
  "try_lock_table a c s =
     res_bind (read_fp a c s) (\<lambda>t.
     if ft_lock t = 0 then Inr (True, write_fp a (t\<lparr>ft_lock := 1\<rparr>) s) else Inr (False, s))"

definition lock_table :: "Gaddr \<Rightarrow> nat \<Rightarrow> dm_tree \<Rightarrow> dm_tree result" where
  "lock_table a c s =
     res_bind (try_lock_table a c s) (\<lambda>(ok, s1).
     if ok then Inr s1 else Inl (AssertFail ''Deadlock''))"

definition unlock_table :: "Gaddr \<Rightarrow> nat \<Rightarrow> dm_tree \<Rightarrow> dm_tree result" where
  "unlock_table a c s =
     res_bind (read_fp a c s) (\<lambda>t. Inr (write_fp a (fp_unlock t) s))"

definition get_leaf_hdr :: "Gaddr \<Rightarrow> dm_tree \<Rightarrow> LeafHeader result" where
  "get_leaf_hdr a s = res_bind (read_leaf a s) (\<lambda>lt. Inr (lt_hdr lt))"

text \<open>
  The client's memory behind \<open>get_local_fp_buffer\<close>: for a table of its own server that is the table,
  for others what \<open>leaf_search\<close> copied there last. 64 bytes of it are copied to a stack buffer of
  128 bytes.
\<close>

definition local_fp_buffer :: "dm_env \<Rightarrow> Gaddr \<Rightarrow> dm_tree \<Rightarrow> u8 list" where
  "local_fp_buffer env a s =
     (if nodeID a = of_nat (my_node_id (en_conf env))
      then (case tr_fp s a of Some t \<Rightarrow> fp_bytes t | None \<Rightarrow> tr_local_fp s (offset a))
      else tr_local_fp s (offset a))"

definition tmp_fp_buffer :: "dm_env \<Rightarrow> Gaddr \<Rightarrow> dm_tree \<Rightarrow> u8 list" where
  "tmp_fp_buffer env a s =
     (let b = take 64 (local_fp_buffer env a s) in b @ drop (length b) (en_stack env))"

section \<open>Search\<close>

text \<open>The new route after a version mismatch: from the cached parent once, then from the root.\<close>

definition reroute ::
  "nat \<Rightarrow> dm_env \<Rightarrow> bool \<Rightarrow> KeyType \<Rightarrow> bool \<Rightarrow> bool \<Rightarrow> dm_tree \<Rightarrow> (Record \<times> bool \<times> bool \<times> dm_tree) result" where
  "reroute F env inval key from_cache is_sync s =
     (if from_cache \<and> \<not> is_sync
      then let s1 = (if inval then s\<lparr>tr_cache := snd (invalidate key (tr_cache s))\<rparr> else s)
           in res_bind (read_bottom_inner F env key s1) (\<lambda>(p, s2). Inr (p, from_cache, True, s2))
      else res_bind (find_leaf F env key s) (\<lambda>(p, s1). Inr (p, False, is_sync, s1)))"

text \<open>
  The leaf's address is \<open>path.addr\<close> throughout. The page buffer of \<open>leaf_search\<close>, \<open>leaf_insert\<close> and
  \<open>leaf_scan\<close>, which they get once at their start, is taken where they are called.
\<close>

fun leaf_search ::
  "nat \<Rightarrow> nat \<Rightarrow> dm_env \<Rightarrow> KeyType \<Rightarrow> ValueType \<Rightarrow> Record \<Rightarrow> bool \<Rightarrow> bool \<Rightarrow> bool \<Rightarrow> dm_tree \<Rightarrow>
     (ValueType \<times> dm_tree) result" where
  "leaf_search F 0 env key value path from_cache from_local_fp is_sync s = Inl OutOfFuel"
| "leaf_search F (Suc f) env key value path from_cache from_local_fp is_sync s =
     res_bind (attach_node (of_int (rc_capacity path))) (\<lambda>cap.
     res_bind (fp_attach (tmp_fp_buffer env (rc_fp_addr path) s) cap) (\<lambda>loc.
     let remote = (ft_fp loc ! 0 = 0 \<or> \<not> from_local_fp \<or> nodeID (rc_fp_addr path) = 0);
         from_local = (from_local_fp \<and> \<not> remote)
     in
     res_bind (if remote then read_fp (rc_fp_addr path) cap s else Inr loc) (\<lambda>ft.
     if \<not> fp_check_consistent (en_city env) ft
     then leaf_search F f env key value path from_cache False is_sync s
     else
     let s1 = (if \<not> from_local \<and> nodeID (rc_fp_addr path) \<noteq> of_nat (my_node_id (en_conf env)) \<and>
                  nodeID (rc_fp_addr path) \<noteq> 0
               then s\<lparr>tr_local_fp := (tr_local_fp s)(offset (rc_fp_addr path) := fp_bytes ft)\<rparr> else s)
     in
     if ft_version ft \<noteq> ucast (rc_version path)
     then res_bind (reroute F env True key from_cache is_sync s1) (\<lambda>(p, fc, sync, s2).
          leaf_search F f env key value p fc False sync s2)
     else
     res_bind (read_leaf (rc_addr path) s1) (\<lambda>lt.
     res_bind (search_slots (cal_key_fp key) key (rc_version path) (ft_fp ft) (lt_entries lt) value) (\<lambda>(r, v).
     case r of
       Found \<Rightarrow> Inr (v, s1)
     | Stale \<Rightarrow> res_bind (reroute F env True key from_cache is_sync s1) (\<lambda>(p, fc, sync, s2).
                leaf_search F f env key v p fc False sync s2)
     | Absent \<Rightarrow> (if from_local then leaf_search F f env key v path from_cache False is_sync s1
                 else Inr (v, s1)))))))"

section \<open>Insertion\<close>

definition leaf_resize ::
  "nat \<Rightarrow> dm_env \<Rightarrow> nat \<Rightarrow> Gaddr \<Rightarrow> Gaddr \<Rightarrow> KeyType \<Rightarrow> ValueType \<Rightarrow> bool \<Rightarrow> dm_tree \<Rightarrow> dm_tree result" where
  "leaf_resize F env cap addr fp_addr key value from_cache s =
     (case get_page_buffer (tr_rbuf s) of (buffer, rb1) \<Rightarrow>
      case get_sibling_buffer rb1 of (sibling_buffer, rb2) \<Rightarrow>
     res_bind (read_leaf addr s) (\<lambda>lt.
     let v = table_combining (en_city64 env) key value (tr_locks s);
         sib_cap = adapt_capacity cap (tr_cache s)
     in
     res_bind (tree_alloc env (cur_node_size sib_cap) s) (\<lambda>(sib_addr, s1).
     res_bind (compute_alloc (en_conf env) (fp_get_size sib_cap) (tr_alloc s1)) (\<lambda>(sib_fp_addr, da).
     let s2 = s1\<lparr>tr_alloc := da, tr_rbuf := rb2\<rparr> in
     res_bind (resize_tables (en_city env) buffer sibling_buffer cap sib_cap key v sib_addr sib_fp_addr lt) (\<lambda>ro.
     let s3 = write_fp fp_addr (ro_cur_ft ro) (write_leaf addr (ro_cur ro)
                (write_fp sib_fp_addr (ro_sib_ft ro) (write_leaf sib_addr (ro_sib ro) s2)));
         sh = lt_hdr (ro_sib ro); ch = lt_hdr (ro_cur ro)
     in inner_insert F env key
          (new_Record (lf_min_key sh) sib_addr sib_fp_addr (int sib_cap) (lf_version sh))
          (new_Record (lf_min_key ch) addr fp_addr (int cap) (lf_version ch)) from_cache s3)))))"

fun leaf_insert ::
  "nat \<Rightarrow> nat \<Rightarrow> dm_env \<Rightarrow> KeyType \<Rightarrow> ValueType \<Rightarrow> Record \<Rightarrow> bool \<Rightarrow> bool \<Rightarrow> dm_tree \<Rightarrow> dm_tree result" where
  "leaf_insert F 0 env key value path from_cache is_sync s = Inl OutOfFuel"
| "leaf_insert F (Suc f) env key value path from_cache is_sync s =
     res_bind (attach_node (of_int (rc_capacity path))) (\<lambda>cap.
     res_bind (lock_table (rc_fp_addr path) cap s) (\<lambda>s1.
     res_bind (read_fp (rc_fp_addr path) cap s1) (\<lambda>ft.
     res_bind (res_assert ''fp_table->check_consistent()'' (fp_check_consistent (en_city env) ft)) (\<lambda>_.
     if ft_version ft \<noteq> ucast (rc_version path)
     then res_bind (unlock_table (rc_fp_addr path) cap s1) (\<lambda>s2.
          res_bind (reroute F env True key from_cache is_sync s2) (\<lambda>(p, fc, sync, s3).
          leaf_insert F f env key value p fc sync s3))
     else
     let v = table_combining (en_city64 env) key value (tr_locks s1) in
     res_bind (read_leaf (rc_addr path) s1) (\<lambda>lt.
     res_bind (leaf_put (en_city env) key v (rc_version path) ft (lt_entries lt)) (\<lambda>r.
     case r of
       Updated es \<Rightarrow>
         unlock_table (rc_fp_addr path) cap (write_leaf (rc_addr path) (lt\<lparr>lt_entries := es\<rparr>) s1)
     | Added ft' es \<Rightarrow>
         Inr (write_fp (rc_fp_addr path) ft' (write_leaf (rc_addr path) (lt\<lparr>lt_entries := es\<rparr>) s1))
     | Full \<Rightarrow> leaf_resize F env cap (rc_addr path) (rc_fp_addr path) key value from_cache s1))))))"

section \<open>Scan\<close>

text \<open>
  The loop of \<open>leaf_scan\<close>; \<open>results\<close> are in the order of the pushes to the sorted queue. The right
  address ends the loop when it is null.
\<close>

fun leaf_scan ::
  "nat \<Rightarrow> nat \<Rightarrow> dm_env \<Rightarrow> KeyType \<Rightarrow> KeyType \<Rightarrow> int \<Rightarrow> Gaddr \<Rightarrow> Record \<Rightarrow> bool \<Rightarrow> bool \<Rightarrow> bool \<Rightarrow>
     EntryPos list \<Rightarrow> dm_tree \<Rightarrow> (EntryPos list \<times> dm_tree) result" where
  "leaf_scan F 0 env from to len addr path from_cache is_sync head results s = Inl OutOfFuel"
| "leaf_scan F (Suc f) env from to len addr path from_cache is_sync head results s =
     (if addr = Gaddr_Null \<or> len \<le> 0 then Inr (results, s)
      else
     res_bind (attach_node (of_int (rc_capacity path))) (\<lambda>cap.
     res_bind (read_fp (rc_fp_addr path) cap s) (\<lambda>ft.
     if \<not> fp_check_consistent (en_city env) ft
     then leaf_scan F f env from to len addr path from_cache is_sync head results s
     else if head \<and> ft_version ft \<noteq> ucast (rc_version path)
     then res_bind (reroute F env False from from_cache is_sync s) (\<lambda>(p, fc, sync, s1).
          leaf_scan F f env from to len (rc_addr p) p fc sync head results s1)
     else
     let entry_num = fp_get_entry_num ft in
     res_bind (read_leaf addr s) (\<lambda>lt.
     if \<not> read_table cap lt entry_num then Inl OutOfFuel
     else
     let hdr = lt_hdr lt in
     if head \<and> (of_int (lf_version hdr) :: u64) \<noteq> ucast (rc_version path)
     then res_bind (reroute F env False from from_cache is_sync s) (\<lambda>(p, fc, sync, s1).
          leaf_scan F f env from to len (rc_addr p) p fc sync head results s1)
     else
     res_bind (res_assert ''path.capacity == hdr->capacity'' (rc_capacity path = lf_capacity hdr)) (\<lambda>_.
     if to < lf_min_key hdr then Inr (results, s)
     else
     let found = scan_entries from (take entry_num (lt_entries lt));
         results' = results @ found; len' = len - int (length found); right = lf_right_addr hdr
     in if right = Gaddr_Null then Inr (results', s)
        else leaf_scan F f env from to len' right
               (path\<lparr>rc_capacity := sint (ucast (lf_right_capacity hdr) :: u32), rc_fp_addr := lf_right_fp_addr hdr\<rparr>)
               from_cache is_sync False results' s)))))"

section \<open>The public operations\<close>

text \<open>
  The common start of the three operations: the record of the leaf, from the cache or from the
  root. The local variable \<open>inner_record\<close> has uninitialised addresses.
\<close>

definition locate :: "nat \<Rightarrow> dm_env \<Rightarrow> KeyType \<Rightarrow> dm_tree \<Rightarrow> (Record \<times> bool \<times> dm_tree) result" where
  "locate F env key s =
     res_bind (if use_cache_mark env
               then res_bind (search_cache (en_city env) key
                      (record_zero\<lparr>rc_addr := en_addr env, rc_fp_addr := en_addr env\<rparr>) (tr_path s) (tr_cache s))
                      (\<lambda>(rec, path, c). Inr (rec, rc_addr rec \<noteq> Gaddr_Null, s\<lparr>tr_path := path, tr_cache := c\<rparr>))
               else Inr (record_zero\<lparr>rc_addr := en_addr env, rc_fp_addr := en_addr env\<rparr>, False, s))
     (\<lambda>(rec, from_cache, s1).
     if from_cache then Inr (rec, True, s1)
     else res_bind (find_leaf F env key s1) (\<lambda>(rec', s2). Inr (rec', False, s2)))"

definition dm_read :: "nat \<Rightarrow> dm_env \<Rightarrow> KeyType \<Rightarrow> ValueType \<Rightarrow> dm_tree \<Rightarrow> (bool \<times> ValueType \<times> dm_tree) result" where
  "dm_read F env key value s =
     res_bind (table_acquire_read (en_city64 env) key (tr_locks s)) (\<lambda>(lock_res, t).
     let s1 = s\<lparr>tr_locks := t\<rparr> in
     if fst lock_res \<and> \<not> snd lock_res
     then (case table_release_read (en_city64 env) key lock_res False value t of
             ((_, v), t') \<Rightarrow> Inr (v = ValueNull, v, s1\<lparr>tr_locks := t'\<rparr>))
     else
     res_bind (locate F env key s1) (\<lambda>(rec, from_cache, s2).
     res_bind (leaf_search F F env key value rec from_cache True False (next_page s2)) (\<lambda>(v, s3).
     case table_release_read (en_city64 env) key lock_res False v (tr_locks s3) of
       ((_, v'), t') \<Rightarrow> Inr (v' = ValueNull, v', s3\<lparr>tr_locks := t'\<rparr>))))"

definition dm_write :: "nat \<Rightarrow> dm_env \<Rightarrow> KeyType \<Rightarrow> ValueType \<Rightarrow> dm_tree \<Rightarrow> dm_tree result" where
  "dm_write F env key value s =
     res_bind (table_acquire_write (en_city64 env) key value (tr_locks s)) (\<lambda>(lock_res, t).
     let s1 = s\<lparr>tr_locks := t\<rparr> in
     if fst lock_res \<and> \<not> snd lock_res
     then Inr (s1\<lparr>tr_locks := table_release_write (en_city64 env) key lock_res t\<rparr>)
     else
     res_bind (locate F env key s1) (\<lambda>(rec, from_cache, s2).
     res_bind (leaf_insert F F env key value rec from_cache False (next_page s2)) (\<lambda>s3.
     Inr (s3\<lparr>tr_locks := table_release_write (en_city64 env) key lock_res (tr_locks s3)\<rparr>))))"

text \<open>The results stay in a local queue; the function returns 0.\<close>

definition dm_scan ::
  "nat \<Rightarrow> dm_env \<Rightarrow> KeyType \<Rightarrow> KeyType \<Rightarrow> int \<Rightarrow> dm_tree \<Rightarrow> (EntryPos list \<times> dm_tree) result" where
  "dm_scan F env from to len s =
     res_bind (locate F env from s) (\<lambda>(rec, from_cache, s1).
     leaf_scan F F env from to len (rc_addr rec) rec from_cache False True [] (next_page s1))"

text \<open>
  \<open>init_root_node\<close>. The leaf header's right fingerprint address is uninitialised. The node buffer
  of coroutine 0 keeps its content; the cache gets a copy of the root.
\<close>

definition init_root_node :: "dm_env \<Rightarrow> dm_tree \<Rightarrow> dm_tree result" where
  "init_root_node env s =
     res_bind (tree_alloc env InnerNodeSize s) (\<lambda>(root_inner_addr, s1).
     if tr_root s1 \<noteq> Gaddr_Null then Inr s1
     else
     let s2 = next_page (s1\<lparr>tr_root := root_inner_addr\<rparr>) in
     res_bind (tree_alloc env (cur_node_size LeafNodeCapacity) s2) (\<lambda>(root_leaf_addr, s3).
     res_bind (compute_alloc (en_conf env) (fp_get_size LeafNodeCapacity) (tr_alloc s3)) (\<lambda>(root_fp_addr, da).
     let s4 = write_fp root_fp_addr (fp_set_consistent (en_city env) (fp_zero LeafNodeCapacity)) (s3\<lparr>tr_alloc := da\<rparr>);
         root_leaf_hdr = (new_LeafHeader Gaddr_Null (en_addr env))\<lparr>lf_capacity := int LeafNodeCapacity\<rparr>;
         s5 = write_leaf root_leaf_addr \<lparr>lt_hdr = root_leaf_hdr,
                lt_entries = replicate LeafNodeCapacity entry_zero\<rparr> s4;
         root_node_hdr = (new_InnerHeader (en_addr env) (en_pad env))\<lparr>ih_is_root := True, ih_next_is_leaf := True\<rparr>;
         init_record = new_Record KeyNull root_leaf_addr root_fp_addr (int LeafNodeCapacity) 0;
         node = set_hdr (en_city env) root_node_hdr inner_zero
     in
     res_bind (inner_ins (en_city env) init_record node) (\<lambda>r.
     let node' = (case r of Some n \<Rightarrow> n | None \<Rightarrow> node)
     in cache_insert env (init_record\<lparr>rc_addr := root_inner_addr\<rparr>) node' (write_inner root_inner_addr node' s5)))))"

text \<open>
  The constructor, on the servers' memory as it is: a cache over the client's buffer \<open>buf\<close>, a table
  of new local locks (\<open>u\<close> is what their uninitialised fields hold), and the root; and
  \<open>clear_cache\<close>, which starts with a new cache.
\<close>

definition clear_cache :: "(nat \<Rightarrow> InnerNode) \<Rightarrow> dm_tree \<Rightarrow> dm_tree result" where
  "clear_cache buf s = res_bind (new_DMCache buf) (\<lambda>c. Inr (s\<lparr>tr_cache := c\<rparr>))"

definition new_DMTree ::
  "dm_env \<Rightarrow> (nat \<Rightarrow> InnerNode) \<Rightarrow> (nat \<Rightarrow> bool \<times> ValueType \<times> ValueType) \<Rightarrow> dm_tree \<Rightarrow> dm_tree result" where
  "new_DMTree env buf u s =
     res_bind (new_DMCache buf) (\<lambda>c.
     let locks = (\<lambda>i. case u i of (r, w, b) \<Rightarrow> new_LocalLockNode r w b)
     in init_root_node env (s\<lparr>tr_cache := c, tr_locks := locks\<rparr>))"

end
