(* ===== verification/TreeInv.thy ===== *)
theory TreeInv
  imports TreeOps
begin

text \<open>
  The invariant of the tree and the parts of the proof that do not depend on the operations:
  the partition of the key space into ranges, the records of a node with the upper bound of the
  range of each, and the addresses that allocation has handed out.
\<close>

section \<open>Partitions of the key space\<close>

definition parts :: "('a \<Rightarrow> KeyType) \<Rightarrow> ('a \<Rightarrow> KeyType) \<Rightarrow> 'a set \<Rightarrow> bool" where
  "parts lo hi X \<longleftrightarrow>
     (\<forall>x \<in> X. lo x < hi x \<and> hi x \<le> KeyMax) \<and>
     (\<forall>k. k < KeyMax \<longrightarrow> (\<exists>!x. x \<in> X \<and> lo x \<le> k \<and> k < hi x))"

lemma parts_cover:
  assumes "parts lo hi X" and "k < KeyMax"
  obtains x where "x \<in> X" and "lo x \<le> k" and "k < hi x"
  using assms unfolding parts_def by blast

lemma parts_unique:
  assumes "parts lo hi X" and "x \<in> X" and "y \<in> X" and "lo x \<le> k" and "k < hi x" and "lo y \<le> k" and "k < hi y"
  shows "x = y"
proof -
  have "hi x \<le> KeyMax" using assms(1,2) by (simp add: parts_def)
  then have "k < KeyMax" using assms(5) by simp
  then show ?thesis using assms unfolding parts_def by blast
qed

lemma parts_lo_inject:
  assumes "parts lo hi X" and "x \<in> X" and "y \<in> X" and "lo x = lo y"
  shows "x = y"
proof (rule parts_unique [OF assms(1-3)])
  show "lo x \<le> lo x" "lo x < hi x" "lo y \<le> lo x" "lo x < hi y"
    using assms unfolding parts_def by auto
qed

text \<open>One range is split in two; the left part may be empty and is then left out.\<close>

lemma parts_split:
  assumes P: "parts lo hi X" and x: "x \<in> X" and m: "lo x \<le> m" "m < hi x"
    and Y: "Y = (X - {x}) \<union> (if lo x < m then {a} else {}) \<union> {b}"
    and a: "lo a = lo x" "hi a = m" and b: "lo b = m" "hi b = hi x"
  shows "parts lo hi Y"
  unfolding parts_def
proof (intro conjI ballI allI impI)
  fix y assume "y \<in> Y"
  then consider "y \<in> X" | "y = a" "lo x < m" | "y = b" unfolding Y by (auto split: if_splits)
  then show "lo y < hi y" "hi y \<le> KeyMax"
    using P x m a b unfolding parts_def by (cases; auto)+
next
  fix k assume k: "k < KeyMax"
  obtain z where z: "z \<in> X" "lo z \<le> k" "k < hi z" using parts_cover [OF P k] .
  show "\<exists>!y. y \<in> Y \<and> lo y \<le> k \<and> k < hi y"
  proof (cases "z = x")
    case False
    have out: "k < lo x \<or> hi x \<le> k"
      using parts_unique [OF P z(1) x z(2,3)] False by (meson not_le not_less)
    show ?thesis
    proof (rule ex1I [of _ z])
      show "z \<in> Y \<and> lo z \<le> k \<and> k < hi z" using z False by (simp add: Y)
      fix y assume y: "y \<in> Y \<and> lo y \<le> k \<and> k < hi y"
      then have "y \<noteq> a \<and> y \<noteq> b \<or> y \<in> X" using out a b m by auto
      then have "y \<in> X" using y by (auto simp: Y split: if_splits)
      then show "y = z" using parts_unique [OF P _ z(1), of y k] y z by simp
    qed
  next
    case True
    let ?y = "if k < m then a else b"
    show ?thesis
    proof (rule ex1I [of _ ?y])
      show "?y \<in> Y \<and> lo ?y \<le> k \<and> k < hi ?y" using z True m a b by (auto simp: Y)
      fix y assume y: "y \<in> Y \<and> lo y \<le> k \<and> k < hi y"
      have "y \<notin> X - {x}" using parts_unique [OF P _ x, of y k] y z True by auto
      then have "y = a \<and> lo x < m \<or> y = b" using y by (auto simp: Y split: if_splits)
      then show "y = ?y" using y a b by auto
    qed
  qed
qed

section \<open>The records of a node with their ranges\<close>

definition recs :: "InnerNode \<Rightarrow> Record list" where
  "recs n = filter (\<lambda>r. rc_valid r = 1) (in_record n)"

lemma recs_wf: "inner_wf city n ls \<Longrightarrow> recs n = ls"
  by (auto simp: inner_wf_def recs_def filter_empty_conv)

primrec bounds :: "Record list \<Rightarrow> KeyType \<Rightarrow> (Record \<times> KeyType) list" where
  "bounds [] u = []"
| "bounds (r # rs) u = (r, case rs of [] \<Rightarrow> u | r' # _ \<Rightarrow> rc_key r') # bounds rs u"

lemma bounds_Cons [simp]: "bounds (r # rs) u = (r, if rs = [] then u else rc_key (hd rs)) # bounds rs u"
  by (cases rs) simp_all

declare bounds.simps(2) [simp del]

lemma bounds_append:
  "bounds (as @ bs) u = (if bs = [] then bounds as u else bounds as (rc_key (hd bs)) @ bounds bs u)"
  by (induction as) (auto simp: hd_append)

lemma map_fst_bounds [simp]: "map fst (bounds rs u) = rs"
  by (induction rs) simp_all

lemma set_fst_bounds: "(r, x) \<in> set (bounds rs u) \<Longrightarrow> r \<in> set rs"
  by (metis map_fst_bounds list.set_map fst_conv image_eqI)

lemma bounds_nth:
  assumes "i < length ls"
  shows "(ls ! i, if Suc i < length ls then rc_key (ls ! Suc i) else u) \<in> set (bounds ls u)"
  using assms
proof (induction ls arbitrary: i)
  case Nil
  then show ?case by simp
next
  case (Cons r rs)
  show ?case
  proof (cases i)
    case 0
    then show ?thesis by (cases rs) simp_all
  next
    case (Suc j)
    then show ?thesis using Cons.IH [of j] Cons.prems by (auto split: if_splits)
  qed
qed

text \<open>Search in a node finds the record whose range holds the key.\<close>

lemma inner_find_bounds:
  assumes wf: "inner_wf city n ls" and key: "ih_min_key (in_hdr n) \<le> key" and u: "key < u"
  obtains r x where "inner_find key n = Inr (r, ih_next_is_leaf (in_hdr n))"
    and "(r, x) \<in> set (bounds ls u)" and "rc_key r \<le> key" and "key < x"
proof -
  obtain i where i: "i < length ls" "inner_find key n = Inr (ls ! i, ih_next_is_leaf (in_hdr n))"
    "rc_key (ls ! i) \<le> key" "Suc i < length ls \<longrightarrow> key < rc_key (ls ! Suc i)"
    using inner_find_correct [OF wf key] by blast
  show thesis
    using that [OF i(2) bounds_nth [OF i(1), of u] i(3)] i(4) u by (simp split: if_splits)
qed

text \<open>Adding a record cuts the range of the record before it, or replaces a record.\<close>

lemma bounds_insert_rec:
  assumes "sorted_wrt (<) (map rc_key ls)" and "ls \<noteq> []" and "rc_key (hd ls) \<le> rc_key r"
    and "(q, x) \<in> set (bounds (insert_rec r ls) u)" and "rc_key r < u"
  shows "q = r \<or> (q, x) \<in> set (bounds ls u) \<or> (x = rc_key r \<and> (\<exists>y. (q, y) \<in> set (bounds ls u)))"
  using assms
proof (induction ls)
  case Nil
  then show ?case by simp
next
  case (Cons a as)
  show ?case
  proof (cases "rc_key r = rc_key a")
    case True
    then show ?thesis using Cons.prems by auto
  next
    case False
    then have less: "rc_key a < rc_key r" using Cons.prems(3) by simp
    then have ins: "insert_rec r (a # as) = a # insert_rec r as" by auto
    have ne: "insert_rec r as \<noteq> []" using insert_rec_set(2) [of r as] by auto
    show ?thesis
    proof (cases "as = [] \<or> rc_key r < rc_key (hd as)")
      case True
      then have "insert_rec r as = r # as" by (cases as) auto
      then show ?thesis using Cons.prems(4) ins by auto
    next
      case False
      then have as: "as \<noteq> []" "rc_key (hd as) \<le> rc_key r" by auto
      have "rc_key (hd (insert_rec r as)) = rc_key (hd as)" by (rule insert_rec_hd [OF as])
      then show ?thesis
        using Cons.IH [OF _ as _ Cons.prems(5)] Cons.prems(1,4) ins ne as(1) by auto
    qed
  qed
qed

section \<open>Addresses handed out\<close>

definition addrs_inv :: "DMConf \<Rightarrow> Gaddr set \<Rightarrow> DMAlloc \<Rightarrow> bool" where
  "addrs_inv conf U da \<longleftrightarrow> conf_ok conf \<and> finite U \<and> Gaddr_Null \<notin> U \<and>
     (\<exists>A C. mem_inv conf A da \<and> comp_inv conf C da \<and>
       (\<forall>a \<in> U. if unat (nodeID a) < MemoryNumber conf then (nodeID a, off a) \<in> A
                else (of_nat (MemoryNumber conf), off a) \<in> C))"

lemma off_Null: "off Gaddr_Null = 0"
  by (simp add: off_def Gaddr_Null_def)

lemma block_start: "0 < n \<Longrightarrow> (nodeID a, off a) \<in> block a n"
  by (simp add: block_def)

lemma comp_block_start: "0 < n \<Longrightarrow> (of_nat (MemoryNumber conf), off a) \<in> comp_block conf a n"
  by (simp add: comp_block_def block_def off_def)

lemma addrs_memory:
  assumes inv: "addrs_inv conf U da" and n: "0 < n" "n \<le> kChunkSize" and eq: "memory_alloc conf n da = Inr (a, da')"
  shows "a \<notin> U" and "a \<noteq> Gaddr_Null" and "addrs_inv conf (insert a U) da'"
proof -
  obtain A C where AC: "conf_ok conf" "Gaddr_Null \<notin> U" "mem_inv conf A da" "comp_inv conf C da" and fin: "finite U"
    and U: "\<And>a. a \<in> U \<Longrightarrow> if unat (nodeID a) < MemoryNumber conf then (nodeID a, off a) \<in> A
                else (of_nat (MemoryNumber conf), off a) \<in> C"
    using inv unfolding addrs_inv_def by blast
  note M = memory_alloc_ok [OF AC(1,3) n eq]
  show "a \<notin> U" using U [of a] M(2,3) block_start [OF n(1), of a] by auto
  show null: "a \<noteq> Gaddr_Null" using M(4) off_Null by (auto simp: dm_sizes)
  have "comp_inv conf C da'" by (rule comp_inv_frame [OF AC(4) M(5)])
  moreover have "if unat (nodeID b) < MemoryNumber conf then (nodeID b, off b) \<in> A \<union> block a n
      else (of_nat (MemoryNumber conf), off b) \<in> C" if "b \<in> insert a U" for b
    using that U [of b] M(3) block_start [OF n(1), of a] by auto
  ultimately show "addrs_inv conf (insert a U) da'"
    using AC(1,2) M(1) null fin unfolding addrs_inv_def by blast
qed

lemma addrs_compute:
  assumes inv: "addrs_inv conf U da" and n: "0 < n" "n \<le> kChunkSize" and eq: "compute_alloc conf n da = Inr (a, da')"
  shows "a \<notin> U" and "a \<noteq> Gaddr_Null" and "addrs_inv conf (insert a U) da'"
proof -
  obtain A C where AC: "conf_ok conf" "Gaddr_Null \<notin> U" "mem_inv conf A da" "comp_inv conf C da" and fin: "finite U"
    and U: "\<And>a. a \<in> U \<Longrightarrow> if unat (nodeID a) < MemoryNumber conf then (nodeID a, off a) \<in> A
                else (of_nat (MemoryNumber conf), off a) \<in> C"
    using inv unfolding addrs_inv_def by blast
  note K = compute_alloc_ok [OF AC(1,3,4) n eq]
  show "a \<notin> U"
    using U [of a] K block_start [OF n(1), of a] comp_block_start [OF n(1), of conf a] by (auto split: if_splits)
  show null: "a \<noteq> Gaddr_Null" using K off_Null by (auto simp: dm_sizes)
  show "addrs_inv conf (insert a U) da'"
  proof (cases "unat (nodeID a) < MemoryNumber conf")
    case True
    then obtain C' where C': "C \<subseteq> C'" "comp_inv conf C' da'" and mi: "mem_inv conf (A \<union> block a n) da'"
      using K by auto
    have "if unat (nodeID b) < MemoryNumber conf then (nodeID b, off b) \<in> A \<union> block a n
        else (of_nat (MemoryNumber conf), off b) \<in> C'" if "b \<in> insert a U" for b
      using that U [of b] True C'(1) block_start [OF n(1), of a] by auto
    then show ?thesis using AC(1,2) mi C'(2) null fin unfolding addrs_inv_def by blast
  next
    case False
    then have ci: "comp_inv conf (C \<union> comp_block conf a n) da'" and mi: "mem_inv conf A da'" using K by auto
    have "if unat (nodeID b) < MemoryNumber conf then (nodeID b, off b) \<in> A
        else (of_nat (MemoryNumber conf), off b) \<in> C \<union> comp_block conf a n" if "b \<in> insert a U" for b
      using that U [of b] False comp_block_start [OF n(1), of conf a] by auto
    then show ?thesis using AC(1,2) mi ci null fin unfolding addrs_inv_def by blast
  qed
qed

text \<open>The only way an allocation fails is a directory without a free chunk.\<close>

definition no_chunk :: error where "no_chunk = AssertFail ''false''"

lemma rpc_malloc_error: "rpc_malloc conf n d da = Inl e \<Longrightarrow> e = no_chunk"
  by (auto simp: rpc_malloc_def process_message_def alloc_chunck_def no_chunk_def Let_def res_bind_eq_Inl
      split: if_splits option.splits)

lemma memory_alloc_error: "memory_alloc conf n da = Inl e \<Longrightarrow> e = no_chunk"
  by (auto simp: memory_alloc_def Let_def res_bind_eq_Inl split: prod.splits if_splits dest: rpc_malloc_error)
    (metis prod_cases3)

lemma compute_alloc_error: "compute_alloc conf n da = Inl e \<Longrightarrow> e = no_chunk"
  by (auto simp: compute_alloc_def compute_step_def Let_def res_bind_eq_Inl
      split: prod.splits if_splits dest: rpc_malloc_error memory_alloc_error)
    (metis prod_cases3)

section \<open>The invariant\<close>

text \<open>
  The ghosts of the invariant: \<open>N l\<close> are the inner nodes of level \<open>l\<close> with their key ranges (level 0
  points to leaves, level \<open>h\<close> holds the root), \<open>R\<close> the records of the leaves in use with the upper
  bounds of their ranges, \<open>Q\<close> the addresses of all leaves with those of their fingerprint tables,
  and \<open>P l\<close> the records whose insertion at level \<open>l\<close> is under way.
\<close>

type_synonym range_node = "KeyType \<times> Gaddr \<times> KeyType"

text \<open>Leaves.\<close>

definition pair_ok :: "(u8 list \<Rightarrow> u32) \<Rightarrow> dm_tree \<Rightarrow> Gaddr \<times> Gaddr \<Rightarrow> bool" where
  "pair_ok city s = (\<lambda>(a, f).
     \<exists>lt ft. tr_leaf s a = Some lt \<and> tr_fp s f = Some ft \<and> leaf_wf city lt ft \<and> ft_lock ft = 0 \<and>
       length (lt_entries lt) \<in> {32, 64, 128})"

definition leaf_at :: "(Gaddr \<times> Gaddr) set \<Rightarrow> dm_tree \<Rightarrow> Record \<times> KeyType \<Rightarrow> bool" where
  "leaf_at Q s = (\<lambda>(r, u). (rc_addr r, rc_fp_addr r) \<in> Q \<and> rc_valid r = 1 \<and>
     (\<exists>lt. tr_leaf s (rc_addr r) = Some lt \<and> lf_min_key (lt_hdr lt) = rc_key r \<and> lf_max_key (lt_hdr lt) = u \<and>
       rc_capacity r = int (length (lt_entries lt)) \<and> rc_version r = of_int (lf_version (lt_hdr lt))))"

definition leaf_inv ::
  "(u8 list \<Rightarrow> u32) \<Rightarrow> (Record \<times> KeyType) set \<Rightarrow> (Gaddr \<times> Gaddr) set \<Rightarrow> dm_tree \<Rightarrow> bool" where
  "leaf_inv city R Q s \<longleftrightarrow>
     parts (rc_key \<circ> fst) snd R \<and> inj_on fst Q \<and> inj_on snd Q \<and>
     (\<forall>q \<in> Q. pair_ok city s q) \<and> (\<forall>p \<in> R. leaf_at Q s p)"

text \<open>
  A record in a copy of a bottom node: its leaf is there with the capacity it says, and while the
  versions agree the record is up to date.
\<close>

definition rec_copy :: "(Record \<times> KeyType) set \<Rightarrow> (Gaddr \<times> Gaddr) set \<Rightarrow> dm_tree \<Rightarrow> Record \<times> KeyType \<Rightarrow> bool" where
  "rec_copy R Q s = (\<lambda>(r, u). (rc_addr r, rc_fp_addr r) \<in> Q \<and>
     (\<exists>lt v. tr_leaf s (rc_addr r) = Some lt \<and> rc_capacity r = int (length (lt_entries lt)) \<and>
        rc_version r = of_int v \<and> 0 \<le> v \<and> v \<le> lf_version (lt_hdr lt) \<and>
        (v = lf_version (lt_hdr lt) \<longrightarrow> (r, u) \<in> R)))"

definition node_copy ::
  "(u8 list \<Rightarrow> u32) \<Rightarrow> (Record \<times> KeyType) set \<Rightarrow> (Gaddr \<times> Gaddr) set \<Rightarrow> dm_tree \<Rightarrow> InnerNode \<Rightarrow> bool" where
  "node_copy city R Q s n \<longleftrightarrow> inner_wf city n (recs n) \<and> ih_next_is_leaf (in_hdr n) \<and>
     (\<forall>p \<in> set (bounds (recs n) (ih_max_key (in_hdr n))). rec_copy R Q s p)"

text \<open>
  Inner nodes. A record of level \<open>l\<close> with upper bound \<open>u\<close> points to a \<open>child\<close>. The links of a node
  are those of its records once the records \<open>ps\<close> under way are in; the last one decides which
  node they go to.
\<close>

definition child :: "(nat \<Rightarrow> range_node set) \<Rightarrow> (Record \<times> KeyType) set \<Rightarrow> nat \<Rightarrow> Record \<times> KeyType \<Rightarrow> bool" where
  "child N R l = (\<lambda>(r, u). if l = 0 then (r, u) \<in> R else (rc_key r, rc_addr r, u) \<in> N (l - 1))"

definition virt :: "Record list \<Rightarrow> InnerNode \<Rightarrow> Record list" where
  "virt ps n = (if ps \<noteq> [] \<and> check_hdr (rc_key (last ps)) n then fold insert_rec ps (recs n) else recs n)"

definition node_ok ::
  "(u8 list \<Rightarrow> u32) \<Rightarrow> range_node set \<Rightarrow> Gaddr \<Rightarrow> nat \<Rightarrow> range_node \<Rightarrow> InnerNode \<Rightarrow> bool" where
  "node_ok city Nl root l = (\<lambda>(lo, a, hi) n.
     inner_wf city n (recs n) \<and> in_lock n = 0 \<and> ih_min_key (in_hdr n) = lo \<and> ih_max_key (in_hdr n) = hi \<and>
     ih_next_is_leaf (in_hdr n) = (l = 0) \<and> ih_is_root (in_hdr n) = (a = root) \<and>
     (hi < KeyMax \<longrightarrow> (\<exists>hi'. (hi, ih_right_addr (in_hdr n), hi') \<in> Nl)))"

definition node_at ::
  "(u8 list \<Rightarrow> u32) \<Rightarrow> (nat \<Rightarrow> range_node set) \<Rightarrow> (nat \<Rightarrow> Record list) \<Rightarrow> (Record \<times> KeyType) set \<Rightarrow>
     (Gaddr \<rightharpoonup> InnerNode) \<Rightarrow> Gaddr \<Rightarrow> nat \<Rightarrow> range_node \<Rightarrow> bool" where
  "node_at city N P R inner root l = (\<lambda>(lo, a, hi).
     \<exists>n. inner a = Some n \<and> node_ok city (N l) root l (lo, a, hi) n \<and>
       (\<forall>p \<in> set (bounds (virt (P l) n) hi). child N R l p))"

definition levels ::
  "(u8 list \<Rightarrow> u32) \<Rightarrow> (nat \<Rightarrow> range_node set) \<Rightarrow> (nat \<Rightarrow> Record list) \<Rightarrow> (Record \<times> KeyType) set \<Rightarrow>
     (Gaddr \<rightharpoonup> InnerNode) \<Rightarrow> Gaddr \<Rightarrow> bool" where
  "levels city N P R inner root \<longleftrightarrow>
     (\<forall>l. finite (N l)) \<and> (\<forall>l m x y. l \<noteq> m \<and> x \<in> N l \<and> y \<in> N m \<longrightarrow> fst (snd x) \<noteq> fst (snd y)) \<and>
     (\<forall>l. \<forall>x \<in> N l. node_at city N P R inner root l x)"

definition inner_inv ::
  "(u8 list \<Rightarrow> u32) \<Rightarrow> nat \<Rightarrow> (nat \<Rightarrow> range_node set) \<Rightarrow> (nat \<Rightarrow> Record list) \<Rightarrow> (Record \<times> KeyType) set \<Rightarrow>
     dm_tree \<Rightarrow> bool" where
  "inner_inv city h N P R s \<longleftrightarrow>
     (\<forall>l. l \<le> h \<longrightarrow> parts fst (snd \<circ> snd) (N l)) \<and> (\<forall>l. h < l \<longrightarrow> N l = {}) \<and>
     N h = {(KeyNull, tr_root s, KeyMax)} \<and> levels city N P R (tr_inner s) (tr_root s)"

text \<open>The client: copies of bottom nodes in its cache, the root address it remembers, its allocator.\<close>

definition cache_ok ::
  "(u8 list \<Rightarrow> u32) \<Rightarrow> range_node set \<Rightarrow> (Record \<times> KeyType) set \<Rightarrow> (Gaddr \<times> Gaddr) set \<Rightarrow> dm_tree \<Rightarrow> DMCache \<Rightarrow> bool" where
  "cache_ok city N0 R Q s c \<longleftrightarrow> cache_inv c \<and>
     (\<forall>e \<in> set (dc_skiplist c). (\<exists>hi. (ce_key e, ce_remote_addr e, hi) \<in> N0) \<and>
        (\<forall>p. ce_node e = Some p \<longrightarrow> node_copy city R Q s (dc_buf c p)))"

definition client_inv ::
  "dm_env \<Rightarrow> (nat \<Rightarrow> range_node set) \<Rightarrow> (Record \<times> KeyType) set \<Rightarrow> (Gaddr \<times> Gaddr) set \<Rightarrow> dm_tree \<Rightarrow> bool" where
  "client_inv env N R Q s \<longleftrightarrow>
     cache_ok (en_city env) (N 0) R Q s (tr_cache s) \<and>
     (\<forall>lo a hi n. (lo, a, hi) \<in> N 0 \<and> tr_inner s a = Some n \<longrightarrow> node_copy (en_city env) R Q s n) \<and>
     (tr_local_root s = Gaddr_Null \<or> (\<exists>l lo hi. (lo, tr_local_root s, hi) \<in> N l)) \<and>
     tr_glock s = 0 \<and>
     addrs_inv (en_conf env) (dom (tr_inner s) \<union> dom (tr_leaf s) \<union> dom (tr_fp s)) (tr_alloc s)"

text \<open>The RDMA buffer of the client is set up, with cursors in range.\<close>

definition rbuf_ok :: "dm_tree \<Rightarrow> bool" where
  "rbuf_ok s \<longleftrightarrow> (\<exists>b. rb_wf b (tr_rbuf s))"

lemma next_buffer_simps [simp]:
  "tr_inner (next_page s) = tr_inner s" "tr_leaf (next_page s) = tr_leaf s" "tr_fp (next_page s) = tr_fp s"
  "tr_root (next_page s) = tr_root s" "tr_glock (next_page s) = tr_glock s" "tr_alloc (next_page s) = tr_alloc s"
  "tr_locks (next_page s) = tr_locks s" "tr_cache (next_page s) = tr_cache s"
  "tr_local_root (next_page s) = tr_local_root s" "tr_path (next_page s) = tr_path s"
  "tr_node (next_page s) = tr_node s" "tr_local_fp (next_page s) = tr_local_fp s"
  "tr_inner (next_sibling s) = tr_inner s" "tr_leaf (next_sibling s) = tr_leaf s" "tr_fp (next_sibling s) = tr_fp s"
  "tr_root (next_sibling s) = tr_root s" "tr_glock (next_sibling s) = tr_glock s" "tr_alloc (next_sibling s) = tr_alloc s"
  "tr_locks (next_sibling s) = tr_locks s" "tr_cache (next_sibling s) = tr_cache s"
  "tr_local_root (next_sibling s) = tr_local_root s" "tr_path (next_sibling s) = tr_path s"
  by (simp_all add: next_page_def next_sibling_def)

lemma rbuf_ok_next [simp]: "rbuf_ok s \<Longrightarrow> rbuf_ok (next_page s)" "rbuf_ok s \<Longrightarrow> rbuf_ok (next_sibling s)"
  by (auto simp: rbuf_ok_def next_page_def next_sibling_def intro: rb_wf_step)

lemma rbuf_ok_frame [simp]:
  "rbuf_ok (s\<lparr>tr_inner := x1\<rparr>) = rbuf_ok s" "rbuf_ok (s\<lparr>tr_leaf := x2\<rparr>) = rbuf_ok s"
  "rbuf_ok (s\<lparr>tr_fp := x3\<rparr>) = rbuf_ok s" "rbuf_ok (s\<lparr>tr_root := x4\<rparr>) = rbuf_ok s"
  "rbuf_ok (s\<lparr>tr_glock := x5\<rparr>) = rbuf_ok s" "rbuf_ok (s\<lparr>tr_alloc := x6\<rparr>) = rbuf_ok s"
  "rbuf_ok (s\<lparr>tr_local_root := x7\<rparr>) = rbuf_ok s" "rbuf_ok (s\<lparr>tr_path := x8\<rparr>) = rbuf_ok s"
  "rbuf_ok (s\<lparr>tr_node := x9\<rparr>) = rbuf_ok s" "rbuf_ok (s\<lparr>tr_cache := x10\<rparr>) = rbuf_ok s"
  "rbuf_ok (s\<lparr>tr_locks := x11\<rparr>) = rbuf_ok s" "rbuf_ok (s\<lparr>tr_local_fp := x12\<rparr>) = rbuf_ok s"
  by (simp_all add: rbuf_ok_def)

definition tree_inv ::
  "dm_env \<Rightarrow> nat \<Rightarrow> (nat \<Rightarrow> range_node set) \<Rightarrow> (nat \<Rightarrow> Record list) \<Rightarrow> (Record \<times> KeyType) set \<Rightarrow>
     (Gaddr \<times> Gaddr) set \<Rightarrow> dm_tree \<Rightarrow> bool" where
  "tree_inv env h N P R Q s \<longleftrightarrow>
     inner_inv (en_city env) h N P R s \<and> leaf_inv (en_city env) R Q s \<and> client_inv env N R Q s \<and> rbuf_ok s"

section \<open>Steps that leave the servers' memory alone\<close>

definition same_mem :: "dm_tree \<Rightarrow> dm_tree \<Rightarrow> bool" where
  "same_mem s s' \<longleftrightarrow> tr_inner s' = tr_inner s \<and> tr_leaf s' = tr_leaf s \<and> tr_fp s' = tr_fp s \<and>
     tr_root s' = tr_root s \<and> tr_glock s' = tr_glock s \<and> tr_alloc s' = tr_alloc s \<and> tr_locks s' = tr_locks s \<and>
     (rbuf_ok s \<longrightarrow> rbuf_ok s')"

lemma same_mem_refl [simp]: "same_mem s s"
  by (simp add: same_mem_def)

lemma same_mem_trans: "same_mem s s' \<Longrightarrow> same_mem s' s'' \<Longrightarrow> same_mem s s''"
  by (simp add: same_mem_def)

lemma same_mem_inv:
  assumes "same_mem s s'"
  shows "inner_inv city h N P R s' = inner_inv city h N P R s" and "leaf_inv city R Q s' = leaf_inv city R Q s"
    and "node_copy city R Q s' n = node_copy city R Q s n" and "cache_ok city N0 R Q s' c = cache_ok city N0 R Q s c"
  using assms
  by (simp_all add: same_mem_def inner_inv_def leaf_inv_def pair_ok_def leaf_at_def node_copy_def
      rec_copy_def cache_ok_def case_prod_unfold)

lemma tree_inv_client:
  assumes inv: "tree_inv env h N P R Q s" and mem: "same_mem s s'"
    and c: "cache_ok (en_city env) (N 0) R Q s (tr_cache s')"
    and r: "tr_local_root s' = Gaddr_Null \<or> (\<exists>l lo hi. (lo, tr_local_root s', hi) \<in> N l)"
  shows "tree_inv env h N P R Q s'"
  using inv c r same_mem_inv [OF mem] mem unfolding tree_inv_def client_inv_def by (simp add: same_mem_def)

lemma same_mem_next_page [simp]: "same_mem s (next_page s)"
  by (simp add: same_mem_def)

text \<open>The common case: the path, the node buffer, the local tables or the locks change.\<close>

lemma tree_inv_frame:
  assumes inv: "tree_inv env h N P R Q s" and mem: "same_mem s s'"
    and "tr_cache s' = tr_cache s" and "tr_local_root s' = tr_local_root s"
  shows "tree_inv env h N P R Q s'"
  using tree_inv_client [OF inv mem] inv assms(3,4) by (simp add: tree_inv_def client_inv_def)

lemma tree_inv_next_page: "tree_inv env h N P R Q s \<Longrightarrow> tree_inv env h N P R Q (next_page s)"
  by (rule tree_inv_frame [of env h N P R Q s]) simp_all

lemma next_page_update:
  "next_page (s\<lparr>tr_node := n, tr_local_root := a, tr_path := q\<rparr>) =
     (next_page s)\<lparr>tr_node := n, tr_local_root := a, tr_path := q\<rparr>"
  by (simp add: next_page_def)

lemma cache_ok_shrinks:
  assumes "cache_ok city N0 R Q s c" and "shrinks c c'" and "cache_inv c'"
  shows "cache_ok city N0 R Q s c'"
  unfolding cache_ok_def
proof (intro conjI ballI allI impI)
  show "cache_inv c'" by fact
  fix e' assume "e' \<in> set (dc_skiplist c')"
  then obtain e where e: "e \<in> set (dc_skiplist c)" "ce_key e' = ce_key e" "ce_remote_addr e' = ce_remote_addr e"
    "ce_node e' = None \<or> ce_node e' = ce_node e"
    using assms(2) unfolding shrinks_def by blast
  show "\<exists>hi. (ce_key e', ce_remote_addr e', hi) \<in> N0" using assms(1) e unfolding cache_ok_def by simp
  show "node_copy city R Q s (dc_buf c' p)" if "ce_node e' = Some p" for p
    using assms(1,2) e that unfolding cache_ok_def shrinks_def by auto
qed

lemma cache_ok_insert:
  assumes ok: "cache_ok city N0 R Q s c" and key: "ih_min_key (in_hdr n) = rc_key r"
    and at: "(rc_key r, rc_addr r, hi) \<in> N0" and copy: "node_copy city R Q s n"
  obtains b c' where "insert_cache r n c = Inr (b, c')" and "cache_ok city N0 R Q s c'"
proof -
  obtain b c' where c': "insert_cache r n c = Inr (b, c')" "cache_inv c'" "extends r n c c'"
    using insert_cache_correct [OF _ key, of c] ok unfolding cache_ok_def by blast
  have "cache_ok city N0 R Q s c'"
    unfolding cache_ok_def
  proof (intro conjI ballI allI impI)
    show "cache_inv c'" by fact
    fix e' assume e': "e' \<in> set (dc_skiplist c')"
    then consider e where "e \<in> set (dc_skiplist c)" "ce_key e' = ce_key e" "ce_remote_addr e' = ce_remote_addr e"
      | "ce_key e' = rc_key r" "ce_remote_addr e' = rc_addr r"
      using c'(3) unfolding extends_def by blast
    then show "\<exists>hi. (ce_key e', ce_remote_addr e', hi) \<in> N0"
      using ok at unfolding cache_ok_def by cases auto
    show "node_copy city R Q s (dc_buf c' p)" if node: "ce_node e' = Some p" for p
    proof -
      consider e where "e \<in> set (dc_skiplist c)" "ce_node e = Some p" "dc_buf c' p = dc_buf c p" | "dc_buf c' p = n"
        using c'(3) e' node unfolding extends_def by blast
      then show ?thesis using ok copy unfolding cache_ok_def by cases auto
    qed
  qed
  then show thesis using that c'(1) by blast
qed

end
