(* ===== verification/TreeSearch.thy ===== *)
theory TreeSearch
  imports TreeInv
begin

text \<open>
  The search through the inner index keeps the invariant and finds the record of the leaf: from
  the root in as many rounds as the tree has levels, never moving to the right; from a cached
  parent, moving to the right along the bottom level.
\<close>

section \<open>What the invariant says of one node\<close>

lemma level_le:
  assumes "inner_inv city h N P R s" and "x \<in> N l"
  shows "l \<le> h"
proof (rule ccontr)
  assume "\<not> l \<le> h"
  then show False using assms by (simp add: inner_inv_def)
qed

lemma level_parts:
  assumes "inner_inv city h N P R s" and "l \<le> h"
  shows "parts fst (snd \<circ> snd) (N l)"
  using assms unfolding inner_inv_def by blast

lemma node_range:
  assumes "inner_inv city h N P R s" and "(lo, a, hi) \<in> N l"
  shows "lo < hi" and "hi \<le> KeyMax"
  using level_parts [OF assms(1) level_le [OF assms]] assms(2) unfolding parts_def by auto

lemma node_unique:
  assumes "inner_inv city h N P R s" and "(lo, a, hi) \<in> N l" and "(lo', a', hi') \<in> N l"
    and "lo \<le> k" "k < hi" "lo' \<le> k" "k < hi'"
  shows "lo' = lo" and "a' = a" and "hi' = hi"
  using parts_unique [OF level_parts [OF assms(1) level_le [OF assms(1,2)]] assms(2,3), of k] assms(4-) by auto

lemma node_cover:
  assumes "inner_inv city h N P R s" and "l \<le> h" and "k < KeyMax"
  obtains lo a hi where "(lo, a, hi) \<in> N l" and "lo \<le> k" and "k < hi"
proof -
  obtain x where "x \<in> N l" "fst x \<le> k" "k < (snd \<circ> snd) x"
    using parts_cover [OF level_parts [OF assms(1,2)] assms(3)] by blast
  then show thesis using that [of "fst x" "fst (snd x)" "snd (snd x)"] by simp
qed

lemma node_exists:
  assumes "inner_inv city h N P R s" and "(lo, a, hi) \<in> N l"
  obtains n where "tr_inner s a = Some n"
proof -
  have "node_at city N P R (tr_inner s) (tr_root s) l (lo, a, hi)" using assms by (simp add: inner_inv_def levels_def)
  then show thesis using that unfolding node_at_def by blast
qed

lemma node_facts:
  assumes "inner_inv city h N P R s" and "(lo, a, hi) \<in> N l" and n: "tr_inner s a = Some n"
  shows "inner_wf city n (recs n)" and "in_lock n = 0"
    and "ih_min_key (in_hdr n) = lo" and "ih_max_key (in_hdr n) = hi" and "ih_next_is_leaf (in_hdr n) = (l = 0)"
    and "ih_is_root (in_hdr n) = (a = tr_root s)"
    and "hi < KeyMax \<Longrightarrow> \<exists>hi'. (hi, ih_right_addr (in_hdr n), hi') \<in> N l"
    and "p \<in> set (bounds (virt (P l) n) hi) \<Longrightarrow> child N R l p"
proof -
  have "node_at city N P R (tr_inner s) (tr_root s) l (lo, a, hi)" using assms by (simp add: inner_inv_def levels_def)
  then have *: "node_ok city (N l) (tr_root s) l (lo, a, hi) n"
    "\<forall>p \<in> set (bounds (virt (P l) n) hi). child N R l p"
    using n by (simp_all add: node_at_def)
  then show "inner_wf city n (recs n)" "in_lock n = 0" "ih_min_key (in_hdr n) = lo" "ih_max_key (in_hdr n) = hi"
    "ih_next_is_leaf (in_hdr n) = (l = 0)" "ih_is_root (in_hdr n) = (a = tr_root s)"
    by (simp_all add: node_ok_def)
  show "\<exists>hi'. (hi, ih_right_addr (in_hdr n), hi') \<in> N l" if "hi < KeyMax" using * that by (simp add: node_ok_def)
  show "child N R l p" if "p \<in> set (bounds (virt (P l) n) hi)" using * that by blast
qed

lemma root_level:
  assumes inv: "inner_inv city h N P R s" and x: "(lo, a, hi) \<in> N l"
  shows "a = tr_root s \<longleftrightarrow> l = h"
proof
  have root: "(KeyNull, tr_root s, KeyMax) \<in> N h" using inv by (simp add: inner_inv_def)
  show "l = h" if "a = tr_root s"
    using inv root x that unfolding inner_inv_def levels_def by (metis fst_conv snd_conv)
  show "a = tr_root s" if "l = h"
    using inv x that unfolding inner_inv_def by simp
qed

lemma wf_consistent: "inner_wf city n ls \<Longrightarrow> inner_check_consistent city n"
  by (simp add: inner_wf_def)

lemma virt_Nil [simp]: "virt [] n = recs n"
  by (simp add: virt_def)

lemma bounds_range:
  assumes "inner_wf city n ls" and "(r, x) \<in> set (bounds ls (ih_max_key (in_hdr n)))"
  shows "ih_min_key (in_hdr n) \<le> rc_key r" and "rc_key r < x" and "x \<le> ih_max_key (in_hdr n)"
proof -
  have *: "\<lbrakk>sorted_wrt (<) (map rc_key ls); ls \<noteq> []; \<forall>r \<in> set ls. rc_key r < u; (r, x) \<in> set (bounds ls u)\<rbrakk> \<Longrightarrow>
      rc_key (hd ls) \<le> rc_key r \<and> rc_key r < x \<and> x \<le> u" for ls u
  proof (induction ls)
    case Nil
    then show ?case by simp
  next
    case (Cons b bs)
    show ?case
    proof (cases "bs = []")
      case True
      then show ?thesis using Cons.prems by auto
    next
      case False
      then have hd: "rc_key b < rc_key (hd bs)" "rc_key (hd bs) < u" using Cons.prems by (cases bs; simp)+
      consider "(r, x) = (b, rc_key (hd bs))" | "(r, x) \<in> set (bounds bs u)" using Cons.prems(4) False by auto
      then show ?thesis
      proof cases
        case 1
        then show ?thesis using hd by simp
      next
        case 2
        then show ?thesis using Cons.IH [OF _ False] Cons.prems(1,3) hd by force
      qed
    qed
  qed
  have "rc_key (hd ls) = ih_min_key (in_hdr n)" using assms(1) by (simp add: inner_wf_def)
  then show "ih_min_key (in_hdr n) \<le> rc_key r" "rc_key r < x" "x \<le> ih_max_key (in_hdr n)"
    using * [OF _ _ _ assms(2)] assms(1) by (auto simp: inner_wf_def)
qed

text \<open>The node of the next level down that covers a key is the child its record points to.\<close>

lemma parent_covers:
  assumes inv: "inner_inv city h N P R s" and pend: "P (Suc l) = []"
    and m: "(lo', m, hi') \<in> N (Suc l)" "lo' \<le> key" "key < hi'" and x: "(lo, a, hi) \<in> N l" "lo \<le> key" "key < hi"
    and n: "tr_inner s m = Some n"
  obtains r where "inner_find key n = Inr (r, False)" and "(r, hi) \<in> set (bounds (recs n) hi')"
    and "rc_key r = lo" and "rc_addr r = a" and "lo' \<le> lo" and "hi \<le> hi'"
proof -
  note n' = node_facts [OF inv m(1) n]
  obtain r y where r: "inner_find key n = Inr (r, ih_next_is_leaf (in_hdr n))" "(r, y) \<in> set (bounds (recs n) hi')"
    "rc_key r \<le> key" "key < y"
    using inner_find_bounds [of city n "recs n" key hi'] n'(1,3) m(2,3) by auto
  have "(rc_key r, rc_addr r, y) \<in> N l" using n'(8) [of "(r, y)"] r(2) pend by (simp add: child_def)
  from node_unique [OF inv x(1) this x(2,3) r(3,4)] have eq: "rc_key r = lo" "rc_addr r = a" "y = hi" by auto
  have "lo' \<le> lo" "hi \<le> hi'" using bounds_range [OF n'(1), of r y] n'(3,4) r(2) eq by auto
  then show thesis using that r(1,2) n'(5) eq by simp
qed

section \<open>From the root\<close>

lemma tree_inv_inner: "tree_inv env h N P R Q s \<Longrightarrow> inner_inv (en_city env) h N P R s"
  by (simp add: tree_inv_def)

lemma addr_not_null:
  assumes inv: "tree_inv env h N P R Q s" and "(lo, a, hi) \<in> N l"
  shows "a \<noteq> Gaddr_Null"
proof -
  obtain n where "tr_inner s a = Some n" by (rule node_exists [OF tree_inv_inner [OF inv] assms(2)])
  moreover have "Gaddr_Null \<notin> dom (tr_inner s)" using inv by (simp add: tree_inv_def client_inv_def addrs_inv_def)
  ultimately show ?thesis by auto
qed

lemma root_node: "tree_inv env h N P R Q s \<Longrightarrow> (KeyNull, tr_root s, KeyMax) \<in> N h"
  by (simp add: tree_inv_def inner_inv_def)

lemma get_root_addr_null:
  assumes inv: "tree_inv env h N P R Q s" and "tr_local_root s = Gaddr_Null"
  shows "get_root_addr s = Inr (tr_root s, s\<lparr>tr_local_root := tr_root s\<rparr>)"
  using addr_not_null [OF inv root_node [OF inv]] assms(2) by (simp add: get_root_addr_def Let_def)

lemma cache_insert_ok:
  assumes inv: "tree_inv env h N P R Q s" and x: "(rc_key r, rc_addr r, hi) \<in> N 0" and n: "tr_inner s (rc_addr r) = Some n"
  obtains c where "cache_insert env r n s = Inr (s\<lparr>tr_cache := c\<rparr>)"
    and "tree_inv env h N P R Q (s\<lparr>tr_cache := c\<rparr>)"
proof -
  have ok: "cache_ok (en_city env) (N 0) R Q s (tr_cache s)" "node_copy (en_city env) R Q s n"
    using inv x n unfolding tree_inv_def client_inv_def by blast+
  have "ih_min_key (in_hdr n) = rc_key r" by (rule node_facts(3) [OF tree_inv_inner [OF inv] x n])
  from cache_ok_insert [OF ok(1) this x ok(2)] obtain b c
    where c: "insert_cache r n (tr_cache s) = Inr (b, c)" "cache_ok (en_city env) (N 0) R Q s c" .
  have "cache_insert env r n s = Inr (s\<lparr>tr_cache := c\<rparr>)" using c(1) by (simp add: cache_insert_def)
  moreover have "tree_inv env h N P R Q (s\<lparr>tr_cache := c\<rparr>)"
    by (rule tree_inv_client [OF inv]) (use c(2) inv in \<open>simp_all add: same_mem_def tree_inv_def client_inv_def\<close>)
  ultimately show thesis using that by blast
qed

lemma inner_search_step:
  assumes inv: "tree_inv env h N P R Q s" and x: "(lo, a, hi) \<in> N l" "lo \<le> key" "key < hi"
    and path: "tr_path s \<noteq> []" "rc_key (last (tr_path s)) = lo" "rc_addr (last (tr_path s)) = a"
    and root: "length (tr_path s) = 1 \<Longrightarrow> l = h"
  obtains n r s' where "\<forall>f rec. inner_search (Suc f) env a key rec s = Inr (True, r, l = 0, s')"
    and "tree_inv env h N P R Q s'" and "same_mem s s'" and "tr_path s' = tr_path s"
    and "tr_inner s a = Some n" and "inner_find key n = Inr (r, l = 0)"
proof -
  note inner = tree_inv_inner [OF inv]
  obtain n where n: "tr_inner s a = Some n" by (rule node_exists [OF inner x(1)])
  note nf = node_facts [OF inner x(1) n]
  obtain r y where r: "inner_find key n = Inr (r, l = 0)"
    using inner_find_bounds [OF nf(1), of key hi] nf(3,5) x(2,3) by auto
  let ?s1 = "s\<lparr>tr_node := n\<rparr>"
  have inv1: "tree_inv env h N P R Q ?s1" by (rule tree_inv_frame [OF inv]) (simp_all add: same_mem_def)
  have base: "inner_search (Suc f) env a key rec s =
      res_bind (if use_cache_mark env \<and> l = 0 then cache_insert env (last (tr_path s)) n ?s1 else Inr ?s1)
        (\<lambda>s2. Inr (True, r, l = 0, s2))" for f rec
    using n r nf(3,4,6) x root root_level [OF inner x(1)] wf_consistent [OF nf(1)]
    by (auto simp: read_inner_def Let_def check_hdr_def)
  show thesis
  proof (cases "use_cache_mark env \<and> l = 0")
    case True
    have "(rc_key (last (tr_path s)), rc_addr (last (tr_path s)), hi) \<in> N 0" using x(1) path True by simp
    from cache_insert_ok [OF inv1 this, of n] n path(3) obtain c where
      "cache_insert env (last (tr_path s)) n ?s1 = Inr (?s1\<lparr>tr_cache := c\<rparr>)" "tree_inv env h N P R Q (?s1\<lparr>tr_cache := c\<rparr>)"
      by auto
    then show thesis using base True n r by (intro that [of r "?s1\<lparr>tr_cache := c\<rparr>" n]) (simp_all add: same_mem_def)
  next
    case False
    then show thesis using base inv1 n r by (intro that [of r ?s1 n]) (auto simp: same_mem_def)
  qed
qed

text \<open>A path lists nodes that cover the key, from the root down to level \<open>l\<close>.\<close>

definition on_path :: "(nat \<Rightarrow> range_node set) \<Rightarrow> nat \<Rightarrow> nat \<Rightarrow> KeyType \<Rightarrow> Record list \<Rightarrow> bool" where
  "on_path N h l key p \<longleftrightarrow>
     (\<forall>j. j + l \<le> h \<longrightarrow> (\<exists>lo hi. (lo, rc_addr (p ! j), hi) \<in> N (h - j) \<and> lo \<le> key \<and> key < hi))"

lemma on_path_snoc:
  assumes "on_path N h (Suc l) key p" and "length p = h - l" and "Suc l \<le> h"
    and "(lo, rc_addr r, hi) \<in> N l" and "lo \<le> key" and "key < hi"
  shows "on_path N h l key (p @ [r])"
  unfolding on_path_def
proof (intro allI impI)
  fix j assume j: "j + l \<le> h"
  show "\<exists>lo hi. (lo, rc_addr ((p @ [r]) ! j), hi) \<in> N (h - j) \<and> lo \<le> key \<and> key < hi"
  proof (cases "j + l = h")
    case True
    then have "j = length p" "h - j = l" using assms(2) by auto
    then show ?thesis using assms(4-6) by auto
  next
    case False
    then have "j + Suc l \<le> h" "j < length p" using j assms(2) by auto
    then show ?thesis using assms(1) unfolding on_path_def by (simp add: nth_append)
  qed
qed

definition bottom_hit :: "(nat \<Rightarrow> range_node set) \<Rightarrow> KeyType \<Rightarrow> dm_tree \<Rightarrow> Record \<Rightarrow> bool" where
  "bottom_hit N key s r \<longleftrightarrow>
     (\<exists>lo a hi n. (lo, a, hi) \<in> N 0 \<and> lo \<le> key \<and> key < hi \<and> tr_inner s a = Some n \<and> inner_find key n = Inr (r, True))"

lemma find_loop_ok:
  assumes "tree_inv env h N P R Q s" and "(lo, a, hi) \<in> N l" "lo \<le> key" "key < hi"
    and "length (tr_path s) = Suc (h - l)" and "on_path N h l key (tr_path s)"
    and "rc_key (last (tr_path s)) = lo" and "rc_addr (last (tr_path s)) = a"
    and "\<And>m. 0 < m \<Longrightarrow> P m = []" and "l < f"
  shows "\<exists>r s'. find_loop (Suc F) f env a key rec s = Inr (r, s') \<and> tree_inv env h N P R Q s' \<and> same_mem s s' \<and>
     length (tr_path s') = h + 2 \<and> on_path N h 0 key (tr_path s') \<and> bottom_hit N key s r"
  using assms
proof (induction l arbitrary: s lo a hi f rec)
  case 0
  obtain f' where f: "f = Suc f'" using 0(10) by (cases f) auto
  have ne: "tr_path s \<noteq> []" "length (tr_path s) = 1 \<Longrightarrow> 0 = h" using 0(5) by auto
  obtain n r s' where s': "\<forall>f rec. inner_search (Suc f) env a key rec (next_page s) = Inr (True, r, (0::nat) = 0, s')"
    "tree_inv env h N P R Q s'" "same_mem (next_page s) s'" "tr_path s' = tr_path s" "tr_inner s a = Some n"
    "inner_find key n = Inr (r, (0::nat) = 0)"
    by (rule inner_search_step [OF tree_inv_next_page [OF 0(1)] 0(2-4)]) (use ne 0(7,8) in simp_all)
  let ?s2 = "s'\<lparr>tr_path := tr_path s' @ [copy_Record r]\<rparr>"
  have "tree_inv env h N P R Q ?s2" by (rule tree_inv_frame [OF s'(2)]) (simp_all add: same_mem_def)
  moreover have "same_mem s ?s2"
    using same_mem_trans [OF same_mem_next_page s'(3)] by (simp add: same_mem_def)
  moreover have "on_path N h 0 key (tr_path ?s2)"
    using 0(6) 0(5) s'(4) by (simp add: on_path_def nth_append)
  moreover have "bottom_hit N key s r" unfolding bottom_hit_def using 0(2-4) s'(5,6) by auto
  moreover have "find_loop (Suc F) f env a key rec s = Inr (r, ?s2)"
    using s'(1) by (simp add: f Let_def del: inner_search.simps)
  moreover have "length (tr_path ?s2) = h + 2" using 0(5) s'(4) by simp
  ultimately show ?case by blast
next
  case (Suc l)
  obtain f' where f: "f = Suc f'" using Suc.prems(10) by (cases f) auto
  note inner = tree_inv_inner [OF Suc.prems(1)]
  have lh: "Suc l \<le> h" by (rule level_le [OF inner Suc.prems(2)])
  have ne: "tr_path s \<noteq> []" "length (tr_path s) = 1 \<Longrightarrow> Suc l = h" using Suc.prems(5) lh by auto
  obtain n r s' where s': "\<forall>f rec. inner_search (Suc f) env a key rec (next_page s) = Inr (True, r, Suc l = 0, s')"
    "tree_inv env h N P R Q s'" "same_mem (next_page s) s'" "tr_path s' = tr_path s" "tr_inner s a = Some n"
    "inner_find key n = Inr (r, Suc l = 0)"
    by (rule inner_search_step [OF tree_inv_next_page [OF Suc.prems(1)] Suc.prems(2-4)])
      (use ne Suc.prems(7,8) in simp_all)
  let ?s2 = "s'\<lparr>tr_path := tr_path s' @ [copy_Record r]\<rparr>"
  have inv2: "tree_inv env h N P R Q ?s2" by (rule tree_inv_frame [OF s'(2)]) (simp_all add: same_mem_def)
  have mem2: "same_mem s ?s2"
    using same_mem_trans [OF same_mem_next_page s'(3)] by (simp add: same_mem_def)
  have kmax: "key < KeyMax" using node_range [OF inner Suc.prems(2)] Suc.prems(4) by auto
  have "l \<le> h" using lh by simp
  from node_cover [OF inner this kmax] obtain lo' b hi' where b: "(lo', b, hi') \<in> N l" "lo' \<le> key" "key < hi'" .
  have "P (Suc l) = []" using Suc.prems(9) by simp
  from parent_covers [OF inner this Suc.prems(2-4) b s'(5)] s'(6)
  have r: "rc_key r = lo'" "rc_addr r = b" by auto
  have "on_path N h l key (tr_path ?s2)"
    using on_path_snoc [OF Suc.prems(6) _ lh, of lo' "copy_Record r" hi'] b r s'(4) Suc.prems(5) lh
    by (simp add: copy_Record_def Suc_diff_Suc)
  then obtain r' s'' where "find_loop (Suc F) f' env b key r ?s2 = Inr (r', s'')" "tree_inv env h N P R Q s''"
    "same_mem ?s2 s''" "length (tr_path s'') = h + 2" "on_path N h 0 key (tr_path s'')" "bottom_hit N key ?s2 r'"
    using Suc.IH [OF inv2 b, where f = f' and rec = r] r s'(4) Suc.prems(5,9,10) lh
    by (auto simp: copy_Record_def Suc_diff_Suc f)
  moreover have "bottom_hit N key s r'" using calculation(6) mem2 by (simp add: bottom_hit_def same_mem_def)
  moreover have "find_loop (Suc F) f env a key rec s = find_loop (Suc F) f' env b key r ?s2"
    using s'(1) r by (simp add: f Let_def del: inner_search.simps)
  ultimately show ?case using same_mem_trans [OF mem2] by auto
qed

text \<open>A remembered root address that is no longer the root is replaced by the root pointer.\<close>

lemma inner_search_reload:
  assumes inv: "tree_inv env h N P R Q s" and x: "(lo, a, hi) \<in> N l" and path: "tr_path s = [r]" and old: "a \<noteq> tr_root s"
  obtains n where "\<forall>f rec. inner_search (Suc f) env a key rec s = inner_search f env (tr_root s) key rec
      (s\<lparr>tr_node := n, tr_local_root := tr_root s, tr_path := [r\<lparr>rc_addr := tr_root s\<rparr>]\<rparr>)"
proof -
  note inner = tree_inv_inner [OF inv]
  obtain n where n: "tr_inner s a = Some n" by (rule node_exists [OF inner x])
  note nf = node_facts [OF inner x n]
  let ?s1 = "s\<lparr>tr_node := n, tr_local_root := Gaddr_Null\<rparr>"
  have "tree_inv env h N P R Q ?s1"
    by (rule tree_inv_client [OF inv]) (use inv in \<open>simp_all add: same_mem_def tree_inv_def client_inv_def\<close>)
  from get_root_addr_null [OF this] have "get_root_addr ?s1 = Inr (tr_root s, ?s1\<lparr>tr_local_root := tr_root s\<rparr>)" by simp
  then have "\<forall>f rec. inner_search (Suc f) env a key rec s = inner_search f env (tr_root s) key rec
      (s\<lparr>tr_node := n, tr_local_root := tr_root s, tr_path := [r\<lparr>rc_addr := tr_root s\<rparr>]\<rparr>)"
    using n nf(6) old path wf_consistent [OF nf(1)] by (simp add: read_inner_def Let_def set_last_addr_def)
  then show thesis by (rule that)
qed

lemma find_from:
  assumes inv: "tree_inv env h N P R Q s" and x: "(lo, a, hi) \<in> N l" and path: "tr_path s = [r]"
    "rc_key r = KeyNull" "rc_addr r = a" and key: "key < KeyMax" and pend: "\<And>m. 0 < m \<Longrightarrow> P m = []" and F: "h + 2 \<le> F"
  shows "\<exists>r s'. find_loop F F env a key rec s = Inr (r, s') \<and> tree_inv env h N P R Q s' \<and> same_mem s s' \<and>
     length (tr_path s') = h + 2 \<and> on_path N h 0 key (tr_path s') \<and> bottom_hit N key s r"
proof -
  note inner = tree_inv_inner [OF inv] and root = root_node [OF inv]
  obtain F' where F': "F = Suc (Suc F')" using F by (metis add_2_eq_Suc' le_Suc_ex add_Suc)
  have onp: "on_path N h h key [r']" if "rc_addr r' = tr_root s" for r'
    using that root key KeyNull_least unfolding on_path_def by (intro allI impI) force
  show ?thesis
  proof (cases "a = tr_root s")
    case True
    show ?thesis unfolding F'
      by (rule find_loop_ok [OF inv root KeyNull_least key, of "Suc (Suc F')" "Suc F'" rec, folded True])
        (use path True onp [of r] pend F F' in simp_all)
  next
    case False
    obtain n where n: "\<forall>f rec. inner_search (Suc f) env a key rec (next_page s) = inner_search f env (tr_root s) key rec
      ((next_page s)\<lparr>tr_node := n, tr_local_root := tr_root s, tr_path := [r\<lparr>rc_addr := tr_root s\<rparr>]\<rparr>)"
      using inner_search_reload [OF tree_inv_next_page [OF inv] x, of r key] path(1) False by auto
    let ?s1 = "s\<lparr>tr_node := n, tr_local_root := tr_root s, tr_path := [r\<lparr>rc_addr := tr_root s\<rparr>]\<rparr>"
    have inv1: "tree_inv env h N P R Q ?s1"
      by (rule tree_inv_client [OF inv])
        (use inv root in \<open>auto simp: same_mem_def tree_inv_def client_inv_def\<close>)
    have root1: "(KeyNull, tr_root s, KeyMax) \<in> N h" by (fact root)
    let ?s0 = "next_page ?s1"
    have p1: "tr_path ?s0 \<noteq> []" "rc_key (last (tr_path ?s0)) = KeyNull" "rc_addr (last (tr_path ?s0)) = tr_root s"
      "length (tr_path ?s0) = 1 \<Longrightarrow> h = h"
      using path by simp_all
    obtain r1 s1 where "\<forall>f rec. inner_search (Suc f) env (tr_root s) key rec ?s0 = Inr (True, r1, h = 0, s1)"
      by (rule inner_search_step [OF tree_inv_next_page [OF inv1] root1 KeyNull_least key p1]) blast
    then have "find_loop F F env a key rec s = find_loop F F env (tr_root s) key rec ?s1"
      unfolding F' next_page_update by (simp add: n next_page_update del: inner_search.simps)
    moreover have "\<exists>r s'. find_loop (Suc (Suc F')) (Suc (Suc F')) env (tr_root s) key rec ?s1 = Inr (r, s') \<and>
        tree_inv env h N P R Q s' \<and> same_mem ?s1 s' \<and>
        length (tr_path s') = h + 2 \<and> on_path N h 0 key (tr_path s') \<and> bottom_hit N key ?s1 r"
      by (rule find_loop_ok [OF inv1 root1 KeyNull_least key]) (use path onp pend F F' in simp_all)
    moreover have "same_mem s ?s1" by (simp add: same_mem_def)
    moreover have "bottom_hit N key ?s1 r' = bottom_hit N key s r'" for r' by (simp add: bottom_hit_def)
    ultimately show ?thesis unfolding F' using same_mem_trans [of s ?s1] by auto
  qed
qed

text \<open>What the bottom level says of a key.\<close>

definition route ::
  "(nat \<Rightarrow> Record list) \<Rightarrow> (Record \<times> KeyType) set \<Rightarrow> (Gaddr \<times> Gaddr) set \<Rightarrow> dm_tree \<Rightarrow> KeyType \<Rightarrow> Record \<Rightarrow> bool" where
  "route P R Q s key r \<longleftrightarrow> (\<exists>u. rec_copy R Q s (r, u) \<and> rc_key r \<le> key \<and> key < u \<and> (P 0 = [] \<longrightarrow> (r, u) \<in> R))"

lemma route_same_mem: "same_mem s s' \<Longrightarrow> route P R Q s' key r = route P R Q s key r"
  by (simp add: route_def rec_copy_def same_mem_def)

lemma bottom_hit_route:
  assumes inv: "tree_inv env h N P R Q s" and "bottom_hit N key s r"
  shows "route P R Q s key r"
proof -
  obtain lo a hi n where x: "(lo, a, hi) \<in> N 0" "lo \<le> key" "key < hi" "tr_inner s a = Some n" "inner_find key n = Inr (r, True)"
    using assms(2) unfolding bottom_hit_def by blast
  note nf = node_facts [OF tree_inv_inner [OF inv] x(1,4)]
  obtain r' u where "inner_find key n = Inr (r', ih_next_is_leaf (in_hdr n))"
    and u: "(r', u) \<in> set (bounds (recs n) hi)" "rc_key r' \<le> key" "key < u"
    using inner_find_bounds [OF nf(1), of key hi] nf(3) x(2,3) by auto
  then have [simp]: "r' = r" using x(5) by simp
  have "node_copy (en_city env) R Q s n" using inv x(1,4) unfolding tree_inv_def client_inv_def by blast
  then have "rec_copy R Q s (r, u)" using u(1) nf(4) by (simp add: node_copy_def)
  moreover have "(r, u) \<in> R" if "P 0 = []" using nf(8) [of "(r, u)"] that u(1) by (simp add: child_def)
  ultimately show ?thesis using u unfolding route_def by auto
qed

lemma rec_copy_capacity:
  assumes inv: "leaf_inv city R Q s" and "rec_copy R Q s (r, u)"
  obtains lt ft where "tr_leaf s (rc_addr r) = Some lt" and "tr_fp s (rc_fp_addr r) = Some ft" and "leaf_wf city lt ft"
    and "ft_lock ft = 0" and "rc_capacity r = int (length (lt_entries lt))" and "length (lt_entries lt) \<in> {32, 64, 128}"
proof -
  have "pair_ok city s (rc_addr r, rc_fp_addr r)" using assms unfolding leaf_inv_def rec_copy_def by blast
  then show thesis using that assms(2) unfolding pair_ok_def rec_copy_def by auto
qed

lemma find_leaf_ok:
  assumes inv: "tree_inv env h N P R Q s" and key: "key < KeyMax" and pend: "\<And>m. 0 < m \<Longrightarrow> P m = []" and F: "h + 2 \<le> F"
  obtains r s' where "find_leaf F env key s = Inr (r, s')" and "tree_inv env h N P R Q s'" and "same_mem s s'"
    and "length (tr_path s') = h + 2" and "on_path N h 0 key (tr_path s')" and "route P R Q s key r"
proof -
  obtain a s1 l lo hi where s1: "get_root_addr s = Inr (a, s1)" "tree_inv env h N P R Q s1" "same_mem s s1" "(lo, a, hi) \<in> N l"
  proof (cases "tr_local_root s = Gaddr_Null")
    case True
    have "tree_inv env h N P R Q (s\<lparr>tr_local_root := tr_root s\<rparr>)"
      by (rule tree_inv_client [OF inv])
        (use inv root_node [OF inv] in \<open>auto simp: same_mem_def tree_inv_def client_inv_def\<close>)
    then show thesis
      using that get_root_addr_null [OF inv True] root_node [OF inv] by (auto simp: same_mem_def)
  next
    case False
    then obtain l lo hi where "(lo, tr_local_root s, hi) \<in> N l" using inv unfolding tree_inv_def client_inv_def by blast
    then show thesis using that False inv by (simp add: get_root_addr_def)
  qed
  let ?r = "new_Record KeyNull a Gaddr_Null 0 0"
  have inv2: "tree_inv env h N P R Q (s1\<lparr>tr_path := [?r]\<rparr>)"
    by (rule tree_inv_frame [OF s1(2)]) (simp_all add: same_mem_def)
  have path: "tr_path (s1\<lparr>tr_path := [?r]\<rparr>) = [?r]" "rc_key ?r = KeyNull" "rc_addr ?r = a"
    by (simp_all add: new_Record_def)
  obtain r s' where s': "find_loop F F env a key ?r (s1\<lparr>tr_path := [?r]\<rparr>) = Inr (r, s')" "tree_inv env h N P R Q s'"
    "same_mem (s1\<lparr>tr_path := [?r]\<rparr>) s'" "length (tr_path s') = h + 2" "on_path N h 0 key (tr_path s')"
    "bottom_hit N key (s1\<lparr>tr_path := [?r]\<rparr>) r"
    using find_from [OF inv2 s1(4) path key pend F, where rec = ?r] by blast
  have mem: "same_mem s s'" using s1(3) s'(3) by (simp add: same_mem_def)
  have route: "route P R Q s key r"
    using bottom_hit_route [OF inv2 s'(6)] s1(3) by (simp add: route_def rec_copy_def same_mem_def)
  then obtain u where "rec_copy R Q s (r, u)" unfolding route_def by blast
  moreover have "leaf_inv (en_city env) R Q s" using inv by (simp add: tree_inv_def)
  ultimately have "0 < rc_capacity r" by (elim rec_copy_capacity [rotated]) auto
  then have "find_leaf F env key s = Inr (r, s')" using s1(1) s'(1) by (simp add: find_leaf_def Let_def)
  then show thesis using that s' mem route by blast
qed

section \<open>From a cached parent\<close>

text \<open>How many nodes of a level there are between a node and the one that covers the key.\<close>

definition ahead :: "range_node set \<Rightarrow> KeyType \<Rightarrow> KeyType \<Rightarrow> nat" where
  "ahead X lo key = card {x \<in> X. lo < fst x \<and> fst x \<le> key}"

lemma ahead_right:
  assumes "finite X" and "(hi, a, hi') \<in> X" and "lo < hi" and "hi \<le> key"
  shows "ahead X hi key < ahead X lo key"
  unfolding ahead_def
proof (rule psubset_card_mono)
  show "finite {x \<in> X. lo < fst x \<and> fst x \<le> key}" using assms(1) by simp
  have "(hi, a, hi') \<in> {x \<in> X. lo < fst x \<and> fst x \<le> key}" using assms by simp
  then show "{x \<in> X. hi < fst x \<and> fst x \<le> key} \<subset> {x \<in> X. lo < fst x \<and> fst x \<le> key}"
    using assms(3) by force
qed

lemma ahead_le: "finite X \<Longrightarrow> ahead X lo key \<le> card X"
  unfolding ahead_def by (rule card_mono) auto

definition cached_path :: "range_node set \<Rightarrow> KeyType \<Rightarrow> Record list \<Rightarrow> bool" where
  "cached_path N0 key p \<longleftrightarrow> length p = 2 \<and> (\<exists>lo hi. (lo, rc_addr (p ! 0), hi) \<in> N0 \<and> lo \<le> key)"

lemma bottom_search_right:
  assumes inv: "tree_inv env h N P R Q s" and x: "(lo, a, hi) \<in> N 0" "hi \<le> key" and key: "key < KeyMax"
    and path: "tr_path s = [q]"
  obtains n b hi' where "bottom_search (Suc F) env a key rec s =
      Inr (False, rec\<lparr>rc_addr := b\<rparr>, s\<lparr>tr_node := n, tr_path := [q\<lparr>rc_addr := b\<rparr>]\<rparr>)" and "(hi, b, hi') \<in> N 0"
proof -
  note inner = tree_inv_inner [OF inv]
  obtain n where n: "tr_inner s a = Some n" by (rule node_exists [OF inner x(1)])
  note nf = node_facts [OF inner x(1) n]
  obtain hi' where r: "(hi, ih_right_addr (in_hdr n), hi') \<in> N 0" using nf(7) [OF le_less_trans [OF x(2) key]] by blast
  have "bottom_search (Suc F) env a key rec s = Inr (False, rec\<lparr>rc_addr := ih_right_addr (in_hdr n)\<rparr>,
      s\<lparr>tr_node := n, tr_path := [q\<lparr>rc_addr := ih_right_addr (in_hdr n)\<rparr>]\<rparr>)"
    using n nf(4) leD [OF x(2)] addr_not_null [OF inv r] wf_consistent [OF nf(1)] path
    by (simp add: read_inner_def Let_def check_hdr_def set_last_addr_def)
  then show thesis using that r by blast
qed

lemma bottom_search_hit:
  assumes inv: "tree_inv env h N P R Q s" and x: "(lo, a, hi) \<in> N 0" "lo \<le> key" "key < hi"
    and path: "tr_path s = [q]" "rc_addr q = a"
  obtains r s' q' where "bottom_search (Suc F) env a key rec s = Inr (True, r, s')" and "tree_inv env h N P R Q s'"
    and "same_mem s s'" and "tr_path s' = [q']" and "rc_addr q' = a" and "bottom_hit N key s r"
proof -
  note inner = tree_inv_inner [OF inv]
  obtain n where n: "tr_inner s a = Some n" by (rule node_exists [OF inner x(1)])
  note nf = node_facts [OF inner x(1) n]
  obtain r where r: "inner_find key n = Inr (r, True)"
    using inner_find_bounds [OF nf(1), of key hi] nf(3,5) x(2,3) by auto
  have hit: "bottom_hit N key s r" unfolding bottom_hit_def using x n r by blast
  have ok: "inner_check_consistent (en_city env) n" "check_hdr key n"
    using wf_consistent [OF nf(1)] nf(3,4) x by (auto simp: check_hdr_def)
  show thesis
  proof (cases "use_cache_mark env")
    case True
    let ?q = "q\<lparr>rc_key := ih_min_key (in_hdr n), rc_addr := a\<rparr>"
    let ?s2 = "s\<lparr>tr_node := n, tr_path := [?q]\<rparr>"
    have inv2: "tree_inv env h N P R Q ?s2" by (rule tree_inv_frame [OF inv]) (simp_all add: same_mem_def)
    have "(rc_key ?q, rc_addr ?q, hi) \<in> N 0" "tr_inner ?s2 (rc_addr ?q) = Some n" using x(1) nf(3) n by simp_all
    from cache_insert_ok [OF inv2 this] obtain c where c: "cache_insert env ?q n ?s2 = Inr (?s2\<lparr>tr_cache := c\<rparr>)"
      "tree_inv env h N P R Q (?s2\<lparr>tr_cache := c\<rparr>)" .
    have "bottom_search (Suc F) env a key rec s = Inr (True, r, ?s2\<lparr>tr_cache := c\<rparr>)"
      using n r ok True path(1) c(1) by (simp add: read_inner_def Let_def)
    then show thesis by (rule that [of r _ ?q]) (use c(2) hit in \<open>simp_all add: same_mem_def\<close>)
  next
    case False
    have "bottom_search (Suc F) env a key rec s = Inr (True, r, s\<lparr>tr_node := n\<rparr>)"
      using n r ok False by (simp add: read_inner_def Let_def)
    moreover have "tree_inv env h N P R Q (s\<lparr>tr_node := n\<rparr>)"
      by (rule tree_inv_frame [OF inv]) (simp_all add: same_mem_def)
    ultimately show thesis by (rule that) (use path hit in \<open>simp_all add: same_mem_def\<close>)
  qed
qed

lemma bottom_loop_ok:
  assumes "tree_inv env h N P R Q s" and "(lo, a, hi) \<in> N 0" "lo \<le> key" and "key < KeyMax"
    and "tr_path s = [q]" "rc_addr q = a" and "ahead (N 0) lo key < f"
  shows "\<exists>r s'. bottom_loop (Suc F) f env a key rec s = Inr (r, s') \<and> tree_inv env h N P R Q s' \<and> same_mem s s' \<and>
     cached_path (N 0) key (tr_path s') \<and> bottom_hit N key s r"
  using assms
proof (induction f arbitrary: s lo a hi q rec)
  case 0
  then show ?case by simp
next
  case (Suc f)
  note inner = tree_inv_inner [OF Suc.prems(1)]
  show ?case
  proof (cases "key < hi")
    case True
    obtain r s' q' where s': "bottom_search (Suc F) env a key rec (next_page s) = Inr (True, r, s')"
      "tree_inv env h N P R Q s'" "same_mem (next_page s) s'" "tr_path s' = [q']" "rc_addr q' = a"
      "bottom_hit N key (next_page s) r"
      by (rule bottom_search_hit [OF tree_inv_next_page [OF Suc.prems(1)] Suc.prems(2,3) True])
        (use Suc.prems(5,6) in simp_all)
    let ?s2 = "s'\<lparr>tr_path := tr_path s' @ [copy_Record r]\<rparr>"
    have "tree_inv env h N P R Q ?s2" by (rule tree_inv_frame [OF s'(2)]) (simp_all add: same_mem_def)
    moreover have "bottom_loop (Suc F) (Suc f) env a key rec s = Inr (r, ?s2)" using s'(1) by (simp del: bottom_search.simps)
    moreover have "cached_path (N 0) key (tr_path ?s2)" using s'(4,5) Suc.prems(2,3) by (auto simp: cached_path_def)
    moreover have "same_mem s ?s2"
      using same_mem_trans [OF same_mem_next_page s'(3)] by (simp add: same_mem_def)
    moreover have "bottom_hit N key s r" using s'(6) by (simp add: bottom_hit_def)
    ultimately show ?thesis by blast
  next
    case False
    then have hi: "hi \<le> key" by simp
    obtain n b hi' where b: "bottom_search (Suc F) env a key rec (next_page s) =
        Inr (False, rec\<lparr>rc_addr := b\<rparr>, (next_page s)\<lparr>tr_node := n, tr_path := [q\<lparr>rc_addr := b\<rparr>]\<rparr>)" "(hi, b, hi') \<in> N 0"
      by (rule bottom_search_right [OF tree_inv_next_page [OF Suc.prems(1)] Suc.prems(2) hi Suc.prems(4)])
        (use Suc.prems(5) in simp_all)
    let ?s1 = "(next_page s)\<lparr>tr_node := n, tr_path := [q\<lparr>rc_addr := b\<rparr>]\<rparr>"
    have inv1: "tree_inv env h N P R Q ?s1"
      by (rule tree_inv_frame [OF tree_inv_next_page [OF Suc.prems(1)]]) (simp_all add: same_mem_def)
    have "finite (N 0)" using inner by (simp add: inner_inv_def levels_def)
    from ahead_right [OF this b(2) node_range(1) [OF inner Suc.prems(2)] hi]
    have "ahead (N 0) hi key < f" using Suc.prems(7) by simp
    from Suc.IH [OF inv1 b(2) hi Suc.prems(4) _ _ this, of "q\<lparr>rc_addr := b\<rparr>" "rec\<lparr>rc_addr := b\<rparr>"]
    obtain r s' where "bottom_loop (Suc F) f env b key (rec\<lparr>rc_addr := b\<rparr>) ?s1 = Inr (r, s')" "tree_inv env h N P R Q s'"
      "same_mem ?s1 s'" "cached_path (N 0) key (tr_path s')" "bottom_hit N key ?s1 r"
      by auto
    moreover have "bottom_loop (Suc F) (Suc f) env a key rec s = bottom_loop (Suc F) f env b key (rec\<lparr>rc_addr := b\<rparr>) ?s1"
      using b(1) by (simp del: bottom_search.simps)
    ultimately show ?thesis by (auto simp: same_mem_def bottom_hit_def)
  qed
qed

lemma read_bottom_inner_ok:
  assumes inv: "tree_inv env h N P R Q s" and key: "key < KeyMax" and path: "cached_path (N 0) key (tr_path s)"
    and F: "card (N 0) < F"
  obtains r s' where "read_bottom_inner F env key s = Inr (r, s')" and "tree_inv env h N P R Q s'" and "same_mem s s'"
    and "cached_path (N 0) key (tr_path s')" and "route P R Q s key r"
proof -
  obtain lo hi where x: "length (tr_path s) = 2" "(lo, rc_addr (tr_path s ! 0), hi) \<in> N 0" "lo \<le> key"
    using path unfolding cached_path_def by blast
  let ?a = "rc_addr (tr_path s ! 0)"
  let ?r = "new_Record KeyNull ?a Gaddr_Null 0 0"
  let ?s1 = "s\<lparr>tr_path := [?r]\<rparr>"
  have inv1: "tree_inv env h N P R Q ?s1" by (rule tree_inv_frame [OF inv]) (simp_all add: same_mem_def)
  have "finite (N 0)" using tree_inv_inner [OF inv] by (simp add: inner_inv_def levels_def)
  from ahead_le [OF this, of lo key] have F': "ahead (N 0) lo key < F" using F by simp
  obtain F'' where F'': "F = Suc F''" using F by (cases F) auto
  have p1: "tr_path ?s1 = [?r]" "rc_addr ?r = ?a" by (simp_all add: new_Record_def)
  obtain r s' where s': "bottom_loop F F env ?a key ?r ?s1 = Inr (r, s')" "tree_inv env h N P R Q s'" "same_mem ?s1 s'"
    "cached_path (N 0) key (tr_path s')" "bottom_hit N key ?s1 r"
    using bottom_loop_ok [OF inv1 x(2,3) key p1, of F F'' ?r] F' F'' by auto
  have mem: "same_mem s s'" using s'(3) by (simp add: same_mem_def)
  have route: "route P R Q s key r" using bottom_hit_route [OF inv1 s'(5)] by (simp add: route_def rec_copy_def)
  then obtain u where "rec_copy R Q s (r, u)" unfolding route_def by blast
  moreover have "leaf_inv (en_city env) R Q s" using inv by (simp add: tree_inv_def)
  ultimately have "0 < rc_capacity r" by (elim rec_copy_capacity [rotated]) auto
  then have "read_bottom_inner F env key s = Inr (r, s')" using s'(1) x(1) by (simp add: read_bottom_inner_def Let_def)
  then show thesis using that s' mem route by blast
qed

section \<open>The start of an operation\<close>

text \<open>
  The state between the steps of an operation: either the path comes from a bottom node found in
  the cache, or it is the path from the root; the record covers the key and is current when it
  comes from the tree itself.
\<close>

definition located ::
  "(nat \<Rightarrow> range_node set) \<Rightarrow> nat \<Rightarrow> (Record \<times> KeyType) set \<Rightarrow> (Gaddr \<times> Gaddr) set \<Rightarrow> dm_tree \<Rightarrow> KeyType \<Rightarrow>
     Record \<Rightarrow> bool \<Rightarrow> bool" where
  "located N h R Q s key r from_cache \<longleftrightarrow>
     (\<exists>u. rec_copy R Q s (r, u) \<and> rc_key r \<le> key \<and> key < u \<and> (from_cache \<or> (r, u) \<in> R)) \<and>
     (if from_cache then cached_path (N 0) key (tr_path s)
      else length (tr_path s) = h + 2 \<and> on_path N h 0 key (tr_path s))"

definition no_pend :: "nat \<Rightarrow> Record list" where
  "no_pend = (\<lambda>_. [])"

lemma no_pend_simp [simp]: "no_pend l = []"
  by (simp add: no_pend_def)

lemma find_leaf_located:
  assumes "tree_inv env h N no_pend R Q s" and "key < KeyMax" and "h + 2 \<le> F"
  obtains r s' where "find_leaf F env key s = Inr (r, s')" and "tree_inv env h N no_pend R Q s'" and "same_mem s s'"
    and "located N h R Q s' key r False"
proof -
  obtain r s' where s': "find_leaf F env key s = Inr (r, s')" "tree_inv env h N no_pend R Q s'" "same_mem s s'"
    "length (tr_path s') = h + 2" "on_path N h 0 key (tr_path s')" "route no_pend R Q s key r"
    by (rule find_leaf_ok [OF assms(1,2) _ assms(3)]) simp_all
  have "route no_pend R Q s' key r" using s'(3,6) route_same_mem by blast
  then have "located N h R Q s' key r False" using s'(4,5) by (simp add: located_def route_def)
  then show thesis using that s' by blast
qed

lemma search_cache_ok:
  assumes ok: "cache_ok city N0 R Q s c" and leaf: "leaf_inv city R Q s"
  obtains "seek key (dc_skiplist c) = None \<or> (\<exists>e. seek key (dc_skiplist c) = Some e \<and> ce_node e = None)"
      and "search_cache city key rec path c = Inr (rec\<lparr>rc_addr := Gaddr_Null\<rparr>, path, c)"
    | r p c' where "search_cache city key rec path c = Inr (r, p, c')" and "cache_ok city N0 R Q s c'"
      and "cached_path N0 key p" and "rc_addr r = Gaddr_Null \<or>
        (\<exists>u. rec_copy R Q s (r, u) \<and> rc_key r \<le> key \<and> key < u)"
proof -
  have sorted: "sorted_wrt (>) (map ce_key (dc_skiplist c))" and inv: "cache_inv c"
    using ok by (simp_all add: cache_ok_def cache_inv_wf)
  consider "seek key (dc_skiplist c) = None \<or> (\<exists>e. seek key (dc_skiplist c) = Some e \<and> ce_node e = None)"
    | e p where "seek key (dc_skiplist c) = Some e" "ce_node e = Some p"
    by (metis option.exhaust)
  then show thesis
  proof cases
    case 1
    then have "search_cache city key rec path c = Inr (rec\<lparr>rc_addr := Gaddr_Null\<rparr>, path, c)"
      by (auto simp: search_cache_def)
    then show thesis using that(1) 1 by blast
  next
    case 2
    then have e: "e \<in> set (dc_skiplist c)" "ce_key e \<le> key" using seek_Some [OF sorted] by blast+
    define n where "n = dc_buf c p"
    have min: "ih_min_key (in_hdr n) = ce_key e"
      using inv e(1) 2(2) unfolding n_def cache_inv_wf by blast
    have copy: "node_copy city R Q s n" using ok e(1) 2(2) unfolding n_def cache_ok_def by blast
    have wf: "inner_wf city n (recs n)" using copy by (simp add: node_copy_def)
    obtain hi where hi: "(ce_key e, ce_remote_addr e, hi) \<in> N0" using ok e(1) unfolding cache_ok_def by blast
    obtain i where i: "i < length (recs n)" "inner_find key n = Inr (recs n ! i, ih_next_is_leaf (in_hdr n))"
      "rc_key (recs n ! i) \<le> key" "Suc i < length (recs n) \<longrightarrow> key < rc_key (recs n ! Suc i)"
      using inner_find_correct [OF wf, of key] min e(2) by auto
    define r where "r = recs n ! i"
    let ?u = "if Suc i < length (recs n) then rc_key (recs n ! Suc i) else ih_max_key (in_hdr n)"
    have rc: "rec_copy R Q s (r, ?u)" using copy bounds_nth [OF i(1), of "ih_max_key (in_hdr n)"]
      unfolding node_copy_def r_def by blast
    have leafy: "ih_next_is_leaf (in_hdr n)" using copy by (simp add: node_copy_def)
    have cap: "rc_capacity r \<noteq> 0" using rec_copy_capacity [OF leaf rc] by (metis gr_implies_not0 insertE numeral_eq_iff of_nat_eq_0_iff semiring_norm(83) singletonD zero_neq_numeral)
    let ?upper = "record_zero\<lparr>rc_valid := 1, rc_key := ih_min_key (in_hdr n), rc_addr := ce_remote_addr e\<rparr>"
    define bad where "bad = (\<not> check_hdr key n)"
    define c' where "c' = (if bad then snd (invalidate key c) else c)"
    define r' where "r' = (if bad then r\<lparr>rc_addr := Gaddr_Null\<rparr> else r)"
    have eq: "search_cache city key rec path c = Inr (r', [?upper, copy_Record r'], c')"
      using 2 i(2) cap leafy wf_consistent [OF wf]
      by (simp add: search_cache_def Let_def n_def r_def c'_def r'_def bad_def)
    have c'ok: "cache_ok city N0 R Q s c'"
      using cache_ok_shrinks [OF ok invalidate_shrinks invalidate_inv [OF inv]] ok by (simp add: c'_def)
    have path': "cached_path N0 key [?upper, copy_Record r']"
      using hi e(2) by (auto simp: cached_path_def)
    have "rc_addr r' = Gaddr_Null \<or> (\<exists>u. rec_copy R Q s (r', u) \<and> rc_key r' \<le> key \<and> key < u)"
    proof (cases bad)
      case False
      then have "key < ?u" using i(4) by (auto simp: bad_def check_hdr_def)
      then show ?thesis using rc i(3) False unfolding r'_def r_def by auto
    qed (simp add: r'_def)
    then show thesis by (rule that(2) [OF eq c'ok path'])
  qed
qed

lemma locate_ok:
  assumes inv: "tree_inv env h N no_pend R Q s" and key: "key < KeyMax" and F: "h + 2 \<le> F"
  obtains r fc s' where "locate F env key s = Inr (r, fc, s')" and "tree_inv env h N no_pend R Q s'" and "same_mem s s'"
    and "located N h R Q s' key r fc"
proof -
  let ?rec = "record_zero\<lparr>rc_addr := en_addr env, rc_fp_addr := en_addr env\<rparr>"
  note found = that
  have go: thesis if s1: "tree_inv env h N no_pend R Q s1" "same_mem s s1"
    and eq: "locate F env key s = res_bind (find_leaf F env key s1) (\<lambda>(rec', s2). Inr (rec', False, s2))" for s1
  proof -
    obtain r s' where "find_leaf F env key s1 = Inr (r, s')" "tree_inv env h N no_pend R Q s'" "same_mem s1 s'"
      "located N h R Q s' key r False"
      by (rule find_leaf_located [OF s1(1) key F])
    then show thesis using found [of r False s'] eq same_mem_trans [OF s1(2)] by simp
  qed
  have ok: "cache_ok (en_city env) (N 0) R Q s (tr_cache s)" "leaf_inv (en_city env) R Q s"
    using inv by (simp_all add: tree_inv_def client_inv_def)
  show thesis
  proof (cases "use_cache_mark env")
    case False
    then show thesis using go [OF inv] by (simp add: locate_def)
  next
    case True
    show thesis
    proof (cases rule: search_cache_ok [OF ok, where key = key and rec = ?rec and path = "tr_path s"])
      case 1
      then show thesis using go [OF inv] True by (simp add: locate_def)
    next
      case (2 r p c')
      let ?s1 = "s\<lparr>tr_path := p, tr_cache := c'\<rparr>"
      have mem: "same_mem s ?s1" by (simp add: same_mem_def)
      have inv1: "tree_inv env h N no_pend R Q ?s1"
        by (rule tree_inv_client [OF inv mem]) (use 2(2) inv in \<open>simp_all add: tree_inv_def client_inv_def\<close>)
      show thesis
      proof (cases "rc_addr r = Gaddr_Null")
        case null: True
        then show thesis using go [OF inv1 mem] True 2(1) by (simp add: locate_def)
      next
        case False
        then have "located N h R Q ?s1 key r True" using 2(3,4) by (auto simp: located_def rec_copy_def)
        moreover have "locate F env key s = Inr (r, True, ?s1)" using False True 2(1) by (simp add: locate_def)
        ultimately show thesis using that inv1 mem by blast
      qed
    qed
  qed
qed

end
