(* ===== verification/TreeRead.thy ===== *)
theory TreeRead
  imports TreeSearch
begin

text \<open>
  \<open>DMTree::read\<close> is lookup in the map that the tree represents: the search in a leaf survives stale
  fingerprints and stale records, and finds the value.
\<close>

section \<open>The map of a tree\<close>

definition contents :: "(Record \<times> KeyType) set \<Rightarrow> dm_tree \<Rightarrow> (KeyType \<rightharpoonup> ValueType) \<Rightarrow> bool" where
  "contents R s M \<longleftrightarrow>
     (\<forall>r u lt k. (r, u) \<in> R \<and> tr_leaf s (rc_addr r) = Some lt \<and> rc_key r \<le> k \<and> k < u \<longrightarrow>
        table_map (lt_entries lt) k = M k) \<and>
     (\<forall>k. KeyMax \<le> k \<longrightarrow> M k = None)"

definition answers :: "(KeyType \<rightharpoonup> ValueType) \<Rightarrow> KeyType \<Rightarrow> ValueType \<Rightarrow> ValueType \<Rightarrow> bool" where
  "answers M key old v \<longleftrightarrow> (case M key of Some w \<Rightarrow> v = w | None \<Rightarrow> v = old \<or> v = ValueNull)"

lemma answers_trans: "answers M key old v \<Longrightarrow> old = old' \<or> old = ValueNull \<Longrightarrow> answers M key old' v"
  by (auto simp: answers_def split: option.splits)

definition current :: "(Record \<times> KeyType) set \<Rightarrow> KeyType \<Rightarrow> Record \<Rightarrow> bool" where
  "current R key r \<longleftrightarrow> (\<exists>u. (r, u) \<in> R \<and> rc_key r \<le> key \<and> key < u)"

section \<open>Rerouting\<close>

lemma leaf_rec_copy:
  assumes leaf: "leaf_inv city R Q s" and r: "(r, u) \<in> R"
  shows "rec_copy R Q s (r, u)"
proof -
  obtain lt where lt: "(rc_addr r, rc_fp_addr r) \<in> Q" "tr_leaf s (rc_addr r) = Some lt"
    "rc_capacity r = int (length (lt_entries lt))" "rc_version r = of_int (lf_version (lt_hdr lt))"
    using leaf r unfolding leaf_inv_def leaf_at_def by blast
  have "pair_ok city s (rc_addr r, rc_fp_addr r)" using leaf lt(1) unfolding leaf_inv_def by blast
  then have "0 \<le> lf_version (lt_hdr lt)" using lt(2) by (auto simp: pair_ok_def leaf_wf_def)
  then show ?thesis using lt r unfolding rec_copy_def by auto
qed

lemma reroute_ok:
  assumes inv: "tree_inv env h N no_pend R Q s" and key: "key < KeyMax" and F: "h + 2 \<le> F" "card (N 0) < F"
    and path: "from_cache \<Longrightarrow> cached_path (N 0) key (tr_path s)"
  obtains p fc sync s' where "reroute F env inval key from_cache is_sync s = Inr (p, fc, sync, s')"
    and "tree_inv env h N no_pend R Q s'" and "same_mem s s'" and "located N h R Q s' key p fc" and "current R key p"
proof (cases "from_cache \<and> \<not> is_sync")
  case True
  let ?s1 = "if inval then s\<lparr>tr_cache := snd (invalidate key (tr_cache s))\<rparr> else s"
  have ok: "cache_ok (en_city env) (N 0) R Q s (tr_cache s)" using inv by (simp add: tree_inv_def client_inv_def)
  then have ci: "cache_inv (tr_cache s)" by (simp add: cache_ok_def)
  have "cache_ok (en_city env) (N 0) R Q s (tr_cache ?s1)"
    using cache_ok_shrinks [OF ok invalidate_shrinks invalidate_inv [OF ci]] ok by simp
  moreover have mem: "same_mem s ?s1" by (simp add: same_mem_def)
  ultimately have inv1: "tree_inv env h N no_pend R Q ?s1"
    by (intro tree_inv_client [OF inv mem]) (use inv in \<open>simp_all add: tree_inv_def client_inv_def\<close>)
  have path1: "cached_path (N 0) key (tr_path ?s1)" using path True by simp
  obtain p s2 where s2: "read_bottom_inner F env key ?s1 = Inr (p, s2)" "tree_inv env h N no_pend R Q s2" "same_mem ?s1 s2"
    "cached_path (N 0) key (tr_path s2)" "route no_pend R Q ?s1 key p"
    by (rule read_bottom_inner_ok [OF inv1 key path1 F(2)])
  have "route no_pend R Q s2 key p" using s2(3,5) route_same_mem by blast
  then have "located N h R Q s2 key p True" "current R key p" using s2(4) by (auto simp: located_def route_def current_def)
  moreover have "reroute F env inval key from_cache is_sync s = Inr (p, from_cache, True, s2)"
    using True s2(1) by (simp add: reroute_def Let_def)
  ultimately show thesis using that s2(2) same_mem_trans [OF mem s2(3)] True by simp
next
  case False
  obtain p s1 where s1: "find_leaf F env key s = Inr (p, s1)" "tree_inv env h N no_pend R Q s1" "same_mem s s1"
    "located N h R Q s1 key p False"
    by (rule find_leaf_located [OF inv key F(1)])
  then have "current R key p" by (auto simp: located_def current_def)
  moreover have "reroute F env inval key from_cache is_sync s = Inr (p, False, is_sync, s1)"
    using False s1(1) by (auto simp: reroute_def)
  ultimately show thesis by (intro that [OF _ s1(2-4)])
qed

section \<open>Search in a leaf\<close>

lemma search_slots_any:
  assumes "length fps = length es"
  shows "\<exists>r v. search_slots f k ver fps es val = Inr (r, v) \<and> (r \<noteq> Found \<longrightarrow> v = val \<or> v = ValueNull) \<and>
     (r = Found \<longrightarrow> (\<exists>e \<in> set es. e_version e = ver))"
  using assms
proof (induction f k ver fps es val rule: search_slots.induct)
  case (3 f k ver x xs e es val)
  show ?case
  proof (cases "x = f \<and> e_version e = ver")
    case True
    then show ?thesis
      using 3(2) [of False ValueNull] 3(3) by (auto simp: entry_search_def)
  next
    case False
    then show ?thesis using 3(1) 3(3) by auto
  qed
qed simp_all

definition small_leaves :: "dm_tree \<Rightarrow> bool" where
  "small_leaves s \<longleftrightarrow> (\<forall>a lt. tr_leaf s a = Some lt \<longrightarrow> length (lt_entries lt) \<le> 64)"

lemma attach_capacity: "rc_capacity r = int c \<Longrightarrow> 0 < c \<Longrightarrow> c \<le> 128 \<Longrightarrow> attach_node (of_int (rc_capacity r)) = Inr c"
  by (simp add: attach_node_def word_less_nat_alt unat_of_nat)

lemma attach_local:
  assumes "length (en_stack env) = 128" and "c \<le> 64"
  obtains loc where "fp_attach (tmp_fp_buffer env a s) c = Inr loc" and "length (ft_fp loc) = c"
proof -
  have "length (tmp_fp_buffer env a s) = 128" using assms(1) by (simp add: tmp_fp_buffer_def Let_def)
  then show thesis using that assms(2) by (simp add: fp_attach_def fp_get_size_def)
qed

text \<open>Everything the invariant says of the leaf behind a record.\<close>

lemma leaf_facts:
  assumes leaf: "leaf_inv city R Q s" and r: "rec_copy R Q s (r, u)"
  obtains lt ft where "tr_leaf s (rc_addr r) = Some lt" and "tr_fp s (rc_fp_addr r) = Some ft" and "leaf_wf city lt ft"
    and "ft_lock ft = 0" and "attach_node (of_int (rc_capacity r)) = Inr (length (lt_entries lt))"
    and "read_fp (rc_fp_addr r) (length (lt_entries lt)) s = Inr ft" and "fp_check_consistent city ft"
    and "rc_version r = of_int (lf_version (lt_hdr lt)) \<longrightarrow> (r, u) \<in> R"
    and "ft_version ft = ucast (rc_version r) \<longleftrightarrow> rc_version r = of_int (lf_version (lt_hdr lt))"
proof -
  obtain lt ft where l: "tr_leaf s (rc_addr r) = Some lt" "tr_fp s (rc_fp_addr r) = Some ft" "leaf_wf city lt ft"
    "ft_lock ft = 0" "rc_capacity r = int (length (lt_entries lt))" "length (lt_entries lt) \<in> {32, 64, 128}"
    by (rule rec_copy_capacity [OF leaf r])
  obtain v where v: "rc_version r = of_int v" "0 \<le> v" "v \<le> lf_version (lt_hdr lt)"
    "v = lf_version (lt_hdr lt) \<longrightarrow> (r, u) \<in> R"
    using r l(1) unfolding rec_copy_def by auto
  have ver: "lf_version (lt_hdr lt) < 2 ^ 31" "ft_version ft = ucast (of_int (lf_version (lt_hdr lt)) :: 56 word)"
    "fp_capacity ft = length (lt_entries lt)" "fp_check_consistent city ft"
    using l(3) by (auto simp: leaf_wf_def table_wf_def fp_capacity_def dest: list_all2_lengthD)
  have inj: "v = lf_version (lt_hdr lt)" if "(of_int v :: 56 word) = of_int (lf_version (lt_hdr lt))"
    using that v ver(1) by (simp add: word_of_int_eq_iff take_bit_int_eq_self)
  show thesis
  proof (rule that [OF l(1-4)])
    show "attach_node (of_int (rc_capacity r)) = Inr (length (lt_entries lt))"
      by (rule attach_capacity [OF l(5)]) (use l(6) in auto)
    show "read_fp (rc_fp_addr r) (length (lt_entries lt)) s = Inr ft" using l(2) ver(3) by (simp add: read_fp_def)
    show "fp_check_consistent city ft" by fact
    show "rc_version r = of_int (lf_version (lt_hdr lt)) \<longrightarrow> (r, u) \<in> R" using v inj by simp
    show "ft_version ft = ucast (rc_version r) \<longleftrightarrow> rc_version r = of_int (lf_version (lt_hdr lt))"
      using ver(2) ucast_56_64 by metis
  qed
qed

text \<open>
  The result of a search: the answer of the map, in a tree over the same memory. A leaf of more
  than 64 entries has a table that does not fit into the stack buffer of \<open>leaf_search\<close>.
\<close>

definition found ::
  "dm_env \<Rightarrow> nat \<Rightarrow> (nat \<Rightarrow> range_node set) \<Rightarrow> (Record \<times> KeyType) set \<Rightarrow> (Gaddr \<times> Gaddr) set \<Rightarrow> (KeyType \<rightharpoonup> ValueType) \<Rightarrow>
     KeyType \<Rightarrow> ValueType \<Rightarrow> dm_tree \<Rightarrow> (ValueType \<times> dm_tree) result \<Rightarrow> bool" where
  "found env h N R Q M key old s res \<longleftrightarrow>
     res = Inl OutOfBounds \<and> \<not> small_leaves s \<or>
     (\<exists>v s'. res = Inr (v, s') \<and> answers M key old v \<and> tree_inv env h N no_pend R Q s' \<and> same_mem s s')"

lemma foundI:
  "answers M key old v \<Longrightarrow> tree_inv env h N no_pend R Q s' \<Longrightarrow> same_mem s s' \<Longrightarrow> found env h N R Q M key old s (Inr (v, s'))"
  unfolding found_def by blast

lemma found_mono:
  assumes "found env h N R Q M key old s1 res" and "same_mem s s1" and "old = old' \<or> old = ValueNull"
  shows "found env h N R Q M key old' s res"
proof -
  have "small_leaves s1 = small_leaves s" using assms(2) by (simp add: small_leaves_def same_mem_def)
  then show ?thesis
    using assms(1) answers_trans [OF _ assms(3)] same_mem_trans [OF assms(2)] unfolding found_def by metis
qed

text \<open>Attaching the table behind a record to the stack buffer.\<close>

lemma attach_cases:
  assumes leaf: "leaf_inv city R Q s" and r: "rec_copy R Q s (r, u)" and stack: "length (en_stack env) = 128"
  obtains "\<not> small_leaves s" and "\<And>F f key old fc lf sync.
        leaf_search F (Suc f) env key old r fc lf sync s = Inl OutOfBounds"
    | lt loc where "tr_leaf s (rc_addr r) = Some lt"
      and "fp_attach (tmp_fp_buffer env (rc_fp_addr r) s) (length (lt_entries lt)) = Inr loc"
      and "length (ft_fp loc) = length (lt_entries lt)"
proof -
  obtain lt ft where l: "tr_leaf s (rc_addr r) = Some lt" "tr_fp s (rc_fp_addr r) = Some ft" "leaf_wf city lt ft"
    "ft_lock ft = 0" "attach_node (of_int (rc_capacity r)) = Inr (length (lt_entries lt))"
    "read_fp (rc_fp_addr r) (length (lt_entries lt)) s = Inr ft" "fp_check_consistent city ft"
    "rc_version r = of_int (lf_version (lt_hdr lt)) \<longrightarrow> (r, u) \<in> R"
    "ft_version ft = ucast (rc_version r) \<longleftrightarrow> rc_version r = of_int (lf_version (lt_hdr lt))"
    by (rule leaf_facts [OF leaf r])
  show thesis
  proof (cases "length (lt_entries lt) \<le> 64")
    case True
    then show thesis by (rule attach_local [OF stack, where a = "rc_fp_addr r" and s = s]) (rule that(2) [OF l(1)])
  next
    case False
    have "length (lt_entries lt) \<in> {32, 64, 128}"
      using rec_copy_capacity [OF leaf r] l(1) by (metis option.inject)
    then have "length (lt_entries lt) = 128" using False by auto
    moreover have "length (tmp_fp_buffer env (rc_fp_addr r) s) = 128" using stack by (simp add: tmp_fp_buffer_def Let_def)
    ultimately have "fp_attach (tmp_fp_buffer env (rc_fp_addr r) s) (length (lt_entries lt)) = Inl OutOfBounds"
      by (simp add: fp_attach_def fp_get_size_def)
    then have "leaf_search F (Suc f) env key old r fc lf sync s = Inl OutOfBounds" for F f key old fc lf sync
      using l(5) by simp
    moreover have "\<not> small_leaves s" using l(1) False by (auto simp: small_leaves_def)
    ultimately show thesis using that(1) by blast
  qed
qed

text \<open>The table is copied to the client's memory unless it is its own or a memory server's.\<close>

definition keep_table :: "dm_env \<Rightarrow> Record \<Rightarrow> FPTable \<Rightarrow> dm_tree \<Rightarrow> dm_tree" where
  "keep_table env r ft s =
     (if nodeID (rc_fp_addr r) \<noteq> of_nat (my_node_id (en_conf env)) \<and> nodeID (rc_fp_addr r) \<noteq> 0
      then s\<lparr>tr_local_fp := (tr_local_fp s)(offset (rc_fp_addr r) := fp_bytes ft)\<rparr> else s)"

lemma keep_table_inv:
  assumes "tree_inv env h N P R Q s"
  shows "same_mem s (keep_table env r ft s)" and "tree_inv env h N P R Q (keep_table env r ft s)"
    and "tr_path (keep_table env r ft s) = tr_path s"
proof -
  show mem: "same_mem s (keep_table env r ft s)" by (simp add: keep_table_def same_mem_def)
  show "tree_inv env h N P R Q (keep_table env r ft s)" by (rule tree_inv_frame [OF assms mem]) (simp_all add: keep_table_def)
  show "tr_path (keep_table env r ft s) = tr_path s" by (simp add: keep_table_def)
qed

text \<open>One round that reads the fingerprints from their server and has a current record.\<close>

lemma leaf_search_current:
  assumes inv: "tree_inv env h N no_pend R Q s" and cur: "current R key r" and map: "contents R s M"
    and stack: "length (en_stack env) = 128"
  shows "found env h N R Q M key old s (leaf_search F (Suc f) env key old r fc False sync s)"
proof -
  have leaf: "leaf_inv (en_city env) R Q s" using inv by (simp add: tree_inv_def)
  obtain u where u: "(r, u) \<in> R" "rc_key r \<le> key" "key < u" using cur unfolding current_def by blast
  note copy = leaf_rec_copy [OF leaf u(1)]
  obtain lt ft where l: "tr_leaf s (rc_addr r) = Some lt" "tr_fp s (rc_fp_addr r) = Some ft" "leaf_wf (en_city env) lt ft"
    "ft_lock ft = 0" "attach_node (of_int (rc_capacity r)) = Inr (length (lt_entries lt))"
    "read_fp (rc_fp_addr r) (length (lt_entries lt)) s = Inr ft" "fp_check_consistent (en_city env) ft"
    "rc_version r = of_int (lf_version (lt_hdr lt)) \<longrightarrow> (r, u) \<in> R"
    "ft_version ft = ucast (rc_version r) \<longleftrightarrow> rc_version r = of_int (lf_version (lt_hdr lt))"
    by (rule leaf_facts [OF leaf copy])
  show ?thesis
  proof (cases rule: attach_cases [OF leaf copy stack])
    case 1
    then show ?thesis unfolding found_def by blast
  next
    case (2 lt' loc)
    have ver: "rc_version r = of_int (lf_version (lt_hdr lt))"
      using leaf u(1) l(1) unfolding leaf_inv_def leaf_at_def by auto
    note kt = keep_table_inv [OF inv, of r ft]
    have wf: "list_all2 (slot_ok (rc_version r)) (ft_fp ft) (lt_entries lt)" "distinct (map fst (table_kvs (lt_entries lt)))"
      using l(3) ver by (simp_all add: leaf_wf_def table_wf_def)
    have M: "table_map (lt_entries lt) key = M key" using map u l(1) unfolding contents_def by blast
    obtain q v where q: "search_slots (cal_key_fp key) key (rc_version r) (ft_fp ft) (lt_entries lt) old = Inr (q, v)"
      "q \<noteq> Stale" "answers M key old v"
      using search_slots_correct [OF wf, of key old] unfolding answers_def M by (cases "M key") auto
    have "leaf_search F (Suc f) env key old r fc False sync s = Inr (v, keep_table env r ft s)"
      using l 2 ver q(1,2) kt(1)
      by (cases q) (simp_all add: Let_def read_leaf_def same_mem_def flip: keep_table_def)
    then show ?thesis using foundI [OF q(3) kt(2,1)] by simp
  qed
qed

declare leaf_search.simps(2) [simp del]

lemma leaf_search_remote:
  assumes inv: "tree_inv env h N no_pend R Q s" and at: "located N h R Q s key r fc" and map: "contents R s M"
    and stack: "length (en_stack env) = 128" and key: "key < KeyMax"
    and F: "h + 2 \<le> F" "card (N 0) < F"
  shows "found env h N R Q M key old s (leaf_search F (Suc (Suc f)) env key old r fc False sync s)"
proof (cases "current R key r")
  case True
  show ?thesis by (rule leaf_search_current [OF inv True map stack])
next
  case False
  have leaf: "leaf_inv (en_city env) R Q s" using inv by (simp add: tree_inv_def)
  obtain u where u: "rec_copy R Q s (r, u)" "rc_key r \<le> key" "key < u" using at unfolding located_def by blast
  obtain lt ft where l: "tr_leaf s (rc_addr r) = Some lt" "tr_fp s (rc_fp_addr r) = Some ft" "leaf_wf (en_city env) lt ft"
    "ft_lock ft = 0" "attach_node (of_int (rc_capacity r)) = Inr (length (lt_entries lt))"
    "read_fp (rc_fp_addr r) (length (lt_entries lt)) s = Inr ft" "fp_check_consistent (en_city env) ft"
    "rc_version r = of_int (lf_version (lt_hdr lt)) \<longrightarrow> (r, u) \<in> R"
    "ft_version ft = ucast (rc_version r) \<longleftrightarrow> rc_version r = of_int (lf_version (lt_hdr lt))"
    by (rule leaf_facts [OF leaf u(1)])
  show ?thesis
  proof (cases rule: attach_cases [OF leaf u(1) stack])
    case 1
    then show ?thesis unfolding found_def by blast
  next
    case (2 lt' loc)
    have ver: "ft_version ft \<noteq> ucast (rc_version r)" using l(8,9) u False unfolding current_def by blast
    let ?s1 = "keep_table env r ft s"
    note kt = keep_table_inv [OF inv, of r ft]
    have path: "cached_path (N 0) key (tr_path ?s1)" if fc using at that kt(3) by (simp add: located_def)
    obtain p fc' sync' s2 where s2: "reroute F env True key fc sync ?s1 = Inr (p, fc', sync', s2)"
      "tree_inv env h N no_pend R Q s2" "same_mem ?s1 s2" "current R key p"
      by (rule reroute_ok [OF kt(2) key F path])
    have mem2: "same_mem s s2" by (rule same_mem_trans [OF kt(1) s2(3)])
    have "contents R s2 M" using map mem2 by (simp add: contents_def same_mem_def)
    from leaf_search_current [OF s2(2,4) this stack]
    have "found env h N R Q M key old s2 (leaf_search F (Suc f) env key old p fc' False sync' s2)" .
    moreover have "leaf_search F (Suc (Suc f)) env key old r fc False sync s = leaf_search F (Suc f) env key old p fc' False sync' s2"
      using l 2 ver s2(1) by (simp add: leaf_search.simps(2) [of F "Suc f"] Let_def flip: keep_table_def)
    ultimately show ?thesis using found_mono [OF _ mem2] by simp
  qed
qed

text \<open>
  The first round may use the client's copy of the fingerprints, which can be out of date: it
  finds the value, or another round follows.
\<close>

lemma leaf_search_ok:
  assumes inv: "tree_inv env h N no_pend R Q s" and at: "located N h R Q s key r fc" and map: "contents R s M"
    and stack: "length (en_stack env) = 128" and key: "key < KeyMax"
    and F: "h + 2 \<le> F" "card (N 0) < F"
  shows "found env h N R Q M key old s (leaf_search F (Suc (Suc (Suc f))) env key old r fc True False s)"
    (is "found env h N R Q M key old s ?S")
proof -
  have leaf: "leaf_inv (en_city env) R Q s" using inv by (simp add: tree_inv_def)
  obtain u where u: "rec_copy R Q s (r, u)" "rc_key r \<le> key" "key < u" using at unfolding located_def by blast
  obtain lt ft where l: "tr_leaf s (rc_addr r) = Some lt" "tr_fp s (rc_fp_addr r) = Some ft" "leaf_wf (en_city env) lt ft"
    "ft_lock ft = 0" "attach_node (of_int (rc_capacity r)) = Inr (length (lt_entries lt))"
    "read_fp (rc_fp_addr r) (length (lt_entries lt)) s = Inr ft" "fp_check_consistent (en_city env) ft"
    "rc_version r = of_int (lf_version (lt_hdr lt)) \<longrightarrow> (r, u) \<in> R"
    "ft_version ft = ucast (rc_version r) \<longleftrightarrow> rc_version r = of_int (lf_version (lt_hdr lt))"
    by (rule leaf_facts [OF leaf u(1)])
  have path: "cached_path (N 0) key (tr_path s)" if fc using at that by (simp add: located_def)
  have remote: "found env h N R Q M key old s (leaf_search F (Suc (Suc g)) env key old' r fc False False s)"
    if "old' = old \<or> old' = ValueNull" for g old'
    by (rule found_mono [OF leaf_search_remote [OF inv at map stack key F] same_mem_refl that])
  obtain p fc' sync' s2 where s2: "reroute F env True key fc False s = Inr (p, fc', sync', s2)"
    "tree_inv env h N no_pend R Q s2" "same_mem s s2" "current R key p"
    by (rule reroute_ok [OF inv key F path])
  have again: "found env h N R Q M key old s (leaf_search F (Suc (Suc f)) env key old' p fc' False sync' s2)"
    if "old' = old \<or> old' = ValueNull" for old'
  proof -
    have "contents R s2 M" using map s2(3) by (simp add: contents_def same_mem_def)
    from found_mono [OF leaf_search_current [OF s2(2,4) this stack] s2(3) that] show ?thesis .
  qed
  show ?thesis
  proof (cases rule: attach_cases [OF leaf u(1) stack])
    case 1
    then show ?thesis unfolding found_def by blast
  next
    case (2 lt' loc)
    then have loc: "fp_attach (tmp_fp_buffer env (rc_fp_addr r) s) (length (lt_entries lt)) = Inr loc"
      "length (ft_fp loc) = length (lt_entries lt)" using l(1) by simp_all
    have tw: "table_wf (en_city env) (of_int (lf_version (lt_hdr lt))) ft (lt_entries lt)" using l(3) by (simp add: leaf_wf_def)
    consider "ft_fp loc ! 0 = 0 \<or> nodeID (rc_fp_addr r) = 0"
      | "ft_fp loc ! 0 \<noteq> 0" "nodeID (rc_fp_addr r) \<noteq> 0" "\<not> fp_check_consistent (en_city env) loc"
      | "ft_fp loc ! 0 \<noteq> 0" "nodeID (rc_fp_addr r) \<noteq> 0" "fp_check_consistent (en_city env) loc" "ft_version loc \<noteq> ucast (rc_version r)"
      | "ft_fp loc ! 0 \<noteq> 0" "nodeID (rc_fp_addr r) \<noteq> 0" "fp_check_consistent (en_city env) loc" "ft_version loc = ucast (rc_version r)"
      by blast
    then show ?thesis
    proof cases
      case 1
      have "?S = leaf_search F (Suc (Suc (Suc f))) env key old r fc False False s"
        unfolding leaf_search.simps(2) [of F "Suc (Suc f)"] using 1 l loc
        by (cases "ft_fp loc ! 0 = 0") (simp_all add: Let_def cong: slot_res.case_cong)
      then show ?thesis using remote [of old "Suc f"] by simp
    next
      case 2
      have "?S = leaf_search F (Suc (Suc f)) env key old r fc False False s"
        unfolding leaf_search.simps(2) [of F "Suc (Suc f)"] using 2 l loc by (simp add: Let_def)
      then show ?thesis using remote by simp
    next
      case 3
      then have "?S = leaf_search F (Suc (Suc f)) env key old p fc' False sync' s2"
        using l loc s2(1) by (simp add: Let_def leaf_search.simps(2) [of F "Suc (Suc f)"])
      then show ?thesis using again by simp
    next
      case 4
      obtain q v where q: "search_slots (cal_key_fp key) key (rc_version r) (ft_fp loc) (lt_entries lt) old = Inr (q, v)"
        "q \<noteq> Found \<longrightarrow> v = old \<or> v = ValueNull" "q = Found \<longrightarrow> (\<exists>e \<in> set (lt_entries lt). e_version e = rc_version r)"
        using search_slots_any [OF loc(2)] by blast
      have S: "?S = (case q of Found \<Rightarrow> Inr (v, s)
         | Stale \<Rightarrow> leaf_search F (Suc (Suc f)) env key v p fc' False sync' s2
         | Absent \<Rightarrow> leaf_search F (Suc (Suc f)) env key v r fc False False s)"
        unfolding leaf_search.simps(2) [of F "Suc (Suc f)"] using 4 l loc q(1) s2(1)
        by (simp add: Let_def read_leaf_def cong: slot_res.case_cong)
      show ?thesis
      proof (cases q)
        case Found
        have "rc_version r = of_int (lf_version (lt_hdr lt))" using leaf_wf_flags [OF tw] q(3) Found by auto
        then have R: "(r, u) \<in> R" using l(8) by blast
        have "distinct (map fst (table_kvs (lt_entries lt)))" using tw by (simp add: table_wf_def)
        then have "table_map (lt_entries lt) key = Some v" using search_slots_sound q(1) Found by blast
        moreover have "table_map (lt_entries lt) key = M key" using map u R l(1) unfolding contents_def by blast
        ultimately have "answers M key old v" by (simp add: answers_def)
        then show ?thesis using foundI [OF _ inv same_mem_refl] S Found by simp
      qed (use S again [of v] remote [of v] q(2) in simp_all)
    qed
  qed
qed

end
