(* ===== verification/TreeLevels.thy ===== *)
theory TreeLevels
  imports TreeRead
begin

text \<open>
  What inserting into, splitting and putting a new root on the inner nodes does to the levels of
  the tree. The lemmas speak of the store of inner nodes only.
\<close>

section \<open>Ranges after an insertion\<close>

lemma bounds_split:
  assumes "(r, u) \<in> set (bounds ls hi)"
  obtains as bs where "ls = as @ r # bs" and "u = (if bs = [] then hi else rc_key (hd bs))"
    and "set (bounds ls hi) = insert (r, u) (set (bounds as (rc_key r)) \<union> set (bounds bs hi))"
  using assms
proof (induction ls arbitrary: thesis)
  case Nil
  then show ?case by simp
next
  case (Cons b bs)
  consider "r = b" "u = (if bs = [] then hi else rc_key (hd bs))" | "(r, u) \<in> set (bounds bs hi)"
    using Cons.prems(2) by auto
  then show ?case
  proof cases
    case 1
    then show ?thesis by (intro Cons.prems(1) [of "[]" bs]) simp_all
  next
    case 2
    obtain as cs where as: "bs = as @ r # cs" "u = (if cs = [] then hi else rc_key (hd cs))"
      "set (bounds bs hi) = insert (r, u) (set (bounds as (rc_key r)) \<union> set (bounds cs hi))"
      using Cons.IH [OF _ 2] by metis
    show ?thesis
      by (rule Cons.prems(1) [of "b # as" cs]) (use as in \<open>auto simp: hd_append\<close>)
  qed
qed

lemma bounds_insert_cases:
  assumes srt: "sorted_wrt (<) (map rc_key ls)" and r: "(r, u) \<in> set (bounds ls hi)"
    and x: "rc_key r \<le> rc_key x" "rc_key x < u" and q: "(q, z) \<in> set (bounds (insert_rec x ls) hi)"
  shows "(q, z) = (x, u) \<or> rc_key r < rc_key x \<and> (q, z) = (r, rc_key x) \<or>
     (q, z) \<in> set (bounds ls hi) \<and> rc_key q \<noteq> rc_key r"
proof -
  obtain as bs where ls: "ls = as @ r # bs" "u = (if bs = [] then hi else rc_key (hd bs))"
    "set (bounds ls hi) = insert (r, u) (set (bounds as (rc_key r)) \<union> set (bounds bs hi))"
    by (rule bounds_split [OF r])
  have as: "\<forall>y \<in> set as. rc_key y < rc_key r" and bs: "\<forall>y \<in> set bs. rc_key r < rc_key y"
    using srt by (auto simp: ls(1) sorted_wrt_append)
  have "insert_rec x bs = x # bs" using x(2) ls(2) by (cases bs) auto
  then have ins: "insert_rec x ls = (if rc_key r < rc_key x then as @ r # x # bs else as @ x # bs)"
    using as x unfolding ls(1) by (subst insert_rec_append) auto
  have other: "rc_key q \<noteq> rc_key r" if "(q, z) \<in> set (bounds as (rc_key r)) \<union> set (bounds bs hi)"
    using that as bs set_fst_bounds [of q z as "rc_key r"] set_fst_bounds [of q z bs hi]
    by (metis Un_iff less_irrefl)
  show ?thesis
  proof (cases "rc_key r < rc_key x")
    case True
    then have "(q, z) = (r, rc_key x) \<or> (q, z) = (x, u) \<or> (q, z) \<in> set (bounds as (rc_key r)) \<union> set (bounds bs hi)"
      using q by (auto simp: ins bounds_append ls(2))
    then show ?thesis using True other ls(3) by auto
  next
    case False
    then have "rc_key x = rc_key r" using x(1) by simp
    then have "(q, z) = (x, u) \<or> (q, z) \<in> set (bounds as (rc_key r)) \<union> set (bounds bs hi)"
      using q False by (auto simp: ins bounds_append ls(2))
    then show ?thesis using other ls(3) by auto
  qed
qed

section \<open>Looking up a node of a level\<close>

lemma level_node:
  assumes "levels city N P R inner root" and "(lo, a, hi) \<in> N l"
  obtains n where "inner a = Some n" and "node_ok city (N l) root l (lo, a, hi) n"
    and "\<forall>p \<in> set (bounds (virt (P l) n) hi). child N R l p"
proof -
  have "node_at city N P R inner root l (lo, a, hi)" using assms by (simp add: levels_def)
  then show thesis using that unfolding node_at_def by blast
qed

lemma level_addr:
  assumes L: "levels city N P R inner root" and pt: "parts fst (snd \<circ> snd) (N l)"
    and x: "(lo, a, hi) \<in> N l" and y: "(lo', a, hi') \<in> N m"
  shows "m = l \<and> lo' = lo \<and> hi' = hi"
proof -
  have ml: "m = l" using L x y unfolding levels_def by (metis fst_conv snd_conv)
  obtain n n' where "inner a = Some n" "node_ok city (N l) root l (lo, a, hi) n"
    "inner a = Some n'" "node_ok city (N m) root m (lo', a, hi') n'"
    using level_node [OF L x] level_node [OF L y] by metis
  then have "lo' = lo" by (auto simp: node_ok_def)
  then show ?thesis using parts_lo_inject [OF pt x, of "(lo', a, hi')"] y ml by auto
qed

lemma level_dom:
  assumes "levels city N P R inner root" and "x \<in> N l"
  shows "fst (snd x) \<in> dom inner"
proof -
  have "(fst x, fst (snd x), snd (snd x)) \<in> N l" using assms(2) by simp
  then show ?thesis by (rule level_node [OF assms(1)]) auto
qed

text \<open>The node that gets the pending records is the one that covers the last of them.\<close>

lemma virt_covered:
  assumes "ps \<noteq> []" and "node_ok city Nl root l (lo, a, hi) n" and "lo \<le> rc_key (last ps)" and "rc_key (last ps) < hi"
  shows "virt ps n = fold insert_rec ps (recs n)"
  using assms by (auto simp: virt_def check_hdr_def node_ok_def)

lemma virt_other:
  assumes pt: "parts fst (snd \<circ> snd) X" and x: "(lo, a, hi) \<in> X" "lo \<le> k" "k < hi" and ps: "k = rc_key (last ps)"
    and y: "(lo', a', hi') \<in> X" "(lo', a', hi') \<noteq> (lo, a, hi)" and n: "node_ok city Y root m (lo', a', hi') n"
  shows "virt ps n = recs n"
proof -
  have "\<not> check_hdr k n"
  proof
    assume "check_hdr k n"
    then have "lo' \<le> k" "k < hi'" using n by (auto simp: check_hdr_def node_ok_def)
    then show False using parts_unique [OF pt x(1) y(1), of k] x(2,3) y(2) by auto
  qed
  then show ?thesis by (simp add: virt_def ps)
qed

section \<open>Insertion\<close>

lemma levels_put:
  assumes L: "levels city N (no_pend(l := ps)) R inner root" and pt: "parts fst (snd \<circ> snd) (N l)"
    and x: "(lo, a, hi) \<in> N l" and k: "ps \<noteq> []" "lo \<le> rc_key (last ps)" "rc_key (last ps) < hi" and n: "inner a = Some n"
    and n': "inner_wf city n' (fold insert_rec ps (recs n))" "in_hdr n' = in_hdr n" "in_lock n' = 0"
  shows "levels city N no_pend R (inner(a \<mapsto> n')) root"
  unfolding levels_def
proof (intro conjI allI ballI impI)
  show "finite (N m)" for m using L by (simp add: levels_def)
  show "fst (snd y) \<noteq> fst (snd z)" if "m \<noteq> m' \<and> y \<in> N m \<and> z \<in> N m'" for m m' y z
    using L that unfolding levels_def by blast
  fix m y assume y: "y \<in> N m"
  obtain lo' a' hi' where y_eq: "y = (lo', a', hi')" by (cases y) auto
  obtain b where b: "inner a' = Some b" "node_ok city (N m) root m (lo', a', hi') b"
    "\<forall>p \<in> set (bounds (virt ((no_pend(l := ps)) m) b) hi'). child N R m p"
    using level_node [OF L] y unfolding y_eq by blast
  show "node_at city N no_pend R (inner(a \<mapsto> n')) root m y"
  proof (cases "a' = a")
    case True
    then have eq: "m = l" "lo' = lo" "hi' = hi" "b = n" using level_addr [OF L pt x, of lo' hi' m] y b(1) n y_eq by auto
    have "virt ps n = fold insert_rec ps (recs n)" using virt_covered [OF k(1) _ k(2,3)] b(2) eq True by blast
    then have "recs n' = virt ps n" using recs_wf [OF n'(1)] by simp
    then show ?thesis using b(2,3) eq True n' unfolding y_eq node_at_def by (auto simp: node_ok_def recs_wf [OF n'(1)])
  next
    case False
    have "virt ((no_pend(l := ps)) m) b = recs b"
      using virt_other [OF pt x k(2,3) refl, of lo' a' hi' city "N m" root m b] y y_eq b(2) False by (cases "m = l") auto
    then show ?thesis using b False unfolding y_eq node_at_def by auto
  qed
qed

section \<open>Splitting a node\<close>

definition split_range :: "KeyType \<Rightarrow> Gaddr \<Rightarrow> KeyType \<Rightarrow> Gaddr \<Rightarrow> KeyType \<Rightarrow> range_node set \<Rightarrow> range_node set" where
  "split_range lo a up sa hi X = X - {(lo, a, hi)} \<union> {(lo, a, up), (up, sa, hi)}"

lemma parts_split_range:
  assumes "parts fst (snd \<circ> snd) X" and "(lo, a, hi) \<in> X" and "lo < up" and "up < hi"
  shows "parts fst (snd \<circ> snd) (split_range lo a up sa hi X)"
  by (rule parts_split [OF assms(1,2), of up _ "(lo, a, up)" "(up, sa, hi)"])
    (use assms(3,4) in \<open>auto simp: split_range_def\<close>)

lemma split_range_keeps:
  assumes "(lo', a', hi') \<in> X" and "lo' \<noteq> lo"
  shows "(lo', a', hi') \<in> split_range lo a up sa hi X"
  using assms by (simp add: split_range_def)

text \<open>One level up, the record of the new node is the one to insert.\<close>

lemma split_parent_links:
  assumes pt: "parts fst (snd \<circ> snd) X" and x: "(lo, a, hi) \<in> X" "lo < up" "up < hi"
    and ok: "node_ok city Y root m (lo', b, hi') n"
    and links: "\<forall>(r, u) \<in> set (bounds (recs n) hi'). (rc_key r, rc_addr r, u) \<in> X"
    and rec: "rc_key rec = up" "rc_addr rec = sa" and p: "(q, z) \<in> set (bounds (virt [rec] n) hi')"
  shows "(rc_key q, rc_addr q, z) \<in> split_range lo a up sa hi X"
proof -
  have wf: "inner_wf city n (recs n)" and hdr: "ih_min_key (in_hdr n) = lo'" "ih_max_key (in_hdr n) = hi'"
    using ok by (auto simp: node_ok_def)
  show ?thesis
  proof (cases "check_hdr up n")
    case True
    then have rng: "lo' \<le> up" "up < hi'" using hdr by (auto simp: check_hdr_def)
    have "ih_min_key (in_hdr n) \<le> up" using hdr rng by simp
    then obtain r u where r: "(r, u) \<in> set (bounds (recs n) hi')" "rc_key r \<le> up" "up < u"
      by (rule inner_find_bounds [OF wf _ rng(2)])
    then have "(rc_key r, rc_addr r, u) \<in> X" using links by blast
    from parts_unique [OF pt x(1) this, of up] x(2,3) r(2,3)
    have eq: "rc_key r = lo" "rc_addr r = a" "u = hi" by auto
    have "(q, z) \<in> set (bounds (insert_rec rec (recs n)) hi')" using p True rec by (simp add: virt_def)
    moreover have "sorted_wrt (<) (map rc_key (recs n))" using wf by (simp add: inner_wf_def)
    ultimately consider "(q, z) = (rec, u)" | "(q, z) = (r, up)" | "(q, z) \<in> set (bounds (recs n) hi')" "rc_key q \<noteq> rc_key r"
      using bounds_insert_cases [OF _ r(1), of rec q z] r(2,3) rec by auto
    then show ?thesis
    proof cases
      case 3
      then have "(rc_key q, rc_addr q, z) \<in> X" using links by blast
      then show ?thesis using split_range_keeps 3 eq by blast
    qed (use eq rec in \<open>auto simp: split_range_def\<close>)
  next
    case False
    then have in_n: "(q, z) \<in> set (bounds (recs n) hi')" using p rec by (simp add: virt_def)
    then have X: "(rc_key q, rc_addr q, z) \<in> X" using links by blast
    have "rc_key q \<noteq> lo"
    proof
      assume "rc_key q = lo"
      with parts_lo_inject [OF pt x(1) X] have "z = hi" "rc_key q = lo" by auto
      then have "lo' \<le> lo" "hi \<le> hi'" using bounds_range [OF wf, of q z] in_n hdr by auto
      then show False using False x(2,3) hdr by (auto simp: check_hdr_def)
    qed
    then show ?thesis using split_range_keeps X by blast
  qed
qed

lemma node_ok_split_other:
  assumes ok: "node_ok city X root l (lo', a', hi') b" and root: "(a' = root') = (a' = root)"
  shows "node_ok city (split_range lo a up sa hi X) root' l (lo', a', hi') b"
proof -
  have "\<exists>hi''. (hi', ih_right_addr (in_hdr b), hi'') \<in> split_range lo a up sa hi X" if "hi' < KeyMax"
  proof -
    obtain hi'' where X: "(hi', ih_right_addr (in_hdr b), hi'') \<in> X" using ok \<open>hi' < KeyMax\<close> by (auto simp: node_ok_def)
    show ?thesis
    proof (cases "(hi', ih_right_addr (in_hdr b), hi'') = (lo, a, hi)")
      case True
      then show ?thesis by (auto simp: split_range_def)
    next
      case False
      then show ?thesis using X by (auto simp: split_range_def)
    qed
  qed
  then show ?thesis using ok root by (auto simp: node_ok_def)
qed

lemma levels_split:
  assumes L: "levels city N (no_pend(l := ps)) R inner root" and pt: "parts fst (snd \<circ> snd) (N l)"
    and x: "(lo, a, hi) \<in> N l" and k: "ps \<noteq> []" "lo \<le> rc_key (last ps)" "rc_key (last ps) < hi"
    and n: "inner a = Some n" and new: "sa \<notin> dom inner" and up: "lo < up" "up < hi"
    and wf: "inner_wf city n1 as" "inner_wf city n2 bs" "as @ bs = fold insert_rec ps (recs n)" "in_lock n1 = 0" "in_lock n2 = 0"
    and h1: "in_hdr n1 = (in_hdr n)\<lparr>ih_right_addr := sa, ih_max_key := up, ih_is_root := False, ih_padding := pad1\<rparr>"
    and h2: "in_hdr n2 = (in_hdr n)\<lparr>ih_min_key := up, ih_is_root := False, ih_padding := pad2\<rparr>"
    and root: "a \<noteq> root'" "sa \<noteq> root'" "\<And>b. b \<in> dom inner \<Longrightarrow> b \<noteq> a \<Longrightarrow> (b = root') = (b = root)"
    and rec: "rc_key rec = up" "rc_addr rec = sa"
  shows "levels city (N(l := split_range lo a up sa hi (N l))) (no_pend(Suc l := [rec])) R
     (inner(sa \<mapsto> n2, a \<mapsto> n1)) root'" (is "levels city ?N ?P R ?I root'")
proof -
  have as: "a \<noteq> sa" using n new by auto
  obtain n' where n': "inner a = Some n'" "node_ok city (N l) root l (lo, a, hi) n'"
    "\<forall>p \<in> set (bounds (virt ((no_pend(l := ps)) l) n') hi). child N R l p"
    by (rule level_node [OF L x])
  then have ok: "node_ok city (N l) root l (lo, a, hi) n" using n by simp
  have "virt ps n = as @ bs" using virt_covered [OF k(1) ok k(2,3)] wf(3) by simp
  moreover have hd_bs: "rc_key (hd bs) = up" "bs \<noteq> []" using wf(2) h2 by (auto simp: inner_wf_def)
  ultimately have links: "\<forall>p \<in> set (bounds as up) \<union> set (bounds bs hi). child N R l p"
    using n'(3) n'(1) n by (auto simp: bounds_append)
  have child: "child N R m p \<Longrightarrow> m \<noteq> Suc l \<Longrightarrow> child ?N R m p" for m p by (auto simp: child_def split: if_splits)
  have at1: "node_at city ?N ?P R ?I root' l (lo, a, up)"
    unfolding node_at_def using ok wf links child [of l] h1 root as
    by (auto simp: node_ok_def split_range_def recs_wf [OF wf(1)])
  have right: "\<exists>hi'. (hi, ih_right_addr (in_hdr n2), hi') \<in> ?N l" if lt: "hi < KeyMax"
  proof -
    obtain hi' where "(hi, ih_right_addr (in_hdr n), hi') \<in> N l" using ok lt by (auto simp: node_ok_def)
    then have "(hi, ih_right_addr (in_hdr n), hi') \<in> split_range lo a up sa hi (N l)"
      by (rule split_range_keeps) (use up in auto)
    then show ?thesis using h2 by auto
  qed
  then have at2: "node_at city ?N ?P R ?I root' l (up, sa, hi)"
    unfolding node_at_def using ok wf links child [of l] h2 root as
    by (auto simp: node_ok_def recs_wf [OF wf(2)])
  have other: "node_at city ?N ?P R ?I root' m y" if y: "y \<in> N m" "y \<noteq> (lo, a, hi)" for m y
  proof -
    obtain lo' a' hi' where y_eq: "y = (lo', a', hi')" by (cases y) auto
    obtain b where b: "inner a' = Some b" "node_ok city (N m) root m (lo', a', hi') b"
      "\<forall>p \<in> set (bounds (virt ((no_pend(l := ps)) m) b) hi'). child N R m p"
      using level_node [OF L] y(1) unfolding y_eq by blast
    have a': "a' \<noteq> a" "a' \<noteq> sa" using level_addr [OF L pt x, of lo' hi' m] y y_eq b(1) new by auto
    have r: "(a' = root') = (a' = root)" using root(3) [of a'] b(1) a' by auto
    have ok': "node_ok city (?N m) root' m (lo', a', hi') b"
      using node_ok_split_other [OF b(2) r, of lo a up sa hi] b(2) r by (cases "m = l") (auto simp: node_ok_def)
    have virt: "virt ((no_pend(l := ps)) m) b = recs b"
      using virt_other [OF pt x k(2,3) refl, of lo' a' hi' city "N m" root m b] y y_eq b(2) a' by (cases "m = l") auto
    have "child ?N R m p" if p: "p \<in> set (bounds (virt (?P m) b) hi')" for p
    proof (cases "m = Suc l")
      case True
      have "\<forall>(r, u) \<in> set (bounds (recs b) hi'). (rc_key r, rc_addr r, u) \<in> N l"
        using b(3) virt True by (auto simp: child_def)
      from split_parent_links [OF pt x up b(2) this rec, of "fst p" "snd p"] p True
      show ?thesis by (auto simp: child_def)
    next
      case False
      then show ?thesis using b(3) virt p child by auto
    qed
    then show ?thesis using b(1) ok' a' unfolding y_eq node_at_def by auto
  qed
  have all: "node_at city ?N ?P R ?I root' m y" if y: "y \<in> ?N m" for m y
  proof -
    have "y \<noteq> (lo, a, hi)" if "m \<noteq> l" using level_addr [OF L pt x, of lo hi m] y that by auto
    then consider "m = l" "y = (lo, a, up)" | "m = l" "y = (up, sa, hi)" | "y \<in> N m" "y \<noteq> (lo, a, hi)"
      using y by (cases "m = l") (auto simp: split_range_def)
    then show ?thesis using at1 at2 other by cases simp_all
  qed
  have dist: "fst (snd y) \<noteq> fst (snd z)" if yz: "m \<noteq> m'" "y \<in> ?N m" "z \<in> ?N m'" for m m' y z
  proof -
    have *: "fst (snd w) = sa \<and> i = l \<or> (\<exists>w' \<in> N i. fst (snd w') = fst (snd w))" if "w \<in> ?N i" for w i
      using that x by (cases "i = l") (force simp: split_range_def)+
    show ?thesis
      using * [OF yz(2)] * [OF yz(3)] yz(1) L new level_dom [OF L] unfolding levels_def by metis
  qed
  have "finite (?N m)" for m using L by (auto simp: levels_def split_range_def)
  then show ?thesis using all dist unfolding levels_def by blast
qed

section \<open>A new root\<close>

lemma levels_new_root:
  assumes L: "levels city N (no_pend(Suc h := [rec])) R inner ra" and top: "\<And>m. h < m \<Longrightarrow> N m = {}"
    and new: "ra \<notin> dom inner" and ch: "(KeyNull, rc_addr r0, up) \<in> N h" "(up, rc_addr rec, KeyMax) \<in> N h"
    and keys: "rc_key r0 = KeyNull" "rc_key rec = up"
    and n: "inner_wf city n [r0, rec]" "in_lock n = 0" "ih_min_key (in_hdr n) = KeyNull" "ih_max_key (in_hdr n) = KeyMax"
      "\<not> ih_next_is_leaf (in_hdr n)" "ih_is_root (in_hdr n)"
  shows "levels city (N(Suc h := {(KeyNull, ra, KeyMax)})) no_pend R (inner(ra \<mapsto> n)) ra" (is "levels city ?N _ R ?I ra")
  unfolding levels_def
proof (intro conjI allI ballI impI)
  show "finite (?N m)" for m using L by (auto simp: levels_def)
  have old: "fst (snd y) \<noteq> ra" if "y \<in> N m" for y m using level_dom [OF L that] new by auto
  show "fst (snd y) \<noteq> fst (snd z)" if yz: "m \<noteq> m' \<and> y \<in> ?N m \<and> z \<in> ?N m'" for m m' y z
  proof (cases "m = Suc h \<or> m' = Suc h")
    case True
    then show ?thesis using yz old [of y m] old [of z m'] by (cases "m = Suc h") auto
  next
    case False
    then have "y \<in> N m" "z \<in> N m'" "m \<noteq> m'" using yz by auto
    then show ?thesis using L unfolding levels_def by blast
  qed
  fix m y assume y: "y \<in> ?N m"
  show "node_at city ?N no_pend R ?I ra m y"
  proof (cases "m = Suc h")
    case True
    then show ?thesis using y n ch keys unfolding node_at_def
      by (auto simp: node_ok_def child_def recs_wf [OF n(1)])
  next
    case False
    then have yN: "y \<in> N m" using y by simp
    obtain lo' a' hi' where y_eq: "y = (lo', a', hi')" by (cases y) auto
    obtain b where b: "inner a' = Some b" "node_ok city (N m) ra m (lo', a', hi') b"
      "\<forall>p \<in> set (bounds (virt ((no_pend(Suc h := [rec])) m) b) hi'). child N R m p"
      using level_node [OF L] yN unfolding y_eq by blast
    have "m \<le> h" using top [of m] yN by (cases "h < m") auto
    then have "child N R m p \<Longrightarrow> child ?N R m p" for p by (auto simp: child_def split: if_splits)
    then show ?thesis using b old [OF yN] False unfolding y_eq node_at_def by auto
  qed
qed

section \<open>The same for the whole tree\<close>

lemma bottom_copies:
  assumes inner: "inner_inv city h N P R s" and leaf: "leaf_inv city R Q s" and "P 0 = []"
    and x: "(lo, a, hi) \<in> N 0" "tr_inner s a = Some n"
  shows "node_copy city R Q s n"
proof -
  note nf = node_facts [OF inner x]
  have "rec_copy R Q s p" if "p \<in> set (bounds (recs n) hi)" for p
  proof -
    have "p \<in> R" using nf(8) [of p] that \<open>P 0 = []\<close> by (cases p) (simp add: child_def)
    then show ?thesis using leaf_rec_copy [OF leaf, of "fst p" "snd p"] by simp
  qed
  then show ?thesis using nf(1,4,5) by (simp add: node_copy_def)
qed

text \<open>What the client knows stays right when nodes only get siblings.\<close>

lemma tree_inv_grow:
  assumes inv: "tree_inv env h N P R Q s" and inner: "inner_inv (en_city env) h' N' P' R s'" and pend: "P' 0 = []"
    and same: "tr_leaf s' = tr_leaf s" "tr_fp s' = tr_fp s" "tr_cache s' = tr_cache s" "tr_local_root s' = tr_local_root s"
      "tr_glock s' = 0"
    and more: "\<And>l lo a hi. (lo, a, hi) \<in> N l \<Longrightarrow> \<exists>hi'. (lo, a, hi') \<in> N' l"
    and addrs: "addrs_inv (en_conf env) (dom (tr_inner s') \<union> dom (tr_leaf s') \<union> dom (tr_fp s')) (tr_alloc s')"
    and rb: "rbuf_ok s'"
  shows "tree_inv env h' N' P' R Q s'"
proof -
  have leaf: "leaf_inv (en_city env) R Q s'"
    using inv same(1,2) by (simp add: tree_inv_def leaf_inv_def pair_ok_def leaf_at_def)
  have copy: "node_copy city R Q s' n = node_copy city R Q s n" for city n using same(1) by (simp add: node_copy_def rec_copy_def)
  have ok: "cache_ok (en_city env) (N 0) R Q s (tr_cache s)"
    and lr: "tr_local_root s = Gaddr_Null \<or> (\<exists>l lo hi. (lo, tr_local_root s, hi) \<in> N l)"
    using inv by (simp_all add: tree_inv_def client_inv_def)
  have "cache_ok (en_city env) (N' 0) R Q s' (tr_cache s')"
    unfolding cache_ok_def same(3)
  proof (intro conjI ballI allI impI)
    show "cache_inv (tr_cache s)" using ok by (simp add: cache_ok_def)
    fix e assume e: "e \<in> set (dc_skiplist (tr_cache s))"
    then obtain hi where "(ce_key e, ce_remote_addr e, hi) \<in> N 0" using ok unfolding cache_ok_def by blast
    then show "\<exists>hi. (ce_key e, ce_remote_addr e, hi) \<in> N' 0" by (rule more)
    show "node_copy (en_city env) R Q s' (dc_buf (tr_cache s) p)" if "ce_node e = Some p" for p
      using ok e that copy unfolding cache_ok_def by blast
  qed
  moreover have "node_copy (en_city env) R Q s' n" if "(lo, a, hi) \<in> N' 0" "tr_inner s' a = Some n" for lo a hi n
    by (rule bottom_copies [OF inner leaf pend that])
  moreover have "tr_local_root s' = Gaddr_Null \<or> (\<exists>l lo hi. (lo, tr_local_root s', hi) \<in> N' l)"
    using lr more same(4) by metis
  ultimately have "client_inv env N' R Q s'" using same(5) addrs unfolding client_inv_def by blast
  then show ?thesis using inner leaf rb by (simp add: tree_inv_def)
qed

lemma tree_inv_put:
  assumes inv: "tree_inv env h N (no_pend(l := ps)) R Q s"
    and x: "(lo, a, hi) \<in> N l" and k: "ps \<noteq> []" "lo \<le> rc_key (last ps)" "rc_key (last ps) < hi" and n: "tr_inner s a = Some n"
    and n': "inner_wf (en_city env) n' (fold insert_rec ps (recs n))" "in_hdr n' = in_hdr n" "in_lock n' = 0"
  shows "tree_inv env h N no_pend R Q (write_inner a n' (s\<lparr>tr_node := b\<rparr>))"
proof (rule tree_inv_grow [OF inv])
  note inner = tree_inv_inner [OF inv]
  have L: "levels (en_city env) N (no_pend(l := ps)) R (tr_inner s) (tr_root s)" using inner by (simp add: inner_inv_def)
  have "levels (en_city env) N no_pend R ((tr_inner s)(a \<mapsto> n')) (tr_root s)"
    by (rule levels_put [OF L level_parts [OF inner level_le [OF inner x]] x k n n'])
  then show "inner_inv (en_city env) h N no_pend R (write_inner a n' (s\<lparr>tr_node := b\<rparr>))"
    using inner by (simp add: inner_inv_def write_inner_def)
  show "addrs_inv (en_conf env) (dom (tr_inner (write_inner a n' (s\<lparr>tr_node := b\<rparr>))) \<union>
      dom (tr_leaf (write_inner a n' (s\<lparr>tr_node := b\<rparr>))) \<union> dom (tr_fp (write_inner a n' (s\<lparr>tr_node := b\<rparr>))))
      (tr_alloc (write_inner a n' (s\<lparr>tr_node := b\<rparr>)))"
    using inv n by (simp add: tree_inv_def client_inv_def write_inner_def insert_absorb domI)
qed (use inv in \<open>auto simp: write_inner_def tree_inv_def client_inv_def\<close>)

text \<open>The facts about the two halves of a split node, as \<open>node_split\<close> leaves them.\<close>

definition halves ::
  "(u8 list \<Rightarrow> u32) \<Rightarrow> Record list \<Rightarrow> Gaddr \<Rightarrow> KeyType \<Rightarrow> InnerNode \<Rightarrow> InnerNode \<Rightarrow> InnerNode \<Rightarrow> bool" where
  "halves city ls sa up n n1 n2 \<longleftrightarrow>
     (\<exists>as bs pad1 pad2. inner_wf city n1 as \<and> inner_wf city n2 bs \<and> as @ bs = ls \<and> in_lock n1 = 0 \<and> in_lock n2 = 0 \<and>
        in_hdr n1 = (in_hdr n)\<lparr>ih_right_addr := sa, ih_max_key := up, ih_is_root := False, ih_padding := pad1\<rparr> \<and>
        in_hdr n2 = (in_hdr n)\<lparr>ih_min_key := up, ih_is_root := False, ih_padding := pad2\<rparr>)"

lemma tree_levels_split:
  assumes inv: "tree_inv env h N (no_pend(l := ps)) R Q s"
    and x: "(lo, a, hi) \<in> N l" and k: "ps \<noteq> []" "lo \<le> rc_key (last ps)" "rc_key (last ps) < hi" and n: "tr_inner s a = Some n"
    and up: "lo < up" "up < hi" and hv: "halves (en_city env) (fold insert_rec ps (recs n)) sa up n n1 n2"
    and new: "sa \<notin> dom (tr_inner s)" and rec: "rc_key rec = up" "rc_addr rec = sa"
    and root: "root' = (if l = h then ra else tr_root s)" "ra \<notin> dom (tr_inner s)" "ra \<noteq> sa"
  shows "levels (en_city env) (N(l := split_range lo a up sa hi (N l))) (no_pend(Suc l := [rec])) R
     ((tr_inner s)(sa \<mapsto> n2, a \<mapsto> n1)) root'"
proof -
  note inner = tree_inv_inner [OF inv]
  have L: "levels (en_city env) N (no_pend(l := ps)) R (tr_inner s) (tr_root s)" using inner by (simp add: inner_inv_def)
  obtain as bs pad1 pad2 where hv': "inner_wf (en_city env) n1 as" "inner_wf (en_city env) n2 bs"
    "as @ bs = fold insert_rec ps (recs n)" "in_lock n1 = 0" "in_lock n2 = 0"
    "in_hdr n1 = (in_hdr n)\<lparr>ih_right_addr := sa, ih_max_key := up, ih_is_root := False, ih_padding := pad1\<rparr>"
    "in_hdr n2 = (in_hdr n)\<lparr>ih_min_key := up, ih_is_root := False, ih_padding := pad2\<rparr>"
    using hv unfolding halves_def by blast
  have ar: "a = tr_root s \<longleftrightarrow> l = h" by (rule root_level [OF inner x])
  obtain rn where rn: "tr_inner s (tr_root s) = Some rn" by (rule node_exists [OF inner root_node [OF inv]])
  show ?thesis
  proof (rule levels_split [OF L level_parts [OF inner level_le [OF inner x]] x k n new up hv' _ _ _ rec])
    show "a \<noteq> root'" "sa \<noteq> root'" using ar n root new rn by (auto split: if_splits)
    show "(b = root') = (b = tr_root s)" if "b \<in> dom (tr_inner s)" "b \<noteq> a" for b
      using that ar root by (auto split: if_splits)
  qed
qed

lemma split_range_more:
  assumes "(lo', a', hi') \<in> N m"
  shows "\<exists>hi''. (lo', a', hi'') \<in> (N(l := split_range lo a up sa hi (N l))) m"
  using assms by (auto simp: split_range_def)

lemma tree_inv_split:
  assumes inv: "tree_inv env h N (no_pend(l := ps)) R Q s" and lh: "l < h"
    and x: "(lo, a, hi) \<in> N l" and k: "ps \<noteq> []" "lo \<le> rc_key (last ps)" "rc_key (last ps) < hi" and n: "tr_inner s a = Some n"
    and up: "lo < up" "up < hi" and hv: "halves (en_city env) (fold insert_rec ps (recs n)) sa up n n1 n2"
    and new: "sa \<notin> dom (tr_inner s)" and rec: "rc_key rec = up" "rc_addr rec = sa"
    and s': "s' = s\<lparr>tr_inner := (tr_inner s)(sa \<mapsto> n2, a \<mapsto> n1), tr_alloc := da, tr_path := p, tr_node := nb, tr_rbuf := rb\<rparr>"
    and rb: "rb_wf rbase rb"
    and addrs: "addrs_inv (en_conf env) (insert sa (dom (tr_inner s) \<union> dom (tr_leaf s) \<union> dom (tr_fp s))) da"
  shows "tree_inv env h (N(l := split_range lo a up sa hi (N l))) (no_pend(Suc l := [rec])) R Q s'"
proof (rule tree_inv_grow [OF inv])
  note inner = tree_inv_inner [OF inv]
  have "\<exists>ra. ra \<notin> dom (tr_inner s) \<and> ra \<noteq> sa"
  proof -
    have "Gaddr_Null \<notin> insert sa (dom (tr_inner s))" using addrs by (auto simp: addrs_inv_def)
    then show ?thesis by blast
  qed
  then obtain ra where ra: "ra \<notin> dom (tr_inner s)" "ra \<noteq> sa" by blast
  have root: "tr_root s = (if l = h then ra else tr_root s)" using lh by simp
  have "parts fst (snd \<circ> snd) ((N(l := split_range lo a up sa hi (N l))) m)" if "m \<le> h" for m
    using parts_split_range [OF level_parts [OF inner level_le [OF inner x]] x up] level_parts [OF inner that] by simp
  moreover have "levels (en_city env) (N(l := split_range lo a up sa hi (N l))) (no_pend(Suc l := [rec])) R
     ((tr_inner s)(sa \<mapsto> n2, a \<mapsto> n1)) (tr_root s)"
    by (rule tree_levels_split [OF inv x k n up hv new rec root ra])
  ultimately show "inner_inv (en_city env) h (N(l := split_range lo a up sa hi (N l))) (no_pend(Suc l := [rec])) R s'"
    using inner lh unfolding inner_inv_def s' by simp
  show "\<exists>hi''. (lo', a', hi'') \<in> (N(l := split_range lo a up sa hi (N l))) m" if "(lo', a', hi') \<in> N m" for m lo' a' hi'
    using that by (rule split_range_more)
  have "insert a (insert sa (dom (tr_inner s))) = insert sa (dom (tr_inner s))" using n by auto
  then show "addrs_inv (en_conf env) (dom (tr_inner s') \<union> dom (tr_leaf s') \<union> dom (tr_fp s')) (tr_alloc s')"
    using addrs by (simp add: s' insert_commute)
  show "rbuf_ok s'" using rb by (auto simp: s' rbuf_ok_def)
qed (use inv in \<open>simp_all add: s' tree_inv_def client_inv_def\<close>)

lemma tree_inv_new_root:
  assumes inv: "tree_inv env h N (no_pend(h := ps)) R Q s"
    and k: "ps \<noteq> []" "rc_key (last ps) < KeyMax" and n: "tr_inner s (tr_root s) = Some n"
    and up: "KeyNull < up" "up < KeyMax" and hv: "halves (en_city env) (fold insert_rec ps (recs n)) sa up n n1 n2"
    and new: "sa \<notin> dom (tr_inner s)" "ra \<notin> dom (tr_inner s)" "ra \<noteq> sa" and rec: "rc_key rec = up" "rc_addr rec = sa"
    and rn: "inner_wf (en_city env) m [r0, rec]" "in_lock m = 0" "ih_min_key (in_hdr m) = KeyNull" "ih_max_key (in_hdr m) = KeyMax"
      "\<not> ih_next_is_leaf (in_hdr m)" "ih_is_root (in_hdr m)" "rc_key r0 = KeyNull" "rc_addr r0 = tr_root s"
    and s': "s' = s\<lparr>tr_inner := (tr_inner s)(sa \<mapsto> n2, tr_root s \<mapsto> n1, ra \<mapsto> m), tr_root := ra, tr_alloc := da,
       tr_path := p, tr_node := nb, tr_rbuf := rb\<rparr>"
    and rb: "rb_wf rbase rb"
    and addrs: "addrs_inv (en_conf env) (insert ra (insert sa (dom (tr_inner s) \<union> dom (tr_leaf s) \<union> dom (tr_fp s)))) da"
  shows "tree_inv env (Suc h) (N(h := {(KeyNull, tr_root s, up), (up, sa, KeyMax)}, Suc h := {(KeyNull, ra, KeyMax)}))
     no_pend R Q s'"
proof (rule tree_inv_grow [OF inv])
  note inner = tree_inv_inner [OF inv] and root = root_node [OF inv]
  have Nh: "N h = {(KeyNull, tr_root s, KeyMax)}" using inner by (simp add: inner_inv_def)
  have sr: "split_range KeyNull (tr_root s) up sa KeyMax (N h) = {(KeyNull, tr_root s, up), (up, sa, KeyMax)}"
    by (simp add: split_range_def Nh)
  let ?N = "N(h := {(KeyNull, tr_root s, up), (up, sa, KeyMax)}, Suc h := {(KeyNull, ra, KeyMax)})"
  have L: "levels (en_city env) (N(h := {(KeyNull, tr_root s, up), (up, sa, KeyMax)})) (no_pend(Suc h := [rec])) R
     ((tr_inner s)(sa \<mapsto> n2, tr_root s \<mapsto> n1)) ra"
    using tree_levels_split [OF inv root k(1) KeyNull_least k(2) n up hv new(1) rec refl new(2,3)] by (simp add: sr)
  have "levels (en_city env) ?N no_pend R ((tr_inner s)(sa \<mapsto> n2, tr_root s \<mapsto> n1, ra \<mapsto> m)) ra"
    by (rule levels_new_root [OF L, of r0 up])
      (use inner new rn rec n in \<open>auto simp: inner_inv_def\<close>)
  moreover have "parts fst (snd \<circ> snd) (?N l)" if "l \<le> Suc h" for l
  proof -
    have "parts fst (snd \<circ> snd) {(KeyNull, ra, KeyMax)}" using KeyNull_less_KeyMax by (auto simp: parts_def)
    moreover have "parts fst (snd \<circ> snd) {(KeyNull, tr_root s, up), (up, sa, KeyMax)}"
      using parts_split_range [OF level_parts [OF inner order_refl] root up, of sa] by (simp add: sr)
    ultimately show ?thesis using that level_parts [OF inner, of l] by (auto simp: le_Suc_eq)
  qed
  ultimately show "inner_inv (en_city env) (Suc h) ?N no_pend R s'"
    using inner unfolding inner_inv_def s' by auto
  show "\<exists>hi''. (lo', a', hi'') \<in> ?N l" if "(lo', a', hi') \<in> N l" for l lo' a' hi'
    using that inner Nh by (auto simp: inner_inv_def)
  have "dom (tr_inner s') = insert ra (insert sa (dom (tr_inner s)))" using n by (auto simp: s')
  then show "addrs_inv (en_conf env) (dom (tr_inner s') \<union> dom (tr_leaf s') \<union> dom (tr_fp s')) (tr_alloc s')"
    using addrs by (simp add: s')
  show "rbuf_ok s'" using rb by (auto simp: s' rbuf_ok_def)
qed (use inv in \<open>simp_all add: s' tree_inv_def client_inv_def\<close>)

end
