(* ===== verification/TreeInsert.thy ===== *)
theory TreeInsert
  imports TreeLevels
begin

text \<open>
  The insertion of a record into the inner index: locking and moving to the right, writing a node,
  splitting it, and the loop that carries the new records upwards to the root.
\<close>

section \<open>Locked nodes\<close>

definition locked :: "Gaddr \<Rightarrow> InnerNode \<Rightarrow> dm_tree \<Rightarrow> dm_tree" where
  "locked a n s = (write_inner a (n\<lparr>in_lock := 1\<rparr>) s)\<lparr>tr_node := n\<lparr>in_lock := 1\<rparr>\<rparr>"

lemma locked_simps [simp]:
  "tr_node (locked a n s) = n\<lparr>in_lock := 1\<rparr>" "tr_inner (locked a n s) = (tr_inner s)(a \<mapsto> n\<lparr>in_lock := 1\<rparr>)"
  "locked a n (s\<lparr>tr_node := b\<rparr>) = locked a n s" "tr_path (locked a n s) = tr_path s"
  by (simp_all add: locked_def write_inner_def)

lemma inner_consistent_lock [simp]: "inner_check_consistent city (n\<lparr>in_lock := x\<rparr>) = inner_check_consistent city n"
  by (simp add: inner_check_consistent_def inner_bytes_def)

lemma inner_wf_lock [simp]: "inner_wf city (n\<lparr>in_lock := x\<rparr>) ls = inner_wf city n ls"
  by (simp add: inner_wf_def)

lemma write_same:
  assumes "tr_inner s a = Some n" and "in_lock n = 0"
  shows "write_inner a (n\<lparr>in_lock := 1, in_lock := 0\<rparr>) (write_inner a m s) = s"
proof -
  have "n\<lparr>in_lock := 1, in_lock := 0\<rparr> = n" using assms(2) by simp
  moreover have "(tr_inner s)(a \<mapsto> n) = tr_inner s" using assms(1) by auto
  ultimately show ?thesis by (simp add: write_inner_def)
qed

lemma unlock_locked:
  assumes "tr_inner s a = Some n" and "in_lock n = 0"
  shows "unlock_node a (locked a n s) = Inr (s\<lparr>tr_node := n\<lparr>in_lock := 1\<rparr>\<rparr>)"
proof -
  have "(tr_inner s)(a \<mapsto> n) = tr_inner s" using assms(1) by auto
  moreover have "n\<lparr>in_lock := 0\<rparr> = n" using assms(2) by simp
  ultimately show ?thesis by (simp add: unlock_node_def locked_def write_inner_def read_inner_def)
qed

lemma lock_read_ok:
  assumes inner: "inner_inv (en_city env) h N P R s" and x: "(lo, a, hi) \<in> N l" and n: "tr_inner s a = Some n"
  shows "lock_read env a s = Inr (locked a n s)"
  using node_facts(1,2) [OF inner x n] n wf_consistent
  by (simp add: lock_read_def lock_node_def read_inner_def write_inner_def locked_def)

lemma ahead_covered:
  assumes pt: "parts fst (snd \<circ> snd) X" and x: "(lo, a, hi) \<in> X" and "k < hi"
  shows "ahead X lo k = 0"
proof -
  have False if y: "y \<in> X" "lo < fst y" "fst y \<le> k" for y
  proof -
    have "fst y < (snd \<circ> snd) y" using pt y(1) unfolding parts_def by blast
    then have "y = (lo, a, hi)" using parts_unique [OF pt y(1) x, of "fst y"] y \<open>k < hi\<close> by auto
    then show False using y(2) by simp
  qed
  then have "{x \<in> X. lo < fst x \<and> fst x \<le> k} = {}" by blast
  then show ?thesis by (simp only: ahead_def card.empty)
qed

lemma move_right_ok:
  assumes inner: "inner_inv (en_city env) h N P R s" and key: "key < KeyMax"
    and "(lo, a, hi) \<in> N l" and "lo \<le> key" and "tr_inner s a = Some n" and "ahead (N l) lo key < f"
  shows "\<exists>lo' a' hi' n'. move_right f env a key (locked a n s) = Inr (a', locked a' n' s) \<and>
     (lo', a', hi') \<in> N l \<and> lo' \<le> key \<and> key < hi' \<and> tr_inner s a' = Some n'"
  using assms(3-)
proof (induction f arbitrary: lo a hi n)
  case 0
  then show ?case by simp
next
  case (Suc f)
  note nf = node_facts [OF inner Suc.prems(1,3)]
  show ?case
  proof (cases "key < hi")
    case True
    then have "move_right (Suc f) env a key (locked a n s) = Inr (a, locked a n s)"
      using nf(3,4) Suc.prems(2) by (simp add: check_hdr_def)
    then show ?thesis using Suc.prems(1-3) True by blast
  next
    case False
    then have hi: "hi \<le> key" by simp
    obtain hi' where r: "(hi, ih_right_addr (in_hdr n), hi') \<in> N l" using nf(7) [OF le_less_trans [OF hi key]] by blast
    let ?b = "ih_right_addr (in_hdr n)"
    obtain m where m: "tr_inner s ?b = Some m" by (rule node_exists [OF inner r])
    have "finite (N l)" using inner by (simp add: inner_inv_def levels_def)
    from ahead_right [OF this r node_range(1) [OF inner Suc.prems(1)] hi]
    have f: "ahead (N l) hi key < f" using Suc.prems(4) by simp
    have "lock_read env ?b (s\<lparr>tr_node := n\<lparr>in_lock := 1\<rparr>\<rparr>) = Inr (locked ?b m s)"
      using lock_read_ok [of env h N P R "s\<lparr>tr_node := n\<lparr>in_lock := 1\<rparr>\<rparr>", OF _ r] m inner by (simp add: inner_inv_def)
    then have "move_right (Suc f) env a key (locked a n s) = move_right f env ?b key (locked ?b m s)"
      using unlock_locked [OF Suc.prems(3) nf(2)] nf(4) leD [OF hi] by (simp add: check_hdr_def Let_def)
    then show ?thesis using Suc.IH [OF r hi m f] by simp
  qed
qed

section \<open>Writing into a node\<close>

text \<open>The records of a node that the update of a bottom record relies on.\<close>

definition upd_ok :: "(nat \<Rightarrow> range_node set) \<Rightarrow> dm_tree \<Rightarrow> Record \<Rightarrow> Record \<Rightarrow> bool" where
  "upd_ok N s upd rec \<longleftrightarrow> rc_valid upd = 1 \<and>
     (\<forall>lo a hi n. (lo, a, hi) \<in> N 0 \<and> lo \<le> rc_key rec \<and> rc_key rec < hi \<and> tr_inner s a = Some n \<longrightarrow>
        rc_key upd \<in> rc_key ` set (recs n))"

definition pend_list :: "nat \<Rightarrow> Record \<Rightarrow> Record \<Rightarrow> Record list" where
  "pend_list l upd rec = (if l = 0 then [upd, rec] else [rec])"

lemma pend_list_simps [simp]:
  "pend_list l upd rec \<noteq> []" "last (pend_list l upd rec) = rec"
  "fold insert_rec (pend_list l upd rec) ls = insert_rec rec (fold insert_rec (butlast (pend_list l upd rec)) ls)"
  by (simp_all add: pend_list_def)

lemma update_ins:
  assumes wf: "inner_wf city n ls" and upd: "rc_key upd \<in> rc_key ` set ls" "rc_valid upd = 1"
  obtains n' where "assert_ins city upd n = Inr n'" and "inner_wf city n' (insert_rec upd ls)"
    and "in_hdr n' = in_hdr n" and "in_lock n' = in_lock n" and "check_hdr (rc_key upd) n"
proof -
  obtain r where r: "r \<in> set ls" "rc_key upd = rc_key r" using upd(1) by auto
  have "sorted_wrt (<) (map rc_key ls)" "ls \<noteq> []" using wf by (simp_all add: inner_wf_def)
  then have "rc_key (hd ls) \<le> rc_key r" using r(1) by (cases ls) auto
  then have rng: "ih_min_key (in_hdr n) \<le> rc_key upd" "rc_key upd < ih_max_key (in_hdr n)"
    using wf r by (simp_all add: inner_wf_def)
  show thesis
    using inner_ins_correct [OF wf rng upd(2)] upd(1) that rng
    by (auto simp: assert_ins_def check_hdr_def)
qed

lemma inner_write_ok:
  assumes inv: "tree_inv env h N (no_pend(l := pend_list l upd rec)) R Q s" and x: "(lo0, a0, hi0) \<in> N l" "lo0 \<le> rc_key rec"
    and key: "rc_key rec < KeyMax" and rec: "rc_valid rec = 1" and upd: "l = 0 \<Longrightarrow> upd_ok N s upd rec"
    and F: "ahead (N l) lo0 (rc_key rec) < F"
  obtains lo a hi n n' where "(lo, a, hi) \<in> N l" and "lo \<le> rc_key rec" and "rc_key rec < hi" and "tr_inner s a = Some n"
      and "inner_write F env a0 rec upd (l = 0) s = Inr (True, a, write_inner a n' ((next_page s)\<lparr>tr_node := n'\<rparr>))"
      and "inner_wf (en_city env) n' (fold insert_rec (pend_list l upd rec) (recs n))" and "in_hdr n' = in_hdr n"
      and "in_lock n' = 0"
    | lo a hi n m where "(lo, a, hi) \<in> N l" and "lo \<le> rc_key rec" and "rc_key rec < hi" and "tr_inner s a = Some n"
      and "inner_write F env a0 rec upd (l = 0) s = Inr (False, a, (locked a n (next_page s))\<lparr>tr_node := m\<rparr>)"
      and "inner_wf (en_city env) m (fold insert_rec (butlast (pend_list l upd rec)) (recs n))" and "in_hdr m = in_hdr n"
      and "length (fold insert_rec (butlast (pend_list l upd rec)) (recs n)) = InnerNodeCapacity"
      and "rc_key rec \<notin> rc_key ` set (fold insert_rec (butlast (pend_list l upd rec)) (recs n))"
proof -
  let ?s = "next_page s"
  note inner = tree_inv_inner [OF tree_inv_next_page [OF inv]]
  obtain n0 where n0: "tr_inner ?s a0 = Some n0" by (rule node_exists [OF inner x(1)])
  obtain lo a hi n where y: "move_right F env a0 (rc_key rec) (locked a0 n0 ?s) = Inr (a, locked a n ?s)"
    "(lo, a, hi) \<in> N l" "lo \<le> rc_key rec" "rc_key rec < hi" "tr_inner ?s a = Some n"
    using move_right_ok [OF inner key x n0 F] by blast
  note nf = node_facts [OF inner y(2,5)]
  have n: "tr_inner s a = Some n" using y(5) by simp
  let ?ls = "fold insert_rec (butlast (pend_list l upd rec)) (recs n)" and ?nl = "n\<lparr>in_lock := 1\<rparr>"
  have wfl: "inner_wf (en_city env) ?nl (recs n)" using nf(1) by simp
  obtain m where m: "(if l = 0 then res_bind (res_assert ''node->get_hdr().next_is_leaf'' (ih_next_is_leaf (in_hdr ?nl))) (\<lambda>_.
       res_bind (res_assert ''node->check_hdr(update_record.key)'' (check_hdr (rc_key upd) ?nl)) (\<lambda>_.
       assert_ins (en_city env) upd ?nl)) else Inr ?nl) = Inr m"
    "inner_wf (en_city env) m ?ls" "in_hdr m = in_hdr n"
  proof (cases "l = 0")
    case True
    then have "rc_key upd \<in> rc_key ` set (recs n)" "rc_valid upd = 1" using upd y(2-4) n unfolding upd_ok_def by blast+
    from update_ins [OF wfl this] obtain m where "assert_ins (en_city env) upd ?nl = Inr m"
      "inner_wf (en_city env) m (insert_rec upd (recs n))" "in_hdr m = in_hdr ?nl" "check_hdr (rc_key upd) ?nl" by blast
    then show thesis using that [of m] True nf(5) by (simp add: pend_list_def)
  next
    case False
    then show thesis using that [of ?nl] wfl by (simp add: pend_list_def)
  qed
  have base: "inner_write F env a0 rec upd (l = 0) s =
      res_bind (inner_ins (en_city env) rec m) (\<lambda>r.
      case r of
        Some node' \<Rightarrow> (let b = inner_unlock node' in Inr (True, a, write_inner a b ((locked a n ?s)\<lparr>tr_node := b\<rparr>)))
      | None \<Rightarrow> Inr (False, a, (locked a n ?s)\<lparr>tr_node := m\<rparr>))"
    using lock_read_ok [OF inner x(1) n0] y(1) m(1) by (simp add: inner_write_def del: if_split cong: if_cong)
  have rng: "ih_min_key (in_hdr m) \<le> rc_key rec" "rc_key rec < ih_max_key (in_hdr m)" using m(3) nf(3,4) y(3,4) by simp_all
  show thesis
  proof (cases "rc_key rec \<in> rc_key ` set ?ls \<or> length ?ls < InnerNodeCapacity")
    case True
    then obtain n' where n': "inner_ins (en_city env) rec m = Inr (Some n')" "inner_wf (en_city env) n' (insert_rec rec ?ls)"
      "in_hdr n' = in_hdr m"
      using inner_ins_correct [OF m(2) rng rec] by auto
    have "inner_write F env a0 rec upd (l = 0) s =
        Inr (True, a, write_inner a (inner_unlock n') (?s\<lparr>tr_node := inner_unlock n'\<rparr>))"
      using base n'(1) by (simp add: Let_def locked_def write_inner_def)
    then show thesis using that(1) [OF y(2-4) n, of "inner_unlock n'"] n' m(3) by (simp add: inner_unlock_def)
  next
    case False
    then have "inner_ins (en_city env) rec m = Inr None" using inner_ins_correct [OF m(2) rng rec] by simp
    then have "inner_write F env a0 rec upd (l = 0) s = Inr (False, a, (locked a n ?s)\<lparr>tr_node := m\<rparr>)" using base by simp
    moreover have "length ?ls \<le> InnerNodeCapacity" using m(2) by (auto simp: inner_wf_def)
    ultimately show thesis using that(2) [OF y(2-4) n _ m(2,3)] False by auto
  qed
qed

section \<open>Splitting and a new root\<close>

abbreviation used_addrs :: "dm_tree \<Rightarrow> Gaddr set" where
  "used_addrs s \<equiv> dom (tr_inner s) \<union> dom (tr_leaf s) \<union> dom (tr_fp s)"

lemma tree_alloc_cases:
  assumes "addrs_inv (en_conf env) U (tr_alloc s)" and "0 < k" and "k \<le> kChunkSize"
  obtains "tree_alloc env k s = Inl no_chunk"
    | a da where "tree_alloc env k s = Inr (a, s\<lparr>tr_alloc := da\<rparr>)" and "a \<notin> U" and "a \<noteq> Gaddr_Null"
      and "addrs_inv (en_conf env) (insert a U) da"
proof (cases "memory_alloc (en_conf env) k (tr_alloc s)")
  case (Inl e)
  then show thesis using that(1) memory_alloc_error [OF Inl] by (simp add: tree_alloc_def)
next
  case (Inr b)
  obtain a da where b: "b = (a, da)" by (cases b) auto
  show thesis
    using that(2) [of a da] addrs_memory [OF assms(1-3) Inr [unfolded b]] Inr b by (simp add: tree_alloc_def)
qed

lemma inner_size: "0 < InnerNodeSize" "InnerNodeSize \<le> kChunkSize"
  by (simp_all add: dm_sizes)

lemma node_split_ok:
  assumes addrs: "addrs_inv (en_conf env) U (tr_alloc s)"
    and m: "inner_wf (en_city env) (tr_node s) ls" "length ls = InnerNodeCapacity" "rc_key rec \<notin> rc_key ` set ls"
      "in_hdr (tr_node s) = in_hdr n"
    and rng: "ih_min_key (in_hdr n) \<le> rc_key rec" "rc_key rec < ih_max_key (in_hdr n)" and rec: "rc_valid rec = 1"
  obtains "node_split env a rec s = Inl no_chunk"
    | sa da up n1 n2 where "node_split env a rec s = Inr (rec\<lparr>rc_key := up, rc_addr := sa\<rparr>,
          s\<lparr>tr_inner := (tr_inner s)(sa \<mapsto> n2, a \<mapsto> n1), tr_alloc := da, tr_node := n1,
            tr_rbuf := snd (get_sibling_buffer (tr_rbuf s))\<rparr>)"
      and "sa \<notin> U" and "addrs_inv (en_conf env) (insert sa U) da"
      and "ih_min_key (in_hdr n) < up" and "up < ih_max_key (in_hdr n)"
      and "halves (en_city env) (insert_rec rec ls) sa up n n1 n2"
proof (cases rule: tree_alloc_cases [OF addrs inner_size])
  case 1
  then show thesis using that(1) by (simp add: node_split_def)
next
  case (2 sa da)
  obtain n1 n2 up as bs where sp: "split_nodes (en_city env) (en_pad env) (en_pad env) sa rec (tr_node s) =
      Inr (n1, n2, rec\<lparr>rc_key := up, rc_addr := sa\<rparr>)"
    "inner_wf (en_city env) n1 as" "inner_wf (en_city env) n2 bs" "as @ bs = insert_rec rec ls"
    "ih_min_key (in_hdr n) < up" "up < ih_max_key (in_hdr n)" "in_lock n1 = 0" "in_lock n2 = 0"
    "in_hdr n1 = (in_hdr n)\<lparr>ih_right_addr := sa, ih_max_key := up, ih_is_root := False, ih_padding := en_pad env\<rparr>"
    "in_hdr n2 = (in_hdr n)\<lparr>ih_min_key := up, ih_is_root := False, ih_padding := en_pad env\<rparr>"
    using split_nodes_halves [OF m(1,2) _ _ rec m(3), of "en_pad env" "en_pad env" sa] rng unfolding m(4) by blast
  have "node_split env a rec s = Inr (rec\<lparr>rc_key := up, rc_addr := sa\<rparr>,
      s\<lparr>tr_inner := (tr_inner s)(sa \<mapsto> n2, a \<mapsto> n1), tr_alloc := da, tr_node := n1,
        tr_rbuf := snd (get_sibling_buffer (tr_rbuf s))\<rparr>)"
    using 2(1) sp(1) by (simp add: node_split_def write_inner_def next_sibling_def)
  moreover have "halves (en_city env) (insert_rec rec ls) sa up n n1 n2"
    unfolding halves_def using sp(2-4,7-10) by blast
  ultimately show thesis using that(2) 2(2,4) sp(5,6) by blast
qed

lemma ins_empty:
  assumes "rc_valid r = 1"
  shows "inner_ins city r (set_hdr city hdr inner_zero) =
     Inr (Some (inner_set_consistent city ((set_hdr city hdr inner_zero)\<lparr>in_record := r # replicate 31 record_zero\<rparr>)))"
proof -
  have rec: "in_record inner_zero = record_zero # replicate 31 record_zero"
    by (simp add: inner_zero_def InnerNodeCapacity_def flip: replicate_Suc)
  have rv: "r\<lparr>rc_valid := 1\<rparr> = r" "rc_valid record_zero = 0" using assms by (simp_all add: record_zero_def)
  then have "filter (\<lambda>r. rc_valid r = 1) (replicate 31 record_zero) = []" by simp
  then show ?thesis
    using assms by (simp add: rec rv inner_ins_def set_hdr_def sort_node_def Let_def del: replicate.simps)
qed

lemma ins_root_second:
  assumes "rc_valid r0 = 1" and "rc_valid r = 1" and "rc_key r0 < rc_key r"
    and n: "in_record n = r # replicate 31 record_zero"
  shows "inner_ins city r0 n = Inr (Some (inner_set_consistent city (n\<lparr>in_record := r0 # r # replicate 30 record_zero\<rparr>)))"
proof -
  have rep: "replicate 31 record_zero = record_zero # replicate 30 record_zero" by (simp flip: replicate_Suc)
  have rv: "r0\<lparr>rc_valid := 1\<rparr> = r0" "rc_valid record_zero = 0" using assms(1) by (simp_all add: record_zero_def)
  have "filter (\<lambda>r. rc_valid r = 1) (replicate 30 record_zero) = []" using rv(2) by simp
  moreover have "rc_key r \<noteq> rc_key r0" "\<not> rc_key r \<le> rc_key r0" using assms(3) by auto
  ultimately show ?thesis
    using assms(1-3) by (simp add: n rep rv inner_ins_def sort_node_def Let_def del: replicate.simps)
qed

text \<open>The root that \<open>update_root\<close> builds has the old root and its sibling as children.\<close>

lemma update_root_ok:
  assumes addrs: "addrs_inv (en_conf env) U (tr_alloc s)" and glock: "tr_glock s = 0"
    and path: "rc_addr (tr_path s ! 0) = tr_root s" and rec: "rc_valid rec = 1" "KeyNull < rc_key rec" "rc_key rec < KeyMax"
  obtains "update_root env rec a s = Inl no_chunk"
    | ra da m where "update_root env rec a s = Inr (s\<lparr>tr_inner := (tr_inner s)(ra \<mapsto> m), tr_root := ra, tr_alloc := da,
          tr_rbuf := snd (get_sibling_buffer (tr_rbuf s))\<rparr>)"
      and "ra \<notin> U" and "addrs_inv (en_conf env) (insert ra U) da"
      and "inner_wf (en_city env) m [new_Record KeyNull a Gaddr_Null 0 0, rec]" and "in_lock m = 0"
      and "ih_min_key (in_hdr m) = KeyNull" and "ih_max_key (in_hdr m) = KeyMax" and "\<not> ih_next_is_leaf (in_hdr m)"
      and "ih_is_root (in_hdr m)"
proof -
  let ?hdr = "(new_InnerHeader (en_addr env) (en_pad env))\<lparr>ih_is_root := True, ih_next_is_leaf := False\<rparr>"
  let ?r0 = "new_Record KeyNull a Gaddr_Null 0 0" and ?c = "en_city env"
  let ?n1 = "inner_set_consistent ?c ((set_hdr ?c ?hdr inner_zero)\<lparr>in_record := rec # replicate 31 record_zero\<rparr>)"
  define m where "m = inner_set_consistent ?c (?n1\<lparr>in_record := ?r0 # rec # replicate 30 record_zero\<rparr>)"
  have n1: "assert_ins ?c rec (set_hdr ?c ?hdr inner_zero) = Inr ?n1" by (simp add: assert_ins_def ins_empty [OF rec(1)])
  have n2: "assert_ins ?c ?r0 ?n1 = Inr m"
    unfolding m_def assert_ins_def using rec by (subst ins_root_second [of _ rec]) (simp_all add: new_Record_def)
  have hdr: "in_hdr m = ?hdr" "in_lock m = 0" by (simp_all add: m_def set_hdr_def inner_zero_def)
  have mr: "in_record m = [?r0, rec] @ replicate 30 record_zero" "inner_check_consistent ?c m" by (simp_all add: m_def)
  have wf: "inner_wf ?c m [?r0, rec]"
    by (rule inner_wf_set_hdr [OF mr(1) _ _ _ _ _ _ _ mr(2)])
      (use rec KeyNull_less_KeyMax mr in \<open>auto simp: hdr new_InnerHeader_def new_Record_def record_zero_def InnerNodeCapacity_def\<close>)
  have addrs1: "addrs_inv (en_conf env) U (tr_alloc (s\<lparr>tr_glock := 1\<rparr>))" using addrs by simp
  show thesis
  proof (cases rule: tree_alloc_cases [OF addrs1 inner_size])
    case 1
    then show thesis using that(1) glock path by (simp add: update_root_def Let_def)
  next
    case (2 ra da)
    have "update_root env rec a s = Inr (s\<lparr>tr_inner := (tr_inner s)(ra \<mapsto> m), tr_root := ra, tr_alloc := da,
        tr_rbuf := snd (get_sibling_buffer (tr_rbuf s))\<rparr>)"
      using 2(1) glock path n1 n2 by (simp add: update_root_def Let_def write_inner_def next_sibling_def)
    then show thesis using that(2) [OF _ 2(2,4) wf hdr(2)] hdr(1) by (simp add: new_InnerHeader_def)
  qed
qed

section \<open>The loop\<close>

definition same_leaves :: "dm_tree \<Rightarrow> dm_tree \<Rightarrow> bool" where
  "same_leaves s s' \<longleftrightarrow> tr_leaf s' = tr_leaf s \<and> tr_fp s' = tr_fp s \<and> tr_locks s' = tr_locks s"

text \<open>The result of a change to the inner index: a well-formed tree over the same leaves, or no memory.\<close>

definition indexed :: "dm_env \<Rightarrow> (Record \<times> KeyType) set \<Rightarrow> (Gaddr \<times> Gaddr) set \<Rightarrow> dm_tree \<Rightarrow> dm_tree result \<Rightarrow> bool" where
  "indexed env R Q s res \<longleftrightarrow>
     res = Inl no_chunk \<or> (\<exists>h N s'. res = Inr s' \<and> tree_inv env h N no_pend R Q s' \<and> same_leaves s s')"

declare inner_insert_loop.simps(2) [simp del]

lemma addrs_of_tree: "tree_inv env h N P R Q s \<Longrightarrow> addrs_inv (en_conf env) (used_addrs s) (tr_alloc s)"
  by (simp add: tree_inv_def client_inv_def)

lemma indexed_put:
  assumes inv: "tree_inv env h N (no_pend(l := pend_list l upd rec)) R Q s"
    and x: "(lo, a, hi) \<in> N l" "lo \<le> rc_key rec" "rc_key rec < hi" and n: "tr_inner s a = Some n"
    and n': "inner_wf (en_city env) n' (fold insert_rec (pend_list l upd rec) (recs n))" "in_hdr n' = in_hdr n" "in_lock n' = 0"
  shows "indexed env R Q s (Inr (write_inner a n' ((next_page s)\<lparr>tr_node := n'\<rparr>)))"
proof -
  have "tree_inv env h N no_pend R Q (write_inner a n' ((next_page s)\<lparr>tr_node := n'\<rparr>))"
    by (rule tree_inv_put [OF tree_inv_next_page [OF inv] x(1) _ _ _ _ n']) (use x n in simp_all)
  then show ?thesis unfolding indexed_def by (auto simp: same_leaves_def write_inner_def)
qed

text \<open>One round of the loop at a node that covers the key of the record.\<close>

lemma insert_round:
  assumes inv: "tree_inv env h N (no_pend(l := pend_list l upd rec)) R Q s" and a: "a = rc_addr (tr_path s ! i)"
    and x: "(lo, a, hi) \<in> N l" "lo \<le> rc_key rec" "rc_key rec < hi"
    and rec: "rc_valid rec = 1" and upd: "l = 0 \<Longrightarrow> upd_ok N s upd rec" and F: "0 < F"
  obtains "indexed env R Q s (inner_insert_loop F (Suc f) env key (Suc i) rec upd (l = 0) False s)"
    | n n1 n2 sa up da q rbase rb where "inner_insert_loop F (Suc f) env key (Suc i) rec upd (l = 0) False s =
        res_bind (if i = 0 then update_root env (rec\<lparr>rc_key := up, rc_addr := sa\<rparr>) a
              (s\<lparr>tr_inner := (tr_inner s)(sa \<mapsto> n2, a \<mapsto> n1), tr_alloc := da, tr_path := (tr_path s)[i := q], tr_node := n1,
                tr_rbuf := rb\<rparr>)
            else Inr (s\<lparr>tr_inner := (tr_inner s)(sa \<mapsto> n2, a \<mapsto> n1), tr_alloc := da, tr_path := (tr_path s)[i := q], tr_node := n1,
                tr_rbuf := rb\<rparr>))
          (inner_insert_loop F f env key i (rec\<lparr>rc_key := up, rc_addr := sa\<rparr>) upd False False)"
      and "rb_wf rbase rb" and "rc_addr q = a" and "tr_inner s a = Some n" and "sa \<notin> used_addrs s"
      and "addrs_inv (en_conf env) (insert sa (used_addrs s)) da" and "lo < up" and "up < hi"
      and "halves (en_city env) (fold insert_rec (pend_list l upd rec) (recs n)) sa up n n1 n2"
proof -
  note inner = tree_inv_inner [OF inv]
  have lh: "l \<le> h" by (rule level_le [OF inner x(1)])
  have aF: "ahead (N l) lo (rc_key rec) < F"
    using ahead_covered [OF level_parts [OF inner lh] x(1,3)] F by simp
  have key: "rc_key rec < KeyMax" using x(3) node_range(2) [OF inner x(1)] by simp
  show thesis
  proof (rule inner_write_ok [OF inv x(1,2) key rec upd aF])
    fix lo1 a1 hi1 n n'
    assume y: "(lo1, a1, hi1) \<in> N l" "lo1 \<le> rc_key rec" "rc_key rec < hi1" "tr_inner s a1 = Some n"
      and w: "inner_write F env a rec upd (l = 0) s = Inr (True, a1, write_inner a1 n' ((next_page s)\<lparr>tr_node := n'\<rparr>))"
      and n': "inner_wf (en_city env) n' (fold insert_rec (pend_list l upd rec) (recs n))" "in_hdr n' = in_hdr n" "in_lock n' = 0"
    show thesis
      using that(1) indexed_put [OF inv y n'] w a by (simp add: inner_insert_loop.simps(2))
  next
    fix lo1 a1 hi1 n m
    assume y: "(lo1, a1, hi1) \<in> N l" "lo1 \<le> rc_key rec" "rc_key rec < hi1" "tr_inner s a1 = Some n"
      and w: "inner_write F env a rec upd (l = 0) s = Inr (False, a1, (locked a1 n (next_page s))\<lparr>tr_node := m\<rparr>)"
      and m: "inner_wf (en_city env) m (fold insert_rec (butlast (pend_list l upd rec)) (recs n))" "in_hdr m = in_hdr n"
        "length (fold insert_rec (butlast (pend_list l upd rec)) (recs n)) = InnerNodeCapacity"
        "rc_key rec \<notin> rc_key ` set (fold insert_rec (butlast (pend_list l upd rec)) (recs n))"
    have [simp]: "lo1 = lo" "a1 = a" "hi1 = hi" using node_unique [OF inner x(1) y(1) x(2,3) y(2,3)] by auto
    note nf = node_facts [OF inner y(1,4)]
    define q where "q = (tr_path s ! i)\<lparr>rc_addr := a, rc_key := ih_min_key (in_hdr m)\<rparr>"
    define s2 where "s2 = (locked a n (next_page s))\<lparr>tr_node := m, tr_path := (tr_path s)[i := q]\<rparr>"
    have loop: "inner_insert_loop F (Suc f) env key (Suc i) rec upd (l = 0) False s =
        res_bind (node_split env a rec s2) (\<lambda>(rec', s3). res_bind (if i = 0 then update_root env rec' a s3 else Inr s3)
          (inner_insert_loop F f env key i rec' upd False False))"
      using w by (simp add: inner_insert_loop.simps(2) Let_def s2_def q_def locked_def write_inner_def flip: a)
    have al: "addrs_inv (en_conf env) (used_addrs s) (tr_alloc s2)"
      using addrs_of_tree [OF inv] by (simp add: s2_def locked_def write_inner_def)
    have n2: "inner_wf (en_city env) (tr_node s2) (fold insert_rec (butlast (pend_list l upd rec)) (recs n))"
      "in_hdr (tr_node s2) = in_hdr n" using m by (simp_all add: s2_def)
    have rng: "ih_min_key (in_hdr n) \<le> rc_key rec" "rc_key rec < ih_max_key (in_hdr n)" using nf(3,4) y(2,3) by simp_all
    show thesis
    proof (cases rule: node_split_ok [OF al n2(1) m(3,4) n2(2) rng rec, where a = a])
      case 1
      then show thesis using that(1) loop by (simp add: indexed_def)
    next
      case (2 sa da up n1 nn2)
      have "sa \<noteq> a" using 2(2) y(4) by auto
      then have s3: "s2\<lparr>tr_inner := (tr_inner s2)(sa \<mapsto> nn2, a \<mapsto> n1), tr_alloc := da, tr_node := n1,
            tr_rbuf := snd (get_sibling_buffer (tr_rbuf s2))\<rparr> =
          s\<lparr>tr_inner := (tr_inner s)(sa \<mapsto> nn2, a \<mapsto> n1), tr_alloc := da, tr_path := (tr_path s)[i := q], tr_node := n1,
            tr_rbuf := snd (get_sibling_buffer (tr_rbuf s2))\<rparr>"
        by (simp add: s2_def locked_def write_inner_def fun_upd_twist next_page_def)
      obtain rbase where "rb_wf rbase (tr_rbuf (next_page s))"
        using tree_inv_next_page [OF inv] by (auto simp: tree_inv_def rbuf_ok_def)
      then have rb: "rb_wf rbase (snd (get_sibling_buffer (tr_rbuf s2)))"
        by (auto simp: s2_def locked_def write_inner_def intro: rb_wf_step)
      note eq = loop [unfolded 2(1) res_bind_Inr prod.case s3]
      show thesis
        by (rule that(2) [OF eq rb _ y(4) [unfolded \<open>a1 = a\<close>] 2(2,3)])
          (use 2(4-6) nf(3,4) in \<open>simp_all add: q_def\<close>)
    qed
  qed
qed

lemma insert_root:
  assumes inv: "tree_inv env h N (no_pend(h := pend_list h upd rec)) R Q s"
    and path: "rc_addr (tr_path s ! 0) = tr_root s" "0 < length (tr_path s)" and key: "rc_key rec < KeyMax"
    and rec: "rc_valid rec = 1" and upd: "h = 0 \<Longrightarrow> upd_ok N s upd rec" and F: "0 < F"
  shows "indexed env R Q s (inner_insert_loop F (Suc (Suc f)) env key (Suc 0) rec upd (h = 0) False s)"
proof (rule insert_round [OF inv path(1) [symmetric] root_node [OF inv] KeyNull_least key rec upd F], assumption)
  let ?loop = "inner_insert_loop F (Suc (Suc f)) env key (Suc 0) rec upd (h = 0) False s"
  fix n n1 n2 sa up da q rbase rb
  let ?rec = "rec\<lparr>rc_key := up, rc_addr := sa\<rparr>"
  let ?s3 = "s\<lparr>tr_inner := (tr_inner s)(sa \<mapsto> n2, tr_root s \<mapsto> n1), tr_alloc := da, tr_path := (tr_path s)[0 := q], tr_node := n1, tr_rbuf := rb\<rparr>"
  assume loop: "?loop = res_bind (if (0::nat) = 0 then update_root env ?rec (tr_root s) ?s3 else Inr ?s3)
      (inner_insert_loop F (Suc f) env key 0 ?rec upd False False)"
    and rbw: "rb_wf rbase rb" and q: "rc_addr q = tr_root s" and n: "tr_inner s (tr_root s) = Some n" and sa: "sa \<notin> used_addrs s"
    "addrs_inv (en_conf env) (insert sa (used_addrs s)) da" and up: "KeyNull < up" "up < KeyMax"
    and hv: "halves (en_city env) (fold insert_rec (pend_list h upd rec) (recs n)) sa up n n1 n2"
  have pre: "addrs_inv (en_conf env) (insert sa (used_addrs s)) (tr_alloc ?s3)" "tr_glock ?s3 = 0"
    "rc_addr (tr_path ?s3 ! 0) = tr_root ?s3" "rc_valid ?rec = 1" "KeyNull < rc_key ?rec" "rc_key ?rec < KeyMax"
    using sa(2) q path(2) rec up inv by (simp_all add: tree_inv_def client_inv_def)
  show "indexed env R Q s ?loop"
  proof (cases rule: update_root_ok [OF pre, where a = "tr_root s"])
    case 1
    then show ?thesis using loop by (simp add: indexed_def)
  next
    case (2 ra da' rm)
    let ?s4 = "?s3\<lparr>tr_inner := (tr_inner ?s3)(ra \<mapsto> rm), tr_root := ra, tr_alloc := da', tr_rbuf := snd (get_sibling_buffer rb)\<rparr>"
    have res: "?loop = Inr ?s4" using loop 2(1) by (simp add: inner_insert_loop.simps(2))
    have s4: "?s4 = s\<lparr>tr_inner := (tr_inner s)(sa \<mapsto> n2, tr_root s \<mapsto> n1, ra \<mapsto> rm), tr_root := ra, tr_alloc := da',
        tr_path := (tr_path s)[0 := q], tr_node := n1, tr_rbuf := snd (get_sibling_buffer rb)\<rparr>"
      by simp
    have "tree_inv env (Suc h) (N(h := {(KeyNull, tr_root s, up), (up, sa, KeyMax)}, Suc h := {(KeyNull, ra, KeyMax)}))
        no_pend R Q ?s4"
      by (rule tree_inv_new_root [OF inv _ _ n up hv _ _ _ _ _ 2(4-9) _ _ s4 rb_wf_step(3) [OF rbw]])
        (use sa(1) 2(2,3) key in \<open>auto simp: new_Record_def\<close>)
    then show ?thesis using res unfolding indexed_def by (auto simp: same_leaves_def)
  qed
qed

lemma on_path_split:
  assumes "on_path N h l key p" and "l \<le> h"
  shows "on_path (N(l := X)) h (Suc l) key (p[h - l := q])"
  unfolding on_path_def
proof (intro allI impI)
  fix j assume j: "j + Suc l \<le> h"
  then obtain lo hi where "(lo, rc_addr (p ! j), hi) \<in> N (h - j)" "lo \<le> key" "key < hi"
    using assms(1) unfolding on_path_def by (metis add_Suc_right Suc_leD)
  moreover have "h - j \<noteq> l" "h - l \<noteq> j" using j by auto
  ultimately show "\<exists>lo hi. (lo, rc_addr (p[h - l := q] ! j), hi) \<in> (N(l := X)) (h - j) \<and> lo \<le> key \<and> key < hi" by auto
qed

lemma insert_up:
  assumes "tree_inv env h N (no_pend(l := pend_list l upd rec)) R Q s" and "l \<le> h"
    and "on_path N h l key (tr_path s)" and "h - l < length (tr_path s)"
    and "(lo, rc_addr (tr_path s ! (h - l)), hi) \<in> N l" and "lo \<le> key" "key < hi" "lo \<le> rc_key rec" "rc_key rec < hi"
    and "rc_valid rec = 1" and "l = 0 \<Longrightarrow> upd_ok N s upd rec" and "0 < F" and "h - l + 1 < f"
  shows "indexed env R Q s (inner_insert_loop F f env key (Suc (h - l)) rec upd (l = 0) False s)"
  using assms
proof (induction "h - l" arbitrary: l N s rec lo hi f)
  case step: 0
  have lh: "l = h" using step(1,3) by simp
  have inv: "tree_inv env h N (no_pend(h := pend_list h upd rec)) R Q s" using step(2) by (simp only: lh)
  obtain f' where f: "f = Suc (Suc f')" using step(14) by (cases f; cases "f - 1") auto
  have path: "rc_addr (tr_path s ! 0) = tr_root s" "0 < length (tr_path s)"
    using root_level [OF tree_inv_inner [OF step(2)] step(6)] step(5) lh by simp_all
  have key: "rc_key rec < KeyMax" using step(10) node_range(2) [OF tree_inv_inner [OF step(2)] step(6)] by simp
  have upd: "h = 0 \<Longrightarrow> upd_ok N s upd rec" using step(12) lh by simp
  show ?case using insert_root [OF inv path key step(11) upd step(13)] f lh by simp
next
  case step: (Suc d)
  let ?loop = "inner_insert_loop F f env key (Suc (h - l)) rec upd (l = 0) False s"
  let ?a = "rc_addr (tr_path s ! (h - l))"
  note inv = step(3) and x = step(7)
  note inner = tree_inv_inner [OF inv]
  have lh: "l < h" "h - l \<noteq> 0" "h - l = Suc (h - Suc l)" using step(2) by auto
  obtain f' where f: "f = Suc f'" using step(15) by (cases f) auto
  show ?case unfolding f
  proof (rule insert_round [OF inv refl x step(10-14)], assumption)
    fix n n1 n2 sa up da q rbase rb
    let ?rec = "rec\<lparr>rc_key := up, rc_addr := sa\<rparr>"
    let ?s3 = "s\<lparr>tr_inner := (tr_inner s)(sa \<mapsto> n2, ?a \<mapsto> n1), tr_alloc := da, tr_path := (tr_path s)[h - l := q], tr_node := n1,
      tr_rbuf := rb\<rparr>"
    let ?N = "N(l := split_range lo ?a up sa hi (N l))"
    assume loop: "inner_insert_loop F (Suc f') env key (Suc (h - l)) rec upd (l = 0) False s =
        res_bind (if h - l = 0 then update_root env ?rec ?a ?s3 else Inr ?s3)
          (inner_insert_loop F f' env key (h - l) ?rec upd False False)"
      and rbw: "rb_wf rbase rb" and q: "rc_addr q = ?a" and n: "tr_inner s ?a = Some n" and sa: "sa \<notin> used_addrs s"
        "addrs_inv (en_conf env) (insert sa (used_addrs s)) da" and up: "lo < up" "up < hi"
      and hv: "halves (en_city env) (fold insert_rec (pend_list l upd rec) (recs n)) sa up n n1 n2"
    have inv3: "tree_inv env h ?N (no_pend(Suc l := [?rec])) R Q ?s3"
      by (rule tree_inv_split [OF inv lh(1) x _ _ _ n up hv _ _ _ refl rbw sa(2)]) (use step(10,11) sa(1) in auto)
    have onp: "on_path N h l key (tr_path s)" by (rule step(5))
    obtain lo' hi' where m: "(lo', rc_addr (tr_path s ! (h - Suc l)), hi') \<in> N (Suc l)" "lo' \<le> key" "key < hi'"
      using onp lh unfolding on_path_def by (elim allE [of _ "h - Suc l"]) auto
    obtain mn where mn: "tr_inner s (rc_addr (tr_path s ! (h - Suc l))) = Some mn" by (rule node_exists [OF inner m(1)])
    have "(no_pend(l := pend_list l upd rec)) (Suc l) = []" by simp
    from parent_covers [OF inner this m x step(8,9) mn] have pc: "lo' \<le> lo" "hi \<le> hi'" by blast+
    have "indexed env R Q ?s3 (inner_insert_loop F f' env key (Suc (h - Suc l)) ?rec upd (Suc l = 0) False ?s3)"
    proof (rule step(1))
      show "on_path ?N h (Suc l) key (tr_path ?s3)" using on_path_split [OF onp step(4)] by simp
      show "(lo', rc_addr (tr_path ?s3 ! (h - Suc l)), hi') \<in> ?N (Suc l)" using m(1) lh by simp
      show "tree_inv env h ?N (no_pend(Suc l := pend_list (Suc l) upd ?rec)) R Q ?s3"
        using inv3 by (simp add: pend_list_def)
    qed (use m pc up step lh f in auto)
    then show "indexed env R Q s (inner_insert_loop F (Suc f') env key (Suc (h - l)) rec upd (l = 0) False s)"
      unfolding loop using lh by (simp add: indexed_def same_leaves_def)
  qed
qed

lemma insert_from_root:
  assumes inv: "tree_inv env h N (no_pend(0 := pend_list 0 upd rec)) R Q s"
    and x: "(lo, a, hi) \<in> N 0" "lo \<le> key" "key < hi" "lo \<le> rc_key rec" "rc_key rec < hi"
    and rec: "rc_valid rec = 1" and upd: "upd_ok N s upd rec" and F: "0 < F" "h + 1 < f"
    and path: "length (tr_path s) = h + 2" "on_path N h 0 key (tr_path s)"
  shows "indexed env R Q s (inner_insert_loop F f env key (length (tr_path s) - 1) rec upd True False s)"
proof -
  obtain lo' hi' where y: "(lo', rc_addr (tr_path s ! h), hi') \<in> N 0" "lo' \<le> key" "key < hi'"
    using path(2) unfolding on_path_def by (elim allE [of _ h]) auto
  from node_unique [OF tree_inv_inner [OF inv] x(1) y(1) x(2,3) y(2,3)]
  have eq: "lo' = lo" "hi' = hi" by auto
  have "indexed env R Q s (inner_insert_loop F f env key (Suc (h - 0)) rec upd (0 = (0::nat)) False s)"
    by (rule insert_up [OF inv]) (use path y x eq rec upd F in auto)
  then show ?thesis using path(1) by simp
qed

lemma insert_cached:
  assumes inv: "tree_inv env h N (no_pend(0 := pend_list 0 upd rec)) R Q s"
    and x: "(lo, a, hi) \<in> N 0" "lo \<le> key" "key < hi" "lo \<le> rc_key rec" "rc_key rec < hi"
    and rec: "rc_valid rec = 1" and upd: "upd_ok N s upd rec" and F: "h + 2 \<le> F" "h + 1 < f" "card (N 0) < F"
    and path: "cached_path (N 0) key (tr_path s)"
  shows "indexed env R Q s (inner_insert_loop F (Suc f) env key (length (tr_path s) - 1) rec upd True True s)"
proof -
  note inner = tree_inv_inner [OF inv]
  let ?b = "rc_addr (tr_path s ! 0)"
  obtain lo0 hi0 where y: "length (tr_path s) = 2" "(lo0, ?b, hi0) \<in> N 0" "lo0 \<le> key"
    using path unfolding cached_path_def by blast
  have lo0: "lo0 \<le> rc_key rec"
  proof (cases "lo0 \<le> lo")
    case False
    then have "lo0 = lo" using node_unique [OF inner x(1) y(2), of lo0] node_range(1) [OF inner y(2)] y(3) x(3) by auto
    then show ?thesis using x(4) by simp
  qed (use x(4) in simp)
  have kmax: "key < KeyMax" "rc_key rec < KeyMax" using x(3,5) node_range(2) [OF inner x(1)] by auto
  have "finite (N 0)" using inner by (simp add: inner_inv_def levels_def)
  from ahead_le [OF this, of lo0 "rc_key rec"] have aF: "ahead (N 0) lo0 (rc_key rec) < F" using F(3) by simp
  show ?thesis
  proof (rule inner_write_ok [OF inv y(2) lo0 kmax(2) rec _ aF])
    show "upd_ok N s upd rec" by (fact upd)
  next
    fix lo1 a1 hi1 n n'
    assume z: "(lo1, a1, hi1) \<in> N 0" "lo1 \<le> rc_key rec" "rc_key rec < hi1" "tr_inner s a1 = Some n"
      and w: "inner_write F env ?b rec upd ((0::nat) = 0) s = Inr (True, a1, write_inner a1 n' ((next_page s)\<lparr>tr_node := n'\<rparr>))"
      and n': "inner_wf (en_city env) n' (fold insert_rec (pend_list 0 upd rec) (recs n))" "in_hdr n' = in_hdr n" "in_lock n' = 0"
    show ?thesis using indexed_put [OF inv z n'] w y(1) by (simp add: inner_insert_loop.simps(2))
  next
    fix lo1 a1 hi1 n m
    assume z: "(lo1, a1, hi1) \<in> N 0" "tr_inner s a1 = Some n"
      and w: "inner_write F env ?b rec upd ((0::nat) = 0) s = Inr (False, a1, (locked a1 n (next_page s))\<lparr>tr_node := m\<rparr>)"
    define p where "p = (tr_path s)[0 := (tr_path s ! 0)\<lparr>rc_addr := a1, rc_key := ih_min_key (in_hdr m)\<rparr>]"
    let ?s3 = "(next_page s)\<lparr>tr_node := m, tr_path := p\<rparr>"
    have "(tr_inner s)(a1 \<mapsto> n\<lparr>in_lock := 0\<rparr>) = tr_inner s" using z(2) node_facts(2) [OF inner z] by auto
    then have "unlock_node a1 ((locked a1 n (next_page s))\<lparr>tr_node := m, tr_path := p\<rparr>) = Inr ?s3"
      by (simp add: unlock_node_def read_inner_def locked_def write_inner_def next_page_def)
    then have loop: "inner_insert_loop F (Suc f) env key (length (tr_path s) - 1) rec upd True True s =
        res_bind (find_leaf F env key ?s3) (\<lambda>(_, s4).
          inner_insert_loop F f env key (length (tr_path s4) - 1) rec upd True False s4)"
      using w y(1) by (simp add: inner_insert_loop.simps(2) Let_def p_def)
    have inv3: "tree_inv env h N (no_pend(0 := pend_list 0 upd rec)) R Q ?s3"
      by (rule tree_inv_frame [OF tree_inv_next_page [OF inv]]) (simp_all add: same_mem_def)
    obtain r s4 where s4: "find_leaf F env key ?s3 = Inr (r, s4)" "tree_inv env h N (no_pend(0 := pend_list 0 upd rec)) R Q s4"
      "same_mem ?s3 s4" "length (tr_path s4) = h + 2" "on_path N h 0 key (tr_path s4)"
      by (rule find_leaf_ok [OF inv3 kmax(1) _ F(1)]) auto
    have "upd_ok N s4 upd rec" using upd s4(3) by (simp add: upd_ok_def same_mem_def)
    from insert_from_root [OF s4(2) x rec this _ F(2) s4(4,5), of F]
    have "indexed env R Q s4 (inner_insert_loop F f env key (length (tr_path s4) - 1) rec upd True False s4)" using F(1) by simp
    then show ?thesis using loop s4(1,3) by (simp add: indexed_def same_leaves_def same_mem_def)
  qed
qed

text \<open>\<open>inner_insert\<close> on the path of an operation, cached or from the root.\<close>

lemma inner_insert_ok:
  assumes inv: "tree_inv env h N (no_pend(0 := pend_list 0 upd rec)) R Q s"
    and x: "(lo, a, hi) \<in> N 0" "lo \<le> key" "key < hi" "lo \<le> rc_key rec" "rc_key rec < hi"
    and rec: "rc_valid rec = 1" and upd: "upd_ok N s upd rec" and F: "h + 3 \<le> F" "card (N 0) < F"
    and path: "if fc then cached_path (N 0) key (tr_path s) else length (tr_path s) = h + 2 \<and> on_path N h 0 key (tr_path s)"
  shows "indexed env R Q s (inner_insert F env key rec upd fc s)"
proof (cases fc)
  case True
  obtain f where f: "F = Suc f" using F(1) by (cases F) auto
  have "h + 2 \<le> F" "h + 1 < f" "cached_path (N 0) key (tr_path s)" using F(1) f path True by simp_all
  then show ?thesis using insert_cached [OF inv x rec upd _ _ F(2)] f True by (simp add: inner_insert_def)
next
  case False
  then show ?thesis
    using insert_from_root [OF inv x rec upd, of F F] F(1) path by (simp add: inner_insert_def)
qed

end
