(* ===== verification/TreeWrite.thy ===== *)
theory TreeWrite
  imports TreeInsert
begin

text \<open>
  \<open>DMTree::write\<close> is update of the map that the tree represents: writing into a leaf with room, and
  splitting a full leaf with the insertion of the two records into the inner index.
\<close>

section \<open>Leaves and their tables\<close>

lemma pair_lookup:
  assumes "leaf_inv city R Q s" and "(a, f) \<in> Q"
  obtains lt ft where "tr_leaf s a = Some lt" and "tr_fp s f = Some ft" and "leaf_wf city lt ft" and "ft_lock ft = 0"
    and "length (lt_entries lt) \<in> {32, 64, 128}"
proof -
  have "pair_ok city s (a, f)" using assms unfolding leaf_inv_def by blast
  then show thesis using that unfolding pair_ok_def by auto
qed

lemma pair_inject:
  assumes "leaf_inv city R Q s" and "(a, f) \<in> Q" and "(a', f') \<in> Q"
  shows "a' = a \<longleftrightarrow> f' = f"
proof -
  have "inj_on fst Q" "inj_on snd Q" using assms(1) by (simp_all add: leaf_inv_def)
  then show ?thesis using assms(2,3) unfolding inj_on_def by (metis fst_conv snd_conv)
qed

lemma leaf_lookup:
  assumes "leaf_inv city R Q s" and "(r, u) \<in> R" and "tr_leaf s (rc_addr r) = Some lt"
  shows "(rc_addr r, rc_fp_addr r) \<in> Q" and "rc_valid r = 1" and "lf_min_key (lt_hdr lt) = rc_key r"
    and "lf_max_key (lt_hdr lt) = u" and "rc_capacity r = int (length (lt_entries lt))"
    and "rc_version r = of_int (lf_version (lt_hdr lt))"
  using assms unfolding leaf_inv_def leaf_at_def by auto

lemma leaf_exists:
  assumes "leaf_inv city R Q s" and "(r, u) \<in> R"
  obtains lt where "tr_leaf s (rc_addr r) = Some lt"
  using assms unfolding leaf_inv_def leaf_at_def by blast

lemma record_unique:
  assumes leaf: "leaf_inv city R Q s" and r: "(r, u) \<in> R" "(r', u') \<in> R" and a: "rc_addr r' = rc_addr r"
  shows "(r', u') = (r, u)"
proof -
  obtain lt where "tr_leaf s (rc_addr r) = Some lt" by (rule leaf_exists [OF leaf r(1)])
  then have "rc_key r' = rc_key r" using leaf_lookup(3) [OF leaf r(1)] leaf_lookup(3) [OF leaf r(2)] a by auto
  then show ?thesis
    using parts_lo_inject [of "rc_key \<circ> fst" snd R "(r, u)" "(r', u')"] leaf r by (simp add: leaf_inv_def)
qed

section \<open>Writing into a leaf with room\<close>

lemma leaf_store:
  assumes inv: "tree_inv env h N P R Q s" and Q: "(a, f) \<in> Q" and lt: "tr_leaf s a = Some lt"
    and new: "lt_hdr lt' = lt_hdr lt" "length (lt_entries lt') = length (lt_entries lt)" "leaf_wf (en_city env) lt' ft'"
      "ft_lock ft' = 0"
    and s': "s' = s\<lparr>tr_leaf := (tr_leaf s)(a \<mapsto> lt'), tr_fp := (tr_fp s)(f \<mapsto> ft')\<rparr>"
  shows "tree_inv env h N P R Q s'"
proof -
  have leaf: "leaf_inv (en_city env) R Q s" using inv by (simp add: tree_inv_def)
  obtain ft where ft: "tr_fp s f = Some ft" "length (lt_entries lt) \<in> {32, 64, 128}"
    using pair_lookup [OF leaf Q] lt by auto
  have same: "(\<exists>l. tr_leaf s' b = Some l \<and> X (lt_hdr l) (length (lt_entries l))) =
      (\<exists>l. tr_leaf s b = Some l \<and> X (lt_hdr l) (length (lt_entries l)))" for b X
    using lt new(1,2) by (auto simp: s')
  have at: "leaf_at Q s' p = leaf_at Q s p" for p
    unfolding leaf_at_def case_prod_unfold
    using same [of "rc_addr (fst p)" "\<lambda>hd n. lf_min_key hd = rc_key (fst p) \<and> lf_max_key hd = snd p \<and>
      rc_capacity (fst p) = int n \<and> rc_version (fst p) = of_int (lf_version hd)"] by simp
  have rc: "rec_copy R Q s' p = rec_copy R Q s p" for p
    unfolding rec_copy_def case_prod_unfold
    using same [of "rc_addr (fst p)" "\<lambda>hd n. \<exists>v. rc_capacity (fst p) = int n \<and> rc_version (fst p) = of_int v \<and>
      0 \<le> v \<and> v \<le> lf_version hd \<and> (v = lf_version hd \<longrightarrow> (fst p, snd p) \<in> R)"] by simp
  have "pair_ok (en_city env) s' q" if q: "q \<in> Q" for q
  proof (cases "q = (a, f)")
    case True
    then show ?thesis using new ft(2) by (simp add: pair_ok_def s')
  next
    case False
    then have "fst q \<noteq> a" "snd q \<noteq> f" using pair_inject [OF leaf Q, of "fst q" "snd q"] q by (cases q; auto)+
    moreover have "pair_ok (en_city env) s q" using leaf q by (simp add: leaf_inv_def)
    ultimately show ?thesis by (auto simp: pair_ok_def s' split: prod.splits)
  qed
  then have leaf': "leaf_inv (en_city env) R Q s'" using leaf at by (simp add: leaf_inv_def)
  have inner: "inner_inv (en_city env) h N P R s'" using inv by (simp add: tree_inv_def inner_inv_def s')
  have "node_copy city R Q s' n = node_copy city R Q s n" for city n by (simp add: node_copy_def rc)
  moreover have "used_addrs s' = used_addrs s" using lt ft(1) by (auto simp: s')
  moreover have "tr_cache s' = tr_cache s" "tr_inner s' = tr_inner s" "tr_local_root s' = tr_local_root s"
    "tr_glock s' = tr_glock s" "tr_alloc s' = tr_alloc s" by (simp_all add: s')
  ultimately have "client_inv env N R Q s'" using inv by (simp add: tree_inv_def client_inv_def cache_ok_def)
  moreover have "rbuf_ok s'" using inv by (simp add: tree_inv_def s')
  ultimately show ?thesis using inner leaf' by (simp add: tree_inv_def)
qed

lemma contents_store:
  assumes leaf: "leaf_inv city R Q s" and map: "contents R s M" and r: "(r, u) \<in> R" "rc_key r \<le> key" "key < u"
    and lt: "tr_leaf s (rc_addr r) = Some lt" and new: "table_map (lt_entries lt') = (table_map (lt_entries lt))(key \<mapsto> v)"
    and s': "tr_leaf s' = (tr_leaf s)(rc_addr r \<mapsto> lt')"
  shows "contents R s' (M(key \<mapsto> v))"
  unfolding contents_def
proof (intro conjI allI impI)
  have pt: "parts (rc_key \<circ> fst) snd R" using leaf by (simp add: leaf_inv_def)
  show "(M(key \<mapsto> v)) k = None" if "KeyMax \<le> k" for k
  proof -
    have "u \<le> KeyMax" using pt r(1) unfolding parts_def by force
    then show ?thesis using map r(3) that unfolding contents_def by auto
  qed
  fix r' u' l k
  assume as: "(r', u') \<in> R \<and> tr_leaf s' (rc_addr r') = Some l \<and> rc_key r' \<le> k \<and> k < u'"
  show "table_map (lt_entries l) k = (M(key \<mapsto> v)) k"
  proof (cases "rc_addr r' = rc_addr r")
    case True
    then have eq: "r' = r" "u' = u" "l = lt'" using record_unique [OF leaf r(1), of r' u'] as s' by auto
    then have "table_map (lt_entries lt) k = M k" using map r lt as unfolding contents_def by blast
    then show ?thesis using new eq by simp
  next
    case False
    then have "tr_leaf s (rc_addr r') = Some l" using as s' by simp
    then have "table_map (lt_entries l) k = M k" using map as unfolding contents_def by blast
    moreover have "k \<noteq> key" using parts_unique [OF pt r(1), of "(r', u')" key] as r False by auto
    ultimately show ?thesis by simp
  qed
qed

section \<open>Splitting a leaf\<close>

definition split_leaf ::
  "(Record \<times> KeyType) set \<Rightarrow> Record \<Rightarrow> KeyType \<Rightarrow> KeyType \<Rightarrow> Record \<Rightarrow> Record \<Rightarrow> (Record \<times> KeyType) set" where
  "split_leaf R r u sep upd rec =
     R - {(r, u)} \<union> (if rc_key r < sep then {(upd, sep)} else {}) \<union> {(rec, u)}"

text \<open>The bottom node that covers a key holds the record of the leaf that covers it.\<close>

lemma bottom_pair:
  assumes inner: "inner_inv city h N P R s" and pend: "P 0 = []" and pt: "parts (rc_key \<circ> fst) snd R"
    and r: "(r, u) \<in> R" "rc_key r \<le> k" "k < u" and x: "(lo, a, hi) \<in> N 0" "lo \<le> k" "k < hi" and n: "tr_inner s a = Some n"
  shows "(r, u) \<in> set (bounds (recs n) hi)" and "lo \<le> rc_key r" and "u \<le> hi"
proof -
  note nf = node_facts [OF inner x(1) n]
  have "ih_min_key (in_hdr n) \<le> k" using nf(3) x(2) by simp
  then obtain r' u' where r': "(r', u') \<in> set (bounds (recs n) hi)" "rc_key r' \<le> k" "k < u'"
    by (rule inner_find_bounds [OF nf(1) _ x(3)])
  then have "(r', u') \<in> R" using nf(8) [of "(r', u')"] pend by (simp add: child_def)
  from parts_unique [OF pt r(1) this, of k] have eq: "r' = r" "u' = u" using r r' by auto
  then show "(r, u) \<in> set (bounds (recs n) hi)" using r' by simp
  then show "lo \<le> rc_key r" "u \<le> hi" using bounds_range [OF nf(1)] nf(3,4) by auto
qed

lemma bounds_insert_same:
  assumes "sorted_wrt (<) (map rc_key ls)" and "(r, u) \<in> set (bounds ls hi)" and "rc_key x = rc_key r"
  shows "(x, u) \<in> set (bounds (insert_rec x ls) hi)"
proof -
  obtain as bs where ls: "ls = as @ r # bs" "u = (if bs = [] then hi else rc_key (hd bs))"
    by (rule bounds_split [OF assms(2)])
  have "\<forall>y \<in> set as. rc_key y < rc_key x" using assms(1,3) by (auto simp: ls(1) sorted_wrt_append)
  then have "insert_rec x ls = as @ x # bs" unfolding ls(1) by (subst insert_rec_append) (use assms(3) in auto)
  then show ?thesis by (simp add: bounds_append ls(2))
qed

text \<open>The two records of a split leaf are under way to the node that holds the record of the old one.\<close>

lemma split_leaf_links:
  assumes wf: "inner_wf city n (recs n)" and r: "(r, u) \<in> set (bounds (recs n) hi)"
    and k: "rc_key r \<le> sep" "sep < u" "rc_key upd = rc_key r" "rc_key rec = sep"
    and links: "\<forall>p \<in> set (bounds (recs n) hi). p \<in> R"
    and p: "(q, z) \<in> set (bounds (insert_rec rec (insert_rec upd (recs n))) hi)"
  shows "(q, z) \<in> split_leaf R r u sep upd rec"
proof -
  have srt: "sorted_wrt (<) (map rc_key (recs n))" using wf by (simp add: inner_wf_def)
  have u: "(upd, u) \<in> set (bounds (insert_rec upd (recs n)) hi)" by (rule bounds_insert_same [OF srt r k(3)])
  have "(q, z) = (rec, u) \<or> rc_key upd < rc_key rec \<and> (q, z) = (upd, rc_key rec) \<or>
      (q, z) \<in> set (bounds (insert_rec upd (recs n)) hi) \<and> rc_key q \<noteq> rc_key upd"
    by (rule bounds_insert_cases [OF insert_rec_sorted [OF srt] u _ _ p]) (use k in auto)
  moreover have "(q, z) \<in> R \<and> (q, z) \<noteq> (r, u)" if "(q, z) \<in> set (bounds (insert_rec upd (recs n)) hi)" "rc_key q \<noteq> rc_key upd"
  proof -
    have "rc_key upd < u" using k by simp
    then have "(q, z) = (upd, u) \<or> rc_key r < rc_key upd \<and> (q, z) = (r, rc_key upd) \<or>
        (q, z) \<in> set (bounds (recs n) hi) \<and> rc_key q \<noteq> rc_key r"
      using bounds_insert_cases [OF srt r _ _ that(1)] k(3) by simp
    then show ?thesis using that(2) links k(3) by auto
  qed
  ultimately show ?thesis using k by (auto simp: split_leaf_def)
qed

lemma inner_inv_split_leaf:
  assumes inner: "inner_inv city h N no_pend R s" and pt: "parts (rc_key \<circ> fst) snd R"
    and r: "(r, u) \<in> R" and k: "rc_key r \<le> sep" "sep < u" "rc_key upd = rc_key r" "rc_key rec = sep"
    and s': "tr_inner s' = tr_inner s" "tr_root s' = tr_root s"
  shows "inner_inv city h N (no_pend(0 := [upd, rec])) (split_leaf R r u sep upd rec) s'"
proof -
  let ?R = "split_leaf R r u sep upd rec" and ?P = "no_pend(0 := [upd, rec])"
  have at: "node_at city N ?P ?R (tr_inner s) (tr_root s) l x" if x: "x \<in> N l" for l x
  proof -
    obtain lo a hi where x_eq: "x = (lo, a, hi)" by (cases x) auto
    obtain n where n: "tr_inner s a = Some n" using node_exists [OF inner] x unfolding x_eq by blast
    have ok: "node_ok city (N l) (tr_root s) l (lo, a, hi) n"
      using inner x n unfolding inner_inv_def levels_def node_at_def x_eq by force
    note nf = node_facts [OF inner x [unfolded x_eq] n]
    have "child N ?R l p" if p: "p \<in> set (bounds (virt (?P l) n) hi)" for p
    proof (cases "l = 0")
      case False
      then show ?thesis using nf(8) [of p] p by (auto simp: child_def split: if_splits)
    next
      case True
      have x0: "(lo, a, hi) \<in> N 0" using x x_eq True by simp
      have links: "\<forall>p \<in> set (bounds (recs n) hi). p \<in> R"
        using nf(8) True by (auto simp: child_def)
      show ?thesis
      proof (cases "check_hdr sep n")
        case cov: True
        then have c: "lo \<le> sep" "sep < hi" using nf(3,4) by (auto simp: check_hdr_def)
        have "(r, u) \<in> set (bounds (recs n) hi)" by (rule bottom_pair(1) [OF inner _ pt r k(1,2) x0 c n]) simp
        from split_leaf_links [OF nf(1) this k links, of "fst p" "snd p"] p cov True k(4)
        show ?thesis by (auto simp: child_def virt_def)
      next
        case False
        then have pn: "p \<in> set (bounds (recs n) hi)" using p True k(4) by (simp add: virt_def)
        have "p \<noteq> (r, u)"
        proof
          assume "p = (r, u)"
          then have "lo \<le> rc_key r" "u \<le> hi" using bounds_range [OF nf(1), of r u] pn nf(3,4) by auto
          then show False using False k(1,2) nf(3,4) by (auto simp: check_hdr_def)
        qed
        then show ?thesis using links pn True by (cases p) (auto simp: child_def split_leaf_def)
      qed
    qed
    then show ?thesis using n ok unfolding x_eq node_at_def by auto
  qed
  then have "levels city N ?P ?R (tr_inner s) (tr_root s)" using inner unfolding inner_inv_def levels_def by blast
  then show ?thesis using inner s' by (simp add: inner_inv_def)
qed

lemma parts_split_leaf:
  assumes "parts (rc_key \<circ> fst) snd R" and "(r, u) \<in> R" and "rc_key r \<le> sep" "sep < u" "rc_key upd = rc_key r" "rc_key rec = sep"
  shows "parts (rc_key \<circ> fst) snd (split_leaf R r u sep upd rec)"
  by (rule parts_split [OF assms(1,2), of sep _ "(upd, sep)" "(rec, u)"]) (use assms in \<open>auto simp: split_leaf_def\<close>)

text \<open>The outcome of \<open>resize_split\<close> in the store: the changed leaf, the new one, their tables and records.\<close>

definition leaf_halves ::
  "(u8 list \<Rightarrow> u32) \<Rightarrow> LeafTable \<Rightarrow> KeyType \<Rightarrow> LeafTable \<Rightarrow> FPTable \<Rightarrow> LeafTable \<Rightarrow> FPTable \<Rightarrow> bool" where
  "leaf_halves city lt sep cur cft sib sft \<longleftrightarrow>
     leaf_wf city cur cft \<and> leaf_wf city sib sft \<and> ft_lock cft = 0 \<and> ft_lock sft = 0 \<and>
     length (lt_entries cur) = length (lt_entries lt) \<and> length (lt_entries sib) \<in> {32, 64, 128} \<and>
     lf_min_key (lt_hdr cur) = lf_min_key (lt_hdr lt) \<and> lf_max_key (lt_hdr cur) = sep \<and>
     lf_version (lt_hdr cur) = lf_version (lt_hdr lt) + 1 \<and>
     lf_min_key (lt_hdr sib) = sep \<and> lf_max_key (lt_hdr sib) = lf_max_key (lt_hdr lt) \<and> lf_version (lt_hdr sib) = 0 \<and>
     lf_min_key (lt_hdr lt) \<le> sep \<and> sep < lf_max_key (lt_hdr lt)"

definition leaf_record :: "Gaddr \<Rightarrow> Gaddr \<Rightarrow> LeafTable \<Rightarrow> Record" where
  "leaf_record a f lt = new_Record (lf_min_key (lt_hdr lt)) a f (int (length (lt_entries lt))) (lf_version (lt_hdr lt))"

lemma leaf_record_simps [simp]:
  "rc_key (leaf_record a f lt) = lf_min_key (lt_hdr lt)" "rc_addr (leaf_record a f lt) = a"
  "rc_fp_addr (leaf_record a f lt) = f" "rc_valid (leaf_record a f lt) = 1"
  "rc_capacity (leaf_record a f lt) = int (length (lt_entries lt))"
  "rc_version (leaf_record a f lt) = of_int (lf_version (lt_hdr lt))"
  by (simp_all add: leaf_record_def new_Record_def)

text \<open>The state after the four writes of \<open>leaf_resize\<close>.\<close>

definition split_store ::
  "Gaddr \<Rightarrow> Gaddr \<Rightarrow> Gaddr \<Rightarrow> Gaddr \<Rightarrow> LeafTable \<Rightarrow> FPTable \<Rightarrow> LeafTable \<Rightarrow> FPTable \<Rightarrow> dm_tree \<Rightarrow> dm_tree" where
  "split_store a f sa sf cur cft sib sft s =
     s\<lparr>tr_leaf := (tr_leaf s)(sa \<mapsto> sib, a \<mapsto> cur), tr_fp := (tr_fp s)(sf \<mapsto> sft, f \<mapsto> cft)\<rparr>"

lemma split_leaf_inv:
  assumes leaf: "leaf_inv city R Q s" and r: "(r, u) \<in> R" and lt: "tr_leaf s (rc_addr r) = Some lt"
    and hv: "leaf_halves city lt sep cur cft sib sft" and new: "sa \<notin> dom (tr_leaf s)" "sf \<notin> dom (tr_fp s)"
    and s': "s' = split_store (rc_addr r) (rc_fp_addr r) sa sf cur cft sib sft s"
  shows "leaf_inv city (split_leaf R r u sep (leaf_record (rc_addr r) (rc_fp_addr r) cur) (leaf_record sa sf sib))
     (insert (sa, sf) Q) s'"
proof -
  let ?a = "rc_addr r" and ?f = "rc_fp_addr r"
  let ?upd = "leaf_record ?a ?f cur" and ?rec = "leaf_record sa sf sib"
  note ll = leaf_lookup [OF leaf r lt]
  have pt: "parts (rc_key \<circ> fst) snd R" and inj: "inj_on fst Q" "inj_on snd Q" using leaf by (simp_all add: leaf_inv_def)
  have ft: "?f \<in> dom (tr_fp s)" "length (lt_entries lt) \<in> {32, 64, 128}"
    using pair_lookup [OF leaf ll(1)] lt by (metis domI option.inject)+
  have old: "fst q \<in> dom (tr_leaf s) \<and> snd q \<in> dom (tr_fp s)" if "q \<in> Q" for q
    using pair_lookup [OF leaf, of "fst q" "snd q"] that by (metis domI prod.collapse)
  have ne: "sa \<noteq> ?a" "sf \<noteq> ?f" using lt ft(1) new by auto
  have "parts (rc_key \<circ> fst) snd (split_leaf R r u sep ?upd ?rec)"
    by (rule parts_split_leaf [OF pt r]) (use hv ll(3,4) in \<open>auto simp: leaf_halves_def\<close>)
  moreover have "inj_on fst (insert (sa, sf) Q)" "inj_on snd (insert (sa, sf) Q)" using inj old new by (auto simp: inj_on_insert)
  moreover have "pair_ok city s' q" if q: "q \<in> insert (sa, sf) Q" for q
  proof -
    consider "q = (sa, sf)" | "q = (?a, ?f)" | "q \<in> Q" "q \<noteq> (?a, ?f)" using q by blast
    then show ?thesis
    proof cases
      case 1
      then show ?thesis using hv ne by (simp add: pair_ok_def s' split_store_def leaf_halves_def)
    next
      case 2
      then show ?thesis using hv ft(2) by (simp add: pair_ok_def s' split_store_def leaf_halves_def)
    next
      case 3
      have "fst q \<noteq> ?a" "snd q \<noteq> ?f" using pair_inject [OF leaf ll(1), of "fst q" "snd q"] 3 by (cases q; auto)+
      moreover have "fst q \<noteq> sa" "snd q \<noteq> sf" using old [OF 3(1)] new by auto
      moreover have "pair_ok city s q" using leaf 3 by (simp add: leaf_inv_def)
      ultimately show ?thesis by (auto simp: pair_ok_def s' split_store_def split: prod.splits)
    qed
  qed
  moreover have "leaf_at (insert (sa, sf) Q) s' p" if p: "p \<in> split_leaf R r u sep ?upd ?rec" for p
  proof -
    consider "p = (?rec, u)" | "p = (?upd, sep)" | "p \<in> R" "p \<noteq> (r, u)" using p by (auto simp: split_leaf_def split: if_splits)
    then show ?thesis
    proof cases
      case 1
      then show ?thesis using hv ll(4) ne by (simp add: leaf_at_def s' split_store_def leaf_halves_def)
    next
      case 2
      then show ?thesis using hv ll(1) ne by (simp add: leaf_at_def s' split_store_def leaf_halves_def)
    next
      case 3
      have "rc_addr (fst p) \<noteq> ?a" using record_unique [OF leaf r, of "fst p" "snd p"] 3 by auto
      moreover have la: "leaf_at Q s p" using leaf 3 by (simp add: leaf_inv_def)
      moreover have "rc_addr (fst p) \<noteq> sa" using la new(1) by (auto simp: leaf_at_def split: prod.splits)
      ultimately show ?thesis by (auto simp: leaf_at_def s' split_store_def split: prod.splits)
    qed
  qed
  ultimately show ?thesis by (simp add: leaf_inv_def)
qed

text \<open>Copies of the old record are out of date from now on, all others stay as they are.\<close>

lemma split_rec_copy:
  assumes leaf: "leaf_inv city R Q s" and r: "(r, u) \<in> R" and lt: "tr_leaf s (rc_addr r) = Some lt"
    and hv: "leaf_halves city lt sep cur cft sib sft" and new: "sa \<notin> dom (tr_leaf s)"
    and s': "s' = split_store (rc_addr r) (rc_fp_addr r) sa sf cur cft sib sft s" and p: "rec_copy R Q s p"
  shows "rec_copy (split_leaf R r u sep upd rec) (insert (sa, sf) Q) s' p"
proof -
  obtain q z where p_eq: "p = (q, z)" by (cases p)
  obtain l v where l: "(rc_addr q, rc_fp_addr q) \<in> Q" "tr_leaf s (rc_addr q) = Some l" "rc_capacity q = int (length (lt_entries l))"
    "rc_version q = of_int v" "0 \<le> v" "v \<le> lf_version (lt_hdr l)" "v = lf_version (lt_hdr l) \<longrightarrow> (q, z) \<in> R"
    using p unfolding p_eq rec_copy_def by blast
  show ?thesis
  proof (cases "rc_addr q = rc_addr r")
    case True
    then have "l = lt" using l(2) lt by simp
    then show ?thesis using l True hv by (auto simp: rec_copy_def p_eq s' split_store_def leaf_halves_def)
  next
    case False
    moreover have "rc_addr q \<noteq> sa" using l(2) new by auto
    moreover have "(q, z) \<noteq> (r, u)" using False by auto
    ultimately show ?thesis using l by (auto simp: rec_copy_def p_eq s' split_store_def split_leaf_def)
  qed
qed

lemma split_contents:
  assumes leaf: "leaf_inv city R Q s" and map: "contents R s M" and r: "(r, u) \<in> R" "rc_key r \<le> key" "key < u"
    and lt: "tr_leaf s (rc_addr r) = Some lt" and hv: "leaf_halves city lt sep cur cft sib sft" and new: "sa \<notin> dom (tr_leaf s)"
    and mp: "(table_map (lt_entries lt))(key \<mapsto> v) = table_map (lt_entries cur) ++ table_map (lt_entries sib)"
    and s': "s' = split_store (rc_addr r) (rc_fp_addr r) sa sf cur cft sib sft s"
  shows "contents (split_leaf R r u sep (leaf_record (rc_addr r) (rc_fp_addr r) cur) (leaf_record sa sf sib)) s' (M(key \<mapsto> v))"
proof -
  let ?upd = "leaf_record (rc_addr r) (rc_fp_addr r) cur" and ?rec = "leaf_record sa sf sib"
  have pt: "parts (rc_key \<circ> fst) snd R" using leaf by (simp add: leaf_inv_def)
  note ll = leaf_lookup [OF leaf r(1) lt]
  have rng: "(M(key \<mapsto> v)) k = (table_map (lt_entries cur) ++ table_map (lt_entries sib)) k" if "rc_key r \<le> k" "k < u" for k
  proof -
    have "table_map (lt_entries lt) k = M k" using map r lt that unfolding contents_def by blast
    then show ?thesis unfolding mp [symmetric] by simp
  qed
  have dc: "k < sep" if "table_map (lt_entries cur) k \<noteq> None" for k
    using hv that by (auto simp: leaf_halves_def leaf_wf_def)
  have ds: "sep \<le> k" if "table_map (lt_entries sib) k \<noteq> None" for k
    using hv that by (auto simp: leaf_halves_def leaf_wf_def)
  have sep: "rc_key r \<le> sep" "sep < u" using hv ll(3,4) by (auto simp: leaf_halves_def)
  show ?thesis
    unfolding contents_def
  proof (intro conjI allI impI)
    show "(M(key \<mapsto> v)) k = None" if "KeyMax \<le> k" for k
    proof -
      have "u \<le> KeyMax" using pt r(1) unfolding parts_def by force
      then show ?thesis using map r(3) that unfolding contents_def by auto
    qed
    fix q z l k
    assume as: "(q, z) \<in> split_leaf R r u sep ?upd ?rec \<and> tr_leaf s' (rc_addr q) = Some l \<and> rc_key q \<le> k \<and> k < z"
    then consider "(q, z) = (?rec, u)" | "(q, z) = (?upd, sep)" | "(q, z) \<in> R" "(q, z) \<noteq> (r, u)"
      by (auto simp: split_leaf_def split: if_splits)
    then show "table_map (lt_entries l) k = (M(key \<mapsto> v)) k"
    proof cases
      case 1
      then have l: "l = sib" "sep \<le> k" "k < u" using as lt new hv by (auto simp: s' split_store_def leaf_halves_def split: if_splits)
      then have "table_map (lt_entries cur) k = None" using dc [of k] by fastforce
      then show ?thesis using rng [of k] l sep by (simp add: map_add_def split: option.splits)
    next
      case 2
      then have l: "l = cur" "rc_key r \<le> k" "k < sep" using as ll(3) hv by (auto simp: s' split_store_def leaf_halves_def)
      then have "table_map (lt_entries sib) k = None" using ds [of k] by fastforce
      then show ?thesis using rng [of k] l sep by (simp add: map_add_def)
    next
      case 3
      have "rc_addr q \<noteq> rc_addr r" using record_unique [OF leaf r(1) 3(1)] 3(2) by auto
      moreover have "rc_addr q \<noteq> sa" using leaf_exists [OF leaf 3(1)] new by auto
      ultimately have "tr_leaf s (rc_addr q) = Some l" using as by (simp add: s' split_store_def)
      then have "table_map (lt_entries l) k = M k" using map 3(1) as unfolding contents_def by blast
      moreover have "k \<noteq> key" using parts_unique [OF pt r(1) 3(1), of key] as r 3(2) by auto
      ultimately show ?thesis by simp
    qed
  qed
qed

section \<open>The result of a write\<close>

text \<open>
  A leaf that a write of \<open>key\<close> has to split: the key is new, the leaf covers it, and each of its
  slots holds another key of the map. What can go wrong then: no memory for the sibling or an inner
  node, the largest version, or the overlap of the buffers of a leaf that does not fit into a page.
\<close>

definition must_split :: "dm_tree \<Rightarrow> (KeyType \<rightharpoonup> ValueType) \<Rightarrow> KeyType \<Rightarrow> LeafTable \<Rightarrow> bool" where
  "must_split s M key lt \<longleftrightarrow>
     M key = None \<and> lt \<in> ran (tr_leaf s) \<and> lf_min_key (lt_hdr lt) \<le> key \<and> key < lf_max_key (lt_hdr lt) \<and>
     table_map (lt_entries lt) \<subseteq>\<^sub>m M \<and> card (dom (table_map (lt_entries lt))) = length (lt_entries lt)"

definition split_error :: "LeafTable \<Rightarrow> error \<Rightarrow> bool" where
  "split_error lt e \<longleftrightarrow>
     e = no_chunk \<or> e = IntOverflow \<and> lf_version (lt_hdr lt) = 2 ^ 31 - 1 \<or>
     e = BufferOverlap \<and> LeafNodeCapacity < length (lt_entries lt)"

definition leaf_caps :: "dm_tree \<Rightarrow> Gaddr \<rightharpoonup> nat" where
  "leaf_caps s a = map_option (\<lambda>lt. length (lt_entries lt)) (tr_leaf s a)"

definition written ::
  "dm_env \<Rightarrow> dm_tree \<Rightarrow> KeyType \<Rightarrow> ValueType \<Rightarrow> (KeyType \<rightharpoonup> ValueType) \<Rightarrow> dm_tree result \<Rightarrow> bool" where
  "written env s key v M res \<longleftrightarrow>
     (\<exists>lt e. res = Inl e \<and> must_split s M key lt \<and> split_error lt e) \<or>
     (\<exists>h N R Q s'. res = Inr s' \<and> tree_inv env h N no_pend R Q s' \<and> contents R s' (M(key \<mapsto> v)) \<and>
        tr_locks s' = tr_locks s \<and> (leaf_caps s' = leaf_caps s \<or> (\<exists>lt. must_split s M key lt)))"

lemma written_same_mem:
  assumes "same_mem s s1"
  shows "written env s1 key v M res = written env s key v M res"
  using assms by (simp add: written_def must_split_def leaf_caps_def [abs_def] same_mem_def)

lemma written_error: "must_split s M key lt \<Longrightarrow> split_error lt e \<Longrightarrow> written env s key v M (Inl e)"
  unfolding written_def by blast

lemma indexed_written:
  assumes "indexed env R Q s3 res" and "contents R s3 (M(key \<mapsto> v))" and "tr_locks s3 = tr_locks s"
    and "must_split s M key lt"
  shows "written env s key v M res"
proof -
  have "contents R s' (M(key \<mapsto> v))" if "same_leaves s3 s'" for s'
    using assms(2) that by (simp add: contents_def same_leaves_def)
  moreover have "split_error lt no_chunk" by (simp add: split_error_def)
  ultimately show ?thesis using assms(1,3,4) unfolding indexed_def written_def same_leaves_def by metis
qed

lemma full_must_split:
  assumes leaf: "leaf_inv city R Q s" and map: "contents R s M" and r: "(r, u) \<in> R" "rc_key r \<le> key" "key < u"
    and lt: "tr_leaf s (rc_addr r) = Some lt" and wf: "leaf_wf city lt ft"
    and full: "length (table_kvs (lt_entries lt)) = length (lt_entries lt)" and none: "table_map (lt_entries lt) key = None"
  shows "must_split s M key lt"
proof -
  have agree: "table_map (lt_entries lt) k = M k" if "rc_key r \<le> k" "k < u" for k
    using map r(1) lt that unfolding contents_def by blast
  note ll = leaf_lookup(3,4) [OF leaf r(1) lt]
  have "table_map (lt_entries lt) \<subseteq>\<^sub>m M"
    using wf ll agree by (auto simp: map_le_def leaf_wf_def)
  moreover have "distinct (map fst (table_kvs (lt_entries lt)))" using wf by (simp add: leaf_wf_def table_wf_def)
  then have "card (dom (table_map (lt_entries lt))) = length (lt_entries lt)"
    using full distinct_card by (fastforce simp: table_map_def dom_map_of_conv_image_fst)
  moreover have "lt \<in> ran (tr_leaf s)" using lt by (rule ranI)
  ultimately show ?thesis using none agree r ll by (simp add: must_split_def)
qed

lemma adapt_capacity_cases:
  assumes "c \<in> {32, 64, 128}"
  shows "adapt_capacity c d = c \<or> adapt_capacity c d = 2 * c" and "adapt_capacity c d \<in> {32, 64, 128}"
    and "adapt_capacity c d \<le> MaxNodeCapacity"
  using assms by (auto simp: adapt_capacity_def MaxNodeCapacity_def)

lemma leaf_sizes:
  assumes "c \<in> {32, 64, 128}"
  shows "0 < cur_node_size c" and "cur_node_size c \<le> kChunkSize" and "0 < fp_get_size c" and "fp_get_size c \<le> kChunkSize"
  using assms by (auto simp: dm_sizes)

text \<open>Splitting the tables either works, or the buffers overlap, or it meets the largest version.\<close>

lemma resize_cases:
  assumes wf: "leaf_wf city lt ft" and full: "length (table_kvs (lt_entries lt)) = length (lt_entries lt)"
    and new: "table_map (lt_entries lt) k = None"
    and range: "lf_min_key (lt_hdr lt) \<le> k" "k < lf_max_key (lt_hdr lt)"
    and cap: "cap = length (lt_entries lt)" "cap \<in> {32, 64, 128}" "sib_cap = adapt_capacity cap c"
    and bufs: "rb_wf rbase rb" "get_page_buffer rb = (buf, rb1)" "get_sibling_buffer rb1 = (sbuf, rb2)"
  obtains e where "resize_tables city buf sbuf cap sib_cap k v sa sfa lt = Inl e" and "split_error lt e"
    | ro sep where "resize_tables city buf sbuf cap sib_cap k v sa sfa lt = Inr ro"
      and "leaf_halves city lt sep (ro_cur ro) (ro_cur_ft ro) (ro_sib ro) (ro_sib_ft ro)"
      and "length (lt_entries (ro_sib ro)) = sib_cap"
      and "(table_map (lt_entries lt))(k \<mapsto> v) =
        table_map (lt_entries (ro_cur ro)) ++ table_map (lt_entries (ro_sib ro))"
proof (cases "images_overlap buf (leaf_image cap) sbuf (leaf_image sib_cap)")
  case True
  then have "LeafNodeCapacity < cap" using leaf_buffers_disjoint [OF bufs, of cap sib_cap] by (meson not_le)
  then show thesis by (intro that(1) [OF resize_overlap [OF wf True]]) (simp add: split_error_def cap(1))
next
  case fits: False
  show thesis
  proof (cases "lf_version (lt_hdr lt) = 2 ^ 31 - 1")
    case True
    have tw: "table_wf city (of_int (lf_version (lt_hdr lt))) ft (lt_entries lt)" using wf by (simp add: leaf_wf_def)
    obtain es ps where "collect_entries (lt_entries lt) = Inr (es, ps)"
      using collect_entries_correct [OF leaf_wf_flags [OF tw]] by blast
    then show thesis using that(1) [of IntOverflow] True fits by (simp add: resize_tables_def split_error_def)
  next
    case False
    then have ver: "lf_version (lt_hdr lt) < 2 ^ 31 - 1" using wf by (simp add: leaf_wf_def)
    note ac = adapt_capacity_cases [OF cap(2), of c, folded cap(3)]
    obtain ro sep where ro: "resize_tables city buf sbuf cap sib_cap k v sa sfa lt = Inr ro"
      "leaf_wf city (ro_cur ro) (ro_cur_ft ro)" "leaf_wf city (ro_sib ro) (ro_sib_ft ro)"
      "ft_lock (ro_cur_ft ro) = 0" "ft_lock (ro_sib_ft ro) = 0"
      "length (lt_entries (ro_cur ro)) = cap" "length (lt_entries (ro_sib ro)) = sib_cap"
      "lt_hdr (ro_cur ro) = (lt_hdr lt)\<lparr>lf_version := lf_version (lt_hdr lt) + 1, lf_max_key := sep,
         lf_right_addr := sa, lf_right_fp_addr := sfa, lf_right_capacity := of_nat sib_cap\<rparr>"
      "lt_hdr (ro_sib ro) = (lt_hdr lt)\<lparr>lf_version := 0, lf_min_key := sep, lf_capacity := int sib_cap\<rparr>"
      "lf_min_key (lt_hdr lt) \<le> sep" "sep < lf_max_key (lt_hdr lt)"
      "(table_map (lt_entries lt))(k \<mapsto> v) = table_map (lt_entries (ro_cur ro)) ++ table_map (lt_entries (ro_sib ro))"
      using resize_split [OF wf full new range cap(1) ac(1,3) ver fits, of v sa sfa] by blast
    have "leaf_halves city lt sep (ro_cur ro) (ro_cur_ft ro) (ro_sib ro) (ro_sib_ft ro)"
      using ro(2-11) cap(1) ac(2) by (simp add: leaf_halves_def)
    then show thesis by (rule that(2) [OF ro(1) _ ro(7,12)])
  qed
qed

lemma compute_alloc_cases:
  assumes "addrs_inv conf U da" and "0 < k" and "k \<le> kChunkSize"
  obtains "compute_alloc conf k da = Inl no_chunk"
    | a da' where "compute_alloc conf k da = Inr (a, da')" and "a \<notin> U" and "addrs_inv conf (insert a U) da'"
proof (cases "compute_alloc conf k da")
  case (Inl e)
  then show thesis using that(1) compute_alloc_error [OF Inl] by simp
next
  case (Inr b)
  then show thesis using that(2) [of "fst b" "snd b"] addrs_compute [OF assms, of "fst b" "snd b"] by simp
qed

section \<open>Splitting a full leaf\<close>

lemma split_tree_inv:
  assumes inv: "tree_inv env h N no_pend R Q s" and r: "(r, u) \<in> R" and lt: "tr_leaf s (rc_addr r) = Some lt"
    and hv: "leaf_halves (en_city env) lt sep cur cft sib sft"
    and new: "sa \<notin> used_addrs s" "sf \<notin> used_addrs s"
    and addrs: "addrs_inv (en_conf env) (insert sf (insert sa (used_addrs s))) da"
    and s': "s' = (split_store (rc_addr r) (rc_fp_addr r) sa sf cur cft sib sft s)\<lparr>tr_alloc := da, tr_rbuf := rb\<rparr>"
    and rb: "rb_wf rbase rb"
    and upd: "upd = leaf_record (rc_addr r) (rc_fp_addr r) cur" and rec: "rec = leaf_record sa sf sib"
  shows "tree_inv env h N (no_pend(0 := [upd, rec])) (split_leaf R r u sep upd rec) (insert (sa, sf) Q) s'"
proof -
  let ?s = "split_store (rc_addr r) (rc_fp_addr r) sa sf cur cft sib sft s" and ?c = "en_city env"
  let ?R = "split_leaf R r u sep upd rec" and ?Q = "insert (sa, sf) Q"
  have leaf: "leaf_inv ?c R Q s" and inner: "inner_inv ?c h N no_pend R s" and client: "client_inv env N R Q s"
    using inv by (simp_all add: tree_inv_def)
  note ll = leaf_lookup [OF leaf r lt]
  have pt: "parts (rc_key \<circ> fst) snd R" using leaf by (simp add: leaf_inv_def)
  have "inner_inv ?c h N (no_pend(0 := [upd, rec])) ?R s'"
    by (rule inner_inv_split_leaf [OF inner pt r])
      (use hv ll(3,4) in \<open>auto simp: leaf_halves_def upd rec s' split_store_def\<close>)
  moreover have "leaf_inv ?c ?R ?Q ?s"
    unfolding upd rec by (rule split_leaf_inv [OF leaf r lt hv _ _ refl]) (use new in auto)
  then have "leaf_inv ?c ?R ?Q s'" by (simp add: s' leaf_inv_def pair_ok_def leaf_at_def)
  moreover have copy: "node_copy ?c ?R ?Q s' n" if "node_copy ?c R Q s n" for n
  proof -
    have "rec_copy ?R ?Q ?s p" if "rec_copy R Q s p" for p
      by (rule split_rec_copy [OF leaf r lt hv _ refl that]) (use new in auto)
    then have "rec_copy ?R ?Q s' p" if "rec_copy R Q s p" for p using that by (simp add: s' rec_copy_def)
    then show ?thesis using that by (simp add: node_copy_def)
  qed
  moreover have fields: "tr_cache s' = tr_cache s" "tr_inner s' = tr_inner s" "tr_local_root s' = tr_local_root s"
    "tr_glock s' = tr_glock s" "tr_alloc s' = da" by (simp_all add: s' split_store_def)
  obtain ft where "tr_fp s (rc_fp_addr r) = Some ft" by (rule pair_lookup [OF leaf ll(1)])
  then have "used_addrs s' = insert sf (insert sa (used_addrs s))" using lt by (auto simp: s' split_store_def)
  then have "client_inv env N ?R ?Q s'"
    using client addrs copy unfolding client_inv_def cache_ok_def fields by simp
  moreover have "rbuf_ok s'" using rb by (auto simp: s' rbuf_ok_def)
  ultimately show ?thesis by (simp add: tree_inv_def)
qed

lemma split_insert:
  assumes inv: "tree_inv env h N no_pend R Q s" and map: "contents R s M"
    and r: "(r, u) \<in> R" "rc_key r \<le> key" "key < u" and lt: "tr_leaf s (rc_addr r) = Some lt"
    and hv: "leaf_halves (en_city env) lt sep cur cft sib sft"
    and mp: "(table_map (lt_entries lt))(key \<mapsto> v) = table_map (lt_entries cur) ++ table_map (lt_entries sib)"
    and new: "sa \<notin> used_addrs s" "sf \<notin> used_addrs s"
    and addrs: "addrs_inv (en_conf env) (insert sf (insert sa (used_addrs s))) da"
    and rb: "rb_wf rbase rb" and ms: "must_split s M key lt"
    and F: "h + 3 \<le> F" "card (N 0) < F"
    and path: "if fc then cached_path (N 0) key (tr_path s) else length (tr_path s) = h + 2 \<and> on_path N h 0 key (tr_path s)"
  shows "written env s key v M
     (inner_insert F env key (leaf_record sa sf sib) (leaf_record (rc_addr r) (rc_fp_addr r) cur) fc
       ((split_store (rc_addr r) (rc_fp_addr r) sa sf cur cft sib sft s)\<lparr>tr_alloc := da, tr_rbuf := rb\<rparr>))"
proof -
  have leaf: "leaf_inv (en_city env) R Q s" and inner: "inner_inv (en_city env) h N no_pend R s"
    using inv by (simp_all add: tree_inv_def)
  note ll = leaf_lookup [OF leaf r(1) lt]
  have pt: "parts (rc_key \<circ> fst) snd R" using leaf by (simp add: leaf_inv_def)
  then have "u \<le> KeyMax" using r(1) unfolding parts_def by force
  then have kmax: "key < KeyMax" using r(3) by simp
  define upd where "upd = leaf_record (rc_addr r) (rc_fp_addr r) cur"
  define rec where "rec = leaf_record sa sf sib"
  define s3 where "s3 = (split_store (rc_addr r) (rc_fp_addr r) sa sf cur cft sib sft s)\<lparr>tr_alloc := da, tr_rbuf := rb\<rparr>"
  have inv3: "tree_inv env h N (no_pend(0 := [upd, rec])) (split_leaf R r u sep upd rec) (insert (sa, sf) Q) s3"
    by (rule split_tree_inv [OF inv r(1) lt hv new addrs s3_def rb upd_def rec_def])
  have "sa \<notin> dom (tr_leaf s)" using new(1) by simp
  from split_contents [OF leaf map r lt hv this mp refl, of sf]
  have cnt: "contents (split_leaf R r u sep upd rec) s3 (M(key \<mapsto> v))" by (simp add: s3_def upd_def rec_def contents_def)
  obtain lo a hi where x: "(lo, a, hi) \<in> N 0" "lo \<le> key" "key < hi" by (rule node_cover [OF inner le0 kmax])
  obtain n where n: "tr_inner s a = Some n" by (rule node_exists [OF inner x(1)])
  note bp = bottom_pair [OF inner no_pend_simp pt r x n]
  have keys: "rc_key upd = rc_key r" "rc_key rec = sep" "rc_key r \<le> sep" "sep < u"
    using hv ll(3,4) by (auto simp: upd_def rec_def leaf_halves_def)
  have ran: "lo \<le> rc_key rec" "rc_key rec < hi" using bp(2,3) keys by auto
  have "rc_key upd \<in> rc_key ` set (recs m)"
    if y: "(lo', a', hi') \<in> N 0" "lo' \<le> rc_key rec" "rc_key rec < hi'" "tr_inner s3 a' = Some m" for lo' a' hi' m
  proof -
    have "a' = a" by (rule node_unique(2) [OF inner x(1) y(1) ran y(2,3)])
    then have "m = n" using y(4) n by (simp add: s3_def split_store_def)
    then show ?thesis using set_fst_bounds [OF bp(1)] keys(1) by simp
  qed
  then have uo: "upd_ok N s3 upd rec" by (auto simp: upd_ok_def upd_def)
  have pl: "pend_list 0 upd rec = [upd, rec]" by (simp add: pend_list_def)
  have "indexed env (split_leaf R r u sep upd rec) (insert (sa, sf) Q) s3 (inner_insert F env key rec upd fc s3)"
    by (rule inner_insert_ok [OF inv3 [folded pl] x ran _ uo F])
      (use path in \<open>simp_all add: rec_def s3_def split_store_def\<close>)
  moreover have "tr_locks s3 = tr_locks s" by (simp add: s3_def split_store_def)
  ultimately show ?thesis
    using indexed_written [OF _ cnt _ ms] by (simp add: s3_def split_store_def upd_def rec_def)
qed

lemma leaf_resize_ok:
  assumes inv: "tree_inv env h N no_pend R Q s" and map: "contents R s M"
    and r: "(r, u) \<in> R" "rc_key r \<le> key" "key < u" and lt: "tr_leaf s (rc_addr r) = Some lt"
    and full: "length (table_kvs (lt_entries lt)) = length (lt_entries lt)" and none: "table_map (lt_entries lt) key = None"
    and comb: "table_combining (en_city64 env) key value (tr_locks s) = v"
    and F: "h + 3 \<le> F" "card (N 0) < F"
    and path: "if fc then cached_path (N 0) key (tr_path s) else length (tr_path s) = h + 2 \<and> on_path N h 0 key (tr_path s)"
  shows "written env s key v M
     (leaf_resize F env (length (lt_entries lt)) (rc_addr r) (rc_fp_addr r) key value fc (write_fp (rc_fp_addr r) b s))"
    (is "written env s key v M ?res")
proof -
  let ?a = "rc_addr r" and ?f = "rc_fp_addr r" and ?c = "en_city env" and ?cap = "length (lt_entries lt)"
  let ?s1 = "write_fp ?f b s"
  define sc where "sc = adapt_capacity ?cap (tr_cache s)"
  have leaf: "leaf_inv ?c R Q s" and inner: "inner_inv ?c h N no_pend R s" using inv by (simp_all add: tree_inv_def)
  note ll = leaf_lookup [OF leaf r(1) lt]
  obtain ft where ft: "leaf_wf ?c lt ft" "?cap \<in> {32, 64, 128}" using pair_lookup [OF leaf ll(1)] lt by auto
  note ls = leaf_sizes [OF adapt_capacity_cases(2) [OF ft(2)], of "tr_cache s", folded sc_def]
  have al: "addrs_inv (en_conf env) (used_addrs s) (tr_alloc ?s1)" using addrs_of_tree [OF inv] by (simp add: write_fp_def)
  have ms: "must_split s M key lt" by (rule full_must_split [OF leaf map r lt ft(1) full none])
  have nc: "written env s key v M (Inl no_chunk)" by (rule written_error [OF ms]) (simp add: split_error_def)
  obtain rbase where rbw: "rb_wf rbase (tr_rbuf s)" using inv by (auto simp: tree_inv_def rbuf_ok_def)
  obtain buf rb1 sbuf rb2 where bufs: "get_page_buffer (tr_rbuf s) = (buf, rb1)" "get_sibling_buffer rb1 = (sbuf, rb2)"
    by (metis prod.collapse)
  have rbw2: "rb_wf rbase rb2" using rb_wf_step(2) [OF rbw] rb_wf_step(3) [of rbase rb1] bufs by simp
  have rng: "lf_min_key (lt_hdr lt) \<le> key" "key < lf_max_key (lt_hdr lt)" using r ll by simp_all
  have base: "?res = res_bind (tree_alloc env (cur_node_size sc) ?s1) (\<lambda>(sa, s1).
      res_bind (compute_alloc (en_conf env) (fp_get_size sc) (tr_alloc s1)) (\<lambda>(sf, da).
      res_bind (resize_tables ?c buf sbuf ?cap sc key v sa sf lt) (\<lambda>ro.
      inner_insert F env key
        (new_Record (lf_min_key (lt_hdr (ro_sib ro))) sa sf (int sc) (lf_version (lt_hdr (ro_sib ro))))
        (new_Record (lf_min_key (lt_hdr (ro_cur ro))) ?a ?f (int ?cap) (lf_version (lt_hdr (ro_cur ro)))) fc
        (write_fp ?f (ro_cur_ft ro) (write_leaf ?a (ro_cur ro)
                (write_fp sf (ro_sib_ft ro) (write_leaf sa (ro_sib ro) (s1\<lparr>tr_alloc := da, tr_rbuf := rb2\<rparr>))))))))"
    using lt comb bufs by (simp add: leaf_resize_def Let_def read_leaf_def write_fp_def sc_def)
  show ?thesis
  proof (cases rule: tree_alloc_cases [OF al ls(1,2)])
    case 1
    then show ?thesis using base nc by simp
  next
    case (2 sa da)
    show ?thesis
    proof (cases rule: compute_alloc_cases [OF 2(4) ls(3,4)])
      case c1: 1
      then show ?thesis using base 2(1) nc by simp
    next
      case c2: (2 sf da')
      show ?thesis
      proof (cases rule: resize_cases [OF ft(1) full none rng refl ft(2) sc_def rbw bufs, where v = v and sa = sa and sfa = sf])
        case r1: (1 e)
        then show ?thesis using base 2(1) c2(1) written_error [OF ms r1(2)] by simp
      next
        case r2: (2 ro sep)
        have sf: "sf \<noteq> ?f" using c2(2) pair_lookup [OF leaf ll(1)] by auto
        have "write_fp ?f (ro_cur_ft ro) (write_leaf ?a (ro_cur ro)
            (write_fp sf (ro_sib_ft ro) (write_leaf sa (ro_sib ro) (?s1\<lparr>tr_alloc := da, tr_alloc := da', tr_rbuf := rb2\<rparr>)))) =
            (split_store ?a ?f sa sf (ro_cur ro) (ro_cur_ft ro) (ro_sib ro) (ro_sib_ft ro) s)\<lparr>tr_alloc := da', tr_rbuf := rb2\<rparr>"
          using sf by (simp add: split_store_def write_fp_def write_leaf_def fun_upd_twist)
        then have "?res = inner_insert F env key (leaf_record sa sf (ro_sib ro)) (leaf_record ?a ?f (ro_cur ro)) fc
            ((split_store ?a ?f sa sf (ro_cur ro) (ro_cur_ft ro) (ro_sib ro) (ro_sib_ft ro) s)\<lparr>tr_alloc := da', tr_rbuf := rb2\<rparr>)"
          using base 2(1) c2(1) r2(1,2,3) by (simp add: leaf_record_def leaf_halves_def)
        moreover have "sf \<notin> used_addrs s" using c2(2) by simp
        ultimately show ?thesis
          using split_insert [OF inv map r lt r2(2,4) 2(2) _ c2(3) rbw2 ms F path] by simp
      qed
    qed
  qed
qed

section \<open>Inserting into a leaf\<close>

lemma table_wf_lock: "table_wf city ver (ft\<lparr>ft_lock := x\<rparr>) es = table_wf city ver ft es"
  by (simp add: table_wf_def fp_check_consistent_def fp_hash_def)

lemma write_fp_simps [simp]: "tr_leaf (write_fp f t s) = tr_leaf s" "tr_locks (write_fp f t s) = tr_locks s"
  by (simp_all add: write_fp_def)

lemma lock_facts:
  assumes fp: "read_fp f c s = Inr ft" and free: "ft_lock ft = 0"
  shows "lock_table f c s = Inr (write_fp f (ft\<lparr>ft_lock := 1\<rparr>) s)"
    and "read_fp f c (write_fp f (ft\<lparr>ft_lock := 1\<rparr>) s) = Inr (ft\<lparr>ft_lock := 1\<rparr>)"
    and "tr_fp s f = Some ft"
    and "unlock_table f c (write_leaf a l (write_fp f (ft\<lparr>ft_lock := 1\<rparr>) s)) = Inr (write_fp f ft (write_leaf a l s))"
    and "unlock_table f c (write_fp f (ft\<lparr>ft_lock := 1\<rparr>) s) = Inr s"
proof -
  have t: "tr_fp s f = Some ft" "fp_capacity ft = c" using fp by (auto simp: read_fp_def split: option.splits if_splits)
  then show "tr_fp s f = Some ft" by simp
  have cap: "fp_capacity (ft\<lparr>ft_lock := 1\<rparr>) = c" using t(2) by (simp add: fp_capacity_def)
  have ft: "ft\<lparr>ft_lock := 0\<rparr> = ft" using free by simp
  have st: "(tr_fp s)(f \<mapsto> ft) = tr_fp s" using t(1) by auto
  show "lock_table f c s = Inr (write_fp f (ft\<lparr>ft_lock := 1\<rparr>) s)"
    using fp free by (simp add: lock_table_def try_lock_table_def)
  show "read_fp f c (write_fp f (ft\<lparr>ft_lock := 1\<rparr>) s) = Inr (ft\<lparr>ft_lock := 1\<rparr>)"
    using cap by (simp add: read_fp_def write_fp_def)
  show "unlock_table f c (write_leaf a l (write_fp f (ft\<lparr>ft_lock := 1\<rparr>) s)) = Inr (write_fp f ft (write_leaf a l s))"
    using cap by (simp add: unlock_table_def read_fp_def write_fp_def write_leaf_def fp_unlock_def ft)
  show "unlock_table f c (write_fp f (ft\<lparr>ft_lock := 1\<rparr>) s) = Inr s"
    using cap st by (simp add: unlock_table_def read_fp_def write_fp_def fp_unlock_def ft)
qed

declare leaf_insert.simps(2) [simp del]

lemma leaf_insert_current:
  assumes inv: "tree_inv env h N no_pend R Q s" and cur: "current R key r" and map: "contents R s M"
    and comb: "table_combining (en_city64 env) key value (tr_locks s) = v"
    and F: "h + 3 \<le> F" "card (N 0) < F" and at: "located N h R Q s key r fc"
  shows "written env s key v M (leaf_insert F (Suc f) env key value r fc sync s)"
proof -
  let ?c = "en_city env" and ?a = "rc_addr r" and ?f = "rc_fp_addr r"
  have leaf: "leaf_inv ?c R Q s" using inv by (simp add: tree_inv_def)
  obtain u where u: "(r, u) \<in> R" "rc_key r \<le> key" "key < u" using cur unfolding current_def by blast
  obtain lt ft where l: "tr_leaf s ?a = Some lt" "tr_fp s ?f = Some ft" "leaf_wf ?c lt ft" "ft_lock ft = 0"
    "attach_node (of_int (rc_capacity r)) = Inr (length (lt_entries lt))"
    "read_fp ?f (length (lt_entries lt)) s = Inr ft" "fp_check_consistent ?c ft"
    "rc_version r = of_int (lf_version (lt_hdr lt)) \<longrightarrow> (r, u) \<in> R"
    "ft_version ft = ucast (rc_version r) \<longleftrightarrow> rc_version r = of_int (lf_version (lt_hdr lt))"
    by (rule leaf_facts [OF leaf leaf_rec_copy [OF leaf u(1)]])
  note ll = leaf_lookup [OF leaf u(1) l(1)] and lf = lock_facts [OF l(6,4)]
  let ?ft1 = "ft\<lparr>ft_lock := 1\<rparr>" and ?ver = "rc_version r"
  let ?s1 = "write_fp ?f ?ft1 s"
  have cons1: "fp_check_consistent ?c ?ft1" using l(7) by (simp add: fp_check_consistent_def fp_hash_def)
  have tw: "table_wf ?c ?ver ?ft1 (lt_entries lt)" using l(3) ll(6) by (simp add: table_wf_lock leaf_wf_def)
  have base: "leaf_insert F (Suc f) env key value r fc sync s =
     res_bind (leaf_put ?c key v ?ver ?ft1 (lt_entries lt)) (\<lambda>x.
     case x of
       Updated es \<Rightarrow> unlock_table ?f (length (lt_entries lt)) (write_leaf ?a (lt\<lparr>lt_entries := es\<rparr>) ?s1)
     | Added ft' es \<Rightarrow> Inr (write_fp ?f ft' (write_leaf ?a (lt\<lparr>lt_entries := es\<rparr>) ?s1))
     | Full \<Rightarrow> leaf_resize F env (length (lt_entries lt)) ?a ?f key value fc ?s1)"
    using l(1,5) lf(1,2) cons1 ll(6) l(9) comb by (simp add: leaf_insert.simps(2) Let_def read_leaf_def)
  have store: "written env s key v M (Inr (write_fp ?f ft' (write_leaf ?a (lt\<lparr>lt_entries := es\<rparr>) s)))"
    if w: "table_wf ?c ?ver ft' es" "ft_lock ft' = 0" "table_map es = (table_map (lt_entries lt))(key \<mapsto> v)"
      "length es = length (lt_entries lt)" for ft' es
  proof -
    let ?s' = "write_fp ?f ft' (write_leaf ?a (lt\<lparr>lt_entries := es\<rparr>) s)"
    have s': "?s' = s\<lparr>tr_leaf := (tr_leaf s)(?a \<mapsto> lt\<lparr>lt_entries := es\<rparr>), tr_fp := (tr_fp s)(?f \<mapsto> ft')\<rparr>"
      by (simp add: write_fp_def write_leaf_def)
    have wf': "leaf_wf ?c (lt\<lparr>lt_entries := es\<rparr>) ft'" using l(3) w u ll(3,4,6) by (auto simp: leaf_wf_def)
    have inv': "tree_inv env h N no_pend R Q ?s'"
      by (rule leaf_store [OF inv ll(1) l(1) _ _ wf' w(2) s']) (simp_all add: w(4))
    have cnt': "contents R ?s' (M(key \<mapsto> v))"
      by (rule contents_store [OF leaf map u l(1)]) (simp_all add: w(3) s')
    have "tr_locks ?s' = tr_locks s" "leaf_caps ?s' = leaf_caps s"
      using l(1) w(4) by (auto simp: s' leaf_caps_def fun_eq_iff)
    then show ?thesis using inv' cnt' unfolding written_def by blast
  qed
  show ?thesis
  proof (cases rule: leaf_put_cases [OF tw, where k = key and v = v])
    case (1 es)
    have "table_wf ?c ?ver ft es" using 1(3) by (simp add: table_wf_lock)
    from store [OF this l(4) 1(4,5)] show ?thesis
      using base 1(1) lf(4) by simp
  next
    case (2 ft' es)
    have eq: "write_fp ?f ft' (write_leaf ?a (lt\<lparr>lt_entries := es\<rparr>) ?s1) = write_fp ?f ft' (write_leaf ?a (lt\<lparr>lt_entries := es\<rparr>) s)"
      by (simp add: write_fp_def write_leaf_def)
    show ?thesis using store [OF 2(3,4,6,7)] base 2(1) eq by simp
  next
    case 3
    have "if fc then cached_path (N 0) key (tr_path s) else length (tr_path s) = h + 2 \<and> on_path N h 0 key (tr_path s)"
      using at by (simp add: located_def)
    from leaf_resize_ok [OF inv map u l(1) 3(3,2) comb F this] show ?thesis using base 3(1) by simp
  qed
qed

lemma leaf_insert_ok:
  assumes inv: "tree_inv env h N no_pend R Q s" and at: "located N h R Q s key r fc" and map: "contents R s M"
    and comb: "table_combining (en_city64 env) key value (tr_locks s) = v" and key: "key < KeyMax"
    and F: "h + 3 \<le> F" "card (N 0) < F"
  shows "written env s key v M (leaf_insert F (Suc (Suc f)) env key value r fc sync s)"
proof (cases "current R key r")
  case True
  show ?thesis by (rule leaf_insert_current [OF inv True map comb F at])
next
  case False
  have leaf: "leaf_inv (en_city env) R Q s" using inv by (simp add: tree_inv_def)
  obtain u where u: "rec_copy R Q s (r, u)" "rc_key r \<le> key" "key < u" using at unfolding located_def by blast
  obtain lt ft where l: "tr_leaf s (rc_addr r) = Some lt" "tr_fp s (rc_fp_addr r) = Some ft" "leaf_wf (en_city env) lt ft"
    "ft_lock ft = 0" "attach_node (of_int (rc_capacity r)) = Inr (length (lt_entries lt))"
    "read_fp (rc_fp_addr r) (length (lt_entries lt)) s = Inr ft" "fp_check_consistent (en_city env) ft"
    "rc_version r = of_int (lf_version (lt_hdr lt)) \<longrightarrow> (r, u) \<in> R"
    "ft_version ft = ucast (rc_version r) \<longleftrightarrow> rc_version r = of_int (lf_version (lt_hdr lt))"
    by (rule leaf_facts [OF leaf u(1)])
  have ver: "ft_version ft \<noteq> ucast (rc_version r)" using l(8,9) u False unfolding current_def by blast
  note lf = lock_facts [OF l(6,4)]
  have cons1: "fp_check_consistent (en_city env) (ft\<lparr>ft_lock := 1\<rparr>)" using l(7) by (simp add: fp_check_consistent_def fp_hash_def)
  have path: "cached_path (N 0) key (tr_path s)" if fc using at that by (simp add: located_def)
  have F2: "h + 2 \<le> F" using F(1) by simp
  obtain p fc' sync' s2 where s2: "reroute F env True key fc sync s = Inr (p, fc', sync', s2)"
    "tree_inv env h N no_pend R Q s2" "same_mem s s2" "located N h R Q s2 key p fc'" "current R key p"
    by (rule reroute_ok [OF inv key F2 F(2) path])
  have locks: "tr_locks s2 = tr_locks s" and cnt: "contents R s2 M"
    using map s2(3) by (simp_all add: contents_def same_mem_def)
  have "leaf_insert F (Suc (Suc f)) env key value r fc sync s = leaf_insert F (Suc f) env key value p fc' sync' s2"
    unfolding leaf_insert.simps(2) [of F "Suc f"] using l(5) lf(1,2,5) cons1 ver s2(1) by simp
  then show ?thesis
    using leaf_insert_current [OF s2(2,5) cnt _ F s2(4), of "value" v f sync'] comb locks
    by (simp add: written_same_mem [OF s2(3)])
qed

end
