(* ===== verification/KV_Spec.thy ===== *)
theory KV_Spec
  imports DM_Prelude
begin

text \<open>
  The contract of a key-value index: a state represents a finite map, a write updates it, a read
  looks it up. The lemmas of the interface are about whole histories of operations; the tree of
  \<open>DMTree\<close> is an instance.
\<close>

datatype ('k, 'v) kv_op = Put 'k 'v | Get 'k 'v

text \<open>The map after a history, and what its reads may return; a miss leaves the old value or the null value.\<close>

fun kv_final :: "('k, 'v) kv_op list \<Rightarrow> ('k \<rightharpoonup> 'v) \<Rightarrow> ('k \<rightharpoonup> 'v)" where
  "kv_final [] M = M"
| "kv_final (Put k v # ops) M = kv_final ops (M(k \<mapsto> v))"
| "kv_final (Get k old # ops) M = kv_final ops M"

fun kv_answers :: "'v \<Rightarrow> ('k, 'v) kv_op list \<Rightarrow> ('k \<rightharpoonup> 'v) \<Rightarrow> 'v list \<Rightarrow> bool" where
  "kv_answers null [] M vs \<longleftrightarrow> vs = []"
| "kv_answers null (Put k v # ops) M vs \<longleftrightarrow> kv_answers null ops (M(k \<mapsto> v)) vs"
| "kv_answers null (Get k old # ops) M vs \<longleftrightarrow>
     (case vs of
        [] \<Rightarrow> False
      | v # vs' \<Rightarrow> (case M k of Some w \<Rightarrow> v = w | None \<Rightarrow> v = old \<or> v = null) \<and> kv_answers null ops M vs')"

text \<open>Running a history, each operation with the fuel it needs; the values that the reads return.\<close>

fun kv_run ::
  "('k \<Rightarrow> 'v \<Rightarrow> 's \<Rightarrow> 's result) \<Rightarrow> ('k \<Rightarrow> 'v \<Rightarrow> 's \<Rightarrow> ('v \<times> 's) result) \<Rightarrow> ('k, 'v) kv_op list \<Rightarrow> 's \<Rightarrow>
     ('v list \<times> 's) result" where
  "kv_run put get [] s = Inr ([], s)"
| "kv_run put get (Put k v # ops) s = res_bind (put k v s) (kv_run put get ops)"
| "kv_run put get (Get k old # ops) s =
     res_bind (get k old s) (\<lambda>(v, s1). res_bind (kv_run put get ops s1) (\<lambda>(vs, s2). Inr (v # vs, s2)))"

definition kv_key :: "('k, 'v) kv_op \<Rightarrow> 'k" where
  "kv_key p = (case p of Put k _ \<Rightarrow> k | Get k _ \<Rightarrow> k)"

locale kv_index =
  fixes rep :: "'s \<Rightarrow> ('k \<rightharpoonup> 'v) \<Rightarrow> bool" and valid :: "'k \<Rightarrow> bool" and null :: 'v and fails :: "error set"
    and put :: "'k \<Rightarrow> 'v \<Rightarrow> 's \<Rightarrow> 's result" and get :: "'k \<Rightarrow> 'v \<Rightarrow> 's \<Rightarrow> ('v \<times> 's) result"
  assumes put_law: "rep s M \<Longrightarrow> valid k \<Longrightarrow>
      case put k v s of Inl e \<Rightarrow> e \<in> fails | Inr s' \<Rightarrow> rep s' (M(k \<mapsto> v))"
    and get_law: "rep s M \<Longrightarrow> valid k \<Longrightarrow>
      case get k old s of
        Inl e \<Rightarrow> e \<in> fails
      | Inr (v, s') \<Rightarrow> rep s' M \<and> (case M k of Some w \<Rightarrow> v = w | None \<Rightarrow> v = old \<or> v = null)"
begin

lemma run_law:
  assumes "rep s M" and "\<forall>p \<in> set ops. valid (kv_key p)"
  shows "case kv_run put get ops s of
      Inl e \<Rightarrow> e \<in> fails
    | Inr (vs, s') \<Rightarrow> rep s' (kv_final ops M) \<and> kv_answers null ops M vs"
  using assms
proof (induction ops arbitrary: s M)
  case Nil
  then show ?case by simp
next
  case (Cons p ops)
  show ?case
  proof (cases p)
    case (Put k v)
    have k: "valid k" and ops: "\<forall>p \<in> set ops. valid (kv_key p)"
      using Cons.prems(2) Put by (simp_all add: kv_key_def)
    show ?thesis
    proof (cases "put k v s")
      case (Inl e)
      then show ?thesis using put_law [OF Cons.prems(1) k, of v] Put by simp
    next
      case (Inr s1)
      then have "rep s1 (M(k \<mapsto> v))" using put_law [OF Cons.prems(1) k, of v] by simp
      from Cons.IH [OF this ops] show ?thesis using Put Inr by (cases "kv_run put get ops s1") auto
    qed
  next
    case (Get k old)
    show ?thesis
    proof (cases "get k old s")
      case (Inl e)
      then show ?thesis using get_law [OF Cons.prems(1), of k old] Cons.prems(2) Get by (simp add: kv_key_def)
    next
      case (Inr b)
      obtain v s1 where b: "b = (v, s1)" by (cases b)
      have s1: "rep s1 M" "case M k of Some w \<Rightarrow> v = w | None \<Rightarrow> v = old \<or> v = null"
        using get_law [OF Cons.prems(1), of k old] Cons.prems(2) Get Inr b by (simp_all add: kv_key_def)
      have "case kv_run put get ops s1 of
          Inl e \<Rightarrow> e \<in> fails
        | Inr (vs, s') \<Rightarrow> rep s' (kv_final ops M) \<and> kv_answers null ops M vs"
        using Cons.IH [OF s1(1)] Cons.prems(2) by simp
      then show ?thesis using Get Inr b s1(2) by (cases "kv_run put get ops s1") auto
    qed
  qed
qed

end

end
