(* ===== verification/TreeCorrect.thy ===== *)
theory TreeCorrect
  imports TreeWrite KV_Spec
begin

text \<open>
  The tree as a map: what \<open>read\<close>, \<open>write\<close> and \<open>init_root_node\<close> of \<open>DMTree\<close> promise, and histories of
  operations through the interface of \<open>KV_Spec\<close>. The fuel of an operation bounds its loops; the
  number of inner nodes and three more rounds are always enough.
\<close>

section \<open>The map that a tree represents\<close>

definition rep :: "dm_env \<Rightarrow> dm_tree \<Rightarrow> (KeyType \<rightharpoonup> ValueType) \<Rightarrow> bool" where
  "rep env s M \<longleftrightarrow>
     (\<exists>h N R Q. tree_inv env h N no_pend R Q s \<and> contents R s M) \<and>
     (\<forall>i. ll_idle (tr_locks s i)) \<and> length (en_stack env) = 128"

text \<open>All leaves have the capacity of the first one; their images fit into one page.\<close>

definition page_leaves :: "dm_tree \<Rightarrow> bool" where
  "page_leaves s \<longleftrightarrow> ran (leaf_caps s) \<subseteq> {LeafNodeCapacity}"

lemma page_leaves_cap: "page_leaves s \<Longrightarrow> lt \<in> ran (tr_leaf s) \<Longrightarrow> length (lt_entries lt) = LeafNodeCapacity"
  unfolding page_leaves_def leaf_caps_def ran_def by force

lemma page_leaves_small: "page_leaves s \<Longrightarrow> small_leaves s"
  using page_leaves_cap by (fastforce simp: small_leaves_def LeafNodeCapacity_def intro: ranI)

text \<open>With at most as many keys as a leaf has slots, no leaf has to be split.\<close>

lemma page_leaves_no_split:
  assumes "page_leaves s" and "dom M \<subseteq> K" and "finite K" and "card K \<le> LeafNodeCapacity" and "key \<in> K"
  shows "\<not> must_split s M key lt"
proof
  assume ms: "must_split s M key lt"
  then have "dom (table_map (lt_entries lt)) \<subseteq> dom M" "key \<notin> dom M"
    by (auto simp: must_split_def dest!: map_le_implies_dom_le)
  then have "dom (table_map (lt_entries lt)) \<subseteq> K - {key}" using assms(2) by blast
  then have "card (dom (table_map (lt_entries lt))) \<le> card (K - {key})" using assms(3) by (intro card_mono) simp_all
  also have "\<dots> < card K" using assms(3,5) by (rule card_Diff1_less)
  finally show False using ms assms(4) page_leaves_cap [OF assms(1), of lt] by (simp add: must_split_def)
qed

definition enough :: "dm_tree \<Rightarrow> nat" where
  "enough s = card (dom (tr_inner s)) + 3"

lemma enough_fuel:
  assumes inv: "tree_inv env h N P R Q s" and F: "enough s \<le> F"
  shows "h + 3 \<le> F" and "card (N 0) < F"
proof -
  note inner = tree_inv_inner [OF inv]
  have fin: "finite (dom (tr_inner s))" using addrs_of_tree [OF inv] by (simp add: addrs_inv_def)
  have L: "levels (en_city env) N P R (tr_inner s) (tr_root s)" using inner by (simp add: inner_inv_def)
  have "inj_on (\<lambda>x. fst (snd x)) (N 0)"
  proof (rule inj_onI)
    fix x y assume xy: "x \<in> N 0" "y \<in> N 0" "fst (snd x) = fst (snd y)"
    obtain lo a hi lo' hi' where eq: "x = (lo, a, hi)" "y = (lo', a, hi')" using xy(3) by (metis prod.collapse)
    then show "x = y" using level_addr [OF L level_parts [OF inner le0], of lo a hi lo' hi' 0] xy(1,2) by simp
  qed
  moreover have "(\<lambda>x. fst (snd x)) ` N 0 \<subseteq> dom (tr_inner s)" using level_dom [OF L] by blast
  ultimately have "card (N 0) \<le> card (dom (tr_inner s))" using fin by (rule card_inj_on_le)
  then show "card (N 0) < F" using F by (simp add: enough_def)
  define pick where "pick l = fst (snd (SOME x. x \<in> N l))" for l
  have ne: "(SOME x. x \<in> N l) \<in> N l" if lh: "l \<le> h" for l
  proof -
    obtain lo a hi where "(lo, a, hi) \<in> N l" using node_cover [OF inner lh KeyNull_less_KeyMax] by blast
    then show ?thesis by (rule someI)
  qed
  have "inj_on pick {..h}"
    using L ne unfolding levels_def pick_def by (intro inj_onI) (metis atMost_iff)
  moreover have "pick ` {..h} \<subseteq> dom (tr_inner s)" using level_dom [OF L ne] by (auto simp: pick_def)
  ultimately have "card {..h} \<le> card (dom (tr_inner s))" using fin by (rule card_inj_on_le)
  then show "h + 3 \<le> F" using F by (simp add: enough_def)
qed

lemma locks_frame: "tree_inv env h N P R Q (s\<lparr>tr_locks := t\<rparr>) = tree_inv env h N P R Q s"
  by (simp add: tree_inv_def inner_inv_def leaf_inv_def pair_ok_def leaf_at_def client_inv_def cache_ok_def
      node_copy_def rec_copy_def)

lemma contents_locks: "contents R (s\<lparr>tr_locks := t\<rparr>) M = contents R s M"
  by (simp add: contents_def)

text \<open>Taking the page buffer of \<open>leaf_search\<close> or \<open>leaf_insert\<close>.\<close>

lemma next_page_located:
  assumes "locate F env key s1 = Inr (r, fc, s0)" and "tree_inv env h N no_pend R Q s0" and "same_mem s1 s0"
    and "located N h R Q s0 key r fc"
  shows "locate F env key s1 = Inr (r, fc, s0)" and "tree_inv env h N no_pend R Q (next_page s0)"
    and "same_mem s1 (next_page s0)" and "located N h R Q (next_page s0) key r fc"
  using assms tree_inv_next_page [OF assms(2)] same_mem_trans [OF assms(3) same_mem_next_page]
  by (simp_all add: located_def rec_copy_def)

section \<open>Read\<close>

lemma rep_read:
  assumes rep: "rep env s M" and key: "key < KeyMax" and F: "enough s \<le> F"
  shows "(\<exists>v s'. dm_read F env key old s = Inr (v = ValueNull, v, s') \<and> rep env s' M \<and> leaf_caps s' = leaf_caps s \<and>
        (case M key of Some w \<Rightarrow> v = w | None \<Rightarrow> v = old \<or> v = ValueNull)) \<or>
     dm_read F env key old s = Inl OutOfBounds \<and> \<not> small_leaves s"
proof -
  obtain h N R Q where inv: "tree_inv env h N no_pend R Q s" and map: "contents R s M"
    and idle: "\<And>i. ll_idle (tr_locks s i)" and stack: "length (en_stack env) = 128"
    using rep unfolding rep_def by blast
  note fuel = enough_fuel [OF inv F]
  define i where "i = get_hashed_lock_index (en_city64 env) key"
  obtain n1 where n1: "acquire_local_read_lock key (tr_locks s i) = Inr ((False, False), n1)"
    and rel: "\<And>res v. \<exists>n2. release_local_read_lock (False, False) res v n1 = ((res, v), n2) \<and> ll_idle n2"
    using idle_read [OF idle] by metis
  let ?s1 = "s\<lparr>tr_locks := (tr_locks s)(i := n1)\<rparr>"
  have acq: "table_acquire_read (en_city64 env) key (tr_locks s) = Inr ((False, False), (tr_locks s)(i := n1))"
    using n1 by (simp add: table_acquire_read_def Let_def i_def)
  have inv1: "tree_inv env h N no_pend R Q ?s1" using inv locks_frame by simp
  have F2: "h + 2 \<le> F" using fuel(1) by simp
  obtain f where f: "F = Suc (Suc (Suc f))" using fuel(1) by (metis add.commute add_Suc le_Suc_ex numeral_3_eq_3 plus_nat.add_0)
  obtain r fc s0 where s0: "locate F env key ?s1 = Inr (r, fc, s0)" "tree_inv env h N no_pend R Q s0" "same_mem ?s1 s0"
    "located N h R Q s0 key r fc"
    by (rule locate_ok [OF inv1 key F2])
  define s2 where "s2 = next_page s0"
  note s2 = next_page_located [OF s0, folded s2_def]
  have map2: "contents R s2 M" using map s2(3) by (simp add: contents_def same_mem_def)
  have "found env h N R Q M key old s2 (leaf_search F F env key old r fc True False s2)"
    using leaf_search_ok [OF s2(2,4) map2 stack key F2 fuel(2)] f by simp
  then consider "leaf_search F F env key old r fc True False s2 = Inl OutOfBounds" "\<not> small_leaves s2"
    | v s3 where "leaf_search F F env key old r fc True False s2 = Inr (v, s3)" "answers M key old v"
      "tree_inv env h N no_pend R Q s3" "same_mem s2 s3"
    unfolding found_def by blast
  then show ?thesis
  proof cases
    case 1
    then have "\<not> small_leaves s" using s2(3) by (simp add: small_leaves_def same_mem_def)
    then show ?thesis using 1(1) acq s0(1) by (simp add: dm_read_def Let_def flip: s2_def)
  next
    case 2
    have locks3: "tr_locks s3 = (tr_locks s)(i := n1)" using s2(3) 2(4) by (simp add: same_mem_def)
    obtain n2 where n2: "release_local_read_lock (False, False) False v n1 = ((False, v), n2)" "ll_idle n2"
      using rel by blast
    let ?s' = "s3\<lparr>tr_locks := (tr_locks s)(i := n2)\<rparr>"
    have "dm_read F env key old s = Inr (v = ValueNull, v, ?s')"
      using acq s0(1) 2(1) n2(1) locks3 by (simp add: dm_read_def Let_def flip: s2_def add: table_release_read_def i_def)
    moreover have "tree_inv env h N no_pend R Q ?s'" using 2(3) locks_frame by simp
    moreover have "contents R ?s' M" using map2 2(4) by (simp add: contents_def same_mem_def)
    moreover have "ll_idle (tr_locks ?s' j)" for j using idle n2(2) by simp
    moreover have "leaf_caps ?s' = leaf_caps s" using s2(3) 2(4) by (simp add: leaf_caps_def fun_eq_iff same_mem_def)
    ultimately show ?thesis using stack 2(2) unfolding rep_def answers_def by blast
  qed
qed

section \<open>Write\<close>

lemma rep_write:
  assumes rep: "rep env s M" and key: "key < KeyMax" and F: "enough s \<le> F"
  shows "(\<exists>s'. dm_write F env key v s = Inr s' \<and> rep env s' (M(key \<mapsto> v)) \<and>
       (leaf_caps s' = leaf_caps s \<or> (\<exists>lt. must_split s M key lt))) \<or>
     (\<exists>lt e. dm_write F env key v s = Inl e \<and> must_split s M key lt \<and> split_error lt e)"
proof -
  obtain h N R Q where inv: "tree_inv env h N no_pend R Q s" and map: "contents R s M"
    and idle: "\<And>i. ll_idle (tr_locks s i)" and stack: "length (en_stack env) = 128"
    using rep unfolding rep_def by blast
  note fuel = enough_fuel [OF inv F]
  define i where "i = get_hashed_lock_index (en_city64 env) key"
  obtain n1 where n1: "acquire_local_write_lock key v (tr_locks s i) = Inr ((False, False), n1)"
    "get_combining_value key v n1 = (False, v)" "ll_idle (release_local_write_lock (False, False) n1)"
    using idle_write [OF idle] by metis
  let ?t = "(tr_locks s)(i := n1)"
  let ?s1 = "s\<lparr>tr_locks := ?t\<rparr>"
  have acq: "table_acquire_write (en_city64 env) key v (tr_locks s) = Inr ((False, False), ?t)"
    using n1(1) by (simp add: table_acquire_write_def Let_def i_def)
  have inv1: "tree_inv env h N no_pend R Q ?s1" using inv locks_frame by simp
  have F2: "h + 2 \<le> F" using fuel(1) by simp
  obtain f where f: "F = Suc (Suc f)" using fuel(1) by (metis Suc_le_D add_2_eq_Suc' add_leD2 numeral_3_eq_3 Suc_1 Suc_le_mono)
  obtain r fc s0 where s0: "locate F env key ?s1 = Inr (r, fc, s0)" "tree_inv env h N no_pend R Q s0" "same_mem ?s1 s0"
    "located N h R Q s0 key r fc"
    by (rule locate_ok [OF inv1 key F2])
  define s2 where "s2 = next_page s0"
  note s2 = next_page_located [OF s0, folded s2_def]
  have map2: "contents R s2 M" and locks2: "tr_locks s2 = ?t" using map s2(3) by (simp_all add: contents_def same_mem_def)
  have comb: "table_combining (en_city64 env) key v (tr_locks s2) = v"
    using n1(2) locks2 by (simp add: table_combining_def i_def)
  have "written env s2 key v M (leaf_insert F F env key v r fc False s2)"
    using leaf_insert_ok [OF s2(2,4) map2 comb key fuel] f by simp
  moreover have split: "must_split s2 M key = must_split s M key" "leaf_caps s2 = leaf_caps s"
    using s2(3) by (auto simp: same_mem_def must_split_def leaf_caps_def)
  ultimately consider
      (error) lt e where "leaf_insert F F env key v r fc False s2 = Inl e" "must_split s M key lt" "split_error lt e"
    | (ok) h' N' R' Q' s3 where "leaf_insert F F env key v r fc False s2 = Inr s3" "tree_inv env h' N' no_pend R' Q' s3"
      "contents R' s3 (M(key \<mapsto> v))" "tr_locks s3 = ?t" "leaf_caps s3 = leaf_caps s \<or> (\<exists>lt. must_split s M key lt)"
    unfolding written_def locks2 split by blast
  then show ?thesis
  proof cases
    case error
    then have "dm_write F env key v s = Inl e" using acq s0(1) by (simp add: dm_write_def Let_def flip: s2_def)
    then show ?thesis using error(2,3) by blast
  next
    case ok
    let ?s' = "s3\<lparr>tr_locks := (tr_locks s)(i := release_local_write_lock (False, False) n1)\<rparr>"
    have "dm_write F env key v s = Inr ?s'"
      using acq s0(1) ok(1,4) by (simp add: dm_write_def Let_def table_release_write_def i_def flip: s2_def)
    moreover have "tree_inv env h' N' no_pend R' Q' ?s'" "contents R' ?s' (M(key \<mapsto> v))"
      using ok(2,3) locks_frame contents_locks by simp_all
    moreover have "ll_idle (tr_locks ?s' j)" for j using idle n1(3) by simp
    ultimately have "rep env ?s' (M(key \<mapsto> v))" using stack unfolding rep_def by blast
    moreover have "leaf_caps ?s' = leaf_caps s3" by (simp add: leaf_caps_def fun_eq_iff)
    ultimately show ?thesis using ok(5) \<open>dm_write F env key v s = Inr ?s'\<close> by metis
  qed
qed

section \<open>The constructor\<close>

text \<open>A tree of one root and one empty leaf.\<close>

lemma one_leaf_inv:
  fixes s :: dm_tree
  assumes r: "rc_key r = KeyNull" "rc_valid r = 1" "rc_capacity r = 32" "rc_version r = 0"
    and n: "inner_wf (en_city env) n [r]" "in_lock n = 0" "ih_min_key (in_hdr n) = KeyNull" "ih_max_key (in_hdr n) = KeyMax"
      "ih_next_is_leaf (in_hdr n)" "ih_is_root (in_hdr n)"
    and s: "tr_inner s = [tr_root s \<mapsto> n]" "tr_leaf s = [rc_addr r \<mapsto> \<lparr>lt_hdr = hdr, lt_entries = replicate 32 entry_zero\<rparr>]"
      "tr_fp s = [rc_fp_addr r \<mapsto> fp_set_consistent (en_city env) (fp_zero 32)]" "tr_glock s = 0"
      "tr_local_root s = Gaddr_Null" "cache_inv (tr_cache s)" "dc_skiplist (tr_cache s) = []"
      "addrs_inv (en_conf env) {tr_root s, rc_addr r, rc_fp_addr r} (tr_alloc s)" "rbuf_ok s"
    and hdr: "lf_min_key hdr = KeyNull" "lf_max_key hdr = KeyMax" "lf_version hdr = 0" "lf_capacity hdr = 32"
  shows "tree_inv env 0 ((\<lambda>_. {})(0 := {(KeyNull, tr_root s, KeyMax)})) no_pend {(r, KeyMax)} {(rc_addr r, rc_fp_addr r)} s"
    (is "tree_inv env 0 ?N no_pend ?R ?Q s") and "contents {(r, KeyMax)} s Map.empty"
proof -
  let ?lt = "\<lparr>lt_hdr = hdr, lt_entries = replicate 32 entry_zero\<rparr>" and ?ft = "fp_set_consistent (en_city env) (fp_zero 32)"
  have kvs: "table_kvs (replicate m entry_zero) = []" for m by (induction m) (simp_all add: entry_zero_def)
  have "list_all2 (slot_ok 0) (replicate m 0) (replicate m entry_zero)" for m
    by (induction m) (simp_all add: slot_ok_def entry_zero_def)
  then have "table_wf (en_city env) 0 ?ft (replicate 32 entry_zero)"
    by (simp only: table_wf_def kvs fp_set_consistent_simps fp_check_set_consistent) (simp add: fp_zero_def)
  then have wf: "leaf_wf (en_city env) ?lt ?ft"
    using hdr by (simp only: leaf_wf_def LeafTable.simps table_map_def kvs) (simp add: dm_sizes)
  have leaf: "leaf_inv (en_city env) ?R ?Q s"
    using wf hdr r s(2,3) unfolding leaf_inv_def pair_ok_def leaf_at_def parts_def by (auto simp: fp_zero_def)
  have inner: "inner_inv (en_city env) 0 ?N no_pend ?R s"
    using n s(1) r(1) unfolding inner_inv_def levels_def node_at_def parts_def
    by (auto simp: node_ok_def child_def recs_wf [OF n(1)])
  have "client_inv env ?N ?R ?Q s"
    unfolding client_inv_def
  proof (intro conjI allI impI)
    show "cache_ok (en_city env) (?N 0) ?R ?Q s (tr_cache s)" using s(6,7) by (simp add: cache_ok_def)
    show "node_copy (en_city env) ?R ?Q s m" if "(lo, a, hi) \<in> ?N 0 \<and> tr_inner s a = Some m" for lo a hi m
      using bottom_copies [OF inner leaf, of lo a hi m] that by auto
    show "addrs_inv (en_conf env) (dom (tr_inner s) \<union> dom (tr_leaf s) \<union> dom (tr_fp s)) (tr_alloc s)"
      using s(1-3,8) by (simp add: insert_commute)
  qed (use s in simp_all)
  then show "tree_inv env 0 ?N no_pend ?R ?Q s" using inner leaf s(9) by (simp add: tree_inv_def)
  show "contents ?R s Map.empty" using s(2) by (auto simp: contents_def table_map_def kvs simp del: replicate.simps)
qed

text \<open>Servers without a tree, and a client with its RDMA buffer set up.\<close>

definition blank :: "dm_tree \<Rightarrow> bool" where
  "blank s \<longleftrightarrow> tr_inner s = Map.empty \<and> tr_leaf s = Map.empty \<and> tr_fp s = Map.empty \<and> tr_root s = Gaddr_Null \<and>
     tr_glock s = 0 \<and> tr_local_root s = Gaddr_Null \<and> (\<exists>b. tr_rbuf s = new_RdmaBuffer b)"

definition root_record :: "Gaddr \<Rightarrow> Gaddr \<Rightarrow> Record" where
  "root_record la fa = new_Record KeyNull la fa (int LeafNodeCapacity) 0"

definition root_inner :: "dm_env \<Rightarrow> Record \<Rightarrow> InnerNode" where
  "root_inner env r = inner_set_consistent (en_city env)
     ((set_hdr (en_city env) ((new_InnerHeader (en_addr env) (en_pad env))\<lparr>ih_is_root := True, ih_next_is_leaf := True\<rparr>)
        inner_zero)\<lparr>in_record := r # replicate 31 record_zero\<rparr>)"

definition root_store :: "dm_env \<Rightarrow> Gaddr \<Rightarrow> Gaddr \<Rightarrow> Gaddr \<Rightarrow> DMAlloc \<Rightarrow> dm_tree \<Rightarrow> dm_tree" where
  "root_store env ra la fa da s = s\<lparr>tr_root := ra, tr_rbuf := snd (get_page_buffer (tr_rbuf s)), tr_alloc := da,
     tr_fp := [fa \<mapsto> fp_set_consistent (en_city env) (fp_zero 32)],
     tr_leaf := [la \<mapsto> \<lparr>lt_hdr = (new_LeafHeader Gaddr_Null (en_addr env))\<lparr>lf_capacity := int LeafNodeCapacity\<rparr>,
       lt_entries = replicate 32 entry_zero\<rparr>],
     tr_inner := [ra \<mapsto> root_inner env (root_record la fa)]\<rparr>"

lemma root_store_rep:
  assumes b: "blank s" and addrs: "addrs_inv (en_conf env) {fa, la, ra} da"
    and c: "cache_inv (tr_cache s)" "dc_skiplist (tr_cache s) = []"
    and locks: "\<And>i. ll_idle (tr_locks s i)" and stack: "length (en_stack env) = 128"
  shows "\<exists>s'. cache_insert env ((root_record la fa)\<lparr>rc_addr := ra\<rparr>) (root_inner env (root_record la fa))
      (root_store env ra la fa da s) = Inr s' \<and> rep env s' Map.empty \<and> page_leaves s'"
proof -
  let ?r = "root_record la fa"
  let ?n = "root_inner env ?r" and ?s = "root_store env ra la fa da s"
  let ?N = "(\<lambda>_. {})(0 := {(KeyNull, ra, KeyMax)})"
  have wf: "inner_wf (en_city env) ?n [?r]"
    by (simp add: inner_wf_def root_inner_def root_record_def new_Record_def set_hdr_def new_InnerHeader_def
        del: replicate.simps) (simp add: record_zero_def InnerNodeCapacity_def)
  have n: "in_lock ?n = 0" "ih_min_key (in_hdr ?n) = KeyNull" "ih_max_key (in_hdr ?n) = KeyMax"
    "ih_next_is_leaf (in_hdr ?n)" "ih_is_root (in_hdr ?n)"
    by (simp_all add: root_inner_def set_hdr_def new_InnerHeader_def inner_zero_def)
  have r: "rc_key ?r = KeyNull" "rc_valid ?r = 1" "rc_capacity ?r = 32" "rc_version ?r = 0" "rc_addr ?r = la" "rc_fp_addr ?r = fa"
    by (simp_all add: root_record_def new_Record_def LeafNodeCapacity_def)
  obtain b0 where "tr_rbuf s = new_RdmaBuffer b0" using b unfolding blank_def by blast
  then have rb: "rbuf_ok ?s"
    using rb_wf_step(2) [OF rb_wf_new [of b0]] unfolding rbuf_ok_def by (intro exI [of _ b0]) (simp add: root_store_def)
  have T: "tree_inv env 0 ?N no_pend {(?r, KeyMax)} {(la, fa)} ?s" "contents {(?r, KeyMax)} ?s Map.empty"
    using one_leaf_inv [OF r(1-4) wf n, of ?s] b c addrs rb
    by (simp_all add: root_store_def r(5,6) new_LeafHeader_def LeafNodeCapacity_def blank_def insert_commute
        del: replicate.simps)
  obtain c' where c': "cache_insert env (?r\<lparr>rc_addr := ra\<rparr>) ?n ?s = Inr (?s\<lparr>tr_cache := c'\<rparr>)"
    "tree_inv env 0 ?N no_pend {(?r, KeyMax)} {(la, fa)} (?s\<lparr>tr_cache := c'\<rparr>)"
    by (rule cache_insert_ok [OF T(1), of "?r\<lparr>rc_addr := ra\<rparr>" KeyMax ?n]) (simp_all add: r root_store_def)
  have "contents {(?r, KeyMax)} (?s\<lparr>tr_cache := c'\<rparr>) Map.empty" using T(2) by (simp add: contents_def)
  moreover have "ll_idle (tr_locks (?s\<lparr>tr_cache := c'\<rparr>) i)" for i using locks by (simp add: root_store_def)
  moreover have "page_leaves (?s\<lparr>tr_cache := c'\<rparr>)"
    by (auto simp: page_leaves_def leaf_caps_def root_store_def ran_def LeafNodeCapacity_def split: if_splits)
  ultimately show ?thesis using c' stack unfolding rep_def by blast
qed

lemma init_root_node_eq:
  assumes b: "blank s" and 1: "tree_alloc env InnerNodeSize s = Inr (ra, s\<lparr>tr_alloc := d1\<rparr>)"
    and 2: "tree_alloc env (cur_node_size LeafNodeCapacity) (next_page (s\<lparr>tr_alloc := d1, tr_root := ra\<rparr>)) =
       Inr (la, (next_page (s\<lparr>tr_alloc := d1, tr_root := ra\<rparr>))\<lparr>tr_alloc := d2\<rparr>)"
    and 3: "compute_alloc (en_conf env) (fp_get_size LeafNodeCapacity) d2 = Inr (fa, d3)"
  shows "init_root_node env s =
     cache_insert env ((root_record la fa)\<lparr>rc_addr := ra\<rparr>) (root_inner env (root_record la fa)) (root_store env ra la fa d3 s)"
proof -
  have valid: "rc_valid (root_record la fa) = 1" by (simp add: root_record_def new_Record_def)
  show ?thesis
    using 1 2 3 b ins_empty [OF valid]
    by (simp add: init_root_node_def blank_def root_store_def root_inner_def root_record_def write_fp_def write_leaf_def
        next_page_def write_inner_def Let_def LeafNodeCapacity_def del: replicate.simps)
qed

lemma init_root_node_ok:
  assumes b: "blank s" and addrs: "addrs_inv (en_conf env) {} (tr_alloc s)"
    and c: "cache_inv (tr_cache s)" "dc_skiplist (tr_cache s) = []"
    and locks: "\<And>i. ll_idle (tr_locks s i)" and stack: "length (en_stack env) = 128"
  shows "init_root_node env s = Inl no_chunk \<or> 
     (\<exists>s'. init_root_node env s = Inr s' \<and> rep env s' Map.empty \<and> page_leaves s')"
proof (rule tree_alloc_cases [OF addrs, of InnerNodeSize])
  show "0 < InnerNodeSize" "InnerNodeSize \<le> kChunkSize" by (simp_all add: dm_sizes)
  assume "tree_alloc env InnerNodeSize s = Inl no_chunk"
  then show ?thesis by (simp add: init_root_node_def)
next
  fix ra d1
  assume 1: "tree_alloc env InnerNodeSize s = Inr (ra, s\<lparr>tr_alloc := d1\<rparr>)" "addrs_inv (en_conf env) {ra} d1"
  let ?s2 = "next_page (s\<lparr>tr_alloc := d1, tr_root := ra\<rparr>)"
  have addrs2: "addrs_inv (en_conf env) {ra} (tr_alloc ?s2)" using 1(2) by simp
  have sizes: "0 < cur_node_size LeafNodeCapacity" "cur_node_size LeafNodeCapacity \<le> kChunkSize"
    "0 < fp_get_size LeafNodeCapacity" "fp_get_size LeafNodeCapacity \<le> kChunkSize"
    by (simp_all add: dm_sizes)
  have root: "tr_root s = Gaddr_Null" using b by (simp add: blank_def)
  show ?thesis
  proof (rule tree_alloc_cases [OF addrs2 sizes(1,2)])
    assume "tree_alloc env (cur_node_size LeafNodeCapacity) ?s2 = Inl no_chunk"
    then show ?thesis using 1(1) root by (simp add: init_root_node_def)
  next
    fix la d2
    assume 2: "tree_alloc env (cur_node_size LeafNodeCapacity) ?s2 = Inr (la, ?s2\<lparr>tr_alloc := d2\<rparr>)"
      "addrs_inv (en_conf env) {la, ra} d2"
    show ?thesis
    proof (rule compute_alloc_cases [OF 2(2) sizes(3,4)])
      assume "compute_alloc (en_conf env) (fp_get_size LeafNodeCapacity) d2 = Inl no_chunk"
      then show ?thesis using 1(1) 2(1) root by (simp add: init_root_node_def)
    next
      fix fa d3
      assume 3: "compute_alloc (en_conf env) (fp_get_size LeafNodeCapacity) d2 = Inr (fa, d3)"
        "addrs_inv (en_conf env) {fa, la, ra} d3"
      have "init_root_node env s = cache_insert env ((root_record la fa)\<lparr>rc_addr := ra\<rparr>) (root_inner env (root_record la fa))
          (root_store env ra la fa d3 s)"
        using init_root_node_eq [OF b 1(1), of la d2 fa d3] 2(1) 3(1) by simp
      then show ?thesis using root_store_rep [OF b 3(2) c locks stack] by simp
    qed
  qed
qed

lemma new_locks_idle: "ll_idle (case u i of (r, w, b) \<Rightarrow> new_LocalLockNode r w b)"
  by (simp split: prod.split)

lemma addrs_new:
  assumes "conf_ok conf" and "dsm_size < 2 ^ 48"
    and "\<forall>n \<le> MemoryNumber conf. new_Directory dsm_size 0 (of_nat n) = Inr (dirs n 0)"
  shows "addrs_inv conf {} (new_DMAlloc conf mn cn dirs)"
  using new_DMAlloc_inv [OF assms(1,2), of dirs mn cn] assms(1,3) unfolding addrs_inv_def by fastforce

lemma addrs_subset: "addrs_inv conf U da \<Longrightarrow> V \<subseteq> U \<Longrightarrow> addrs_inv conf V da"
  unfolding addrs_inv_def by (meson finite_subset subsetD)

lemma rep_cache:
  assumes rep: "rep env s M" and c: "cache_inv c" "dc_skiplist c = []"
  shows "rep env (s\<lparr>tr_cache := c\<rparr>) M"
proof -
  obtain h N R Q where inv: "tree_inv env h N no_pend R Q s" and map: "contents R s M" using rep unfolding rep_def by blast
  have "tree_inv env h N no_pend R Q (s\<lparr>tr_cache := c\<rparr>)"
    by (rule tree_inv_client [OF inv])
      (use inv c in \<open>simp_all add: same_mem_def cache_ok_def tree_inv_def client_inv_def\<close>)
  moreover have "contents R (s\<lparr>tr_cache := c\<rparr>) M" using map by (simp add: contents_def)
  ultimately show ?thesis using rep unfolding rep_def by auto
qed

lemma rep_alloc:
  assumes rep: "rep env s M" and a: "tree_alloc env n s = Inr (a, s')" and n: "0 < n" "n \<le> kChunkSize"
  shows "rep env s' M \<and> tr_root s' = tr_root s"
proof -
  obtain h N R Q where inv: "tree_inv env h N no_pend R Q s" and map: "contents R s M" using rep unfolding rep_def by blast
  obtain da where s': "s' = s\<lparr>tr_alloc := da\<rparr>" and da: "addrs_inv (en_conf env) (insert a (used_addrs s)) da"
    using a by (rule_tac tree_alloc_cases [OF addrs_of_tree [OF inv] n]) auto
  have "client_inv env N R Q s'"
    using inv addrs_subset [OF da subset_insertI] unfolding tree_inv_def client_inv_def s'
    by (simp add: cache_ok_def node_copy_def rec_copy_def)
  moreover have "inner_inv (en_city env) h N no_pend R s'" "leaf_inv (en_city env) R Q s'"
    using inv unfolding tree_inv_def s' by (simp_all add: inner_inv_def leaf_inv_def pair_ok_def leaf_at_def)
  moreover have "contents R s' M" using map s' by (simp add: contents_def)
  ultimately show ?thesis using rep s' unfolding rep_def tree_inv_def by auto
qed

lemma rep_root: "rep env s M \<Longrightarrow> tr_root s \<noteq> Gaddr_Null"
  unfolding rep_def using root_node addrs_of_tree tree_inv_inner
  by (metis UnCI addrs_inv_def domI node_exists)

section \<open>Histories\<close>

definition tree_put :: "dm_env \<Rightarrow> KeyType \<Rightarrow> ValueType \<Rightarrow> dm_tree \<Rightarrow> dm_tree result" where
  "tree_put env k v s = dm_write (enough s) env k v s"

definition tree_get :: "dm_env \<Rightarrow> KeyType \<Rightarrow> ValueType \<Rightarrow> dm_tree \<Rightarrow> (ValueType \<times> dm_tree) result" where
  "tree_get env k old s = res_bind (dm_read (enough s) env k old s) (\<lambda>(_, v, s'). Inr (v, s'))"

abbreviation tree_fails :: "error set" where
  "tree_fails \<equiv> {no_chunk, IntOverflow, OutOfBounds, BufferOverlap}"

interpretation dmtree: kv_index "rep env" "\<lambda>k. k < KeyMax" ValueNull tree_fails "tree_put env" "tree_get env" for env
proof
  fix s M and k :: KeyType and v old :: ValueType
  assume rep: "rep env s M" and k: "k < KeyMax"
  show "case tree_put env k v s of Inl e \<Rightarrow> e \<in> tree_fails | Inr s' \<Rightarrow> rep env s' (M(k \<mapsto> v))"
    using rep_write [OF rep k order_refl, of v] by (auto simp: tree_put_def split_error_def)
  show "case tree_get env k old s of Inl e \<Rightarrow> e \<in> tree_fails
      | Inr (w, s') \<Rightarrow> rep env s' M \<and> (case M k of Some x \<Rightarrow> w = x | None \<Rightarrow> w = old \<or> w = ValueNull)"
    using rep_read [OF rep k order_refl, of old] by (auto simp: tree_get_def)
qed

text \<open>A tree whose keys fit into one leaf does not fail.\<close>

definition rep_page :: "dm_env \<Rightarrow> KeyType set \<Rightarrow> dm_tree \<Rightarrow> (KeyType \<rightharpoonup> ValueType) \<Rightarrow> bool" where
  "rep_page env K s M \<longleftrightarrow> rep env s M \<and> page_leaves s \<and> dom M \<subseteq> K"

interpretation dmtree_page: kv_index "rep_page env K" "\<lambda>k. k < KeyMax \<and> k \<in> K \<and> finite K \<and> card K \<le> LeafNodeCapacity"
    ValueNull "{}" "tree_put env" "tree_get env" for env K
proof
  fix s M and k :: KeyType and v old :: ValueType
  assume rep: "rep_page env K s M" and k: "k < KeyMax \<and> k \<in> K \<and> finite K \<and> card K \<le> LeafNodeCapacity"
  have r: "rep env s M" "page_leaves s" "dom M \<subseteq> K" using rep by (simp_all add: rep_page_def)
  have "\<not> must_split s M k lt" for lt using page_leaves_no_split r(2,3) k by blast
  then obtain s' where "dm_write (enough s) env k v s = Inr s'" "rep env s' (M(k \<mapsto> v))" "leaf_caps s' = leaf_caps s"
    using rep_write [OF r(1) conjunct1 [OF k] order_refl, of v] by blast
  then show "case tree_put env k v s of Inl e \<Rightarrow> e \<in> {} | Inr s' \<Rightarrow> rep_page env K s' (M(k \<mapsto> v))"
    using r k by (simp add: tree_put_def rep_page_def page_leaves_def)
  show "case tree_get env k old s of Inl e \<Rightarrow> e \<in> {}
      | Inr (w, s') \<Rightarrow> rep_page env K s' M \<and> (case M k of Some x \<Rightarrow> w = x | None \<Rightarrow> w = old \<or> w = ValueNull)"
    using rep_read [OF r(1) conjunct1 [OF k] order_refl, of old] r page_leaves_small [OF r(2)]
    by (auto simp: tree_get_def rep_page_def page_leaves_def)
qed

lemma new_tree_rep:
  assumes b: "blank s" and conf: "conf_ok (en_conf env)" and size: "dsm_size < 2 ^ 48"
    and dirs: "\<forall>n \<le> MemoryNumber (en_conf env). new_Directory dsm_size 0 (of_nat n) = Inr (dirs n 0)"
    and da: "tr_alloc s = new_DMAlloc (en_conf env) mn cn dirs" and stack: "length (en_stack env) = 128"
  shows "new_DMTree env buf u s = Inl no_chunk \<or>
     (\<exists>s'. new_DMTree env buf u s = Inr s' \<and> rep env s' Map.empty \<and> page_leaves s')"
proof -
  obtain c where c: "new_DMCache buf = Inr c" "cache_inv c" "dc_skiplist c = []" using new_DMCache_inv by blast
  let ?s = "s\<lparr>tr_cache := c, tr_locks := \<lambda>i. case u i of (r, w, b) \<Rightarrow> new_LocalLockNode r w b\<rparr>"
  have eq: "new_DMTree env buf u s = init_root_node env ?s" using c(1) by (simp add: new_DMTree_def)
  have "blank ?s" using b by (simp add: blank_def)
  moreover have "addrs_inv (en_conf env) {} (tr_alloc ?s)" using addrs_new [OF conf size, of dirs mn cn] dirs da by simp
  ultimately show ?thesis
    unfolding eq using c(2,3) stack new_locks_idle by (intro init_root_node_ok) simp_all
qed

text \<open>A blank server, with room for one chunk of nodes and one of fingerprint tables.\<close>

definition example_env :: dm_env where
  "example_env = \<lparr>en_city = (\<lambda>bs. of_nat (sum_list (map unat bs))), en_city64 = (\<lambda>bs. of_nat (sum_list (map unat bs))),
     en_conf = example_conf, en_addr = Gaddr_Null, en_pad = [0, 0], en_stack = replicate 128 0, use_cache_mark = True\<rparr>"

definition example_server :: dm_tree where
  "example_server = \<lparr>tr_inner = Map.empty, tr_leaf = Map.empty, tr_fp = Map.empty, tr_root = Gaddr_Null, tr_glock = 0,
     tr_alloc = new_DMAlloc example_conf 0 1 example_dirs, tr_local_root = Gaddr_Null, tr_path = [], tr_node = inner_zero,
     tr_cache = \<lparr>dc_skiplist = [], dc_buf = (\<lambda>_. inner_zero), dc_all_node_num = 0, dc_skipList_count = 0,
       dc_free_node_count = 0, dc_cache_pool = [], dc_fifo_evict_pool = []\<rparr>,
     tr_locks = (\<lambda>_. new_LocalLockNode False 0 0), tr_local_fp = (\<lambda>_. []), tr_rbuf = new_RdmaBuffer 0\<rparr>"

abbreviation example_tree :: "dm_tree result" where
  "example_tree \<equiv> new_DMTree example_env (\<lambda>_. inner_zero) (\<lambda>_. (False, 0, 0)) example_server"

lemma example_bitmap: "(replicate 2 False)[0 := True] = [True, False]"
  by (simp add: numeral_2_eq_2)

lemma example_buffer: "\<exists>b. new_RdmaBuffer 0 = new_RdmaBuffer b"
  by blast

lemma example_ok:
  "blank example_server" "conf_ok (en_conf example_env)" "64 * MB < 2 ^ 48"
  "\<forall>n \<le> MemoryNumber (en_conf example_env). new_Directory (64 * MB) 0 (of_nat n) = Inr (example_dirs n 0)"
  "tr_alloc example_server = new_DMAlloc (en_conf example_env) 0 1 example_dirs" "length (en_stack example_env) = 128"
  by (simp_all add: blank_def example_server_def example_env_def conf_ok_def example_conf_def dm_sizes
      new_Directory_def new_GlobalAllocator_def example_dirs_def Let_def example_bitmap example_buffer)

lemma example_allocs:
  obtains ra d1 la d2 fa d3 where "memory_alloc example_conf InnerNodeSize (tr_alloc example_server) = Inr (ra, d1)"
    and "memory_alloc example_conf (cur_node_size LeafNodeCapacity) d1 = Inr (la, d2)"
    and "compute_alloc example_conf (fp_get_size LeafNodeCapacity) d2 = Inr (fa, d3)"
proof -
  let ?run = "run_allocs example_conf [MemReq InnerNodeSize, MemReq (cur_node_size LeafNodeCapacity),
    CompReq (fp_get_size LeafNodeCapacity)] (tr_alloc example_server)"
  have "\<not> isl ?run"
    by (simp add: example_server_def new_DMAlloc_def example_conf_def memory_alloc_def compute_alloc_def compute_step_def
        la_malloc_def new_LocalAllocator_def rpc_malloc_def process_message_def alloc_chunck_def
        example_dirs_def set_chunck_def Let_def dm_sizes)
  then obtain b where "?run = Inr b" by (metis isl_def old.sum.exhaust)
  then show thesis using that by (auto simp: res_bind_eq_Inr)
qed

lemma rep_locks: "rep env s M \<Longrightarrow> \<forall>i. ll_idle (t i) \<Longrightarrow> rep env (s\<lparr>tr_locks := t\<rparr>) M"
  by (simp add: rep_def locks_frame contents_locks)

lemma rep_again:
  assumes rep: "rep env s M" and c: "new_DMCache buf = Inr c" "cache_inv c" "dc_skiplist c = []"
  shows "new_DMTree env buf u s = Inl no_chunk \<or> (\<exists>s'. new_DMTree env buf u s = Inr s' \<and> rep env s' M)"
proof -
  define s1 where "s1 = s\<lparr>tr_cache := c, tr_locks := \<lambda>i. case u i of (r, w, b) \<Rightarrow> new_LocalLockNode r w b\<rparr>"
  have eq: "new_DMTree env buf u s = init_root_node env s1" using c(1) by (simp add: new_DMTree_def s1_def)
  have eq1: "s1 = (s\<lparr>tr_cache := c\<rparr>)\<lparr>tr_locks := tr_locks s1\<rparr>" by (simp add: s1_def)
  have "ll_idle (tr_locks s1 i)" for i using new_locks_idle by (simp add: s1_def)
  then have rep1: "rep env s1 M"
    using rep_locks [OF rep_cache [OF rep c(2,3)], of "tr_locks s1"] eq1 by simp
  show ?thesis
  proof (cases "tree_alloc env InnerNodeSize s1")
    case (Inl e)
    then have "e = no_chunk" by (auto simp: tree_alloc_def res_bind_eq_Inl dest: memory_alloc_error)
    then show ?thesis using Inl unfolding eq by (simp add: init_root_node_def)
  next
    case (Inr b)
    then obtain a s2 where s2: "tree_alloc env InnerNodeSize s1 = Inr (a, s2)" by (cases b) auto
    have "rep env s2 M \<and> tr_root s2 = tr_root s1" by (rule rep_alloc [OF rep1 s2]) (simp_all add: dm_sizes)
    then show ?thesis using s2 rep_root [OF rep1] unfolding eq by (simp add: init_root_node_def)
  qed
qed

lemma example_new:
  obtains s where "example_tree = Inr s" and "rep example_env s Map.empty" and "page_leaves s"
proof -
  obtain c where c: "new_DMCache (\<lambda>_. inner_zero) = Inr c" "cache_inv c" using new_DMCache_inv by blast
  define s where "s = example_server\<lparr>tr_cache := c, tr_locks := \<lambda>i. new_LocalLockNode False 0 0\<rparr>"
  have eq: "example_tree = init_root_node example_env s" using c(1) by (simp add: new_DMTree_def s_def)
  have "blank s" using example_ok(1) by (simp add: blank_def s_def)
  have cf: "en_conf example_env = example_conf" by (simp add: example_env_def)
  obtain ra d1 la d2 fa d3 where a: "memory_alloc example_conf InnerNodeSize (tr_alloc example_server) = Inr (ra, d1)"
    "memory_alloc example_conf (cur_node_size LeafNodeCapacity) d1 = Inr (la, d2)"
    "compute_alloc example_conf (fp_get_size LeafNodeCapacity) d2 = Inr (fa, d3)"
    by (rule example_allocs)
  let ?r = "(root_record la fa)\<lparr>rc_addr := ra\<rparr>" and ?n = "root_inner example_env (root_record la fa)"
  have init: "init_root_node example_env s = cache_insert example_env ?r ?n (root_store example_env ra la fa d3 s)"
    by (rule init_root_node_eq [OF \<open>blank s\<close>, where ?d1.0 = d1 and ?d2.0 = d2])
      (use a in \<open>simp_all add: tree_alloc_def cf s_def\<close>)
  have "ih_min_key (in_hdr ?n) = rc_key ?r"
    by (simp add: root_inner_def root_record_def new_Record_def set_hdr_def new_InnerHeader_def)
  then obtain b c' where "insert_cache ?r ?n c = Inr (b, c')" using insert_cache_correct [OF c(2)] by blast
  then have "example_tree \<noteq> Inl no_chunk" unfolding eq init by (simp add: cache_insert_def root_store_def s_def)
  then show thesis using new_tree_rep [OF example_ok, of "\<lambda>_. inner_zero" "\<lambda>_. (False, 0, 0)"] that by blast
qed

section \<open>The tree is a map\<close>

text \<open>
  C1: after the constructor on blank servers, every history of writes and reads (with keys below
  the greatest one) behaves like a map: each read returns the value last written to its key, or for
  a key never written the old content of the value or the null value, and in the end the tree
  represents the map after all writes. The only errors are an exhausted allocator, an overflow of a
  leaf's version, an access outside of the stack buffer of a read, and an overlap of the RDMA
  buffers while a leaf is split. A history with at most 32 different keys has no error at all once
  the tree is there.
\<close>

theorem dmtree_history:
  assumes b: "blank s" and conf: "conf_ok (en_conf env)" and size: "dsm_size < 2 ^ 48"
    and dirs: "\<forall>n \<le> MemoryNumber (en_conf env). new_Directory dsm_size 0 (of_nat n) = Inr (dirs n 0)"
    and da: "tr_alloc s = new_DMAlloc (en_conf env) mn cn dirs" and stack: "length (en_stack env) = 128"
    and keys: "\<forall>p \<in> set ops. kv_key p < KeyMax"
  shows "case res_bind (new_DMTree env buf u s) (kv_run (tree_put env) (tree_get env) ops) of
      Inl e \<Rightarrow> e \<in> {no_chunk, IntOverflow, OutOfBounds, BufferOverlap} \<and>
        (card (kv_key ` set ops) \<le> 32 \<longrightarrow> new_DMTree env buf u s = Inl no_chunk)
    | Inr (vs, s') \<Rightarrow> kv_answers ValueNull ops Map.empty vs \<and> rep env s' (kv_final ops Map.empty)"
proof -
  consider "new_DMTree env buf u s = Inl no_chunk"
    | s1 where "new_DMTree env buf u s = Inr s1" "rep env s1 Map.empty" "page_leaves s1"
    using new_tree_rep [OF b conf size dirs da stack] by blast
  then show ?thesis
  proof cases
    case 2
    let ?K = "kv_key ` set ops"
    have "\<not> isl (kv_run (tree_put env) (tree_get env) ops s1)" if "card ?K \<le> 32"
    proof -
      have "rep_page env ?K s1 Map.empty" using 2(2,3) by (simp add: rep_page_def)
      moreover have "\<forall>p \<in> set ops. kv_key p < KeyMax \<and> kv_key p \<in> ?K \<and> finite ?K \<and> card ?K \<le> LeafNodeCapacity"
        using keys that by (simp add: LeafNodeCapacity_def)
      ultimately show ?thesis
        using dmtree_page.run_law [of env ?K s1 Map.empty ops] by (cases "kv_run (tree_put env) (tree_get env) ops s1") auto
    qed
    with dmtree.run_law [OF 2(2) keys] show ?thesis
      using 2(1) by (cases "kv_run (tree_put env) (tree_get env) ops s1") auto
  qed simp
qed

theorem dmtree_history_witness:
  "\<exists>s s'. example_tree = Inr s \<and>
     kv_run (tree_put example_env) (tree_get example_env) [Put KeyNull 7, Get KeyNull 0] s = Inr ([7], s') \<and>
     rep example_env s' [KeyNull \<mapsto> 7]"
proof -
  let ?ops = "[Put KeyNull 7, Get KeyNull 0]"
  obtain s where s: "example_tree = Inr s" by (rule example_new)
  have keys: "\<forall>p \<in> set ?ops. kv_key p < KeyMax" "card (kv_key ` set ?ops) \<le> 32" by (simp_all add: kv_key_def)
  show ?thesis
    using dmtree_history [OF example_ok keys(1), of "\<lambda>_. inner_zero" "\<lambda>_. (False, 0, 0)"] s keys(2)
    by (auto split: sum.splits list.splits)
qed

text \<open>
  C3: on a tree that represents \<open>M\<close>, \<open>read\<close> terminates and yields the value of the key in \<open>M\<close> (the
  old content or the null value where there is none), and the tree still represents \<open>M\<close>. The only
  exception is the access past the stack buffer, which needs a leaf of more than 64 entries. The
  flag that \<open>read\<close> returns is true when the value is null.
\<close>

theorem dm_read_lookup:
  assumes "rep env s M" and "key < KeyMax" and "enough s \<le> F"
  shows "(\<exists>v s'. dm_read F env key old s = Inr (v = ValueNull, v, s') \<and> rep env s' M \<and>
        (case M key of Some w \<Rightarrow> v = w | None \<Rightarrow> v = old \<or> v = ValueNull)) \<or>
     dm_read F env key old s = Inl OutOfBounds \<and> \<not> small_leaves s"
  using rep_read [OF assms, of old] by blast

theorem dm_read_lookup_witness:
  "\<exists>s s' v. example_tree = Inr s \<and> dm_read (enough s) example_env KeyNull 0 s = Inr (v = ValueNull, v, s') \<and>
     (v = 0 \<or> v = ValueNull)"
proof -
  obtain s where s: "example_tree = Inr s" "rep example_env s Map.empty" "page_leaves s" by (rule example_new)
  from dm_read_lookup [OF s(2), of KeyNull "enough s" 0] s(1) page_leaves_small [OF s(3)] show ?thesis by auto
qed

text \<open>
  C2: on a tree that represents \<open>M\<close>, \<open>write\<close> terminates, and the tree then represents \<open>M\<close> with the
  key updated. It can only fail when the key is new and its leaf has to be split, all slots of the
  leaf being used by other keys of \<open>M\<close>, and then only because an allocation finds no free chunk,
  the leaf has the largest version, or the leaf has more than 32 slots and the RDMA buffers for it
  and its sibling overlap.
\<close>

theorem dm_write_update:
  assumes "rep env s M" and "key < KeyMax" and "enough s \<le> F"
  shows "(\<exists>s'. dm_write F env key v s = Inr s' \<and> rep env s' (M(key \<mapsto> v))) \<or>
     (\<exists>lt e. dm_write F env key v s = Inl e \<and> must_split s M key lt \<and> split_error lt e)"
  using rep_write [OF assms, of v] by blast

theorem dm_write_update_witness:
  "\<exists>s s'. example_tree = Inr s \<and> rep example_env s Map.empty \<and>
     dm_write (enough s) example_env KeyNull 7 s = Inr s' \<and> rep example_env s' [KeyNull \<mapsto> 7]"
proof -
  obtain s where s: "example_tree = Inr s" "rep example_env s Map.empty" "page_leaves s" by (rule example_new)
  have "\<not> must_split s Map.empty KeyNull lt" for lt
    using page_leaves_no_split [OF s(3), of Map.empty "{KeyNull}"] by (simp add: LeafNodeCapacity_def)
  with dm_write_update [OF s(2), of KeyNull "enough s" 7] s(1,2) show ?thesis by auto
qed

text \<open>
  C4: building a tree on blank servers gives the empty map, unless they have no free chunk; building
  one where there is a tree, or clearing the client's cache, keeps the map that it represents.
\<close>

theorem new_DMTree_keeps:
  shows "(blank s \<and> conf_ok (en_conf env) \<and> dsm_size < 2 ^ 48 \<and>
       (\<forall>n \<le> MemoryNumber (en_conf env). new_Directory dsm_size 0 (of_nat n) = Inr (dirs n 0)) \<and>
       tr_alloc s = new_DMAlloc (en_conf env) mn cn dirs \<and> length (en_stack env) = 128 \<longrightarrow>
       new_DMTree env buf u s = Inl no_chunk \<or> (\<exists>s'. new_DMTree env buf u s = Inr s' \<and> rep env s' Map.empty)) \<and>
     (rep env s M \<longrightarrow>
       (new_DMTree env buf u s = Inl no_chunk \<or> (\<exists>s'. new_DMTree env buf u s = Inr s' \<and> rep env s' M)) \<and>
       (\<exists>s'. clear_cache buf s = Inr s' \<and> rep env s' M))"
proof (intro conjI impI)
  assume "blank s \<and> conf_ok (en_conf env) \<and> dsm_size < 2 ^ 48 \<and>
       (\<forall>n \<le> MemoryNumber (en_conf env). new_Directory dsm_size 0 (of_nat n) = Inr (dirs n 0)) \<and>
       tr_alloc s = new_DMAlloc (en_conf env) mn cn dirs \<and> length (en_stack env) = 128"
  then show "new_DMTree env buf u s = Inl no_chunk \<or> (\<exists>s'. new_DMTree env buf u s = Inr s' \<and> rep env s' Map.empty)"
    using new_tree_rep [of s env dsm_size dirs mn cn] by blast
next
  assume rep: "rep env s M"
  obtain c where c: "new_DMCache buf = Inr c" "cache_inv c" "dc_skiplist c = []" using new_DMCache_inv by blast
  show "\<exists>s'. clear_cache buf s = Inr s' \<and> rep env s' M"
    using rep_cache [OF rep c(2,3)] c(1) by (simp add: clear_cache_def)
  show "new_DMTree env buf u s = Inl no_chunk \<or> (\<exists>s'. new_DMTree env buf u s = Inr s' \<and> rep env s' M)"
    using rep_again [OF rep c] .
qed

theorem new_DMTree_keeps_witness:
  "\<exists>s s'. example_tree = Inr s \<and> rep example_env s Map.empty \<and>
     clear_cache (\<lambda>_. inner_zero) s = Inr s' \<and> rep example_env s' Map.empty"
proof -
  obtain s where s: "example_tree = Inr s" by (rule example_new)
  have "rep example_env s Map.empty"
    using new_DMTree_keeps [of example_server example_env "64 * MB" example_dirs 0 1 "\<lambda>_. inner_zero" "\<lambda>_. (False, 0, 0)"]
      example_ok s by auto
  then show ?thesis using new_DMTree_keeps [of s example_env 0 example_dirs 0 1 "\<lambda>_. inner_zero"] s by blast
qed

end
