(* ===== verification/Coding.thy ===== *)
theory Coding
  imports DM_Prelude
begin

unbundle bit_operations_syntax

text \<open>
  Model of \<open>dLSM/util/coding.h\<close> and \<open>coding.cc\<close>: the number and string encodings of the LSM tree's
  log, blocks and messages. A \<open>Slice\<close> and a \<open>std::string\<close> are the list of their bytes. A function
  that fills a buffer returns the bytes it writes; a function that parses returns the value and
  the rest of the input, or \<open>None\<close> where the code returns false or a null pointer.
\<close>

section \<open>Fixed-length numbers\<close>

definition EncodeFixed16 :: "u16 \<Rightarrow> u8 list" where "EncodeFixed16 v = le_bytes 2 v"
definition EncodeFixed32 :: "u32 \<Rightarrow> u8 list" where "EncodeFixed32 v = le_bytes 4 v"
definition EncodeFixed64 :: "u64 \<Rightarrow> u8 list" where "EncodeFixed64 v = le_bytes 8 v"

definition DecodeFixed16 :: "u8 list \<Rightarrow> u16" where "DecodeFixed16 p = le_word (take 2 p)"
definition DecodeFixed32 :: "u8 list \<Rightarrow> u32" where "DecodeFixed32 p = le_word (take 4 p)"
definition DecodeFixed64 :: "u8 list \<Rightarrow> u64" where "DecodeFixed64 p = le_word (take 8 p)"

definition PutFixed16 :: "u8 list \<Rightarrow> u16 \<Rightarrow> u8 list" where "PutFixed16 dst v = dst @ EncodeFixed16 v"
definition PutFixed32 :: "u8 list \<Rightarrow> u32 \<Rightarrow> u8 list" where "PutFixed32 dst v = dst @ EncodeFixed32 v"
definition PutFixed64 :: "u8 list \<Rightarrow> u64 \<Rightarrow> u8 list" where "PutFixed64 dst v = dst @ EncodeFixed64 v"

definition GetFixed16 :: "u8 list \<Rightarrow> (u16 \<times> u8 list) option" where
  "GetFixed16 input = (if length input < 2 then None else Some (DecodeFixed16 input, drop 2 input))"

definition GetFixed32 :: "u8 list \<Rightarrow> (u32 \<times> u8 list) option" where
  "GetFixed32 input = (if length input < 4 then None else Some (DecodeFixed32 input, drop 4 input))"

definition GetFixed64 :: "u8 list \<Rightarrow> (u64 \<times> u8 list) option" where
  "GetFixed64 input = (if length input < 8 then None else Some (DecodeFixed64 input, drop 8 input))"

section \<open>Numbers of variable length\<close>

text \<open>The bytes hold seven bits each, least significant first; the top bit says that more follow.\<close>

definition EncodeVarint32 :: "u32 \<Rightarrow> u8 list" where
  "EncodeVarint32 v =
     (let B = 128 in
      if v < 2 ^ 7 then [ucast v]
      else if v < 2 ^ 14 then [ucast (v OR B), ucast (drop_bit 7 v)]
      else if v < 2 ^ 21 then [ucast (v OR B), ucast (drop_bit 7 v OR B), ucast (drop_bit 14 v)]
      else if v < 2 ^ 28 then
        [ucast (v OR B), ucast (drop_bit 7 v OR B), ucast (drop_bit 14 v OR B), ucast (drop_bit 21 v)]
      else
        [ucast (v OR B), ucast (drop_bit 7 v OR B), ucast (drop_bit 14 v OR B), ucast (drop_bit 21 v OR B),
         ucast (drop_bit 28 v)])"

lemma unat_drop_bit7: "unat (drop_bit 7 (v :: u64)) = unat v div 128"
  by (simp add: drop_bit_eq_div unat_div)

lemma drop_bit7_less:
  fixes v :: u64
  assumes "128 \<le> v"
  shows "unat (drop_bit 7 v) < unat v"
proof -
  have "128 \<le> unat v" using assms by (simp add: word_le_nat_alt)
  then show ?thesis by (simp add: unat_drop_bit7)
qed

function EncodeVarint64 :: "u64 \<Rightarrow> u8 list" where
  "EncodeVarint64 v = (if 128 \<le> v then ucast ((v AND 127) OR 128) # EncodeVarint64 (drop_bit 7 v) else [ucast v])"
  by auto
termination EncodeVarint64
  by (relation "measure unat") (simp_all add: drop_bit7_less)

function VarintLength :: "u64 \<Rightarrow> nat" where
  "VarintLength v = (if 128 \<le> v then Suc (VarintLength (drop_bit 7 v)) else 1)"
  by auto
termination VarintLength
  by (relation "measure unat") (simp_all add: drop_bit7_less)

declare EncodeVarint64.simps [simp del] VarintLength.simps [simp del]

fun GetVarint32PtrFallback :: "nat \<Rightarrow> u32 \<Rightarrow> u8 list \<Rightarrow> (u32 \<times> u8 list) option" where
  "GetVarint32PtrFallback shift res [] = None"
| "GetVarint32PtrFallback shift res (b # p) =
     (if shift \<le> 28
      then let byte = ucast b :: u32 in
           if byte AND 128 \<noteq> 0 then GetVarint32PtrFallback (shift + 7) (res OR push_bit shift (byte AND 127)) p
           else Some (res OR push_bit shift byte, p)
      else None)"

definition GetVarint32Ptr :: "u8 list \<Rightarrow> (u32 \<times> u8 list) option" where
  "GetVarint32Ptr p =
     (case p of
        b # q \<Rightarrow> if (ucast b :: u32) AND 128 = 0 then Some (ucast b, q) else GetVarint32PtrFallback 0 0 p
      | [] \<Rightarrow> GetVarint32PtrFallback 0 0 p)"

fun GetVarint64Ptr_loop :: "nat \<Rightarrow> u64 \<Rightarrow> u8 list \<Rightarrow> (u64 \<times> u8 list) option" where
  "GetVarint64Ptr_loop shift res [] = None"
| "GetVarint64Ptr_loop shift res (b # p) =
     (if shift \<le> 63
      then let byte = ucast b :: u64 in
           if byte AND 128 \<noteq> 0 then GetVarint64Ptr_loop (shift + 7) (res OR push_bit shift (byte AND 127)) p
           else Some (res OR push_bit shift byte, p)
      else None)"

definition GetVarint64Ptr :: "u8 list \<Rightarrow> (u64 \<times> u8 list) option" where
  "GetVarint64Ptr p = GetVarint64Ptr_loop 0 0 p"

definition PutVarint32 :: "u8 list \<Rightarrow> u32 \<Rightarrow> u8 list" where "PutVarint32 dst v = dst @ EncodeVarint32 v"
definition PutVarint64 :: "u8 list \<Rightarrow> u64 \<Rightarrow> u8 list" where "PutVarint64 dst v = dst @ EncodeVarint64 v"

definition GetVarint32 :: "u8 list \<Rightarrow> (u32 \<times> u8 list) option" where "GetVarint32 input = GetVarint32Ptr input"
definition GetVarint64 :: "u8 list \<Rightarrow> (u64 \<times> u8 list) option" where "GetVarint64 input = GetVarint64Ptr input"

definition PutVarint32Varint32 :: "u8 list \<Rightarrow> u32 \<Rightarrow> u32 \<Rightarrow> u8 list" where
  "PutVarint32Varint32 dst v1 v2 = dst @ EncodeVarint32 v1 @ EncodeVarint32 v2"

definition PutVarint32Varint32Varint32 :: "u8 list \<Rightarrow> u32 \<Rightarrow> u32 \<Rightarrow> u32 \<Rightarrow> u8 list" where
  "PutVarint32Varint32Varint32 dst v1 v2 v3 = dst @ EncodeVarint32 v1 @ EncodeVarint32 v2 @ EncodeVarint32 v3"

definition PutVarint64Varint64 :: "u8 list \<Rightarrow> u64 \<Rightarrow> u64 \<Rightarrow> u8 list" where
  "PutVarint64Varint64 dst v1 v2 = dst @ EncodeVarint64 v1 @ EncodeVarint64 v2"

definition PutVarint32Varint64 :: "u8 list \<Rightarrow> u32 \<Rightarrow> u64 \<Rightarrow> u8 list" where
  "PutVarint32Varint64 dst v1 v2 = dst @ EncodeVarint32 v1 @ EncodeVarint64 v2"

definition PutVarint32Varint32Varint64 :: "u8 list \<Rightarrow> u32 \<Rightarrow> u32 \<Rightarrow> u64 \<Rightarrow> u8 list" where
  "PutVarint32Varint32Varint64 dst v1 v2 v3 = dst @ EncodeVarint32 v1 @ EncodeVarint32 v2 @ EncodeVarint64 v3"

text \<open>Signed numbers; an arithmetic shift of a negative number fills with ones.\<close>

definition i64ToZigzag :: "u64 \<Rightarrow> u64" where
  "i64ToZigzag l = push_bit 1 l XOR signed_drop_bit 63 l"

definition zigzagToI64 :: "u64 \<Rightarrow> u64" where
  "zigzagToI64 n = drop_bit 1 n XOR - (n AND 1)"

definition PutVarsignedint64 :: "u8 list \<Rightarrow> u64 \<Rightarrow> u8 list" where
  "PutVarsignedint64 dst v = dst @ EncodeVarint64 (i64ToZigzag v)"

definition GetVarsignedint64Ptr :: "u8 list \<Rightarrow> (u64 \<times> u8 list) option" where
  "GetVarsignedint64Ptr p = map_option (\<lambda>(u, q). (zigzagToI64 u, q)) (GetVarint64Ptr p)"

definition GetVarsignedint64 :: "u8 list \<Rightarrow> (u64 \<times> u8 list) option" where
  "GetVarsignedint64 input = GetVarsignedint64Ptr input"

section \<open>Strings\<close>

text \<open>The length is cut to 32 bits.\<close>

definition PutLengthPrefixedSlice :: "u8 list \<Rightarrow> u8 list \<Rightarrow> u8 list" where
  "PutLengthPrefixedSlice dst s = PutVarint32 dst (of_nat (length s)) @ s"

definition PutLengthPrefixedSliceParts :: "u8 list \<Rightarrow> nat \<Rightarrow> u8 list list \<Rightarrow> u8 list" where
  "PutLengthPrefixedSliceParts dst total_bytes ps =
     PutVarint32 dst (of_nat (total_bytes + sum_list (map length ps))) @ concat ps"

definition PutLengthPrefixedSlicePartsWithPadding :: "u8 list \<Rightarrow> u8 list list \<Rightarrow> nat \<Rightarrow> u8 list" where
  "PutLengthPrefixedSlicePartsWithPadding dst ps pad_sz = PutLengthPrefixedSliceParts dst pad_sz ps @ replicate pad_sz 0"

definition GetLengthPrefixedSlice :: "u8 list \<Rightarrow> (u8 list \<times> u8 list) option" where
  "GetLengthPrefixedSlice input =
     (case GetVarint32 input of
        None \<Rightarrow> None
      | Some (len, input') \<Rightarrow>
          if unat len \<le> length input' then Some (take (unat len) input', drop (unat len) input') else None)"

definition GetSliceUntil :: "u8 list \<Rightarrow> u8 \<Rightarrow> u8 list \<times> u8 list" where
  "GetSliceUntil s delimiter =
     (let len = length (takeWhile (\<lambda>b. b \<noteq> delimiter) s)
      in (take len s, drop (len + (if len < length s then 1 else 0)) s))"

section \<open>Round trips\<close>

lemma DecodeFixed_Encode [simp]:
  "DecodeFixed16 (EncodeFixed16 a @ r) = a" "DecodeFixed32 (EncodeFixed32 b @ r) = b" "DecodeFixed64 (EncodeFixed64 c @ r) = c"
  by (simp_all add: DecodeFixed16_def EncodeFixed16_def DecodeFixed32_def EncodeFixed32_def DecodeFixed64_def
      EncodeFixed64_def le_word_le_bytes_id)

lemma length_EncodeFixed [simp]:
  "length (EncodeFixed16 a) = 2" "length (EncodeFixed32 b) = 4" "length (EncodeFixed64 c) = 8"
  by (simp_all add: EncodeFixed16_def EncodeFixed32_def EncodeFixed64_def)

lemma GetFixed_Encode [simp]:
  "GetFixed16 (EncodeFixed16 a @ r) = Some (a, r)" "GetFixed32 (EncodeFixed32 b @ r) = Some (b, r)"
  "GetFixed64 (EncodeFixed64 c @ r) = Some (c, r)"
  by (simp_all add: GetFixed16_def GetFixed32_def GetFixed64_def)

lemma bit_127: "bit (127 :: int) n \<longleftrightarrow> n < 7"
proof -
  have "(127 :: int) = mask 7" by (simp add: mask_eq_exp_minus_1)
  then show ?thesis by (simp only: bit_mask_iff) simp
qed

lemma bit_128: "bit (128 :: int) n \<longleftrightarrow> n = 7"
proof -
  have "(128 :: int) = 2 ^ 7" by simp
  then show ?thesis by (simp only: bit_exp_iff) auto
qed

lemma bit_255: "bit (255 :: int) n \<longleftrightarrow> n < 8"
proof -
  have "(255 :: int) = mask 8" by (simp add: mask_eq_exp_minus_1)
  then show ?thesis by (simp only: bit_mask_iff) simp
qed

lemmas bit_bytes = bit_simps bit_127 bit_128


lemma varint_step:
  fixes v :: "'a::len word"
  shows "(res OR push_bit s (v AND 127)) OR push_bit (s + 7) (drop_bit 7 v) = res OR push_bit s v"
proof (rule bit_word_eqI)
  fix n assume "n < LENGTH('a)"
  have "7 + (n - (s + 7)) = n - s" if "s + 7 \<le> n" using that by simp
  then show "bit ((res OR push_bit s (v AND 127)) OR push_bit (s + 7) (drop_bit 7 v)) n = bit (res OR push_bit s v) n"
    using \<open>n < LENGTH('a)\<close> by (cases "s + 7 \<le> n") (auto simp: bit_bytes)
qed

lemma byte_more: "(ucast (ucast ((v AND 127) OR 128) :: u8) :: 'a::len word) AND 127 = ucast (v AND 127)"
  for v :: "'b::len word"
  by (rule bit_word_eqI) (auto simp: bit_bytes)

lemma byte_more_flag:
  fixes v :: "'b::len word"
  assumes "8 \<le> LENGTH('a)" "8 \<le> LENGTH('b)"
  shows "(ucast (ucast ((v AND 127) OR 128) :: u8) :: 'a::len word) AND 128 \<noteq> 0"
proof -
  have "bit ((ucast (ucast ((v AND 127) OR 128) :: u8) :: 'a word) AND 128) 7" using assms by (simp add: bit_bytes)
  then show ?thesis by auto
qed

lemma last_byte:
  fixes v :: "'a::len word"
  assumes "unat v < 128"
  shows "(ucast (ucast v :: u8) :: 'a word) = v" and "(ucast (ucast v :: u8) :: 'a word) AND 128 = 0"
proof -
  have "unat v < 2 ^ 7" using assms by simp
  then have "unat (take_bit 7 v) = unat v" by (simp add: unat_take_bit)
  then have "take_bit 7 v = v" by (rule word_unat_eq_iff [THEN iffD2])
  then have small: "n < 7" if "bit v n" for n using that by (metis bit_take_bit_iff)
  show eq: "(ucast (ucast v :: u8) :: 'a word) = v" by (rule bit_word_eqI) (auto simp: bit_bytes dest: small)
  show "(ucast (ucast v :: u8) :: 'a word) AND 128 = 0"
    unfolding eq by (rule bit_word_eqI) (auto simp: bit_bytes dest: small)
qed

lemma GetVarint64Ptr_loop_Encode:
  "s \<le> 63 \<Longrightarrow> unat v < 2 ^ (64 - s) \<Longrightarrow>
     GetVarint64Ptr_loop s res (EncodeVarint64 v @ r) = Some (res OR push_bit s v, r)"
proof (induction v arbitrary: s res rule: EncodeVarint64.induct)
  case (1 v)
  show ?case
  proof (cases "128 \<le> v")
    case True
    then have ge: "128 \<le> unat v" by (simp add: word_le_nat_alt)
    have "\<not> 64 - s \<le> 7"
    proof
      assume "64 - s \<le> 7"
      then have "(2::nat) ^ (64 - s) \<le> 2 ^ 7" by (intro power_increasing) simp_all
      then show False using ge "1.prems"(2) by simp
    qed
    then have s: "s + 7 \<le> 63" "64 - s = 7 + (64 - (s + 7))" by simp_all
    have "(2::nat) ^ (64 - s) = 2 ^ 7 * 2 ^ (64 - (s + 7))" by (subst s(2)) (rule power_add)
    then have "unat v < 2 ^ 7 * 2 ^ (64 - (s + 7))" using "1.prems"(2) by argo
    then have "unat (drop_bit 7 v) < 2 ^ (64 - (s + 7))"
      unfolding unat_drop_bit7 by (simp add: less_mult_imp_div_less mult.commute)
    from "1.IH" [OF True s(1) this] show ?thesis
      using True "1.prems"(1) byte_more_flag [where 'a = 64 and v = v] byte_more [where 'a = 64 and v = v]
      by (simp add: EncodeVarint64.simps [of v] Let_def varint_step del: push_bit_and)
  next
    case False
    then have "unat v < 128" by (simp add: word_le_nat_alt)
    from last_byte [OF this] show ?thesis using False "1.prems"(1) by (simp add: EncodeVarint64.simps [of v] Let_def)
  qed
qed

lemma GetVarint64_Encode [simp]: "GetVarint64 (EncodeVarint64 v @ r) = Some (v, r)"
  using GetVarint64Ptr_loop_Encode [of 0 v 0 r] unat_less_pow [of v] by (simp add: GetVarint64_def GetVarint64Ptr_def)

lemma length_EncodeVarint64: "length (EncodeVarint64 v) = VarintLength v"
proof (induction v rule: EncodeVarint64.induct)
  case (1 v)
  then show ?case by (simp add: EncodeVarint64.simps [of v] VarintLength.simps [of v])
qed

lemma VarintLength_bound: "unat v < 2 ^ (7 * n) \<Longrightarrow> 0 < n \<Longrightarrow> VarintLength v \<le> n"
proof (induction n arbitrary: v)
  case (Suc n)
  show ?case
  proof (cases "128 \<le> v")
    case True
    then have "128 \<le> unat v" by (simp add: word_le_nat_alt)
    then have n: "0 < n" using Suc.prems(1) by (cases n) auto
    have "unat v < 2 ^ 7 * 2 ^ (7 * n)" using Suc.prems(1) by (simp add: power_add)
    then have "unat (drop_bit 7 v) < 2 ^ (7 * n)"
      unfolding unat_drop_bit7 by (simp add: less_mult_imp_div_less mult.commute)
    from Suc.IH [OF this n] True show ?thesis by (simp add: VarintLength.simps [of v])
  qed (simp add: VarintLength.simps [of v])
qed simp

lemma unat_ucast_32: "unat (ucast (w :: u32) :: u64) = unat w"
  using unat_less_pow [of w] by (simp add: unsigned_ucast_eq take_bit_eq_mod)

lemma VarintLength_bounds: "VarintLength (v :: u64) \<le> 10" "VarintLength (ucast (w :: u32)) \<le> 5" "0 < VarintLength v"
proof -
  show "VarintLength v \<le> 10" using unat_less_pow [of v] by (intro VarintLength_bound) simp_all
  have "unat (ucast w :: u64) < 2 ^ 32" using unat_less_pow [of w] by (simp add: unat_ucast_32)
  then show "VarintLength (ucast w) \<le> 5" by (intro VarintLength_bound) simp_all
  show "0 < VarintLength v" by (simp add: VarintLength.simps [of v])
qed


text \<open>The unrolled encoder writes the same bytes as the loop.\<close>

lemma byte_32: "ucast (((ucast (v :: u32) :: u64) AND 127) OR 128) = (ucast (v OR 128) :: u8)"
  by (rule bit_word_eqI) (auto simp: bit_bytes)

lemma ucast_drop_32: "drop_bit n (ucast (v :: u32) :: u64) = ucast (drop_bit n v)"
  by (rule bit_word_eqI) (auto simp: bit_bytes dest: bit_imp_le_length)

lemma ge_ucast_32: "128 \<le> (ucast (v :: u32) :: u64) \<longleftrightarrow> 128 \<le> v"
  by (simp add: word_le_nat_alt unat_ucast_32)

lemma ucast_u8_32: "(ucast (ucast (v :: u32) :: u64) :: u8) = ucast v"
  by (rule bit_word_eqI) (auto simp: bit_bytes)

lemma EncodeVarint32_step:
  "EncodeVarint64 (ucast (v :: u32)) =
     (if 128 \<le> v then ucast (v OR 128) # EncodeVarint64 (ucast (drop_bit 7 v)) else [ucast v])"
  by (subst EncodeVarint64.simps) (simp only: ge_ucast_32 byte_32 ucast_drop_32 ucast_u8_32)

lemma ge_drop: "128 \<le> drop_bit n (v :: u32) \<longleftrightarrow> 2 ^ (n + 7) \<le> unat v"
proof -
  have "unat (drop_bit n v) = unat v div 2 ^ n" by (simp only: unat_drop_bit_eq) (simp add: drop_bit_eq_div)
  then show ?thesis
    by (simp add: word_le_nat_alt less_eq_div_iff_mult_less_eq power_add mult.commute)
qed


lemma EncodeVarint32_eq: "EncodeVarint32 v = EncodeVarint64 (ucast v)"
proof -
  have drops: "drop_bit 7 (drop_bit 7 v) = drop_bit 14 v" "drop_bit 7 (drop_bit 14 v) = drop_bit 21 v"
    "drop_bit 7 (drop_bit 21 v) = drop_bit 28 v" by (simp_all only: drop_bit_drop_bit) simp_all
  have "128 \<le> drop_bit 28 v \<longleftrightarrow> False" using unat_less_pow [of v] unfolding ge_drop by simp
  then have "EncodeVarint64 (ucast (drop_bit 28 v)) = [ucast (drop_bit 28 v)]" by (simp add: EncodeVarint32_step)
  then show ?thesis
    unfolding EncodeVarint32_def Let_def
    by (simp only: EncodeVarint32_step [of v] EncodeVarint32_step [of "drop_bit 7 v"]
        EncodeVarint32_step [of "drop_bit 14 v"] EncodeVarint32_step [of "drop_bit 21 v"] drops ge_drop)
      (auto simp: word_le_nat_alt word_less_nat_alt)
qed

lemma byte_more_32:
  "(ucast (ucast ((v :: u32) OR 128) :: u8) :: u32) AND 127 = v AND 127"
  "(ucast (ucast ((v :: u32) OR 128) :: u8) :: u32) AND 128 \<noteq> 0"
proof -
  show "(ucast (ucast (v OR 128) :: u8) :: u32) AND 127 = v AND 127"
    by (rule bit_word_eqI) (auto simp: bit_bytes)
  have "bit ((ucast (ucast (v OR 128) :: u8) :: u32) AND 128) 7" by (simp add: bit_bytes)
  then show "(ucast (ucast (v OR 128) :: u8) :: u32) AND 128 \<noteq> 0" by auto
qed

lemma GetVarint32PtrFallback_Encode:
  "s \<le> 28 \<Longrightarrow> 7 dvd s \<Longrightarrow> unat (v :: u32) < 2 ^ (32 - s) \<Longrightarrow>
     GetVarint32PtrFallback s res (EncodeVarint64 (ucast v) @ r) = Some (res OR push_bit s v, r)"
proof (induction "unat v" arbitrary: v s res rule: less_induct)
  case less
  show ?case
  proof (cases "128 \<le> v")
    case True
    then have ge: "128 \<le> unat v" by (simp add: word_le_nat_alt)
    have "\<not> 32 - s \<le> 7"
    proof
      assume "32 - s \<le> 7"
      then have "(2::nat) ^ (32 - s) \<le> 2 ^ 7" by (intro power_increasing) simp_all
      then show False using ge less.prems(3) by simp
    qed
    then have "s < 25" by simp
    then have s: "s + 7 \<le> 28" "7 dvd s + 7" "32 - s = 7 + (32 - (s + 7))" using less.prems(2) by (presburger, simp_all)
    have d: "unat (drop_bit 7 v) = unat v div 128" by (simp add: drop_bit_eq_div unat_div)
    have "(2::nat) ^ (32 - s) = 2 ^ 7 * 2 ^ (32 - (s + 7))" by (subst s(3)) (rule power_add)
    then have "unat v < 2 ^ 7 * 2 ^ (32 - (s + 7))" using less.prems(3) by argo
    then have dv: "unat (drop_bit 7 v) < 2 ^ (32 - (s + 7))"
      unfolding d by (simp add: less_mult_imp_div_less mult.commute)
    have "GetVarint32PtrFallback (s + 7) (res OR push_bit s (v AND 127)) (EncodeVarint64 (ucast (drop_bit 7 v)) @ r) =
        Some ((res OR push_bit s (v AND 127)) OR push_bit (s + 7) (drop_bit 7 v), r)"
      by (rule less.hyps [OF _ s(1,2) dv]) (use d ge in simp)
    then show ?thesis
      using True less.prems(1) by (simp add: EncodeVarint32_step [of v] Let_def varint_step byte_more_32 del: push_bit_and)
  next
    case False
    then have "unat v < 128" by (simp add: word_le_nat_alt)
    from last_byte [OF this] show ?thesis using False less.prems(1) by (simp add: EncodeVarint32_step [of v] Let_def)
  qed
qed

lemma GetVarint32Ptr_eq: "GetVarint32Ptr p = GetVarint32PtrFallback 0 0 p"
  by (cases p) (auto simp: GetVarint32Ptr_def Let_def)

lemma GetVarint32_Encode [simp]: "GetVarint32 (EncodeVarint32 v @ r) = Some (v, r)"
  using GetVarint32PtrFallback_Encode [of 0 v 0 r] unat_less_pow [of v]
  by (simp add: GetVarint32_def GetVarint32Ptr_eq EncodeVarint32_eq)

lemma GetLengthPrefixedSlice_Put [simp]:
  assumes "length s < 2 ^ 32"
  shows "GetLengthPrefixedSlice (EncodeVarint32 (of_nat (length s)) @ s @ r) = Some (s, r)"
proof -
  have "unat (of_nat (length s) :: u32) = length s" using assms by (simp add: unat_of_nat)
  then show ?thesis by (simp add: GetLengthPrefixedSlice_def)
qed

text \<open>A parser takes at least one byte, and a cut-off number is not accepted.\<close>

lemma GetVarint32PtrFallback_suffix:
  "GetVarint32PtrFallback s res p = Some (v, q) \<Longrightarrow> \<exists>b bs. p = (b # bs) @ q"
proof (induction s res p rule: GetVarint32PtrFallback.induct)
  case (2 s res b p)
  show ?case
  proof (cases "(ucast b :: u32) AND 128 = 0")
    case True
    then show ?thesis using "2.prems" by (auto simp: Let_def split: if_splits)
  next
    case False
    then have "\<exists>c cs. p = (c # cs) @ q" using "2.IH" "2.prems" by (auto simp: Let_def split: if_splits)
    then show ?thesis by (metis append_Cons)
  qed
qed simp

lemma GetVarint32_suffix: "GetVarint32 p = Some (v, q) \<Longrightarrow> \<exists>b bs. p = (b # bs) @ q"
  unfolding GetVarint32_def GetVarint32Ptr_eq by (rule GetVarint32PtrFallback_suffix)

lemma GetLengthPrefixedSlice_shorter:
  assumes "GetLengthPrefixedSlice p = Some (s, q)"
  shows "length q < length p"
proof -
  obtain len p' where "GetVarint32 p = Some (len, p')" "q = drop (unat len) p'"
    using assms by (auto simp: GetLengthPrefixedSlice_def split: option.splits prod.splits if_splits)
  moreover from this(1) have "length p' < length p" using GetVarint32_suffix by fastforce
  ultimately show ?thesis by simp
qed

lemma EncodeVarint64_more: "\<forall>b \<in> set (butlast (EncodeVarint64 v)). b AND 128 \<noteq> 0"
proof (induction v rule: EncodeVarint64.induct)
  case (1 v)
  have "EncodeVarint64 w \<noteq> []" for w by (simp add: EncodeVarint64.simps [of w])
  moreover have "(ucast ((v AND 127) OR 128) :: u8) AND 128 \<noteq> 0"
    using byte_more_flag [where 'a = 8 and v = v] by simp
  ultimately show ?case using 1 by (simp add: EncodeVarint64.simps [of v])
qed

lemma and_128:
  assumes "8 \<le> LENGTH('a)"
  shows "(w :: 'a::len word) AND 128 = 0 \<longleftrightarrow> \<not> bit w 7"
proof
  show "w AND 128 = 0" if "\<not> bit w 7" using that by (intro bit_word_eqI) (auto simp: bit_bytes)
  show "\<not> bit w 7" if "w AND 128 = 0" using arg_cong [OF that, of "\<lambda>x. bit x 7"] assms by (simp add: bit_bytes)
qed

lemma byte_flag: "8 \<le> LENGTH('a) \<Longrightarrow> b AND 128 \<noteq> 0 \<Longrightarrow> (ucast (b :: u8) :: 'a::len word) AND 128 \<noteq> 0"
  by (simp add: and_128 bit_unsigned_iff)

lemma GetVarint_cut:
  "\<forall>b \<in> set p. b AND 128 \<noteq> 0 \<Longrightarrow> GetVarint64Ptr_loop s res p = None"
  "\<forall>b \<in> set p. b AND 128 \<noteq> 0 \<Longrightarrow> GetVarint32PtrFallback s res' p = None"
proof -
  show "GetVarint64Ptr_loop s res p = None" if "\<forall>b \<in> set p. b AND 128 \<noteq> 0"
    using that by (induction s res p rule: GetVarint64Ptr_loop.induct) (auto simp: Let_def dest: byte_flag [where 'a = 64, rotated])
  show "GetVarint32PtrFallback s res' p = None" if "\<forall>b \<in> set p. b AND 128 \<noteq> 0"
    using that by (induction s res' p rule: GetVarint32PtrFallback.induct) (auto simp: Let_def dest: byte_flag [where 'a = 32, rotated])
qed

lemma take_cut: "k < length xs \<Longrightarrow> set (take k xs) \<subseteq> set (butlast xs)"
  by (metis Suc_leI butlast_conv_take diff_Suc_1 diff_le_mono set_take_subset_set_take)

lemma bit_zigzag: "m < 64 \<Longrightarrow> bit (i64ToZigzag v) m \<longleftrightarrow> (if m = 0 then bit v 63 else bit v (m - 1) \<noteq> bit v 63)"
  unfolding i64ToZigzag_def
  by (simp only: bit_xor_iff bit_push_bit_iff bit_signed_drop_bit_iff) (auto simp: bit_simps)

lemma zigzag_roundtrip: "zigzagToI64 (i64ToZigzag v) = v"
proof (rule bit_word_eqI)
  fix n assume n: "n < LENGTH(64)"
  have "i64ToZigzag v AND 1 = (if bit v 63 then 1 else 0)"
    by (rule bit_word_eqI) (auto simp: bit_zigzag bit_simps)
  then have "- (i64ToZigzag v AND 1) = (if bit v 63 then - 1 else 0)" by simp
  then show "bit (zigzagToI64 (i64ToZigzag v)) n = bit v n"
    using n bit_zigzag [of "Suc n" v] unfolding zigzagToI64_def
    by (cases "n = 63") (auto simp: bit_xor_iff bit_drop_bit_eq dest: bit_imp_le_length)
qed

lemma length_EncodeVarint32: "length (EncodeVarint32 v) = VarintLength (ucast v)"
  by (simp add: EncodeVarint32_eq length_EncodeVarint64)

lemma GetVarint_truncated:
  "k < length (EncodeVarint32 v) \<Longrightarrow> GetVarint32 (take k (EncodeVarint32 v)) = None"
  "k < length (EncodeVarint64 w) \<Longrightarrow> GetVarint64 (take k (EncodeVarint64 w)) = None"
proof -
  show "GetVarint32 (take k (EncodeVarint32 v)) = None" if "k < length (EncodeVarint32 v)"
    unfolding GetVarint32_def GetVarint32Ptr_eq using take_cut [OF that] EncodeVarint64_more [of "ucast v"]
    by (intro GetVarint_cut) (auto simp: EncodeVarint32_eq)
  show "GetVarint64 (take k (EncodeVarint64 w)) = None" if "k < length (EncodeVarint64 w)"
    unfolding GetVarint64_def GetVarint64Ptr_def using take_cut [OF that] EncodeVarint64_more [of w]
    by (intro GetVarint_cut) auto
qed

text \<open>
  C25: what the encoders append, the decoders read back, whatever follows it: fixed-length numbers,
  unsigned and zigzag-coded signed numbers of variable length, and length-prefixed strings of less
  than \<open>2 ^ 32\<close> bytes. The unrolled 32-bit encoder writes what the 64-bit loop would. A number takes
  \<open>VarintLength\<close> bytes, at most 5 and 10, and no cut-off encoding is accepted.
\<close>

theorem coding_roundtrip:
  "GetFixed16 (drop (length dst) (PutFixed16 dst a) @ r) = Some (a, r) \<and>
   GetFixed32 (drop (length dst) (PutFixed32 dst v) @ r) = Some (v, r) \<and>
   GetFixed64 (drop (length dst) (PutFixed64 dst w) @ r) = Some (w, r) \<and>
   GetVarint32 (drop (length dst) (PutVarint32 dst v) @ r) = Some (v, r) \<and>
   GetVarint64 (drop (length dst) (PutVarint64 dst w) @ r) = Some (w, r) \<and>
   GetVarsignedint64 (drop (length dst) (PutVarsignedint64 dst w) @ r) = Some (w, r) \<and>
   (length s < 2 ^ 32 \<longrightarrow> GetLengthPrefixedSlice (drop (length dst) (PutLengthPrefixedSlice dst s) @ r) = Some (s, r)) \<and>
   EncodeVarint32 v = EncodeVarint64 (ucast v) \<and>
   length (EncodeVarint32 v) = VarintLength (ucast v) \<and> VarintLength (ucast v) \<le> 5 \<and>
   length (EncodeVarint64 w) = VarintLength w \<and> VarintLength w \<le> 10 \<and>
   (k < length (EncodeVarint32 v) \<longrightarrow> GetVarint32 (take k (EncodeVarint32 v)) = None) \<and>
   (k < length (EncodeVarint64 w) \<longrightarrow> GetVarint64 (take k (EncodeVarint64 w)) = None)"
proof -
  have "GetVarsignedint64 (EncodeVarint64 (i64ToZigzag w) @ r) = Some (w, r)"
    using GetVarint64_Encode [of "i64ToZigzag w" r]
    by (simp add: GetVarsignedint64_def GetVarsignedint64Ptr_def GetVarint64_def zigzag_roundtrip)
  moreover have "GetLengthPrefixedSlice (drop (length dst) (PutLengthPrefixedSlice dst s) @ r) = Some (s, r)"
    if "length s < 2 ^ 32"
    using GetLengthPrefixedSlice_Put [OF that] by (simp add: PutLengthPrefixedSlice_def PutVarint32_def)
  moreover note VarintLength_bounds(1) [of w] VarintLength_bounds(2) [of v] GetVarint_truncated EncodeVarint32_eq
    length_EncodeVarint32 [of v] length_EncodeVarint64 [of w] GetVarint32_Encode [of v r]
  ultimately show ?thesis
    by (intro conjI impI) (simp_all add: PutFixed16_def PutFixed32_def PutFixed64_def PutVarint32_def PutVarint64_def
        PutVarsignedint64_def)
qed

theorem coding_roundtrip_witness:
  "GetLengthPrefixedSlice (drop (length [9 :: u8]) (PutLengthPrefixedSlice [9] [1, 2, 3]) @ [4]) = Some ([1, 2, 3], [4]) \<and>
   GetVarint32 (take 1 (EncodeVarint32 300)) = None"
proof -
  have "1 < length (EncodeVarint32 300)" "length [1 :: u8, 2, 3] < 2 ^ 32" by (simp_all add: EncodeVarint32_def)
  with coding_roundtrip [of "[9]" 0 "[4]" 300 0 "[1, 2, 3]" 1] show ?thesis by blast
qed

end
