(* ===== verification/RecordLog.thy ===== *)
theory RecordLog
  imports Crc32c
begin

text \<open>
  The record log of the dLSM baseline: \<open>src/dLSM/db/log_format.h\<close>, the writer
  (\<open>log_writer.cc\<close>), the reader (\<open>log_reader.cc\<close>) and the loop of
  \<open>dumpfile.cc\<close> that prints a log.  A log is a sequence of blocks of 32768 bytes; a
  record is cut into fragments that do not cross a block, each behind a header of seven bytes.
  The reader's loops are partial functions with value None where they do not return, so that
  termination is a theorem.  The files of the environment are lists of bytes together with
  the faults that the following calls meet.
\<close>

unbundle bit_operations_syntax

section \<open>Format\<close>

definition kZeroType :: u8 where "kZeroType = 0"
definition kFullType :: u8 where "kFullType = 1"
definition kFirstType :: u8 where "kFirstType = 2"
definition kMiddleType :: u8 where "kMiddleType = 3"
definition kLastType :: u8 where "kLastType = 4"
definition kMaxRecordType :: u8 where "kMaxRecordType = kLastType"
definition kBlockSize :: nat where "kBlockSize = 32768"
definition kHeaderSize :: nat where "kHeaderSize = 4 + 2 + 1"

definition kEof :: u32 where "kEof = ucast kMaxRecordType + 1"
definition kBadRecord :: u32 where "kBadRecord = ucast kMaxRecordType + 2"

lemmas log_consts = kZeroType_def kFullType_def kFirstType_def kMiddleType_def kLastType_def
  kMaxRecordType_def kBlockSize_def kHeaderSize_def kEof_def kBadRecord_def

section \<open>Writer\<close>

text \<open>
  A file open for writing.  An element \<open>Some n\<close> of the faults makes the next call fail
  after \<open>n\<close> bytes have reached the file; no element, or None, lets it succeed.
\<close>

record WritableFile =
  wf_bytes :: "u8 list"
  wf_faults :: "nat option list"

definition Append :: "WritableFile \<Rightarrow> u8 list \<Rightarrow> bool \<times> WritableFile" where
  "Append f data =
     (case wf_faults f of
        Some n # fs \<Rightarrow> (False, f\<lparr>wf_bytes := wf_bytes f @ take n data, wf_faults := fs\<rparr>)
      | None # fs \<Rightarrow> (True, f\<lparr>wf_bytes := wf_bytes f @ data, wf_faults := fs\<rparr>)
      | [] \<Rightarrow> (True, f\<lparr>wf_bytes := wf_bytes f @ data\<rparr>))"

definition Flush :: "WritableFile \<Rightarrow> bool \<times> WritableFile" where "Flush f = Append f []"

record LogWriter =
  lw_dest :: WritableFile
  lw_block_offset :: nat
  lw_type_crc :: "u32 list"

definition InitTypeCrc :: "nat \<Rightarrow> u32 list" where
  "InitTypeCrc addr = map (\<lambda>i. Value addr [of_nat i]) [0..<Suc (unat kMaxRecordType)]"

definition Writer :: "nat \<Rightarrow> WritableFile \<Rightarrow> LogWriter" where
  "Writer addr dest = \<lparr>lw_dest = dest, lw_block_offset = 0, lw_type_crc = InitTypeCrc addr\<rparr>"

definition Writer_at :: "nat \<Rightarrow> WritableFile \<Rightarrow> u64 \<Rightarrow> LogWriter" where
  "Writer_at addr dest dest_length =
     \<lparr>lw_dest = dest, lw_block_offset = unat dest_length mod kBlockSize, lw_type_crc = InitTypeCrc addr\<rparr>"

definition EmitPhysicalRecord :: "nat \<Rightarrow> u8 \<Rightarrow> u8 list \<Rightarrow> LogWriter \<Rightarrow> (bool \<times> LogWriter) result" where
  "EmitPhysicalRecord addr t p w =
     res_bind (res_assert ''length <= 0xffff'' (length p \<le> 65535)) (\<lambda>_.
     res_bind (res_assert ''block_offset_ + kHeaderSize + length <= kBlockSize''
                 (lw_block_offset w + kHeaderSize + length p \<le> kBlockSize)) (\<lambda>_.
     let crc = Mask (Extend addr (lw_type_crc w ! unat t) p);
         buf = EncodeFixed32 crc @ [of_nat (length p mod 256), of_nat (length p div 256), t];
         (s, d) = Append (lw_dest w) buf;
         (s, d) = (if s then Append d p else (s, d));
         (s, d) = (if s then Flush d else (s, d))
     in Inr (s, w\<lparr>lw_dest := d, lw_block_offset := lw_block_offset w + kHeaderSize + length p\<rparr>)))"

definition switch_block :: "LogWriter \<Rightarrow> LogWriter" where
  "switch_block w =
     (let leftover = kBlockSize - lw_block_offset w
      in if leftover < kHeaderSize
         then w\<lparr>lw_dest := (if 0 < leftover then snd (Append (lw_dest w) (replicate leftover 0)) else lw_dest w),
                lw_block_offset := 0\<rparr>
         else w)"

definition fragment_type :: "bool \<Rightarrow> bool \<Rightarrow> u8" where
  "fragment_type bgn fin =
     (if bgn \<and> fin then kFullType else if bgn then kFirstType else if fin then kLastType else kMiddleType)"

lemma Emit_offset:
  "EmitPhysicalRecord addr t p w = Inr (s, w') \<Longrightarrow>
     lw_block_offset w' = lw_block_offset w + kHeaderSize + length p"
  by (auto simp: EmitPhysicalRecord_def res_bind_eq_Inr Let_def split: prod.splits)

definition norm_off :: "nat \<Rightarrow> nat" where "norm_off i = (if 32768 - i < 7 then 0 else i)"

lemma norm_off_le: "norm_off i \<le> 32761"
  by (auto simp: norm_off_def)

lemma switch_block_offset: "lw_block_offset (switch_block w) = norm_off (lw_block_offset w)"
  by (simp add: switch_block_def norm_off_def log_consts)

function AddRecord_loop :: "nat \<Rightarrow> bool \<Rightarrow> u8 list \<Rightarrow> LogWriter \<Rightarrow> (bool \<times> LogWriter) result" where
  "AddRecord_loop addr bgn ptr w =
     (if kBlockSize < lw_block_offset w then Inl (AssertFail ''leftover >= 0'')
      else let w1 = switch_block w in
      if kBlockSize < lw_block_offset w1 + kHeaderSize
      then Inl (AssertFail ''kBlockSize - block_offset_ - kHeaderSize >= 0'')
      else let avail = kBlockSize - lw_block_offset w1 - kHeaderSize;
               n = (if length ptr < avail then length ptr else avail)
      in case EmitPhysicalRecord addr (fragment_type bgn (length ptr = n)) (take n ptr) w1 of
           Inl e \<Rightarrow> Inl e
         | Inr (s, w2) \<Rightarrow>
             if s \<and> n < length ptr then AddRecord_loop (addr + n) False (drop n ptr) w2 else Inr (s, w2))"
  by pat_completeness auto
termination AddRecord_loop
proof (relation "measure (\<lambda>(a, b, p, w). 2 * length p + (if norm_off (lw_block_offset w) = 32761 then 1 else 0))",
    goal_cases)
  case (2 addr bgn ptr w w1 avail n e s w2)
  then have "lw_block_offset w2 = norm_off (lw_block_offset w) + 7 + n"
    by (auto simp: log_consts switch_block_offset dest!: Emit_offset split: if_splits)
  then show ?case
    using 2 norm_off_le [of "lw_block_offset w"]
    by (auto simp: log_consts switch_block_offset norm_off_def split: if_splits)
qed simp

declare AddRecord_loop.simps [simp del]

definition AddRecord :: "nat \<Rightarrow> u8 list \<Rightarrow> LogWriter \<Rightarrow> (bool \<times> LogWriter) result" where
  "AddRecord addr sl w = AddRecord_loop addr True sl w"

section \<open>Reader\<close>

text \<open>
  A file open for reading: the bytes not read yet, and for each of the following calls
  whether it fails; a read that fails delivers no bytes.  The reporter collects the corruptions it is told of.
\<close>

record SequentialFile =
  sf_bytes :: "u8 list"
  sf_faults :: "bool list"

definition Read :: "nat \<Rightarrow> SequentialFile \<Rightarrow> u8 list option \<times> SequentialFile" where
  "Read n f =
     (if sf_faults f \<noteq> [] \<and> hd (sf_faults f) then (None, f\<lparr>sf_faults := tl (sf_faults f)\<rparr>)
      else (Some (take n (sf_bytes f)), f\<lparr>sf_bytes := drop n (sf_bytes f), sf_faults := tl (sf_faults f)\<rparr>))"

definition Skip :: "nat \<Rightarrow> SequentialFile \<Rightarrow> bool \<times> SequentialFile" where
  "Skip n f =
     (if sf_faults f \<noteq> [] \<and> hd (sf_faults f) then (False, f\<lparr>sf_faults := tl (sf_faults f)\<rparr>)
      else (True, f\<lparr>sf_bytes := drop n (sf_bytes f), sf_faults := tl (sf_faults f)\<rparr>))"

record LogReader =
  lr_file :: SequentialFile
  lr_reporter :: "(u64 \<times> string) list option"
  lr_checksum :: bool
  lr_backing_store :: nat
  lr_buffer :: "u8 list"
  lr_buffer_addr :: nat
  lr_eof :: bool
  lr_last_record_offset :: u64
  lr_end_of_buffer_offset :: u64
  lr_initial_offset :: u64
  lr_resyncing :: bool

definition Reader :: "nat \<Rightarrow> SequentialFile \<Rightarrow> (u64 \<times> string) list option \<Rightarrow> bool \<Rightarrow> u64 \<Rightarrow> LogReader" where
  "Reader addr file reporter checksum initial_offset =
     \<lparr>lr_file = file, lr_reporter = reporter, lr_checksum = checksum, lr_backing_store = addr,
      lr_buffer = [], lr_buffer_addr = addr, lr_eof = False, lr_last_record_offset = 0,
      lr_end_of_buffer_offset = 0, lr_initial_offset = initial_offset, lr_resyncing = (0 < initial_offset)\<rparr>"

definition ReportDrop :: "u64 \<Rightarrow> string \<Rightarrow> LogReader \<Rightarrow> LogReader" where
  "ReportDrop bytes reason r =
     (case lr_reporter r of
        None \<Rightarrow> r
      | Some log \<Rightarrow>
          if lr_initial_offset r \<le> lr_end_of_buffer_offset r - of_nat (length (lr_buffer r)) - bytes
          then r\<lparr>lr_reporter := Some (log @ [(bytes, reason)])\<rparr> else r)"

definition ReportCorruption :: "u64 \<Rightarrow> string \<Rightarrow> LogReader \<Rightarrow> LogReader" where
  "ReportCorruption bytes reason r = ReportDrop bytes (''Corruption: '' @ reason) r"

definition SkipToInitialBlock :: "LogReader \<Rightarrow> bool \<times> LogReader" where
  "SkipToInitialBlock r =
     (let offset_in_block = lr_initial_offset r mod of_nat kBlockSize;
          start = lr_initial_offset r - offset_in_block;
          start = (if of_nat kBlockSize - 6 < offset_in_block then start + of_nat kBlockSize else start);
          r = r\<lparr>lr_end_of_buffer_offset := start\<rparr>
      in if 0 < start
         then case Skip (unat start) (lr_file r) of
                (True, f) \<Rightarrow> (True, r\<lparr>lr_file := f\<rparr>)
              | (False, f) \<Rightarrow> (False, ReportDrop start ''IO error'' (r\<lparr>lr_file := f\<rparr>))
         else (True, r))"

definition clear_buffer :: "LogReader \<Rightarrow> LogReader" where "clear_buffer r = r\<lparr>lr_buffer := []\<rparr>"

text \<open>
  The header is parsed when the buffer holds one; \<open>fragment\<close> is what the caller's slice
  held before and still holds where the code leaves it alone.  A plain char is signed.
\<close>

definition header_length :: "u8 list \<Rightarrow> u32" where
  "header_length header =
     (let a = scast (header ! 4) AND 255; b = scast (header ! 5) AND 255 in a OR push_bit 8 b)"

definition parse_physical :: "u8 list \<Rightarrow> LogReader \<Rightarrow> u32 \<times> u8 list \<times> LogReader" where
  "parse_physical fragment r =
     (let header = lr_buffer r;
          type = scast (header ! 6);
          len = header_length header;
          drop_size = of_nat (length header)
      in if length header < kHeaderSize + unat len
         then (if \<not> lr_eof r
               then (kBadRecord, fragment, ReportCorruption drop_size ''bad record length'' (clear_buffer r))
               else (kEof, fragment, clear_buffer r))
         else if type = ucast kZeroType \<and> len = 0 then (kBadRecord, fragment, clear_buffer r)
         else if lr_checksum r \<and>
                 Value (lr_buffer_addr r + 6) (take (1 + unat len) (drop 6 header)) \<noteq> Unmask (DecodeFixed32 header)
         then (kBadRecord, fragment, ReportCorruption drop_size ''checksum mismatch'' (clear_buffer r))
         else let r = r\<lparr>lr_buffer := drop (kHeaderSize + unat len) header,
                         lr_buffer_addr := lr_buffer_addr r + kHeaderSize + unat len\<rparr>
              in if lr_end_of_buffer_offset r - of_nat (length (lr_buffer r)) - of_nat kHeaderSize - ucast len < lr_initial_offset r
                 then (kBadRecord, [], r)
                 else (type, take (unat len) (drop kHeaderSize header), r))"

text \<open>
  The loop of \<open>ReadPhysicalRecord\<close> comes back at most once: a block shorter than 32768
  bytes sets \<open>eof_\<close>, and a full one holds a header.
\<close>

definition read_block :: "LogReader \<Rightarrow> bool \<times> LogReader" where
  "read_block r =
     (case Read kBlockSize (lr_file r) of
        (None, f) \<Rightarrow> (False, (ReportDrop (of_nat kBlockSize) ''IO error'' (clear_buffer (r\<lparr>lr_file := f\<rparr>)))\<lparr>lr_eof := True\<rparr>)
      | (Some b, f) \<Rightarrow>
          (True, r\<lparr>lr_file := f, lr_buffer := b, lr_buffer_addr := lr_backing_store r,
                  lr_eof := lr_eof r \<or> length b < kBlockSize,
                  lr_end_of_buffer_offset := lr_end_of_buffer_offset r + of_nat (length b)\<rparr>))"

function ReadPhysicalRecord :: "u8 list \<Rightarrow> LogReader \<Rightarrow> u32 \<times> u8 list \<times> LogReader" where
  "ReadPhysicalRecord fragment r =
     (if length (lr_buffer r) < kHeaderSize
      then (if \<not> lr_eof r
            then (case read_block r of
                    (False, r1) \<Rightarrow> (kEof, fragment, r1)
                  | (True, r1) \<Rightarrow> ReadPhysicalRecord fragment r1)
            else (kEof, fragment, clear_buffer r))
      else parse_physical fragment r)"
  by pat_completeness auto
termination ReadPhysicalRecord
  by (relation "measure (\<lambda>(f, r). if length (lr_buffer r) < 7 \<and> \<not> lr_eof r then 1 else 0)")
    (auto simp: read_block_def Read_def log_consts split: prod.splits option.splits if_splits)

declare ReadPhysicalRecord.simps [simp del]

text \<open>The variables of \<open>ReadRecord\<close>, and one turn of its loop.\<close>

record ReadVars =
  rv_in_fragmented :: bool
  rv_scratch :: "u8 list"
  rv_prospective :: u64
  rv_fragment :: "u8 list"

definition ReadRecord_switch ::
    "u32 \<Rightarrow> u64 \<Rightarrow> ReadVars \<Rightarrow> LogReader \<Rightarrow> (bool \<times> u8 list) option \<times> ReadVars \<times> LogReader" where
  "ReadRecord_switch record_type physical_record_offset v r =
     (let fragment = rv_fragment v; scratch = rv_scratch v; inf = rv_in_fragmented v in
      if record_type = ucast kFullType then
        (let r = (if inf \<and> scratch \<noteq> []
                  then ReportCorruption (of_nat (length scratch)) ''partial record without end(1)'' r else r)
         in (Some (True, fragment), v\<lparr>rv_scratch := [], rv_prospective := physical_record_offset\<rparr>,
             r\<lparr>lr_last_record_offset := physical_record_offset\<rparr>))
      else if record_type = ucast kFirstType then
        (let r = (if inf \<and> scratch \<noteq> []
                  then ReportCorruption (of_nat (length scratch)) ''partial record without end(2)'' r else r)
         in (None, v\<lparr>rv_in_fragmented := True, rv_scratch := fragment, rv_prospective := physical_record_offset\<rparr>, r))
      else if record_type = ucast kMiddleType then
        (if \<not> inf
         then (None, v, ReportCorruption (of_nat (length fragment)) ''missing start of fragmented record(1)'' r)
         else (None, v\<lparr>rv_scratch := scratch @ fragment\<rparr>, r))
      else if record_type = ucast kLastType then
        (if \<not> inf
         then (None, v, ReportCorruption (of_nat (length fragment)) ''missing start of fragmented record(2)'' r)
         else (Some (True, scratch @ fragment), v\<lparr>rv_scratch := scratch @ fragment\<rparr>,
               r\<lparr>lr_last_record_offset := rv_prospective v\<rparr>))
      else if record_type = kEof then
        (Some (False, []), (if inf then v\<lparr>rv_scratch := []\<rparr> else v), r)
      else if record_type = kBadRecord then
        (if inf
         then (None, v\<lparr>rv_in_fragmented := False, rv_scratch := []\<rparr>,
               ReportCorruption (of_nat (length scratch)) ''error in middle of record'' r)
         else (None, v, r))
      else
        (None, v\<lparr>rv_in_fragmented := False, rv_scratch := []\<rparr>,
         ReportCorruption (of_nat (length fragment + (if inf then length scratch else 0))) ''unknown record type'' r))"

definition ReadRecord_turn :: "ReadVars \<Rightarrow> LogReader \<Rightarrow> (bool \<times> u8 list) option \<times> ReadVars \<times> LogReader" where
  "ReadRecord_turn v r =
     (let (record_type, fragment, r) = ReadPhysicalRecord (rv_fragment v) r;
          v = v\<lparr>rv_fragment := fragment\<rparr>;
          physical_record_offset = lr_end_of_buffer_offset r - of_nat (length (lr_buffer r))
            - of_nat kHeaderSize - of_nat (length fragment)
      in if lr_resyncing r \<and> record_type = ucast kMiddleType then (None, v, r)
         else if lr_resyncing r \<and> record_type = ucast kLastType then (None, v, r\<lparr>lr_resyncing := False\<rparr>)
         else ReadRecord_switch record_type physical_record_offset v (r\<lparr>lr_resyncing := False\<rparr>))"

partial_function (option) ReadRecord_loop :: "ReadVars \<Rightarrow> LogReader \<Rightarrow> (bool \<times> u8 list \<times> LogReader) option" where
  "ReadRecord_loop v r =
     (case ReadRecord_turn v r of
        (Some (ok, record), v1, r1) \<Rightarrow> Some (ok, record, r1)
      | (None, v1, r1) \<Rightarrow> ReadRecord_loop v1 r1)"

definition ReadRecord :: "LogReader \<Rightarrow> (bool \<times> u8 list \<times> LogReader) option" where
  "ReadRecord r =
     (let (ok, r) = (if lr_last_record_offset r < lr_initial_offset r then SkipToInitialBlock r else (True, r))
      in if \<not> ok then Some (False, [], r)
         else ReadRecord_loop \<lparr>rv_in_fragmented = False, rv_scratch = [], rv_prospective = 0, rv_fragment = []\<rparr> r)"

definition LastRecordOffset :: "LogReader \<Rightarrow> u64" where "LastRecordOffset r = lr_last_record_offset r"

text \<open>The loop of \<open>PrintLogContents\<close>: the arguments of the calls of \<open>func\<close>, in order.\<close>

partial_function (option) read_loop ::
    "(u64 \<times> u8 list) list \<Rightarrow> LogReader \<Rightarrow> ((u64 \<times> u8 list) list \<times> LogReader) option" where
  "read_loop calls r =
     Option.bind (ReadRecord r) (\<lambda>(ok, record, r1).
       if ok then read_loop (calls @ [(LastRecordOffset r1, record)]) r1 else Some (calls, r1))"

definition PrintLogContents :: "nat \<Rightarrow> SequentialFile \<Rightarrow> ((u64 \<times> u8 list) list \<times> LogReader) option" where
  "PrintLogContents addr file = read_loop [] (Reader addr file (Some []) True 0)"

section \<open>The reader returns\<close>

text \<open>What the reader has not consumed, and what one physical record takes from it.\<close>

definition unread :: "LogReader \<Rightarrow> nat" where
  "unread r = length (sf_bytes (lr_file r)) + length (lr_buffer r)"

lemma unread_ReportDrop [simp]:
  "unread (ReportDrop b s r) = unread r" "unread (ReportCorruption b s r) = unread r"
  by (simp_all add: unread_def ReportDrop_def ReportCorruption_def split: option.splits)

lemma Report_fields [simp]:
  "lr_file (ReportDrop b s r) = lr_file r" "lr_file (ReportCorruption b s r) = lr_file r"
  "lr_buffer (ReportDrop b s r) = lr_buffer r" "lr_buffer (ReportCorruption b s r) = lr_buffer r"
  by (simp_all add: ReportDrop_def ReportCorruption_def split: option.splits)

lemma unread_updates [simp]:
  "unread (r\<lparr>lr_resyncing := x\<rparr>) = unread r" "unread (r\<lparr>lr_eof := y\<rparr>) = unread r"
  "unread (r\<lparr>lr_last_record_offset := z\<rparr>) = unread r" "unread (clear_buffer r) = length (sf_bytes (lr_file r))"
  by (simp_all add: unread_def clear_buffer_def)

lemma parse_unread:
  assumes "parse_physical f r = (t, f', r')" and "7 \<le> length (lr_buffer r)"
  shows "unread r' < unread r \<and> (t \<noteq> kEof \<longrightarrow> t \<noteq> kBadRecord \<longrightarrow> unread r' + 7 + length f' \<le> unread r)"
  using assms
  by (auto simp: parse_physical_def Let_def kHeaderSize_def unread_def clear_buffer_def split: if_splits)

lemma read_block_unread: "read_block r = (b, r') \<Longrightarrow> unread r' \<le> unread r"
  by (auto simp: read_block_def Read_def unread_def clear_buffer_def ReportDrop_def
      split: prod.splits option.splits if_splits)

lemma ReadPhysicalRecord_unread:
  "ReadPhysicalRecord f r = (t, f', r') \<Longrightarrow>
     unread r' \<le> unread r \<and> (t \<noteq> kEof \<longrightarrow> unread r' < unread r) \<and>
     (t \<noteq> kEof \<longrightarrow> t \<noteq> kBadRecord \<longrightarrow> unread r' + 7 + length f' \<le> unread r)"
proof (induction f r rule: ReadPhysicalRecord.induct)
  case (1 f r)
  show ?case
  proof (cases "length (lr_buffer r) < 7")
    case False
    then show ?thesis
      using 1(2) parse_unread [of f r t f' r'] by (simp add: ReadPhysicalRecord.simps [of f r] kHeaderSize_def)
  next
    case short: True
    show ?thesis
    proof (cases "lr_eof r")
      case True
      then show ?thesis
        using 1(2) short by (auto simp: ReadPhysicalRecord.simps [of f r] kHeaderSize_def) (simp add: unread_def)
    next
      case False
      obtain b r1 where rb: "read_block r = (b, r1)" by (cases "read_block r")
      note le = read_block_unread [OF rb]
      show ?thesis
      proof (cases b)
        case True
        then show ?thesis
          using 1 short False rb le
          by (fastforce simp: ReadPhysicalRecord.simps [of f r] kHeaderSize_def)
      next
        case f: False
        then show ?thesis
          using 1(2) short False rb le by (auto simp: ReadPhysicalRecord.simps [of f r] kHeaderSize_def)
      qed
    qed
  qed
qed

lemma kinds_distinct:
  "ucast kFullType \<noteq> kEof" "ucast kFullType \<noteq> kBadRecord" "ucast kFirstType \<noteq> kEof" "ucast kFirstType \<noteq> kBadRecord"
  "ucast kMiddleType \<noteq> kEof" "ucast kMiddleType \<noteq> kBadRecord" "ucast kLastType \<noteq> kEof" "ucast kLastType \<noteq> kBadRecord"
  "kEof \<noteq> kBadRecord"
  by (simp_all add: log_consts)

lemma switch_unread: "ReadRecord_switch t off v r = (q, v', r') \<Longrightarrow> unread r' = unread r"
  by (auto simp: ReadRecord_switch_def Let_def split: if_splits)

text \<open>One turn: what is collected so far and each record returned is paid for by bytes consumed.\<close>

lemma turn_unread:
  assumes "ReadRecord_turn v r = (q, v', r')"
  shows "q = None \<Longrightarrow> unread r' < unread r \<and> unread r' + length (rv_scratch v') \<le> unread r + length (rv_scratch v)"
    and "q = Some (ok, rcd) \<Longrightarrow> unread r' \<le> unread r \<and>
           (ok \<longrightarrow> unread r' + 7 + length rcd \<le> unread r + length (rv_scratch v))"
proof -
  obtain t f r1 where rp: "ReadPhysicalRecord (rv_fragment v) r = (t, f, r1)" by (metis prod_cases3)
  note u = ReadPhysicalRecord_unread [OF rp]
  show "unread r' < unread r \<and> unread r' + length (rv_scratch v') \<le> unread r + length (rv_scratch v)" if "q = None"
    using assms rp u that kinds_distinct
    by (auto simp: ReadRecord_turn_def ReadRecord_switch_def Let_def split: if_splits)
  show "unread r' \<le> unread r \<and> (ok \<longrightarrow> unread r' + 7 + length rcd \<le> unread r + length (rv_scratch v))"
    if "q = Some (ok, rcd)"
    using assms rp u that kinds_distinct
    by (auto simp: ReadRecord_turn_def ReadRecord_switch_def Let_def split: if_splits)
qed

lemma ReadRecord_loop_returns:
  "\<exists>ok rcd r'. ReadRecord_loop v r = Some (ok, rcd, r') \<and> unread r' \<le> unread r \<and>
     (ok \<longrightarrow> unread r' + 7 + length rcd \<le> unread r + length (rv_scratch v))"
proof (induction "unread r" arbitrary: v r rule: less_induct)
  case less
  obtain q v1 r1 where t: "ReadRecord_turn v r = (q, v1, r1)" by (metis prod_cases3)
  show ?case
  proof (cases q)
    case None
    note d = turn_unread(1) [OF t None]
    from less [of r1 v1] d obtain ok rcd r' where
      "ReadRecord_loop v1 r1 = Some (ok, rcd, r')" "unread r' \<le> unread r1"
      "ok \<longrightarrow> unread r' + 7 + length rcd \<le> unread r1 + length (rv_scratch v1)" by blast
    then show ?thesis
      using d t None by (auto simp: ReadRecord_loop.simps [of v r])
  next
    case (Some a)
    then show ?thesis
      using turn_unread(2) [OF t] t by (cases a) (auto simp: ReadRecord_loop.simps [of v r])
  qed
qed

lemma Skip_unread: "SkipToInitialBlock r = (ok, r') \<Longrightarrow> unread r' \<le> unread r"
  by (auto simp: SkipToInitialBlock_def Skip_def Let_def unread_def ReportDrop_def
      split: if_splits prod.splits bool.splits option.splits)

lemma ReadRecord_returns:
  "\<exists>ok rcd r'. ReadRecord r = Some (ok, rcd, r') \<and> unread r' \<le> unread r \<and>
     (ok \<longrightarrow> unread r' + 7 + length rcd \<le> unread r)"
proof -
  obtain ok r1 where s: "(if lr_last_record_offset r < lr_initial_offset r then SkipToInitialBlock r else (True, r)) = (ok, r1)"
    by (metis prod.exhaust)
  then have "unread r1 \<le> unread r" by (auto dest: Skip_unread split: if_splits)
  then show ?thesis
    using s ReadRecord_loop_returns [of "\<lparr>rv_in_fragmented = False, rv_scratch = [], rv_prospective = 0, rv_fragment = []\<rparr>" r1]
    by (fastforce simp: ReadRecord_def)
qed

lemma read_loop_returns:
  "\<exists>more r'. read_loop calls r = Some (calls @ more, r') \<and> (\<Sum>(off, rcd) \<leftarrow> more. 7 + length rcd) \<le> unread r"
proof (induction "unread r" arbitrary: calls r rule: less_induct)
  case less
  obtain ok rcd r1 where rr: "ReadRecord r = Some (ok, rcd, r1)" "ok \<longrightarrow> unread r1 + 7 + length rcd \<le> unread r"
    using ReadRecord_returns [of r] by blast
  show ?case
  proof (cases ok)
    case True
    with rr less [of r1 "calls @ [(LastRecordOffset r1, rcd)]"] obtain more r' where
      "read_loop (calls @ [(LastRecordOffset r1, rcd)]) r1 = Some (calls @ (LastRecordOffset r1, rcd) # more, r')"
      "(\<Sum>(off, rcd) \<leftarrow> more. 7 + length rcd) \<le> unread r1" by fastforce
    then show ?thesis
      using rr True by (intro exI [of _ "(LastRecordOffset r1, rcd) # more"] exI [of _ r']) (simp add: read_loop.simps [of calls r])
  next
    case False
    then show ?thesis using rr by (simp add: read_loop.simps [of calls r])
  qed
qed

text \<open>
  C18: the reader of the record log returns on every file, whatever bytes it holds (torn, corrupted, with
  unknown record types or hostile lengths), whatever calls of the file system fail, and with
  every initial offset, with or without checksums. Reading until the end returns as well, and the records
  it hands out, each with a header of seven bytes, fit into the bytes of the file.
\<close>

theorem log_reader_terminates:
  "(\<exists>ok rcd r'. ReadRecord r = Some (ok, rcd, r')) \<and>
   (\<exists>calls r'. read_loop [] (Reader addr file reporter checksum initial_offset) = Some (calls, r') \<and>
      (\<Sum>(off, rcd) \<leftarrow> calls. 7 + length rcd) \<le> length (sf_bytes file))"
  using ReadRecord_returns [of r] read_loop_returns [of "[]" "Reader addr file reporter checksum initial_offset"]
  by (auto simp: unread_def Reader_def)

end
