(* ===== verification/LogRecovery.thy ===== *)
theory LogRecovery
  imports RecordLog
begin

text \<open>
  What the record log promises: the bytes the writer lays out, and that the reader gets the records
  back, also from a log that was cut off at any byte and from one that was reopened.
\<close>

section \<open>What the writer lays out\<close>

definition phys :: "u8 \<Rightarrow> u8 list \<Rightarrow> u8 list" where
  "phys t d = EncodeFixed32 (Mask (crc32c 0 (t # d))) @
     [of_nat (length d mod 256), of_nat (length d div 256), t] @ d"

definition pad :: "nat \<Rightarrow> nat" where "pad i = (if 32768 - i < 7 then 32768 - i else 0)"

fun layout :: "nat \<Rightarrow> (u8 \<times> u8 list) list \<Rightarrow> u8 list" where
  "layout i [] = []"
| "layout i ((t, d) # fs) = replicate (pad i) 0 @ phys t d @ layout (norm_off i + 7 + length d) fs"

fun end_off :: "nat \<Rightarrow> (u8 \<times> u8 list) list \<Rightarrow> nat" where
  "end_off i [] = i"
| "end_off i ((t, d) # fs) = end_off (norm_off i + 7 + length d) fs"

fun fits :: "nat \<Rightarrow> (u8 \<times> u8 list) list \<Rightarrow> bool" where
  "fits i [] \<longleftrightarrow> i \<le> 32768"
| "fits i ((t, d) # fs) \<longleftrightarrow>
     i \<le> 32768 \<and> t \<in> {1, 2, 3, 4} \<and> norm_off i + 7 + length d \<le> 32768 \<and> fits (norm_off i + 7 + length d) fs"

lemma length_phys [simp]: "length (phys t d) = 7 + length d"
  by (simp add: phys_def)

lemma layout_append: "layout i (fs @ gs) = layout i fs @ layout (end_off i fs) gs"
  by (induction i fs rule: layout.induct) auto

lemma fits_append: "fits i (fs @ gs) \<longleftrightarrow> fits i fs \<and> fits (end_off i fs) gs"
  by (induction i fs rule: layout.induct) (auto, (metis fits.elims(2) fits.simps(1))+)

lemma fits_end: "fits i fs \<Longrightarrow> end_off i fs \<le> 32768"
  by (induction i fs rule: layout.induct) auto

text \<open>The fragments of a record that starts at offset \<open>i\<close> of a block.\<close>

function frags :: "bool \<Rightarrow> nat \<Rightarrow> u8 list \<Rightarrow> (u8 \<times> u8 list) list" where
  "frags b i p =
     (let n = min (length p) (32761 - norm_off i)
      in (fragment_type b (length p = n), take n p) #
         (if n < length p then frags False (norm_off i + 7 + n) (drop n p) else []))"
  by pat_completeness auto
termination frags
  by (relation "measure (\<lambda>(b, i, p). 2 * length p + (if norm_off i = 32761 then 1 else 0))")
    (auto simp: norm_off_def split: if_splits)

declare frags.simps [simp del]

lemma frags_short:
  "length p \<le> 32761 - norm_off i \<Longrightarrow> frags b i p = [(fragment_type b True, p)]"
  by (simp add: frags.simps [of b i p])

lemma frags_long:
  "\<not> length p \<le> 32761 - norm_off i \<Longrightarrow>
     frags b i p = (fragment_type b False, take (32761 - norm_off i) p) # frags False 32768 (drop (32761 - norm_off i) p)"
  using norm_off_le [of i] by (simp add: frags.simps [of b i p] Let_def min_def)

lemma fragment_type_in: "fragment_type b e \<in> {1, 2, 3, 4}"
  by (simp add: fragment_type_def log_consts)

lemma fits_frags: "i \<le> 32768 \<Longrightarrow> fits i (frags b i p)"
proof (induction b i p rule: frags.induct)
  case (1 b i p)
  show ?case
  proof (cases "length p \<le> 32761 - norm_off i")
    case True
    then show ?thesis
      using 1(2) norm_off_le [of i] fragment_type_in by (simp add: frags_short)
  next
    case False
    then have "norm_off i + 7 + (32761 - norm_off i) = 32768" "min (length p) (32761 - norm_off i) = 32761 - norm_off i"
      using norm_off_le [of i] by auto
    then have "fits 32768 (frags False 32768 (drop (32761 - norm_off i) p))"
      using 1(1) [OF refl] False by simp
    then show ?thesis
      using False 1(2) norm_off_le [of i] fragment_type_in by (simp add: frags_long)
  qed
qed

section \<open>The writer\<close>

definition writer_ok :: "LogWriter \<Rightarrow> bool" where
  "writer_ok w \<longleftrightarrow> lw_block_offset w \<le> 32768 \<and> wf_faults (lw_dest w) = [] \<and> (\<exists>a. lw_type_crc w = InitTypeCrc a)"

lemma Append_ok: "wf_faults f = [] \<Longrightarrow> Append f d = (True, f\<lparr>wf_bytes := wf_bytes f @ d\<rparr>)"
  by (simp add: Append_def)

lemma InitTypeCrc_nth: "t \<in> {1, 2, 3, 4} \<Longrightarrow> InitTypeCrc a ! unat t = crc32c 0 [t]"
  by (auto simp: InitTypeCrc_def log_consts Value_def Extend_eq upt_rec)

definition emitted :: "u8 list \<Rightarrow> nat \<Rightarrow> LogWriter \<Rightarrow> LogWriter" where
  "emitted bs i w = w\<lparr>lw_dest := (lw_dest w)\<lparr>wf_bytes := wf_bytes (lw_dest w) @ bs\<rparr>, lw_block_offset := i\<rparr>"

lemma emitted_emitted [simp]: "emitted bs i (emitted cs j w) = emitted (cs @ bs) i w"
  by (simp add: emitted_def)

lemma emitted_ok [simp]: "writer_ok w \<Longrightarrow> i \<le> 32768 \<Longrightarrow> writer_ok (emitted bs i w)"
  by (simp add: emitted_def writer_ok_def)

lemma emitted_fields [simp]:
  "lw_block_offset (emitted bs i w) = i" "wf_bytes (lw_dest (emitted bs i w)) = wf_bytes (lw_dest w) @ bs"
  by (simp_all add: emitted_def)

lemma Emit_ok:
  assumes "writer_ok w" and "t \<in> {1, 2, 3, 4}" and "lw_block_offset w + 7 + length p \<le> 32768"
  shows "EmitPhysicalRecord addr t p w = Inr (True, emitted (phys t p) (lw_block_offset w + 7 + length p) w)"
proof -
  obtain a where "lw_type_crc w = InitTypeCrc a" using assms(1) by (auto simp: writer_ok_def)
  then have "Extend addr (lw_type_crc w ! unat t) p = crc32c 0 (t # p)"
    using assms(2) crc32c_append [of 0 "[t]" p] by (simp add: InitTypeCrc_nth Extend_eq)
  then show ?thesis
    using assms by (simp add: EmitPhysicalRecord_def writer_ok_def kHeaderSize_def kBlockSize_def Append_ok Flush_def
        emitted_def phys_def Let_def)
qed

lemma switch_block_emitted:
  "writer_ok w \<Longrightarrow> switch_block w = emitted (replicate (pad (lw_block_offset w)) 0) (norm_off (lw_block_offset w)) w"
  by (auto simp: switch_block_def emitted_def writer_ok_def pad_def norm_off_def kBlockSize_def kHeaderSize_def Append_ok Let_def)

lemma AddRecord_loop_ok:
  "writer_ok w \<Longrightarrow>
     AddRecord_loop addr b p w =
       Inr (True, emitted (layout (lw_block_offset w) (frags b (lw_block_offset w) p))
                    (end_off (lw_block_offset w) (frags b (lw_block_offset w) p)) w)"
proof (induction b "lw_block_offset w" p arbitrary: addr w rule: frags.induct)
  case (1 b p)
  let ?i = "lw_block_offset w"
  have i: "?i \<le> 32768" using 1(2) by (simp add: writer_ok_def)
  note n = norm_off_le [of ?i]
  let ?w1 = "switch_block w"
  have w1: "writer_ok ?w1" "lw_block_offset ?w1 = norm_off ?i"
    using 1(2) n by (simp_all add: switch_block_emitted)
  show ?case
  proof (cases "length p \<le> 32761 - norm_off ?i")
    case True
    then have "EmitPhysicalRecord addr (fragment_type b True) p ?w1 =
        Inr (True, emitted (phys (fragment_type b True) p) (norm_off ?i + 7 + length p) ?w1)"
      using Emit_ok [OF w1(1) fragment_type_in] w1(2) n by simp
    then show ?thesis
      using True 1(2) i n w1
      by (auto simp: AddRecord_loop.simps [of addr b p w] frags_short kBlockSize_def kHeaderSize_def Let_def
          switch_block_emitted)
  next
    case False
    let ?n = "32761 - norm_off ?i"
    have m: "min (length p) ?n = ?n" "norm_off ?i + 7 + ?n = 32768" using False n by auto
    have e: "EmitPhysicalRecord addr (fragment_type b False) (take ?n p) ?w1 =
        Inr (True, emitted (phys (fragment_type b False) (take ?n p)) 32768 ?w1)" (is "_ = Inr (True, ?w2)")
      using Emit_ok [OF w1(1) fragment_type_in, of "take ?n p"] w1(2) n False by simp
    have "writer_ok ?w2" "lw_block_offset ?w2 = 32768" using w1 by simp_all
    then have ih: "AddRecord_loop (addr + ?n) False (drop ?n p) ?w2 =
        Inr (True, emitted (layout 32768 (frags False 32768 (drop ?n p))) (end_off 32768 (frags False 32768 (drop ?n p))) ?w2)"
      using 1(1) [OF refl, of ?w2 "addr + ?n"] False m by simp
    show ?thesis
      using False 1(2) i n w1(2) e ih
      by (simp add: AddRecord_loop.simps [of addr b p w] frags_long kBlockSize_def kHeaderSize_def Let_def
          switch_block_emitted)
  qed
qed

section \<open>The reader on a log that may be cut off\<close>

text \<open>
  \<open>reads_at r i bs\<close>: the reader has nothing reported, stands at offset \<open>i\<close> of
  a block and \<open>bs\<close> is what remains; its buffer holds the rest of the block.
\<close>

definition reads_at :: "LogReader \<Rightarrow> nat \<Rightarrow> u8 list \<Rightarrow> bool" where
  "reads_at r i bs \<longleftrightarrow>
     lr_buffer r @ sf_bytes (lr_file r) = bs \<and> i \<le> 32768 \<and> sf_faults (lr_file r) = [] \<and>
     lr_reporter r = Some [] \<and> lr_checksum r \<and> lr_initial_offset r = 0 \<and> \<not> lr_resyncing r \<and>
     (if lr_eof r then sf_bytes (lr_file r) = [] \<and> length (lr_buffer r) \<le> 32768 - i
      else length (lr_buffer r) = 32768 - i)"

text \<open>The reader met the end of the log and has nothing reported.\<close>

definition silent_eof :: "u32 \<times> u8 list \<times> LogReader \<Rightarrow> bool" where
  "silent_eof q \<longleftrightarrow> (case q of (t, f, r) \<Rightarrow> t = kEof \<and> lr_reporter r = Some [] \<and> \<not> lr_resyncing r)"

lemma scast_byte: "scast (b :: u8) AND 255 = (ucast b :: u32)"
proof (rule bit_word_eqI)
  fix n
  have "bit b n \<Longrightarrow> n < 8" using bit_imp_le_length [of b n] by simp
  then show "bit (scast b AND 255 :: u32) n \<longleftrightarrow> bit (ucast b :: u32) n" if "n < LENGTH(32)"
    using that by (cases "n < 7"; cases "n = 7") (auto simp: bit_simps bit_255 min_def)
qed

lemma two_bytes:
  assumes "n < 65536"
  shows "unat ((ucast (of_nat (n mod 256) :: u8) :: u32) OR push_bit 8 (ucast (of_nat (n div 256) :: u8))) = n"
proof -
  let ?a = "ucast (of_nat (n mod 256) :: u8) :: u32" and ?b = "ucast (of_nat (n div 256) :: u8) :: u32"
  have d: "?a AND push_bit 8 ?b = 0"
    by (rule bit_word_eqI) (auto simp: bit_simps dest: bit_imp_le_length)
  have a: "unat ?a = n mod 256" by (simp add: unsigned_ucast_eq unsigned_of_nat take_bit_eq_mod)
  have b: "unat ?b = n div 256" using assms by (simp add: unsigned_ucast_eq unsigned_of_nat take_bit_eq_mod div_less_iff_less_mult)
  have "unat (push_bit 8 ?b) = 256 * (n div 256)"
    using assms b by (simp add: push_bit_eq_mult unat_word_ariths)
  moreover have "?a OR push_bit 8 ?b = ?a + push_bit 8 ?b"
    using d by (simp add: disjunctive_add_eq_or)
  ultimately show ?thesis
    using assms a by (simp add: unat_word_ariths)
qed

lemma phys_nth:
  "(phys t d @ r) ! 4 = of_nat (length d mod 256)" "(phys t d @ r) ! 5 = of_nat (length d div 256)" "(phys t d @ r) ! 6 = t"
  by (simp_all add: phys_def nth_append)

lemma header_length_nth:
  assumes "h ! 4 = of_nat (n mod 256)" "h ! 5 = of_nat (n div 256)" "n < 65536"
  shows "unat (header_length h) = n"
  using assms two_bytes by (simp add: header_length_def scast_byte)

lemma type_scast: "t \<in> {1, 2, 3, 4} \<Longrightarrow> scast (t :: u8) = (ucast t :: u32) \<and> (ucast t :: u32) \<noteq> 0"
  by auto

text \<open>A whole physical record in the buffer is handed out; a torn one at the end of the file is the end.\<close>

lemma parse_whole:
  assumes "reads_at r i bs" and "lr_buffer r = phys t d @ rest" and "t \<in> {1, 2, 3, 4}" and "length d < 65536"
    and "i + 7 + length d \<le> 32768" and "bs = phys t d @ bs'"
  shows "\<exists>r'. parse_physical f r = (ucast t, d, r') \<and> reads_at r' (i + 7 + length d) bs'"
proof -
  let ?h = "lr_buffer r"
  have len: "unat (header_length ?h) = length d"
    using assms(2,4) by (intro header_length_nth) (simp_all add: phys_nth)
  have l: "length ?h = 7 + length d + length rest" "scast (?h ! 6) = (ucast t :: u32)" "(ucast t :: u32) \<noteq> ucast kZeroType"
    using assms(2) type_scast [OF assms(3)] by (simp_all add: phys_nth kZeroType_def)
  have tk: "take (1 + length d) (drop 6 ?h) = t # d" and v: "take (length d) (drop 7 ?h) = d"
    using assms(2) by (simp_all add: phys_def)
  have w: "drop (7 + length d) ?h = rest" using assms(2) by simp
  have "Unmask (DecodeFixed32 ?h) = crc32c 0 (t # d)"
    using assms(2) by (simp add: phys_def Unmask_Mask)
  then have crc: "Value (lr_buffer_addr r + 6) (take (1 + length d) (drop 6 ?h)) = Unmask (DecodeFixed32 ?h)"
    unfolding tk by (simp add: Value_def Extend_eq)
  let ?r = "r\<lparr>lr_buffer := rest, lr_buffer_addr := lr_buffer_addr r + 7 + length d\<rparr>"
  have i0: "lr_initial_offset r = 0" using assms(1) by (simp add: reads_at_def)
  have "parse_physical f r = (ucast t, d, ?r)"
    unfolding parse_physical_def Let_def kHeaderSize_def using l v w len crc i0 by simp
  moreover have "reads_at ?r (i + 7 + length d) bs'"
    using assms(1,2,5,6) by (auto simp: reads_at_def)
  ultimately show ?thesis by blast
qed

lemma take_torn:
  assumes "k < 7 + length d" and "7 \<le> k"
  shows "take k (phys t d @ s) ! 4 = of_nat (length d mod 256)" "take k (phys t d @ s) ! 5 = of_nat (length d div 256)"
  using assms phys_nth [of t d s] by (simp_all del: take_append)

lemma parse_torn:
  assumes "reads_at r i bs" and "lr_buffer r = take k (phys t d @ s)" and "k < 7 + length d" and "7 \<le> k"
    and "length d < 65536" and "lr_eof r"
  shows "silent_eof (parse_physical f r)"
proof -
  have "unat (header_length (lr_buffer r)) = length d"
    using assms take_torn [of k d t s] by (intro header_length_nth) simp_all
  moreover have "length (lr_buffer r) = k" using assms(2,3) by simp
  ultimately have "parse_physical f r = (kEof, f, clear_buffer r)"
    unfolding parse_physical_def Let_def kHeaderSize_def using assms(3,6) by simp
  then show ?thesis using assms(1) by (simp add: silent_eof_def clear_buffer_def reads_at_def)
qed

text \<open>Reading the next block, when the buffer holds no header.\<close>

lemma read_next_block:
  assumes "reads_at r i bs" and "length (lr_buffer r) < 7" and "\<not> lr_eof r"
  shows "\<exists>r1. ReadPhysicalRecord f r = ReadPhysicalRecord f r1 \<and> reads_at r1 0 (drop (length (lr_buffer r)) bs) \<and>
     lr_buffer r1 = take 32768 (drop (length (lr_buffer r)) bs) \<and> (7 \<le> length (lr_buffer r1) \<or> lr_eof r1)"
proof -
  let ?b = "take 32768 (sf_bytes (lr_file r))"
  let ?r = "r\<lparr>lr_file := (lr_file r)\<lparr>sf_bytes := drop 32768 (sf_bytes (lr_file r)), sf_faults := []\<rparr>, lr_buffer := ?b,
      lr_buffer_addr := lr_backing_store r, lr_eof := length ?b < 32768,
      lr_end_of_buffer_offset := lr_end_of_buffer_offset r + of_nat (length ?b)\<rparr>"
  have at: "drop (length (lr_buffer r)) bs = sf_bytes (lr_file r)" "sf_faults (lr_file r) = []"
    using assms(1) by (auto simp: reads_at_def)
  then have "read_block r = (True, ?r)"
    using assms(3) by (simp add: read_block_def Read_def kBlockSize_def del: length_take)
  then have "ReadPhysicalRecord f r = ReadPhysicalRecord f ?r"
    using assms(2,3) by (simp add: ReadPhysicalRecord.simps [of f r] kHeaderSize_def del: length_take)
  moreover have "reads_at ?r 0 (sf_bytes (lr_file r))"
    using assms(1) by (auto simp: reads_at_def)
  moreover have "7 \<le> length ?b \<or> length ?b < 32768" by arith
  ultimately show ?thesis using at(1) by (intro exI [of _ ?r]) (simp del: length_take)
qed

lemma buffer_take:
  assumes "reads_at r i bs"
  shows "lr_buffer r = take (32768 - i) bs"
  using assms by (auto simp: reads_at_def split: if_splits)

lemma physical_in_block:
  assumes at: "reads_at r i (take k (phys t d @ s))" and "t \<in> {1, 2, 3, 4}" and fit: "i + 7 + length d \<le> 32768"
    and rdy: "7 \<le> length (lr_buffer r) \<or> lr_eof r"
  shows "7 + length d \<le> k \<Longrightarrow>
           \<exists>r'. ReadPhysicalRecord f r = (ucast t, d, r') \<and> reads_at r' (i + 7 + length d) (take (k - 7 - length d) s)"
    and "k < 7 + length d \<Longrightarrow> silent_eof (ReadPhysicalRecord f r)"
proof -
  have buf: "lr_buffer r = take (min (32768 - i) k) (phys t d @ s)"
    using buffer_take [OF at] by (simp del: take_append)
  show "\<exists>r'. ReadPhysicalRecord f r = (ucast t, d, r') \<and> reads_at r' (i + 7 + length d) (take (k - 7 - length d) s)"
    if k: "7 + length d \<le> k"
  proof -
    have m: "7 + length d \<le> min (32768 - i) k" using k fit by simp
    have "lr_buffer r = phys t d @ take (min (32768 - i) k - 7 - length d) s"
      using buf m by simp
    moreover have "take k (phys t d @ s) = phys t d @ take (k - 7 - length d) s" using k by simp
    ultimately show ?thesis
      using parse_whole [OF at _ assms(2) _ fit, of _ "take (k - 7 - length d) s" f] fit
      by (simp add: ReadPhysicalRecord.simps [of f r] kHeaderSize_def)
  qed
  show "silent_eof (ReadPhysicalRecord f r)" if k: "k < 7 + length d"
  proof -
    have "min (32768 - i) k = k" using k fit by simp
    then have b: "lr_buffer r = take k (phys t d @ s)" using buf by (simp del: take_append)
    then have l: "length (lr_buffer r) = k" using k by simp
    then have "lr_eof r" using at k fit by (auto simp: reads_at_def split: if_splits)
    then show ?thesis
      using at b l k fit parse_torn [OF at b k, of f]
      by (auto simp: ReadPhysicalRecord.simps [of f r] kHeaderSize_def silent_eof_def clear_buffer_def reads_at_def)
  qed
qed

text \<open>The same over a trailer of zeros, and at the end of the log.\<close>

lemma skip_trailer:
  assumes at: "reads_at r i (take k (replicate (pad i) 0 @ bs))"
  obtains (torn) "min k (pad i + length bs) < 7" and "silent_eof (ReadPhysicalRecord f r)"
  | (ready) r1 where "ReadPhysicalRecord f r = ReadPhysicalRecord f r1" and "reads_at r1 (norm_off i) (take (k - pad i) bs)"
      and "7 \<le> length (lr_buffer r1) \<or> lr_eof r1"
proof (cases "32768 - i < 7")
  case False
  then have "pad i = 0" "norm_off i = i" "7 \<le> length (lr_buffer r) \<or> lr_eof r"
    using at by (auto simp: pad_def norm_off_def reads_at_def split: if_splits)
  then show ?thesis using ready [of r] at by simp
next
  case True
  then have p: "pad i = 32768 - i" "norm_off i = 0" by (auto simp: pad_def norm_off_def)
  have short: "length (lr_buffer r) < 7" using at True by (auto simp: reads_at_def split: if_splits)
  show ?thesis
  proof (cases "lr_eof r")
    case eof: True
    then have "length (take k (replicate (pad i) (0 :: u8) @ bs)) \<le> 32768 - i" using at by (auto simp: reads_at_def)
    then have "min k (pad i + length bs) < 7" using True by auto
    then show ?thesis
      using torn eof short at
      by (simp add: ReadPhysicalRecord.simps [of f r] kHeaderSize_def silent_eof_def clear_buffer_def reads_at_def)
  next
    case False
    then have b: "length (lr_buffer r) = pad i" using at p by (auto simp: reads_at_def)
    show ?thesis
      using read_next_block [OF at short False, of f] b p ready by (auto simp del: take_append simp: drop_take)
  qed
qed

lemma physical_step:
  assumes at: "reads_at r i (take k (replicate (pad i) 0 @ phys t d @ s))" and t: "t \<in> {1, 2, 3, 4}"
    and fit: "norm_off i + 7 + length d \<le> 32768"
  shows "pad i + 7 + length d \<le> k \<Longrightarrow>
           \<exists>r'. ReadPhysicalRecord f r = (ucast t, d, r') \<and>
             reads_at r' (norm_off i + 7 + length d) (take (k - (pad i + 7 + length d)) s)"
    and "k < pad i + 7 + length d \<Longrightarrow> silent_eof (ReadPhysicalRecord f r)"
proof (atomize (full), cases rule: skip_trailer [OF at, of f])
  case 1
  then have "k < 7" by auto
  then show "(pad i + 7 + length d \<le> k \<longrightarrow> (\<exists>r'. ReadPhysicalRecord f r = (ucast t, d, r') \<and>
        reads_at r' (norm_off i + 7 + length d) (take (k - (pad i + 7 + length d)) s))) \<and>
      (k < pad i + 7 + length d \<longrightarrow> silent_eof (ReadPhysicalRecord f r))"
    using 1 by simp
next
  case (2 r1)
  have "k - pad i < 7 + length d" if "k < pad i + 7 + length d" using that by linarith
  then show "(pad i + 7 + length d \<le> k \<longrightarrow> (\<exists>r'. ReadPhysicalRecord f r = (ucast t, d, r') \<and>
        reads_at r' (norm_off i + 7 + length d) (take (k - (pad i + 7 + length d)) s))) \<and>
      (k < pad i + 7 + length d \<longrightarrow> silent_eof (ReadPhysicalRecord f r))"
    using physical_in_block [of r1 "norm_off i" "k - pad i" t d s f] 2 t fit by (auto simp: add.assoc)
qed

lemma physical_end:
  assumes "reads_at r i []"
  shows "silent_eof (ReadPhysicalRecord f r)"
proof (cases "lr_eof r")
  case True
  then show ?thesis
    using assms by (simp add: ReadPhysicalRecord.simps [of f r] kHeaderSize_def silent_eof_def clear_buffer_def reads_at_def)
next
  case False
  have "lr_buffer r = []" using assms by (simp add: reads_at_def)
  then obtain r1 where r1: "ReadPhysicalRecord f r = ReadPhysicalRecord f r1" "reads_at r1 0 []" "lr_eof r1"
    using read_next_block [OF assms _ False, of f] by auto
  have "lr_buffer r1 = []" using r1(2) by (simp add: reads_at_def)
  then show ?thesis
    using r1 by (simp add: ReadPhysicalRecord.simps [of f r1] kHeaderSize_def silent_eof_def clear_buffer_def reads_at_def)
qed

section \<open>Records\<close>

lemma reads_at_update [simp]: "reads_at (r\<lparr>lr_last_record_offset := z\<rparr>) i bs = reads_at r i bs"
  by (simp add: reads_at_def)

lemma reads_at_resync: "reads_at r i bs \<Longrightarrow> reads_at (r\<lparr>lr_resyncing := False\<rparr>) i bs"
  by (simp add: reads_at_def)

text \<open>One turn of the loop on a whole fragment, and on a torn one.\<close>

lemma turn_whole:
  assumes rp: "ReadPhysicalRecord (rv_fragment v) r = (ucast (fragment_type b e), d, r1)" and at: "reads_at r1 i bs"
    and "rv_in_fragmented v = (\<not> b)"
  shows "\<exists>v' r'. reads_at r' i bs \<and> rv_in_fragmented v' = (if e then rv_in_fragmented v' else True) \<and>
     rv_scratch v' = (if e then rv_scratch v' else if b then d else rv_scratch v @ d) \<and>
     ReadRecord_turn v r = (if e then Some (True, if b then d else rv_scratch v @ d) else None, v', r')"
proof -
  have n: "\<not> lr_resyncing r1" using at by (simp add: reads_at_def)
  show ?thesis
    using assms(3) at n reads_at_resync [OF at]
    by (cases b; cases e) (simp_all add: ReadRecord_turn_def rp ReadRecord_switch_def Let_def fragment_type_def log_consts)
qed

lemma turn_torn:
  assumes "silent_eof (ReadPhysicalRecord (rv_fragment v) r)"
  shows "\<exists>v' r'. ReadRecord_turn v r = (Some (False, []), v', r') \<and> lr_reporter r' = Some []"
  using assms
  by (auto simp: silent_eof_def ReadRecord_turn_def ReadRecord_switch_def Let_def log_consts split: prod.splits)

lemma loop_torn:
  assumes "silent_eof (ReadPhysicalRecord (rv_fragment v) r)"
  shows "\<exists>r'. ReadRecord_loop v r = Some (False, [], r') \<and> lr_reporter r' = Some []"
  using turn_torn [OF assms] by (auto simp: ReadRecord_loop.simps [of v r])

text \<open>
  \<open>read_outcome k l rcd j s res\<close>: of a record of \<open>l\<close> bytes, \<open>k\<close> are left; the call
  returns the record if it is whole, and the end of the log, silently, if it is torn.
\<close>

definition read_outcome :: "nat \<Rightarrow> nat \<Rightarrow> u8 list \<Rightarrow> nat \<Rightarrow> u8 list \<Rightarrow> (bool \<times> u8 list \<times> LogReader) option \<Rightarrow> bool" where
  "read_outcome k l rcd j s res \<longleftrightarrow>
     (if l \<le> k then \<exists>r'. res = Some (True, rcd, r') \<and> reads_at r' j (take (k - l) s)
      else \<exists>r'. res = Some (False, [], r') \<and> lr_reporter r' = Some [])"

lemma loop_last:
  assumes at: "reads_at r i (take k (replicate (pad i) 0 @ phys (fragment_type b True) p @ s))"
    and fit: "norm_off i + 7 + length p \<le> 32768" and inf: "rv_in_fragmented v = (\<not> b)"
  shows "read_outcome k (pad i + 7 + length p) (if b then p else rv_scratch v @ p) (norm_off i + 7 + length p) s (ReadRecord_loop v r)"
proof (cases "pad i + 7 + length p \<le> k")
  case k: True
  obtain r1 where r1: "ReadPhysicalRecord (rv_fragment v) r = (ucast (fragment_type b True), p, r1)"
    "reads_at r1 (norm_off i + 7 + length p) (take (k - (pad i + 7 + length p)) s)"
    using physical_step(1) [OF at fragment_type_in fit k] by blast
  from turn_whole [OF r1 inf] k show ?thesis
    by (auto simp: read_outcome_def ReadRecord_loop.simps [of v r])
next
  case False
  then show ?thesis
    using loop_torn [OF physical_step(2) [OF at fragment_type_in fit]] by (simp add: read_outcome_def)
qed

lemma loop_more:
  assumes at: "reads_at r i (take k (replicate (pad i) 0 @ phys (fragment_type b False) d @ rest @ s))"
    and fit: "norm_off i + 7 + length d = 32768" and inf: "rv_in_fragmented v = (\<not> b)"
    and ih: "\<And>v r k. reads_at r 32768 (take k (rest @ s)) \<Longrightarrow> rv_in_fragmented v \<Longrightarrow>
               read_outcome k (length rest) (rv_scratch v @ q) j s (ReadRecord_loop v r)"
  shows "read_outcome k (pad i + 7 + length d + length rest) (if b then d @ q else rv_scratch v @ d @ q) j s (ReadRecord_loop v r)"
proof (cases "pad i + 7 + length d \<le> k")
  case k: True
  let ?k = "k - (pad i + 7 + length d)"
  have fit': "norm_off i + 7 + length d \<le> 32768" using fit by simp
  obtain r1 where r1: "ReadPhysicalRecord (rv_fragment v) r = (ucast (fragment_type b False), d, r1)"
    "reads_at r1 32768 (take ?k (rest @ s))"
    using physical_step(1) [OF at fragment_type_in fit' k] unfolding fit by blast
  obtain v' r' where v': "reads_at r' 32768 (take ?k (rest @ s))" "rv_in_fragmented v'"
    "rv_scratch v' = (if b then d else rv_scratch v @ d)" "ReadRecord_turn v r = (None, v', r')"
    using turn_whole [OF r1 inf] by (auto simp del: take_append)
  have "read_outcome ?k (length rest) (rv_scratch v' @ q) j s (ReadRecord_loop v' r')" by (rule ih [OF v'(1,2)])
  then show ?thesis
    using v'(3,4) k by (auto simp: read_outcome_def ReadRecord_loop.simps [of v r] split: if_splits)
next
  case False
  moreover have "norm_off i + 7 + length d \<le> 32768" using fit by simp
  ultimately show ?thesis
    using loop_torn [OF physical_step(2) [OF at fragment_type_in]] by (simp add: read_outcome_def)
qed

lemma loop_record:
  assumes "reads_at r i (take k (layout i (frags b i p) @ s))" and "rv_in_fragmented v = (\<not> b)"
  shows "read_outcome k (length (layout i (frags b i p))) (if b then p else rv_scratch v @ p) (end_off i (frags b i p)) s
           (ReadRecord_loop v r)"
  using assms
proof (induction b i p arbitrary: v r k rule: frags.induct)
  case (1 b i p)
  let ?n = "32761 - norm_off i"
  note n = norm_off_le [of i]
  show ?case
  proof (cases "length p \<le> ?n")
    case True
    then show ?thesis
      using loop_last [of r i k b p s v] 1(2,3) n by (simp add: frags_short add.assoc)
  next
    case False
    let ?d = "take ?n p" and ?q = "drop ?n p"
    have l: "length ?d = ?n" and o: "norm_off i + 7 + ?n = 32768" and m: "min (length p) ?n = ?n" using False n by simp_all
    have at: "reads_at r i (take k (replicate (pad i) 0 @ phys (fragment_type b False) ?d @ layout 32768 (frags False 32768 ?q) @ s))"
      using 1(2) False o l by (simp add: frags_long del: take_append length_take)
    have ih: "read_outcome k (length (layout 32768 (frags False 32768 ?q))) (rv_scratch v @ ?q)
        (end_off 32768 (frags False 32768 ?q)) s (ReadRecord_loop v r)"
      if "reads_at r 32768 (take k (layout 32768 (frags False 32768 ?q) @ s))" "rv_in_fragmented v" for v r k
      using 1(1) [OF refl, of r k v] that False o m by (simp del: take_append)
    have "read_outcome k (pad i + 7 + length ?d + length (layout 32768 (frags False 32768 ?q)))
        (if b then ?d @ ?q else rv_scratch v @ ?d @ ?q) (end_off 32768 (frags False 32768 ?q)) s (ReadRecord_loop v r)"
      using loop_more [OF at _ 1(3) ih] o l by simp
    then show ?thesis using False o l by (cases b) (simp_all add: frags_long add.assoc)
  qed
qed

section \<open>Logs\<close>

fun write_log :: "nat \<Rightarrow> u8 list list \<Rightarrow> LogWriter \<Rightarrow> (bool \<times> LogWriter) result" where
  "write_log addr [] w = Inr (True, w)"
| "write_log addr (p # ps) w =
     res_bind (AddRecord addr p w) (\<lambda>(s, w1). if s then write_log addr ps w1 else Inr (s, w1))"

fun log_bytes :: "nat \<Rightarrow> u8 list list \<Rightarrow> u8 list" where
  "log_bytes i [] = []"
| "log_bytes i (p # ps) = layout i (frags True i p) @ log_bytes (end_off i (frags True i p)) ps"

fun log_end :: "nat \<Rightarrow> u8 list list \<Rightarrow> nat" where
  "log_end i [] = i"
| "log_end i (p # ps) = log_end (end_off i (frags True i p)) ps"

lemma log_bytes_append: "log_bytes i (ps @ qs) = log_bytes i ps @ log_bytes (log_end i ps) qs"
  by (induction ps arbitrary: i) simp_all

lemma log_end_le: "i \<le> 32768 \<Longrightarrow> log_end i ps \<le> 32768"
  by (induction ps arbitrary: i) (auto simp: fits_end fits_frags)

lemma frags_end_le: "i \<le> 32768 \<Longrightarrow> end_off i (frags b i p) \<le> 32768"
  by (simp add: fits_end fits_frags)

lemma write_log_ok:
  "writer_ok w \<Longrightarrow>
     write_log addr ps w = Inr (True, emitted (log_bytes (lw_block_offset w) ps) (log_end (lw_block_offset w) ps) w)"
proof (induction ps arbitrary: w)
  case Nil
  then show ?case by (simp add: emitted_def)
next
  case (Cons p ps)
  have "lw_block_offset w \<le> 32768" using Cons.prems by (simp add: writer_ok_def)
  then show ?case
    using Cons.prems Cons.IH by (simp add: AddRecord_def AddRecord_loop_ok frags_end_le)
qed

text \<open>The end of one block and the start of the next are the same place for the record that follows.\<close>

lemma log_bytes_block: "log_bytes 32768 ps = log_bytes 0 ps"
proof (cases ps)
  case (Cons p qs)
  have "norm_off 32768 = 0" "norm_off 0 = 0" by (simp_all add: norm_off_def)
  then have "frags True 32768 p = frags True 0 p"
    by (simp add: frags.simps [of True 0] frags.simps [of True 32768] Let_def)
  moreover have "layout 32768 fs = layout 0 fs" for fs by (cases fs) (auto simp: pad_def norm_off_def)
  moreover have "end_off 32768 fs = end_off 0 fs" if "fs \<noteq> []" for fs using that by (cases fs) (auto simp: norm_off_def)
  moreover have "frags True 0 p \<noteq> []" by (simp add: frags.simps [of True] Let_def)
  ultimately show ?thesis using Cons by simp
qed simp

lemma layout_mod: "fits i fs \<Longrightarrow> (i + length (layout i fs)) mod 32768 = end_off i fs mod 32768"
proof (induction i fs rule: layout.induct)
  case (2 i t d fs)
  then have "(norm_off i + 7 + length d + length (layout (norm_off i + 7 + length d) fs)) mod 32768 = end_off i ((t, d) # fs) mod 32768"
    by simp
  moreover have "(i + pad i) mod 32768 = norm_off i mod 32768" using 2(2) by (auto simp: pad_def norm_off_def)
  ultimately show ?case
    by (simp add: add.assoc) (metis (no_types, lifting) add.assoc mod_add_left_eq)
qed simp

lemma log_mod: "i \<le> 32768 \<Longrightarrow> (i + length (log_bytes i ps)) mod 32768 = log_end i ps mod 32768"
proof (induction ps arbitrary: i)
  case (Cons p ps)
  let ?fs = "frags True i p"
  have "(end_off i ?fs + length (log_bytes (end_off i ?fs) ps)) mod 32768 = log_end (end_off i ?fs) ps mod 32768"
    using Cons frags_end_le by simp
  moreover have "(i + length (layout i ?fs)) mod 32768 = end_off i ?fs mod 32768"
    using Cons.prems by (simp add: layout_mod fits_frags)
  ultimately show ?case by (simp flip: add.assoc) (metis mod_add_left_eq)
qed simp

text \<open>Reading until the end: the records wholly in the file, and only those.\<close>

lemma ReadRecord_at:
  "reads_at r i bs \<Longrightarrow> ReadRecord r =
     ReadRecord_loop \<lparr>rv_in_fragmented = False, rv_scratch = [], rv_prospective = 0, rv_fragment = []\<rparr> r"
  by (simp add: ReadRecord_def reads_at_def)

lemma read_loop_log:
  assumes "reads_at r i (take k (log_bytes i ps))"
  shows "\<exists>n more r'. read_loop calls r = Some (calls @ more, r') \<and> map snd more = take n ps \<and> lr_reporter r' = Some [] \<and>
     (\<forall>m. m \<le> length ps \<longrightarrow> length (log_bytes i (take m ps)) \<le> k \<longrightarrow> m \<le> n)"
  using assms
proof (induction ps arbitrary: r i k calls)
  case Nil
  then obtain r' where "ReadRecord r = Some (False, [], r')" "lr_reporter r' = Some []"
    using loop_torn [OF physical_end [of r i]] ReadRecord_at [OF Nil] by fastforce
  then show ?case by (simp add: read_loop.simps [of calls r])
next
  case (Cons p ps)
  let ?fs = "frags True i p"
  let ?l = "length (layout i ?fs)" and ?j = "end_off i ?fs"
  have o: "read_outcome k ?l p ?j (log_bytes ?j ps) (ReadRecord r)"
    using loop_record [of r i k True p "log_bytes ?j ps"] Cons.prems ReadRecord_at [OF Cons.prems] by simp
  show ?case
  proof (cases "?l \<le> k")
    case True
    then obtain r1 where r1: "ReadRecord r = Some (True, p, r1)" "reads_at r1 ?j (take (k - ?l) (log_bytes ?j ps))"
      using o by (auto simp: read_outcome_def)
    let ?c = "(LastRecordOffset r1, p)"
    obtain n more r' where m: "read_loop (calls @ [?c]) r1 = Some ((calls @ [?c]) @ more, r')" "map snd more = take n ps"
      "lr_reporter r' = Some []"
      "\<forall>m. m \<le> length ps \<longrightarrow> length (log_bytes ?j (take m ps)) \<le> k - ?l \<longrightarrow> m \<le> n"
      using Cons.IH [OF r1(2), of "calls @ [?c]"] by blast
    have "m \<le> Suc n" if "m \<le> length (p # ps)" "length (log_bytes i (take m (p # ps))) \<le> k" for m
      using that m(4) True by (cases m) auto
    then show ?thesis
      using r1(1) m(1-3) by (intro exI [of _ "Suc n"] exI [of _ "?c # more"] exI [of _ r']) (simp add: read_loop.simps [of calls r])
  next
    case False
    then obtain r1 where r1: "ReadRecord r = Some (False, [], r1)" "lr_reporter r1 = Some []"
      using o by (auto simp: read_outcome_def)
    have "m \<le> 0" if "length (log_bytes i (take m (p # ps))) \<le> k" for m
      using that False by (cases m) auto
    then show ?thesis
      using r1 by (intro exI [of _ 0] exI [of _ "[]"] exI [of _ r1]) (simp add: read_loop.simps [of calls r])
  qed
qed

lemma PrintLogContents_log:
  "\<exists>n calls r'. PrintLogContents addr \<lparr>sf_bytes = take k (log_bytes 0 ps), sf_faults = []\<rparr> = Some (calls, r') \<and>
     map snd calls = take n ps \<and> lr_reporter r' = Some [] \<and>
     (\<forall>m. m \<le> length ps \<longrightarrow> length (log_bytes 0 (take m ps)) \<le> k \<longrightarrow> m \<le> n)"
proof -
  have "reads_at (Reader addr \<lparr>sf_bytes = take k (log_bytes 0 ps), sf_faults = []\<rparr> (Some []) True 0) 32768
      (take k (log_bytes 32768 ps))"
    by (simp add: reads_at_def Reader_def log_bytes_block)
  from read_loop_log [OF this, of "[]"] show ?thesis by (simp add: PrintLogContents_def log_bytes_block)
qed

definition empty_file :: WritableFile where "empty_file = \<lparr>wf_bytes = [], wf_faults = []\<rparr>"

definition reopen :: "nat \<Rightarrow> LogWriter \<Rightarrow> LogWriter" where
  "reopen addr w = Writer_at addr (lw_dest w) (of_nat (length (wf_bytes (lw_dest w))))"

lemma Writer_ok: "writer_ok (Writer addr empty_file)"
  by (auto simp: writer_ok_def Writer_def empty_file_def)

text \<open>A writer that reopens the log goes on as the one that wrote it would.\<close>

lemma reopen_log:
  assumes "w1 = emitted (log_bytes 0 ps) (log_end 0 ps) (Writer a empty_file)" and "length (log_bytes 0 ps) < 2 ^ 64"
  shows "\<exists>w2. write_log addr qs (reopen a2 w1) = Inr (True, w2) \<and> wf_bytes (lw_dest w2) = log_bytes 0 (ps @ qs)"
proof -
  let ?j = "log_end 0 ps" and ?w = "reopen a2 w1"
  have b: "wf_bytes (lw_dest ?w) = log_bytes 0 ps" "wf_faults (lw_dest ?w) = []"
    using assms(1) by (simp_all add: reopen_def Writer_at_def Writer_def empty_file_def emitted_def)
  have "lw_block_offset ?w = length (log_bytes 0 ps) mod 32768"
    using assms by (simp add: reopen_def Writer_at_def Writer_def empty_file_def emitted_def kBlockSize_def unat_of_nat)
  also have "\<dots> = ?j mod 32768" using log_mod [of 0 ps] by simp
  finally have off: "lw_block_offset ?w = ?j mod 32768" .
  have "?j mod 32768 = (if ?j = 32768 then 0 else ?j)" using log_end_le [of 0 ps] by auto
  then have same: "log_bytes (?j mod 32768) qs = log_bytes ?j qs" using log_bytes_block by simp
  have "writer_ok ?w" using off b(2) by (auto simp: writer_ok_def reopen_def Writer_at_def)
  from write_log_ok [OF this] show ?thesis using b(1) off same by (simp add: log_bytes_append)
qed

text \<open>
  C16: crash recovery of the record log. Writing never trips an assertion; whatever records \<open>rs1\<close>
  were added, then \<open>rs2\<close> by the same writer or by one that reopened the file, if the file is cut off at any
  byte \<open>k\<close> after the first part, reading until the end returns exactly \<open>rs1\<close> followed
  by a prefix of \<open>rs2\<close>, byte for byte across all block boundaries, and reports no corruption;
  and it returns everything if nothing was cut off.
\<close>

theorem log_recovery:
  "\<exists>w1. write_log addr rs1 (Writer addr empty_file) = Inr (True, w1) \<and>
     (\<forall>w. w = w1 \<or> w = reopen addr2 w1 \<and> length (wf_bytes (lw_dest w1)) < 2 ^ 64 \<longrightarrow>
       (\<exists>w2. write_log addr rs2 w = Inr (True, w2) \<and>
         (\<forall>k. length (wf_bytes (lw_dest w1)) \<le> k \<longrightarrow>
           (\<exists>n calls r'. PrintLogContents addr3 \<lparr>sf_bytes = take k (wf_bytes (lw_dest w2)), sf_faults = []\<rparr> = Some (calls, r') \<and>
              map snd calls = rs1 @ take n rs2 \<and> lr_reporter r' = Some [] \<and>
              (length (wf_bytes (lw_dest w2)) \<le> k \<longrightarrow> map snd calls = rs1 @ rs2)))))"
proof -
  let ?w1 = "emitted (log_bytes 0 rs1) (log_end 0 rs1) (Writer addr empty_file)"
  have o: "lw_block_offset (Writer addr empty_file) = 0" "wf_bytes (lw_dest (Writer addr empty_file)) = []"
    by (simp_all add: Writer_def empty_file_def)
  have w1: "write_log addr rs1 (Writer addr empty_file) = Inr (True, ?w1)"
    using write_log_ok [OF Writer_ok] o by simp
  have b1: "wf_bytes (lw_dest ?w1) = log_bytes 0 rs1" using o by simp
  have ok: "writer_ok ?w1" using Writer_ok log_end_le [of 0 rs1] by simp
  have w2: "\<exists>w2. write_log addr rs2 w = Inr (True, w2) \<and> wf_bytes (lw_dest w2) = log_bytes 0 (rs1 @ rs2)"
    if "w = ?w1 \<or> w = reopen addr2 ?w1 \<and> length (wf_bytes (lw_dest ?w1)) < 2 ^ 64" for w
    using that write_log_ok [OF ok, of addr rs2] reopen_log [OF refl, of rs1 addr rs2 addr2 addr] o
    by (auto simp: log_bytes_append)
  have rd: "\<exists>n calls r'. PrintLogContents addr3 \<lparr>sf_bytes = take k (log_bytes 0 (rs1 @ rs2)), sf_faults = []\<rparr> = Some (calls, r') \<and>
      map snd calls = rs1 @ take n rs2 \<and> lr_reporter r' = Some [] \<and>
      (length (log_bytes 0 (rs1 @ rs2)) \<le> k \<longrightarrow> map snd calls = rs1 @ rs2)" if k: "length (log_bytes 0 rs1) \<le> k" for k
  proof -
    obtain n calls r' where r': "PrintLogContents addr3 \<lparr>sf_bytes = take k (log_bytes 0 (rs1 @ rs2)), sf_faults = []\<rparr> = Some (calls, r')"
      "map snd calls = take n (rs1 @ rs2)" "lr_reporter r' = Some []"
      "\<forall>m. m \<le> length (rs1 @ rs2) \<longrightarrow> length (log_bytes 0 (take m (rs1 @ rs2))) \<le> k \<longrightarrow> m \<le> n"
      using PrintLogContents_log by blast
    have "length rs1 \<le> n" using r'(4) [rule_format, of "length rs1"] k by simp
    then have "map snd calls = rs1 @ take (n - length rs1) rs2" using r'(2) by simp
    moreover have "map snd calls = rs1 @ rs2" if "length (log_bytes 0 (rs1 @ rs2)) \<le> k"
      using r'(4) [rule_format, of "length (rs1 @ rs2)"] that r'(2) by simp
    ultimately show ?thesis using r'(1,3) by blast
  qed
  show ?thesis using w1 w2 rd b1 by (intro exI [of _ ?w1]) fastforce
qed

theorem log_recovery_witness:
  "\<exists>w1 w2 calls r'. write_log 0 [[1, 2, 3]] (Writer 0 empty_file) = Inr (True, w1) \<and>
     write_log 0 [[], [4, 5]] w1 = Inr (True, w2) \<and>
     PrintLogContents 0 \<lparr>sf_bytes = wf_bytes (lw_dest w2), sf_faults = []\<rparr> = Some (calls, r') \<and>
     map snd calls = [[1, 2, 3], [], [4, 5]] \<and> lr_reporter r' = Some []"
proof -
  obtain w1 where w1: "write_log 0 [[1, 2, 3]] (Writer 0 empty_file) = Inr (True, w1)"
    and rest: "\<exists>w2. write_log 0 [[], [4, 5]] w1 = Inr (True, w2) \<and>
      (\<forall>k. length (wf_bytes (lw_dest w1)) \<le> k \<longrightarrow>
        (\<exists>n calls r'. PrintLogContents 0 \<lparr>sf_bytes = take k (wf_bytes (lw_dest w2)), sf_faults = []\<rparr> = Some (calls, r') \<and>
          map snd calls = [[1, 2, 3]] @ take n [[], [4, 5]] \<and> lr_reporter r' = Some [] \<and>
          (length (wf_bytes (lw_dest w2)) \<le> k \<longrightarrow> map snd calls = [[1, 2, 3]] @ [[], [4, 5]])))"
    using log_recovery [of 0 "[[1, 2, 3]]" 0 "[[], [4, 5]]" 0] by blast
  then obtain w2 where w2: "write_log 0 [[], [4, 5]] w1 = Inr (True, w2)"
    and all: "\<And>k. length (wf_bytes (lw_dest w1)) \<le> k \<Longrightarrow>
        \<exists>n calls r'. PrintLogContents 0 \<lparr>sf_bytes = take k (wf_bytes (lw_dest w2)), sf_faults = []\<rparr> = Some (calls, r') \<and>
          map snd calls = [[1, 2, 3]] @ take n [[], [4, 5]] \<and> lr_reporter r' = Some [] \<and>
          (length (wf_bytes (lw_dest w2)) \<le> k \<longrightarrow> map snd calls = [[1, 2, 3]] @ [[], [4, 5]])"
    by blast
  obtain calls r' where "PrintLogContents 0 \<lparr>sf_bytes = wf_bytes (lw_dest w2), sf_faults = []\<rparr> = Some (calls, r')"
    "lr_reporter r' = Some []" "map snd calls = [[1, 2, 3], [], [4, 5]]"
    using all [of "length (wf_bytes (lw_dest w1)) + length (wf_bytes (lw_dest w2))"] by auto
  then show ?thesis
    using w1 w2 by (intro exI [of _ w1] exI [of _ w2] exI [of _ calls] exI [of _ r']) simp
qed

end
