(* ===== verification/Filters.thy ===== *)
theory Filters
  imports Coding
begin

text \<open>
  The Bloom filters of the dLSM baseline: the hash (\<open>src/dLSM/util/hash.cc\<close>), the built-in policy
  (\<open>util/bloom.cc\<close>), the block of filters per two kilobytes of data (\<open>table/filter_block.cc\<close>)
  and the filter of a whole table (\<open>table/full_filter_block.cc\<close>) with its probes inside one cache line
  (\<open>util/bloom_impl.h\<close>).  None of them clears the memory that it builds a filter in, so what this
  memory holds before is a parameter.
\<close>

unbundle bit_operations_syntax

section \<open>Hash\<close>

definition murmur_m :: u32 where "murmur_m = 0xc6a4a793"

function Hash_loop :: "u8 list \<Rightarrow> u32 \<Rightarrow> u32 \<times> u8 list" where
  "Hash_loop data h =
     (if 4 \<le> length data
      then let h = (h + DecodeFixed32 data) * murmur_m in Hash_loop (drop 4 data) (h XOR drop_bit 16 h)
      else (h, data))"
  by pat_completeness auto
termination Hash_loop
  by (relation "measure (\<lambda>(d, h). length d)") auto

definition Hash_tail :: "u8 list \<Rightarrow> u32 \<Rightarrow> u32" where
  "Hash_tail data h =
     (let h = (if 3 \<le> length data then h + push_bit 16 (scast (data ! 2)) else h);
          h = (if 2 \<le> length data then h + push_bit 8 (scast (data ! 1)) else h)
      in if 1 \<le> length data
         then let h = (h + scast (data ! 0)) * murmur_m in h XOR drop_bit 24 h
         else h)"

definition Hash :: "u8 list \<Rightarrow> u32 \<Rightarrow> u32" where
  "Hash data seed =
     (let (h, rest) = Hash_loop data (seed XOR of_nat (length data) * murmur_m) in Hash_tail rest h)"

definition BloomHash :: "u8 list \<Rightarrow> u32" where "BloomHash key = Hash key 0xbc9f1d34"

section \<open>Probing\<close>

text \<open>The bit at position \<open>p\<close> behind byte \<open>b\<close> of an array of bytes.\<close>

definition set_bitpos :: "nat \<Rightarrow> nat \<Rightarrow> u8 list \<Rightarrow> u8 list" where
  "set_bitpos b p a = a[b + p div 8 := a ! (b + p div 8) OR push_bit (p mod 8) 1]"

definition test_bitpos :: "nat \<Rightarrow> nat \<Rightarrow> u8 list \<Rightarrow> bool" where
  "test_bitpos b p a \<longleftrightarrow> a ! (b + p div 8) AND push_bit (p mod 8) 1 \<noteq> 0"

definition bloom_delta :: "u32 \<Rightarrow> u32" where "bloom_delta h = drop_bit 17 h OR push_bit 15 h"

text \<open>Without locality: every probe ranges over all bits.\<close>

primrec add_probes :: "nat \<Rightarrow> nat \<Rightarrow> u32 \<Rightarrow> u32 \<Rightarrow> u8 list \<Rightarrow> u8 list" where
  "add_probes 0 bits delta h a = a"
| "add_probes (Suc k) bits delta h a = add_probes k bits delta (h + delta) (set_bitpos 0 (unat h mod bits) a)"

primrec match_probes :: "nat \<Rightarrow> nat \<Rightarrow> u32 \<Rightarrow> u32 \<Rightarrow> u8 list \<Rightarrow> bool" where
  "match_probes 0 bits delta h a = True"
| "match_probes (Suc k) bits delta h a =
     (if \<not> test_bitpos 0 (unat h mod bits) a then False else match_probes k bits delta (h + delta) a)"

definition ChooseNumProbes :: "nat \<Rightarrow> nat" where
  "ChooseNumProbes bits_per_key = (let k = bits_per_key * 69 div 100 in if k < 1 then 1 else if k > 30 then 30 else k)"

definition NoLocality_AddHash :: "u32 \<Rightarrow> u32 \<Rightarrow> nat \<Rightarrow> u8 list \<Rightarrow> u8 list" where
  "NoLocality_AddHash h total_bits num_probes data = add_probes num_probes (unat total_bits) (bloom_delta h) h data"

definition NoLocality_HashMayMatch :: "u32 \<Rightarrow> u32 \<Rightarrow> nat \<Rightarrow> u8 list \<Rightarrow> bool" where
  "NoLocality_HashMayMatch h total_bits num_probes data = match_probes num_probes (unat total_bits) (bloom_delta h) h data"

text \<open>With locality, without extra rotations: the probes stay in one cache line.\<close>

definition CACHE_LINE_SIZE :: nat where "CACHE_LINE_SIZE = 64"
definition log2_cache_line :: nat where "log2_cache_line = 6"

definition GetLine :: "u32 \<Rightarrow> u32 \<Rightarrow> u32" where "GetLine h num_lines = h mod num_lines"

definition line_bitpos :: "nat \<Rightarrow> u32 \<Rightarrow> nat" where
  "line_bitpos log2_bytes h = unat (h AND (push_bit (log2_bytes + 3) 1 - 1))"

primrec add_in_line :: "nat \<Rightarrow> nat \<Rightarrow> nat \<Rightarrow> u32 \<Rightarrow> u32 \<Rightarrow> u8 list \<Rightarrow> u8 list" where
  "add_in_line 0 b lg delta h a = a"
| "add_in_line (Suc k) b lg delta h a = add_in_line k b lg delta (h + delta) (set_bitpos b (line_bitpos lg h) a)"

primrec HashMayMatchPrepared_loop :: "nat \<Rightarrow> nat \<Rightarrow> nat \<Rightarrow> u32 \<Rightarrow> u32 \<Rightarrow> u8 list \<Rightarrow> bool" where
  "HashMayMatchPrepared_loop 0 b lg delta h a = True"
| "HashMayMatchPrepared_loop (Suc k) b lg delta h a =
     (if \<not> test_bitpos b (line_bitpos lg h) a then False else HashMayMatchPrepared_loop k b lg delta (h + delta) a)"

definition Locality_AddHash :: "u32 \<Rightarrow> u32 \<Rightarrow> nat \<Rightarrow> nat \<Rightarrow> u8 list \<Rightarrow> u8 list" where
  "Locality_AddHash h num_lines num_probes lg data =
     add_in_line num_probes (unat (push_bit lg (GetLine h num_lines))) lg (bloom_delta h) h data"

definition PrepareHashMayMatch :: "u32 \<Rightarrow> u32 \<Rightarrow> nat \<Rightarrow> u32" where
  "PrepareHashMayMatch h num_lines lg = push_bit lg (GetLine h num_lines)"

definition HashMayMatchPrepared :: "u32 \<Rightarrow> nat \<Rightarrow> u8 list \<Rightarrow> nat \<Rightarrow> nat \<Rightarrow> bool" where
  "HashMayMatchPrepared h num_probes data byte_offset lg =
     HashMayMatchPrepared_loop num_probes byte_offset lg (bloom_delta h) h data"

definition Locality_HashMayMatch :: "u32 \<Rightarrow> u32 \<Rightarrow> nat \<Rightarrow> u8 list \<Rightarrow> nat \<Rightarrow> bool" where
  "Locality_HashMayMatch h num_lines num_probes data lg =
     (let b = push_bit lg (GetLine h num_lines) in HashMayMatchPrepared h num_probes data (unat b) lg)"

section \<open>The built-in policy\<close>

definition policy_k :: "nat \<Rightarrow> nat" where
  "policy_k bits_per_key =
     (let k = bits_per_key * 69 div 100; k = (if k < 1 then 1 else k) in if k > 30 then 30 else k)"

definition CreateFilter :: "nat \<Rightarrow> (nat \<Rightarrow> u8) \<Rightarrow> u8 list list \<Rightarrow> u8 list \<Rightarrow> u8 list result" where
  "CreateFilter bits_per_key mem keys dst =
     (let k = policy_k bits_per_key;
          bits = length keys * bits_per_key;
          bits = (if bits < 64 then 64 else bits);
          bytes = (bits + 7) div 8;
          bits = bytes * 8;
          init_size = length dst
      in res_bind (res_assert ''init_size + bytes < 1024*1024*1024'' (init_size + bytes < 1024 * 1024 * 1024)) (\<lambda>_.
         let array = fold (\<lambda>key a. let h = BloomHash key in add_probes k bits (bloom_delta h) h a) keys
                       (map mem [init_size..<init_size + bytes])
         in Inr (dst @ array @ [of_nat k])))"

definition KeyMayMatch :: "u8 list \<Rightarrow> u8 list \<Rightarrow> bool" where
  "KeyMayMatch key bloom_filter =
     (let len = length bloom_filter in
      if len < 2 then False
      else let bits = (len - 1) * 8; k = unat (scast (bloom_filter ! (len - 1)) :: u64) in
      if 30 < k then True
      else let h = BloomHash key in match_probes k bits (bloom_delta h) h bloom_filter)"

section \<open>Filters per two kilobytes of data\<close>

definition kFilterBaseLg :: nat where "kFilterBaseLg = 11"
definition kFilterBase :: u64 where "kFilterBase = push_bit kFilterBaseLg 1"

text \<open>The keys that wait for their filter lie flattened in one string; \<open>start_\<close> has where each begins.\<close>

record FilterBlockBuilder =
  fb_bits_per_key :: nat
  fb_mem :: "nat \<Rightarrow> u8"
  fb_result :: "u8 list"
  fb_keys :: "u8 list"
  fb_start :: "nat list"
  fb_filter_offsets :: "u32 list"

definition new_FilterBlockBuilder :: "nat \<Rightarrow> (nat \<Rightarrow> u8) \<Rightarrow> FilterBlockBuilder" where
  "new_FilterBlockBuilder bits_per_key mem =
     \<lparr>fb_bits_per_key = bits_per_key, fb_mem = mem, fb_result = [], fb_keys = [], fb_start = [], fb_filter_offsets = []\<rparr>"

definition tmp_keys :: "u8 list \<Rightarrow> nat list \<Rightarrow> u8 list list" where
  "tmp_keys keys start =
     map (\<lambda>i. take (start ! (i + 1) - start ! i) (drop (start ! i) keys)) [0..<length start - 1]"

definition GenerateFilter :: "FilterBlockBuilder \<Rightarrow> FilterBlockBuilder result" where
  "GenerateFilter fb =
     (if fb_start fb = []
      then Inr (fb\<lparr>fb_filter_offsets := fb_filter_offsets fb @ [of_nat (length (fb_result fb))]\<rparr>)
      else let start = fb_start fb @ [length (fb_keys fb)];
               tmp = tmp_keys (fb_keys fb) start;
               offsets = fb_filter_offsets fb @ [of_nat (length (fb_result fb))]
      in res_bind (CreateFilter (fb_bits_per_key fb) (fb_mem fb) tmp (fb_result fb)) (\<lambda>res.
         Inr (fb\<lparr>fb_result := res, fb_keys := [], fb_start := [], fb_filter_offsets := offsets\<rparr>)))"

lemma GenerateFilter_offsets:
  "GenerateFilter fb = Inr fb' \<Longrightarrow> fb_filter_offsets fb' = fb_filter_offsets fb @ [of_nat (length (fb_result fb))]"
  by (auto simp: GenerateFilter_def res_bind_eq_Inr Let_def split: if_splits)

function StartBlock_loop :: "nat \<Rightarrow> FilterBlockBuilder \<Rightarrow> FilterBlockBuilder result" where
  "StartBlock_loop filter_index fb =
     (if length (fb_filter_offsets fb) < filter_index
      then case GenerateFilter fb of Inl e \<Rightarrow> Inl e | Inr fb' \<Rightarrow> StartBlock_loop filter_index fb'
      else Inr fb)"
  by pat_completeness auto
termination StartBlock_loop
  by (relation "measure (\<lambda>(i, fb). i - length (fb_filter_offsets fb))") (auto dest!: GenerateFilter_offsets)

declare StartBlock_loop.simps [simp del]

definition StartBlock :: "u64 \<Rightarrow> FilterBlockBuilder \<Rightarrow> FilterBlockBuilder result" where
  "StartBlock block_offset fb =
     (let filter_index = unat (block_offset div kFilterBase)
      in res_bind (res_assert ''filter_index >= filter_offsets_.size()'' (length (fb_filter_offsets fb) \<le> filter_index)) (\<lambda>_.
         StartBlock_loop filter_index fb))"

definition fb_CurrentSizeEstimate :: "FilterBlockBuilder \<Rightarrow> nat" where
  "fb_CurrentSizeEstimate fb = length (fb_result fb) + length (fb_filter_offsets fb) * 4 + 5"

definition fb_AddKey :: "u8 list \<Rightarrow> FilterBlockBuilder \<Rightarrow> FilterBlockBuilder" where
  "fb_AddKey key fb = fb\<lparr>fb_start := fb_start fb @ [length (fb_keys fb)], fb_keys := fb_keys fb @ key\<rparr>"

definition fb_Finish :: "FilterBlockBuilder \<Rightarrow> FilterBlockBuilder result" where
  "fb_Finish fb =
     res_bind (if fb_start fb \<noteq> [] then GenerateFilter fb else Inr fb) (\<lambda>fb.
     let array_offset = of_nat (length (fb_result fb));
         result = fold (\<lambda>x res. PutFixed32 res x) (fb_filter_offsets fb) (fb_result fb);
         result = PutFixed32 result array_offset
     in Inr (fb\<lparr>fb_result := result @ [of_nat kFilterBaseLg]\<rparr>))"

record FilterBlockReader =
  fr_data :: "u8 list"
  fr_offset :: nat
  fr_num :: nat
  fr_base_lg :: u64

definition new_FilterBlockReader :: "u8 list \<Rightarrow> FilterBlockReader" where
  "new_FilterBlockReader contents =
     (let n = length contents; r = \<lparr>fr_data = [], fr_offset = 0, fr_num = 0, fr_base_lg = 0\<rparr> in
      if n < 5 then r
      else let r = r\<lparr>fr_base_lg := scast (contents ! (n - 1))\<rparr>;
               last_word = unat (DecodeFixed32 (drop (n - 5) contents))
      in if n - 5 < last_word then r
         else r\<lparr>fr_data := contents, fr_offset := last_word, fr_num := (n - 5 - last_word) div 4\<rparr>)"

definition fr_KeyMayMatch :: "FilterBlockReader \<Rightarrow> u64 \<Rightarrow> u8 list \<Rightarrow> bool" where
  "fr_KeyMayMatch r block_offset key =
     (let index = unat (drop_bit (unat (fr_base_lg r)) block_offset) in
      if index < fr_num r
      then let start = unat (DecodeFixed32 (drop (fr_offset r + index * 4) (fr_data r)));
               limit = unat (DecodeFixed32 (drop (fr_offset r + index * 4 + 4) (fr_data r)))
      in if start \<le> limit \<and> limit \<le> fr_offset r
         then KeyMayMatch key (take (limit - start) (drop start (fr_data r)))
         else if start = limit then False else True
      else True)"

section \<open>The filter of a whole table\<close>

text \<open>\<open>ff_mem\<close> is the registered memory that the filter is built in; the filter is its first \<open>ff_size\<close> bytes.\<close>

record FullFilterBlockBuilder =
  ff_mem :: "u8 list"
  ff_bits_per_key :: nat
  ff_num_probes :: nat
  ff_size :: nat
  ff_hash_entries :: "u32 list"

definition new_FullFilterBlockBuilder :: "u8 list \<Rightarrow> nat \<Rightarrow> FullFilterBlockBuilder" where
  "new_FullFilterBlockBuilder mem bits_per_key =
     \<lparr>ff_mem = mem, ff_bits_per_key = bits_per_key, ff_num_probes = ChooseNumProbes bits_per_key, ff_size = 0,
      ff_hash_entries = []\<rparr>"

definition RestartBlock :: "FullFilterBlockBuilder \<Rightarrow> FullFilterBlockBuilder" where
  "RestartBlock ff = ff\<lparr>ff_hash_entries := []\<rparr>"

definition ff_AddKey :: "u8 list \<Rightarrow> FullFilterBlockBuilder \<Rightarrow> FullFilterBlockBuilder" where
  "ff_AddKey key ff =
     (let hash = BloomHash key
      in if ff_hash_entries ff = [] \<or> hash \<noteq> last (ff_hash_entries ff)
         then ff\<lparr>ff_hash_entries := ff_hash_entries ff @ [hash]\<rparr> else ff)"

definition ff_AddHash :: "nat \<Rightarrow> u32 \<Rightarrow> u32 \<Rightarrow> u32 \<Rightarrow> u8 list \<Rightarrow> u8 list result" where
  "ff_AddHash num_probes h num_lines total_bits data =
     res_bind (res_assert ''num_lines > 0 && total_bits > 0'' (0 < num_lines \<and> 0 < total_bits)) (\<lambda>_.
     Inr (Locality_AddHash h num_lines num_probes log2_cache_line data))"

definition GetTotalBitsForLocality :: "u32 \<Rightarrow> u32" where
  "GetTotalBitsForLocality total_bits =
     (let line_bits = of_nat CACHE_LINE_SIZE * 8;
          num_lines = (total_bits + line_bits - 1) div line_bits;
          num_lines = (if num_lines mod 2 = 0 then num_lines + 1 else num_lines)
      in num_lines * line_bits)"

definition CalculateSpace :: "nat \<Rightarrow> nat \<Rightarrow> (u32 \<times> u32 \<times> u32) result" where
  "CalculateSpace bits_per_key num_entry =
     res_bind (res_assert ''bits_per_key_'' (bits_per_key \<noteq> 0)) (\<lambda>_.
     if num_entry \<noteq> 0
     then if 2 ^ 31 \<le> num_entry * bits_per_key then Inl IntOverflow
          else let total_bits = GetTotalBitsForLocality (of_nat (num_entry * bits_per_key));
                   num_lines = total_bits div (of_nat CACHE_LINE_SIZE * 8)
          in res_bind (res_assert ''*total_bits > 0 && *total_bits % 8 == 0'' (0 < total_bits \<and> total_bits mod 8 = 0)) (\<lambda>_.
             Inr (total_bits div 8 + 5, total_bits, num_lines))
     else Inr (5, 0, 0))"

fun add_hashes :: "nat \<Rightarrow> u32 \<Rightarrow> u32 \<Rightarrow> u32 list \<Rightarrow> u8 list \<Rightarrow> u8 list result" where
  "add_hashes num_probes num_lines total_bits [] data = Inr data"
| "add_hashes num_probes num_lines total_bits (h # hs) data =
     res_bind (ff_AddHash num_probes h num_lines total_bits data) (add_hashes num_probes num_lines total_bits hs)"

definition ff_Finish :: "FullFilterBlockBuilder \<Rightarrow> FullFilterBlockBuilder result" where
  "ff_Finish ff =
     res_bind (CalculateSpace (ff_bits_per_key ff) (length (ff_hash_entries ff))) (\<lambda>(sz, total_bits, num_lines).
     res_bind (res_assert ''total_bits%8 == 0'' (total_bits mod 8 = 0)) (\<lambda>_.
     let len = unat (total_bits div 8) in
     res_bind (res_assert ''total_bits/8 + 5 <= local_mr->length'' (len + 5 \<le> length (ff_mem ff))) (\<lambda>_.
     res_bind (if total_bits \<noteq> 0 \<and> num_lines \<noteq> 0
               then add_hashes (ff_num_probes ff) num_lines total_bits (ff_hash_entries ff) (ff_mem ff)
               else Inr (ff_mem ff)) (\<lambda>data.
     let data = data[len := of_nat (ff_num_probes ff)];
         data = take (len + 1) data @ EncodeFixed32 num_lines @ drop (len + 5) data
     in Inr (ff\<lparr>ff_mem := data, ff_hash_entries := [], ff_size := len + 5\<rparr>)))))"

definition ff_Reset :: "FullFilterBlockBuilder \<Rightarrow> FullFilterBlockBuilder" where "ff_Reset ff = ff\<lparr>ff_size := 0\<rparr>"

definition ff_contents :: "FullFilterBlockBuilder \<Rightarrow> u8 list" where "ff_contents ff = take (ff_size ff) (ff_mem ff)"

record FullFilterBlockReader =
  fl_data :: "u8 list"
  fl_num_probes :: int
  fl_num_lines :: u32
  fl_log2_cache_line_size :: nat

definition new_FullFilterBlockReader :: "u8 list \<Rightarrow> FullFilterBlockReader result" where
  "new_FullFilterBlockReader contents =
     (let n = length contents in
      if n < 5 then Inl OutOfBounds
      else let num_probes = sint (contents ! (n - 5));
               r = \<lparr>fl_data = contents, fl_num_probes = num_probes, fl_num_lines = 0, fl_log2_cache_line_size = 0\<rparr>
      in if num_probes < 1 then Inr r
         else let len = n - 5 in
         res_bind (res_assert ''len > 0'' (0 < len)) (\<lambda>_.
         let num_lines = DecodeFixed32 (drop (n - 4) contents); r = r\<lparr>fl_num_lines := num_lines\<rparr>
         in if num_lines * of_nat CACHE_LINE_SIZE = of_nat len
            then Inr (r\<lparr>fl_log2_cache_line_size := log2_cache_line\<rparr>)
            else if num_lines = 0 \<or> of_nat len mod num_lines \<noteq> 0 then Inl (AssertFail ''corrupt bloom filter'')
            else Inr r))"

text \<open>Without lines the code divides by zero.\<close>

definition fl_KeyMayMatch :: "FullFilterBlockReader \<Rightarrow> u8 list \<Rightarrow> bool result" where
  "fl_KeyMayMatch r key =
     (let hash = BloomHash key in
      if fl_num_lines r = 0 then Inl (AssertFail ''division by zero'')
      else let byte_offset = PrepareHashMayMatch hash (fl_num_lines r) (fl_log2_cache_line_size r)
      in Inr (HashMayMatchPrepared hash (nat (fl_num_probes r)) (fl_data r) (unat byte_offset) (fl_log2_cache_line_size r)))"

end
