(* ===== verification/FilterCorrect.thy ===== *)
theory FilterCorrect
  imports Filters
begin

text \<open>
  No filter of the LSM tree loses a key: the laws of the probes (locale \<open>hash_filter\<close>, interpreted for the
  probes over a whole filter and for those in one cache line), the invariant of the filter block builder
  and the layouts that the readers decode.
\<close>

section \<open>No probe is lost\<close>

text \<open>What the clients of a filter rely on: adding a hash makes it match and unmatches none.\<close>

locale hash_filter =
  fixes ok :: "u8 list \<Rightarrow> bool"
    and add :: "u32 \<Rightarrow> u8 list \<Rightarrow> u8 list"
    and may :: "u32 \<Rightarrow> u8 list \<Rightarrow> bool"
  assumes add_ok: "ok a \<Longrightarrow> ok (add h a)"
    and add_may: "ok a \<Longrightarrow> may h (add h a)"
    and add_keeps: "ok a \<Longrightarrow> may h a \<Longrightarrow> may h (add g a)"
begin

lemma fold_ok: "ok a \<Longrightarrow> ok (fold add hs a)"
  by (induction hs arbitrary: a) (simp_all add: add_ok)

lemma fold_keeps: "ok a \<Longrightarrow> may h a \<Longrightarrow> may h (fold add hs a)"
  by (induction hs arbitrary: a) (simp_all add: add_ok add_keeps)

lemma fold_may: "ok a \<Longrightarrow> h \<in> set hs \<Longrightarrow> may h (fold add hs a)"
  by (induction hs arbitrary: a) (auto simp: add_ok intro: fold_keeps add_may)

end

lemma length_set_bitpos [simp]: "length (set_bitpos b p a) = length a"
  by (simp add: set_bitpos_def)

lemma and_or_nonzero: "x AND z \<noteq> 0 \<Longrightarrow> (x OR y) AND z \<noteq> (0 :: u8)"
  by (metis bit.conj_disj_distrib2 or_eq_0_iff)

lemma test_set_keeps: "test_bitpos b p a \<Longrightarrow> test_bitpos b p (set_bitpos c q a)"
  by (cases "c + q div 8 < length a") (auto simp: test_bitpos_def set_bitpos_def nth_list_update and_or_nonzero list_update_beyond)

lemma test_set: "b + p div 8 < length a \<Longrightarrow> test_bitpos b p (set_bitpos b p a)"
proof -
  have "bit (push_bit (p mod 8) (1 :: u8)) (p mod 8)" by (simp add: bit_simps)
  then have "push_bit (p mod 8) (1 :: u8) \<noteq> 0" by (metis bit_0_eq bot_apply bot_bool_def)
  then have "(x OR push_bit (p mod 8) 1) AND push_bit (p mod 8) 1 \<noteq> (0 :: u8)" for x
    by (metis and.commute and.idem and_or_nonzero or.commute)
  then show "b + p div 8 < length a \<Longrightarrow> test_bitpos b p (set_bitpos b p a)"
    by (simp add: test_bitpos_def set_bitpos_def)
qed

lemma add_probes_keeps: "test_bitpos b p a \<Longrightarrow> test_bitpos b p (add_probes k bits d h a)"
  by (induction k arbitrary: h a) (simp_all add: test_set_keeps)

lemma length_add_probes [simp]: "length (add_probes k bits d h a) = length a"
  by (induction k arbitrary: h a) simp_all

lemma match_probes_mono:
  "match_probes k bits d h a \<Longrightarrow> (\<And>p. test_bitpos 0 p a \<Longrightarrow> test_bitpos 0 p a') \<Longrightarrow> match_probes k bits d h a'"
  by (induction k arbitrary: h) (simp_all split: if_splits)

lemma match_add_probes: "0 < bits \<Longrightarrow> bits = 8 * length a \<Longrightarrow> match_probes k bits d h (add_probes k bits d h a)"
proof (induction k arbitrary: h a)
  case (Suc k)
  have "unat h mod bits < bits" using Suc.prems(1) by simp
  then have "unat h mod bits div 8 < length a" using Suc.prems(2) by linarith
  moreover have "match_probes k bits d (h + d) (add_probes k bits d (h + d) (set_bitpos 0 (unat h mod bits) a))"
    using Suc.IH [of "set_bitpos 0 (unat h mod bits) a" "h + d"] Suc.prems by (simp only: length_set_bitpos)
  ultimately show ?case by (simp add: add_probes_keeps test_set)
qed simp

lemma add_in_line_keeps: "test_bitpos b p a \<Longrightarrow> test_bitpos b p (add_in_line k c lg d h a)"
  by (induction k arbitrary: h a) (simp_all add: test_set_keeps)

lemma length_add_in_line [simp]: "length (add_in_line k b lg d h a) = length a"
  by (induction k arbitrary: h a) simp_all

lemma match_in_line_mono:
  "HashMayMatchPrepared_loop k b lg d h a \<Longrightarrow> (\<And>p. test_bitpos b p a \<Longrightarrow> test_bitpos b p a') \<Longrightarrow>
     HashMayMatchPrepared_loop k b lg d h a'"
  by (induction k arbitrary: h) (simp_all split: if_splits)

lemma line_bitpos_less: "line_bitpos 6 h < 512"
proof -
  have "(push_bit (6 + 3) 1 - 1 :: u32) = mask 9" by (simp add: mask_eq_exp_minus_1 push_bit_eq_mult)
  then have "line_bitpos 6 h = unat (take_bit 9 h)" by (simp add: line_bitpos_def take_bit_eq_mask)
  then show ?thesis by (simp add: unat_take_bit)
qed

lemma match_add_in_line: "b + 64 \<le> length a \<Longrightarrow> HashMayMatchPrepared_loop k b 6 d h (add_in_line k b 6 d h a)"
proof (induction k arbitrary: h a)
  case (Suc k)
  have "b + line_bitpos 6 h div 8 < length a" using Suc.prems line_bitpos_less [of h] by linarith
  then show ?case using Suc by (simp add: add_in_line_keeps test_set)
qed simp

text \<open>The line of a hash lies in the array.\<close>

lemma line_offset:
  assumes "0 < n" and "unat n * 64 < 2 ^ 32"
  shows "unat (push_bit 6 (GetLine h n)) + 64 \<le> unat n * 64"
proof -
  have "unat (h mod n) < unat n" using assms(1) by (simp add: unat_mod word_less_nat_alt)
  moreover from this have "unat (push_bit 6 (h mod n)) = unat (h mod n) * 64"
    using assms(2) by (simp add: push_bit_eq_mult unat_word_ariths)
  ultimately show ?thesis by (simp add: GetLine_def)
qed

interpretation nl: hash_filter "\<lambda>a. 0 < bits \<and> bits = 8 * length a" "\<lambda>h. add_probes k bits (bloom_delta h) h"
    "\<lambda>h. match_probes k bits (bloom_delta h) h" for k bits
  by unfold_locales (auto simp: match_add_probes intro: match_probes_mono add_probes_keeps)

interpretation loc: hash_filter "\<lambda>a. 0 < n \<and> unat n * 64 < 2 ^ 32 \<and> unat n * 64 \<le> length a" "\<lambda>h. Locality_AddHash h n k 6"
    "\<lambda>h a. HashMayMatchPrepared h k a (unat (PrepareHashMayMatch h n 6)) 6" for k n
proof (unfold_locales, goal_cases)
  case (2 a h)
  then have "unat (push_bit 6 (GetLine h n)) + 64 \<le> length a" using line_offset [of n h] by simp
  then show ?case by (simp add: HashMayMatchPrepared_def Locality_AddHash_def PrepareHashMayMatch_def match_add_in_line)
next
  case (3 a h g)
  then show ?case
    by (auto simp: HashMayMatchPrepared_def Locality_AddHash_def intro: match_in_line_mono add_in_line_keeps)
qed (simp add: Locality_AddHash_def)

section \<open>The built-in policy\<close>

lemma policy_k_bounds: "1 \<le> policy_k b \<and> policy_k b \<le> 30"
  by (simp add: policy_k_def Let_def)

lemma match_probes_append:
  "0 < bits \<Longrightarrow> bits = 8 * length a \<Longrightarrow> match_probes k bits d h (a @ r) = match_probes k bits d h a"
proof (induction k arbitrary: h)
  case (Suc k)
  have "unat h mod bits < bits" using Suc.prems(1) by simp
  then have "unat h mod bits div 8 < length a" using Suc.prems(2) by linarith
  then have "test_bitpos 0 (unat h mod bits) (a @ r) = test_bitpos 0 (unat h mod bits) a"
    by (simp add: test_bitpos_def nth_append)
  then show ?case using Suc by simp
qed simp

lemma signed_small:
  assumes "n < 128"
  shows "unat (scast (of_nat n :: u8) :: u64) = n" and "sint (of_nat n :: u8) = int n"
proof -
  have s: "signed_take_bit 7 (int n) = int n" using assms by (intro signed_take_bit_int_eq_self) auto
  then have "(scast (of_nat n :: u8) :: u64) = of_nat n" by (simp add: signed_of_nat)
  then show "unat (scast (of_nat n :: u8) :: u64) = n" using assms by (simp add: unsigned_of_nat take_bit_nat_eq_self)
  show "sint (of_nat n :: u8) = int n" using s by (simp add: signed_of_nat)
qed

lemma CreateFilter_match:
  assumes "CreateFilter b mem keys dst = Inr out"
  shows "\<exists>flt. out = dst @ flt \<and> flt \<noteq> [] \<and> (\<forall>key \<in> set keys. KeyMayMatch key flt)"
proof -
  let ?raw = "if length keys * b < 64 then 64 else length keys * b"
  let ?bytes = "(?raw + 7) div 8" and ?k = "policy_k b"
  let ?bits = "?bytes * 8"
  define add where "add = (\<lambda>h. add_probes ?k ?bits (bloom_delta h) h)"
  define arr where "arr = fold add (map BloomHash keys) (map mem [length dst..<length dst + ?bytes])"
  have out: "out = dst @ arr @ [of_nat ?k]"
    using assms by (auto simp: CreateFilter_def Let_def res_bind_eq_Inr arr_def add_def fold_map comp_def)
  have "64 \<le> ?raw" by simp
  then have b: "0 < ?bits" by linarith
  have ok: "0 < ?bits \<and> ?bits = 8 * length (map mem [length dst..<length dst + ?bytes])" using b by simp
  have len: "length arr = ?bytes"
    using nl.fold_ok [OF ok, of ?k "map BloomHash keys"] unfolding arr_def add_def by simp
  have k: "unat (scast (of_nat ?k :: u8) :: u64) = ?k" using policy_k_bounds [of b] by (intro signed_small(1)) simp
  have "KeyMayMatch key (arr @ [of_nat ?k])" if "key \<in> set keys" for key
  proof -
    have "match_probes ?k ?bits (bloom_delta (BloomHash key)) (BloomHash key) arr"
      using nl.fold_may [OF ok, of "BloomHash key" "map BloomHash keys" ?k] that unfolding arr_def add_def by simp
    then show ?thesis
      using len k policy_k_bounds [of b] match_probes_append [OF b, of arr] b
      unfolding KeyMayMatch_def Let_def by (simp add: nth_append mult.commute)
  qed
  then show ?thesis using out by (intro exI [of _ "arr @ [of_nat ?k]"]) simp
qed

section \<open>Filters per two kilobytes\<close>

text \<open>The offset of the \<open>i\<close>th of consecutive strings.\<close>

abbreviation offs :: "u8 list list \<Rightarrow> nat \<Rightarrow> nat" where "offs F i \<equiv> length (concat (take i F))"

lemma concat_nth_split:
  assumes "i < length F"
  shows "concat F = concat (take i F) @ F ! i @ concat (drop (Suc i) F)" and "offs F (Suc i) = offs F i + length (F ! i)"
proof -
  have "concat (take i F @ F ! i # drop (Suc i) F) = concat (take i F) @ F ! i @ concat (drop (Suc i) F)" by simp
  then show "concat F = concat (take i F) @ F ! i @ concat (drop (Suc i) F)" using id_take_nth_drop [OF assms] by simp
  show "offs F (Suc i) = offs F i + length (F ! i)" using assms by (simp add: take_Suc_conv_app_nth)
qed

lemma slice_nth: "i < length F \<Longrightarrow> take (offs F (Suc i) - offs F i) (drop (offs F i) (concat F @ r)) = F ! i"
  using concat_nth_split [of i F] by simp

lemma tmp_keys_concat: "tmp_keys (concat P) (map (offs P) [0..<Suc (length P)]) = P"
  using slice_nth [of _ P "[]"] by (intro nth_equalityI) (simp_all add: tmp_keys_def del: upt_Suc)

text \<open>
  The state of the builder with the filters \<open>F\<close> written and the keys \<open>P\<close> waiting: each key added
  for an offset matches the filter of that offset or waits for it.
\<close>

definition block_index :: "u64 \<Rightarrow> nat" where "block_index off = unat (off div kFilterBase)"

definition filters_ok :: "(u64 \<times> u8 list) list \<Rightarrow> u8 list list \<Rightarrow> u8 list list \<Rightarrow> FilterBlockBuilder \<Rightarrow> bool" where
  "filters_ok hist F P fb \<longleftrightarrow>
     fb_keys fb = concat P \<and> fb_start fb = map (offs P) [0..<length P] \<and>
     fb_result fb = concat F \<and> fb_filter_offsets fb = map (of_nat \<circ> offs F) [0..<length F] \<and>
     (\<forall>(off, k) \<in> set hist. block_index off < length F \<and> KeyMayMatch k (F ! block_index off) \<or>
        block_index off = length F \<and> k \<in> set P)"

lemma offs_snoc: "map (of_nat \<circ> offs (F @ [x])) [0..<length (F @ [x])] = map (of_nat \<circ> offs F) [0..<length F] @ [of_nat (length (concat F))]"
  by simp

lemma GenerateFilter_ok:
  assumes ok: "filters_ok hist F P fb" and gen: "GenerateFilter fb = Inr fb'"
  shows "\<exists>x. filters_ok hist (F @ [x]) [] fb'"
proof (cases "P = []")
  case True
  then have "filters_ok hist (F @ [[]]) [] fb'"
    using assms by (auto simp: filters_ok_def GenerateFilter_def nth_append)
  then show ?thesis by blast
next
  case False
  then have st: "fb_start fb \<noteq> []" using ok by (simp add: filters_ok_def)
  have tmp: "tmp_keys (fb_keys fb) (fb_start fb @ [length (fb_keys fb)]) = P"
    using ok tmp_keys_concat [of P] by (simp add: filters_ok_def)
  obtain out where out: "CreateFilter (fb_bits_per_key fb) (fb_mem fb) P (fb_result fb) = Inr out"
    "fb' = fb\<lparr>fb_result := out, fb_keys := [], fb_start := [],
       fb_filter_offsets := fb_filter_offsets fb @ [of_nat (length (fb_result fb))]\<rparr>"
    using gen st tmp by (auto simp: GenerateFilter_def Let_def res_bind_eq_Inr)
  obtain flt where flt: "out = fb_result fb @ flt" "\<forall>key \<in> set P. KeyMayMatch key flt"
    using CreateFilter_match [OF out(1)] by blast
  have "filters_ok hist (F @ [flt]) [] fb'"
    using ok out(2) flt by (auto simp: filters_ok_def nth_append)
  then show ?thesis by blast
qed

lemma StartBlock_loop_ok:
  "filters_ok hist F P fb \<Longrightarrow> length F \<le> i \<Longrightarrow> StartBlock_loop i fb = Inr fb' \<Longrightarrow>
     \<exists>F' P'. filters_ok hist F' P' fb' \<and> length F' = i"
proof (induction i fb arbitrary: F P rule: StartBlock_loop.induct)
  case (1 i fb)
  have len: "length (fb_filter_offsets fb) = length F" using 1(2) by (simp add: filters_ok_def)
  show ?case
  proof (cases "length F < i")
    case True
    then obtain fb1 where g: "GenerateFilter fb = Inr fb1" "StartBlock_loop i fb1 = Inr fb'"
      using 1(4) len by (auto simp: StartBlock_loop.simps [of i fb] split: sum.splits)
    obtain x where "filters_ok hist (F @ [x]) [] fb1" using GenerateFilter_ok [OF 1(2) g(1)] by blast
    then show ?thesis using 1(1) g True len by fastforce
  next
    case False
    then show ?thesis using 1 len by (auto simp: StartBlock_loop.simps [of i fb])
  qed
qed

lemma AddKey_ok:
  assumes "filters_ok hist F P fb" and "length F = block_index off"
  shows "filters_ok ((off, k) # hist) F (P @ [k]) (fb_AddKey k fb)"
  using assms by (auto simp: filters_ok_def fb_AddKey_def)

lemma AddKeys_ok:
  "filters_ok hist F P fb \<Longrightarrow> length F = block_index off \<Longrightarrow>
     filters_ok (map (Pair off) (rev ks) @ hist) F (P @ ks) (fold fb_AddKey ks fb)"
proof (induction ks arbitrary: hist P fb)
  case (Cons k ks)
  have "filters_ok (map (Pair off) (rev ks) @ (off, k) # hist) F ((P @ [k]) @ ks) (fold fb_AddKey ks (fb_AddKey k fb))"
    using Cons.IH [OF AddKey_ok [OF Cons.prems, of k] Cons.prems(2)] by simp
  then show ?case by simp
qed simp

fun add_blocks :: "(u64 \<times> u8 list list) list \<Rightarrow> FilterBlockBuilder \<Rightarrow> FilterBlockBuilder result" where
  "add_blocks [] fb = Inr fb"
| "add_blocks ((off, ks) # bs) fb = res_bind (StartBlock off fb) (\<lambda>fb. add_blocks bs (fold fb_AddKey ks fb))"

lemma add_blocks_ok:
  "filters_ok hist F P fb \<Longrightarrow> add_blocks bs fb = Inr fb' \<Longrightarrow>
     \<exists>hist' F' P'. filters_ok hist' F' P' fb' \<and> set hist \<subseteq> set hist' \<and>
       (\<forall>off ks k. (off, ks) \<in> set bs \<longrightarrow> k \<in> set ks \<longrightarrow> (off, k) \<in> set hist')"
proof (induction bs arbitrary: hist F P fb)
  case (Cons b bs)
  obtain off ks where b: "b = (off, ks)" by (cases b)
  obtain fb1 where s: "StartBlock off fb = Inr fb1" "add_blocks bs (fold fb_AddKey ks fb1) = Inr fb'"
    using Cons.prems(2) b by (auto simp: res_bind_eq_Inr)
  have len: "length F \<le> block_index off" "StartBlock_loop (block_index off) fb = Inr fb1"
    using s(1) Cons.prems(1) by (auto simp: StartBlock_def Let_def res_bind_eq_Inr filters_ok_def block_index_def)
  obtain F1 P1 where 1: "filters_ok hist F1 P1 fb1" "length F1 = block_index off"
    using StartBlock_loop_ok [OF Cons.prems(1) len] by blast
  obtain hist' F' P' where h: "filters_ok hist' F' P' fb'" "set (map (Pair off) (rev ks) @ hist) \<subseteq> set hist'"
    "\<forall>off ks k. (off, ks) \<in> set bs \<longrightarrow> k \<in> set ks \<longrightarrow> (off, k) \<in> set hist'"
    using Cons.IH [OF AddKeys_ok [OF 1] s(2)] by blast
  have "\<forall>o' ks' k. (o', ks') \<in> set (b # bs) \<longrightarrow> k \<in> set ks' \<longrightarrow> (o', k) \<in> set hist'"
    using h(2,3) b by auto
  then show ?case using h(1,2) by auto
qed auto

text \<open>The finished block: the filters, their offsets, the offset of the offsets, and the base.\<close>

lemma fold_PutFixed32: "fold (\<lambda>x res. PutFixed32 res x) xs res = res @ concat (map EncodeFixed32 xs)"
  by (induction xs arbitrary: res) (simp_all add: PutFixed32_def)

lemma Decode_array: "i < length xs \<Longrightarrow> DecodeFixed32 (drop (4 * i) (concat (map EncodeFixed32 xs) @ r)) = xs ! i"
proof (induction xs arbitrary: i)
  case (Cons x xs)
  then show ?case by (cases i) simp_all
qed simp

lemma length_array: "length (concat (map EncodeFixed32 xs)) = 4 * length xs"
  by (induction xs) simp_all

definition filter_block :: "u8 list list \<Rightarrow> u8 list" where
  "filter_block F = concat F @ concat (map EncodeFixed32 (map (of_nat \<circ> offs F) [0..<Suc (length F)])) @ [11]"

lemma Finish_ok:
  assumes ok: "filters_ok hist F P fb" and fin: "fb_Finish fb = Inr fb'"
  shows "\<exists>F. fb_result fb' = filter_block F \<and>
     (\<forall>(off, k) \<in> set hist. block_index off < length F \<and> KeyMayMatch k (F ! block_index off))"
proof -
  obtain fb1 where 1: "(if fb_start fb \<noteq> [] then GenerateFilter fb else Inr fb) = Inr fb1"
    "fb_result fb' = fold (\<lambda>x res. PutFixed32 res x) (fb_filter_offsets fb1) (fb_result fb1) @
       EncodeFixed32 (of_nat (length (fb_result fb1))) @ [11]"
    using fin by (auto simp: fb_Finish_def res_bind_eq_Inr Let_def PutFixed32_def kFilterBaseLg_def)
  obtain F1 where F1: "filters_ok hist F1 [] fb1"
  proof (cases "P = []")
    case True
    then show ?thesis using 1(1) ok that by (auto simp: filters_ok_def)
  next
    case False
    then have "GenerateFilter fb = Inr fb1" using 1(1) ok by (simp add: filters_ok_def)
    then show ?thesis using GenerateFilter_ok [OF ok] that by blast
  qed
  then have "fb_result fb' = filter_block F1" using 1(2) by (simp add: filters_ok_def fold_PutFixed32 filter_block_def)
  then show ?thesis using F1 by (auto simp: filters_ok_def)
qed

lemma offs_le: "offs F i \<le> length (concat F)"
  by (metis append_take_drop_id concat_append le_add1 length_append)

lemma Decode_offset:
  assumes "i \<le> length F" and "length (concat F) < 2 ^ 32"
  shows "unat (DecodeFixed32 (drop (length (concat F) + 4 * i) (filter_block F))) = offs F i"
proof -
  have "DecodeFixed32 (drop (length (concat F) + 4 * i) (filter_block F)) = of_nat (offs F i)"
    using assms(1) Decode_array [of i "map (of_nat \<circ> offs F) [0..<Suc (length F)]" "[11]"]
    by (simp add: filter_block_def del: upt_Suc)
  then show ?thesis using offs_le [of i F] assms(2) by (simp add: unat_of_nat)
qed

lemma reader_match:
  assumes "length (filter_block F) < 2 ^ 32" and "block_index off < length F" and "KeyMayMatch k (F ! block_index off)"
  shows "fr_KeyMayMatch (new_FilterBlockReader (filter_block F)) off k"
proof -
  let ?c = "filter_block F" and ?A = "length (concat F)" and ?i = "block_index off"
  have n: "length ?c = ?A + 4 * length F + 5" by (simp add: filter_block_def length_array del: upt_Suc map_map)
  have A: "?A < 2 ^ 32" using assms(1) n by simp
  have "?c ! (length ?c - 1) = 11" by (simp add: filter_block_def nth_append)
  moreover have "unat (DecodeFixed32 (drop (length ?c - 5) ?c)) = ?A"
    using Decode_offset [of "length F", OF _ A] n by simp
  ultimately have r: "new_FilterBlockReader ?c = \<lparr>fr_data = ?c, fr_offset = ?A, fr_num = length F, fr_base_lg = 11\<rparr>"
    using n by (simp add: new_FilterBlockReader_def Let_def)
  have idx: "unat (drop_bit 11 off) = ?i"
    by (simp add: block_index_def kFilterBase_def kFilterBaseLg_def drop_bit_eq_div)
  have s: "unat (DecodeFixed32 (drop (?A + ?i * 4) ?c)) = offs F ?i"
    "unat (DecodeFixed32 (drop (?A + ?i * 4 + 4) ?c)) = offs F (Suc ?i)"
    using Decode_offset [of ?i, OF _ A] Decode_offset [of "Suc ?i", OF _ A] assms(2) by (simp_all add: algebra_simps)
  have "take (offs F (Suc ?i) - offs F ?i) (drop (offs F ?i) ?c) = F ! ?i"
    unfolding filter_block_def by (rule slice_nth [OF assms(2)])
  then show ?thesis
    using r idx s assms(2,3) concat_nth_split(2) [OF assms(2)] offs_le [of "Suc ?i" F]
    by (simp add: fr_KeyMayMatch_def Let_def)
qed

section \<open>The filter of a whole table\<close>

lemma TotalBits_lines:
  assumes "t < 2 ^ 31"
  shows "\<exists>n :: u32. GetTotalBitsForLocality (of_nat t) = n * 512 \<and> 0 < n \<and> unat n * 512 < 2 ^ 32"
proof -
  let ?m = "(of_nat t + 511 :: u32) div 512"
  have "unat (of_nat t :: u32) = t" using assms by (simp add: unat_of_nat)
  then have "unat (of_nat t + 511 :: u32) = t + 511" using assms by (simp add: unat_word_ariths)
  then have m: "unat ?m = (t + 511) div 512" by (simp add: unat_div)
  then have le: "unat ?m \<le> 4194304" using assms by simp
  let ?n = "if ?m mod 2 = 0 then ?m + 1 else ?m"
  have u: "unat (?m + 1) = unat ?m + 1" using le by (simp add: unat_word_ariths)
  have "0 < unat ?n"
  proof (cases "?m mod 2 = 0")
    case False
    then have "?m \<noteq> 0" by auto
    then show ?thesis using False by (simp add: unat_gt_0)
  qed (simp add: u)
  moreover have "unat ?n * 512 < 2 ^ 32" using le u by simp
  moreover have "GetTotalBitsForLocality (of_nat t) = ?n * 512"
    by (simp add: GetTotalBitsForLocality_def CACHE_LINE_SIZE_def Let_def algebra_simps)
  ultimately show ?thesis using word_gt_0_no by (intro exI [of _ ?n]) (auto simp: word_less_nat_alt)
qed

lemma CalculateSpace_ok:
  assumes "CalculateSpace b m = Inr (sz, total_bits, num_lines)" and "0 < m"
  shows "0 < num_lines \<and> unat num_lines * 512 < 2 ^ 32 \<and> 0 < total_bits \<and> unat (total_bits div 8) = unat num_lines * 64"
proof -
  have lt: "m * b < 2 ^ 31" and tb: "total_bits = GetTotalBitsForLocality (of_nat (m * b))"
    and nl: "num_lines = total_bits div 512" and pos: "0 < total_bits"
    using assms by (auto simp: CalculateSpace_def res_bind_eq_Inr Let_def CACHE_LINE_SIZE_def split: if_splits)
  obtain n :: u32 where n: "total_bits = n * 512" "0 < n" "unat n * 512 < 2 ^ 32"
    using TotalBits_lines [OF lt] tb by metis
  have u: "unat total_bits = unat n * 512" using n(1,3) by (simp add: unat_word_ariths)
  then have "unat num_lines = unat n" using nl by (simp add: unat_div)
  moreover have "unat (total_bits div 8) = unat n * 64" using u by (simp add: unat_div)
  ultimately show ?thesis using n pos by (simp add: word_less_nat_alt)
qed

lemma add_hashes_fold:
  "0 < n \<Longrightarrow> 0 < tb \<Longrightarrow> add_hashes k n tb hs data = Inr (fold (\<lambda>h. Locality_AddHash h n k 6) hs data)"
  by (induction hs arbitrary: data) (simp_all add: ff_AddHash_def log2_cache_line_def)

lemma length_add_hashes: "length (fold (\<lambda>h. Locality_AddHash h n k 6) hs data) = length data"
  by (induction hs arbitrary: data) (simp_all add: Locality_AddHash_def)

lemma prepared_append: "b + 64 \<le> length a \<Longrightarrow> HashMayMatchPrepared h k (a @ r) b 6 = HashMayMatchPrepared h k a b 6"
proof -
  assume b: "b + 64 \<le> length a"
  have "b + line_bitpos 6 g div 8 < length a" for g using b line_bitpos_less [of g] by linarith
  then have "test_bitpos b (line_bitpos 6 g) (a @ r) = test_bitpos b (line_bitpos 6 g) a" for g
    by (simp add: test_bitpos_def nth_append)
  then have "HashMayMatchPrepared_loop k b 6 d g (a @ r) = HashMayMatchPrepared_loop k b 6 d g a" for d g
    by (induction k arbitrary: g) simp_all
  then show ?thesis by (simp add: HashMayMatchPrepared_def)
qed

lemma ff_AddKey_hashes: "set (ff_hash_entries (fold ff_AddKey keys ff)) = BloomHash ` set keys \<union> set (ff_hash_entries ff)"
proof (induction keys arbitrary: ff)
  case (Cons k keys)
  have "set (ff_hash_entries (ff_AddKey k ff)) = insert (BloomHash k) (set (ff_hash_entries ff))"
    using last_in_set [of "ff_hash_entries ff"] by (auto simp: ff_AddKey_def Let_def)
  then show ?case using Cons by simp
qed simp

lemma ff_AddKey_fields [simp]:
  "ff_num_probes (fold ff_AddKey keys ff) = ff_num_probes ff" "ff_bits_per_key (fold ff_AddKey keys ff) = ff_bits_per_key ff"
  by (induction keys arbitrary: ff) (simp_all add: ff_AddKey_def Let_def)

text \<open>The finished filter, and what its reader makes of it.\<close>

lemma ff_Finish_contents:
  assumes fin: "ff_Finish ff = Inr ff'" and h: "h \<in> set (ff_hash_entries ff)"
  shows "\<exists>n a. 0 < n \<and> unat n * 512 < 2 ^ 32 \<and> length a = unat n * 64 \<and>
     ff_contents ff' = a @ of_nat (ff_num_probes ff) # EncodeFixed32 n \<and>
     HashMayMatchPrepared h (ff_num_probes ff) a (unat (PrepareHashMayMatch h n 6)) 6"
proof -
  let ?k = "ff_num_probes ff" and ?hs = "ff_hash_entries ff"
  obtain sz tb n where c: "CalculateSpace (ff_bits_per_key ff) (length ?hs) = Inr (sz, tb, n)"
    using fin by (auto simp: ff_Finish_def res_bind_eq_Inr)
  have "0 < length ?hs" using h by auto
  note n = CalculateSpace_ok [OF c this]
  let ?len = "unat n * 64" and ?d = "fold (\<lambda>h. Locality_AddHash h n ?k 6) ?hs (ff_mem ff)"
  have nz: "tb \<noteq> 0" "n \<noteq> 0" using n by auto
  have mem: "?len + 5 \<le> length (ff_mem ff)" and ff': "ff_contents ff' = take (?len + 5)
      (take (?len + 1) (?d[?len := of_nat ?k]) @ EncodeFixed32 n @ drop (?len + 5) (?d[?len := of_nat ?k]))"
    using fin c n nz by (auto simp: ff_Finish_def res_bind_eq_Inr Let_def add_hashes_fold ff_contents_def)
  have ok: "0 < n \<and> unat n * 64 < 2 ^ 32 \<and> unat n * 64 \<le> length (ff_mem ff)" using n mem by simp
  have len: "length ?d = length (ff_mem ff)" by (rule length_add_hashes)
  have "HashMayMatchPrepared h ?k ?d (unat (PrepareHashMayMatch h n 6)) 6" by (rule loc.fold_may [OF ok h])
  moreover have "unat (PrepareHashMayMatch h n 6) + 64 \<le> length (take ?len ?d)"
    using line_offset [of n h] ok len mem by (simp add: PrepareHashMayMatch_def)
  ultimately have "HashMayMatchPrepared h ?k (take ?len ?d) (unat (PrepareHashMayMatch h n 6)) 6"
    using prepared_append [of _ "take ?len ?d" h ?k "drop ?len ?d"] by simp
  moreover have "ff_contents ff' = take ?len ?d @ of_nat ?k # EncodeFixed32 n"
    using ff' mem len by (simp add: take_Suc_conv_app_nth)
  ultimately show ?thesis using n mem len by (intro exI [of _ n] exI [of _ "take ?len ?d"]) simp
qed

lemma ChooseNumProbes_bounds: "1 \<le> ChooseNumProbes b \<and> ChooseNumProbes b \<le> 30"
  by (simp add: ChooseNumProbes_def Let_def)

lemma full_reader:
  assumes n: "0 < n" "unat n * 512 < 2 ^ 32" "length a = unat n * 64" and k: "1 \<le> k" "k \<le> 30"
  shows "new_FullFilterBlockReader (a @ of_nat k # EncodeFixed32 n) =
     Inr \<lparr>fl_data = a @ of_nat k # EncodeFixed32 n, fl_num_probes = int k, fl_num_lines = n, fl_log2_cache_line_size = 6\<rparr>"
proof -
  let ?c = "a @ of_nat k # EncodeFixed32 n"
  have l: "length ?c = length a + 5" "0 < length a" using n by (simp_all add: word_less_nat_alt)
  have "sint (?c ! (length ?c - 5)) = int k" using k by (simp add: nth_append signed_small)
  moreover have "DecodeFixed32 (drop (length ?c - 4) ?c) = n" using DecodeFixed_Encode(2) [of n "[]"] by simp
  moreover have "n * of_nat CACHE_LINE_SIZE = of_nat (length a)"
    using n(3) by (simp add: CACHE_LINE_SIZE_def mult.commute)
  ultimately show ?thesis
    using l k by (simp add: new_FullFilterBlockReader_def Let_def log2_cache_line_def)
qed

lemma full_filter_match:
  assumes fin: "ff_Finish (fold ff_AddKey keys ff) = Inr ff'" and "key \<in> set keys"
    and k: "ff_num_probes ff = ChooseNumProbes (ff_bits_per_key ff)"
  shows "\<exists>r. new_FullFilterBlockReader (ff_contents ff') = Inr r \<and> fl_KeyMayMatch r key = Inr True"
proof -
  let ?k = "ff_num_probes ff"
  have "BloomHash key \<in> set (ff_hash_entries (fold ff_AddKey keys ff))" using assms(2) by (simp add: ff_AddKey_hashes)
  from ff_Finish_contents [OF fin this] obtain n a where
    n: "0 < n" "unat n * 512 < 2 ^ 32" "length a = unat n * 64" and c: "ff_contents ff' = a @ of_nat ?k # EncodeFixed32 n"
    and m: "HashMayMatchPrepared (BloomHash key) ?k a (unat (PrepareHashMayMatch (BloomHash key) n 6)) 6"
    by auto
  have "unat (PrepareHashMayMatch (BloomHash key) n 6) + 64 \<le> length a"
    using line_offset [of n "BloomHash key"] n by (simp add: PrepareHashMayMatch_def)
  then show ?thesis
    using full_reader [OF n, of ?k] ChooseNumProbes_bounds [of "ff_bits_per_key ff"] c m k n(1) prepared_append
    by (auto simp: fl_KeyMayMatch_def Let_def)
qed

text \<open>Concrete filters can be built.\<close>

lemma CreateFilter_total:
  "length dst + ((if length keys * b < 64 then 64 else length keys * b) + 7) div 8 < 1073741824 \<Longrightarrow>
     \<exists>out. CreateFilter b mem keys dst = Inr out"
  by (simp add: CreateFilter_def Let_def)

lemma CreateFilter_length:
  "CreateFilter b mem keys dst = Inr out \<Longrightarrow>
     length out = length dst + ((if length keys * b < 64 then 64 else length keys * b) + 7) div 8 + 1"
proof -
  have "length (fold (\<lambda>key. add_probes k bits (bloom_delta (BloomHash key)) (BloomHash key)) keys a) = length a" for k bits a
    by (induction keys arbitrary: a) simp_all
  then show "CreateFilter b mem keys dst = Inr out \<Longrightarrow> ?thesis"
    by (auto simp: CreateFilter_def Let_def res_bind_eq_Inr)
qed

lemma two_blocks:
  "\<exists>fb fb'. add_blocks [(0, [[1]]), (2500, [[2, 3]])] (new_FilterBlockBuilder 10 (\<lambda>_. 170)) = Inr fb \<and>
     fb_Finish fb = Inr fb' \<and> length (fb_result fb') < 2 ^ 32"
proof -
  obtain o1 where o1: "CreateFilter 10 (\<lambda>_. 170) [[1]] [] = Inr o1"
    using CreateFilter_total [of "[]" "[[1]]" 10] by auto
  then have l1: "length o1 = 9" by (simp add: CreateFilter_length)
  obtain o2 where o2: "CreateFilter 10 (\<lambda>_. 170) [[2, 3]] o1 = Inr o2"
    using CreateFilter_total [of o1 "[[2, 3]]" 10] l1 by auto
  then have l2: "length o2 = 18" using l1 by (simp add: CreateFilter_length)
  show ?thesis
    using o1 o2 l1 l2
    by (simp add: StartBlock_def StartBlock_loop.simps GenerateFilter_def kFilterBase_def kFilterBaseLg_def
        new_FilterBlockBuilder_def fb_AddKey_def fb_Finish_def tmp_keys_def PutFixed32_def upt_rec Let_def)
qed

lemma one_key_filter: "\<exists>ff'. ff_Finish (fold ff_AddKey [[7]] (new_FullFilterBlockBuilder (replicate 100 255) 10)) = Inr ff'"
  by (simp add: ff_Finish_def ff_AddKey_def new_FullFilterBlockBuilder_def CalculateSpace_def GetTotalBitsForLocality_def
      CACHE_LINE_SIZE_def ff_AddHash_def Let_def)

text \<open>
  C19: the filters have no false negatives, whatever the memory held in which they were built. A filter of
  the built-in policy matches all its keys; in a block of filters, built by any sequence of blocks with their keys, every
  key matches at the offset it was added for; and the filter of a whole table is accepted by its
  reader and matches every key that was added since the last one was finished.
\<close>

theorem filters_no_false_negatives:
  "(CreateFilter b mem keys dst = Inr out \<longrightarrow> key \<in> set keys \<longrightarrow> KeyMayMatch key (drop (length dst) out)) \<and>
   (add_blocks bs (new_FilterBlockBuilder b mem) = Inr fb \<longrightarrow> fb_Finish fb = Inr fb' \<longrightarrow>
      length (fb_result fb') < 2 ^ 32 \<longrightarrow> (off, ks) \<in> set bs \<longrightarrow> key \<in> set ks \<longrightarrow>
      fr_KeyMayMatch (new_FilterBlockReader (fb_result fb')) off key) \<and>
   (ff_num_probes ff = ChooseNumProbes (ff_bits_per_key ff) \<longrightarrow> ff_Finish (fold ff_AddKey keys ff) = Inr ff' \<longrightarrow>
      key \<in> set keys \<longrightarrow>
      (\<exists>r. new_FullFilterBlockReader (ff_contents ff') = Inr r \<and> fl_KeyMayMatch r key = Inr True))"
proof (intro conjI impI)
  show "KeyMayMatch key (drop (length dst) out)" if "CreateFilter b mem keys dst = Inr out" "key \<in> set keys"
    using CreateFilter_match [OF that(1)] that(2) by auto
  show "fr_KeyMayMatch (new_FilterBlockReader (fb_result fb')) off key"
    if a: "add_blocks bs (new_FilterBlockBuilder b mem) = Inr fb" and f: "fb_Finish fb = Inr fb'"
      and l: "length (fb_result fb') < 2 ^ 32" and i: "(off, ks) \<in> set bs" "key \<in> set ks"
  proof -
    have "filters_ok [] [] [] (new_FilterBlockBuilder b mem)" by (simp add: filters_ok_def new_FilterBlockBuilder_def)
    from add_blocks_ok [OF this a] obtain hist F P where h: "filters_ok hist F P fb" "(off, key) \<in> set hist"
      using i by blast
    from Finish_ok [OF h(1) f] obtain F' where "fb_result fb' = filter_block F'"
      "block_index off < length F'" "KeyMayMatch key (F' ! block_index off)" using h(2) by blast
    then show ?thesis using reader_match l by simp
  qed
qed (rule full_filter_match)

theorem filters_no_false_negatives_witness:
  "(\<exists>out. CreateFilter 10 (\<lambda>_. 170) [[1, 2], []] [9] = Inr out \<and> KeyMayMatch [1, 2] (drop 1 out)) \<and>
   (\<exists>fb fb'. add_blocks [(0, [[1]]), (2500, [[2, 3]])] (new_FilterBlockBuilder 10 (\<lambda>_. 170)) = Inr fb \<and>
      fb_Finish fb = Inr fb' \<and> fr_KeyMayMatch (new_FilterBlockReader (fb_result fb')) 2500 [2, 3]) \<and>
   (\<exists>ff' r. ff_Finish (fold ff_AddKey [[7]] (new_FullFilterBlockBuilder (replicate 100 255) 10)) = Inr ff' \<and>
      new_FullFilterBlockReader (ff_contents ff') = Inr r \<and> fl_KeyMayMatch r [7] = Inr True)"
proof (intro conjI)
  obtain out where "CreateFilter 10 (\<lambda>_. 170) [[1, 2], []] [9] = Inr out"
    using CreateFilter_total [of "[9]" "[[1, 2], []]" 10] by auto
  then show "\<exists>out. CreateFilter 10 (\<lambda>_. 170) [[1, 2], []] [9] = Inr out \<and> KeyMayMatch [1, 2] (drop 1 out)"
    using filters_no_false_negatives [of 10 "\<lambda>_. 170" "[[1, 2], []]" "[9]" out "[1, 2]"] by auto
  obtain fb fb' where "add_blocks [(0, [[1]]), (2500, [[2, 3]])] (new_FilterBlockBuilder 10 (\<lambda>_. 170)) = Inr fb"
    "fb_Finish fb = Inr fb'" "length (fb_result fb') < 2 ^ 32"
    using two_blocks by blast
  then show "\<exists>fb fb'. add_blocks [(0, [[1]]), (2500, [[2, 3]])] (new_FilterBlockBuilder 10 (\<lambda>_. 170)) = Inr fb \<and>
      fb_Finish fb = Inr fb' \<and> fr_KeyMayMatch (new_FilterBlockReader (fb_result fb')) 2500 [2, 3]"
    using filters_no_false_negatives [of 10 "\<lambda>_. 170" "[]" "[]" "[]" "[2, 3]" "[(0, [[1]]), (2500, [[2, 3]])]" fb fb' 2500 "[[2, 3]]"]
    by auto
  let ?ff = "new_FullFilterBlockBuilder (replicate 100 255) 10"
  obtain ff' where "ff_Finish (fold ff_AddKey [[7]] ?ff) = Inr ff'" using one_key_filter by blast
  moreover have "ff_num_probes ?ff = ChooseNumProbes (ff_bits_per_key ?ff)" by (simp add: new_FullFilterBlockBuilder_def)
  ultimately show "\<exists>ff' r. ff_Finish (fold ff_AddKey [[7]] ?ff) = Inr ff' \<and>
      new_FullFilterBlockReader (ff_contents ff') = Inr r \<and> fl_KeyMayMatch r [7] = Inr True"
    using filters_no_false_negatives [of 0 _ "[[7]]" _ _ "[7]" _ _ _ _ _ ?ff ff'] by auto
qed

end
