(* ===== verification/DbFormat.thy ===== *)
theory DbFormat
  imports Coding
begin

unbundle bit_operations_syntax

text \<open>
  Model of the keys of the LSM tree: the byte-wise comparator (\<open>dLSM/util/comparator.cc\<close> and the
  comparison of \<open>slice.h\<close>), and the internal keys of \<open>dLSM/db/dbformat.h\<close> and \<open>dbformat.cc\<close>, which
  carry a sequence number and a type behind the user key. Internal keys are compared with any user
  comparator that meets the contract of \<open>user_comparator\<close>.
\<close>

section \<open>Byte-wise order\<close>

text \<open>\<open>memcmp\<close> of two buffers of the same length; the sign is all that is used.\<close>

fun slice_memcmp :: "u8 list \<Rightarrow> u8 list \<Rightarrow> int" where
  "slice_memcmp (x # xs) (y # ys) = (if x < y then - 1 else if y < x then 1 else slice_memcmp xs ys)"
| "slice_memcmp _ _ = 0"

definition slice_compare :: "u8 list \<Rightarrow> u8 list \<Rightarrow> int" where
  "slice_compare a b =
     (let min_len = (if length a < length b then length a else length b);
          r = slice_memcmp (take min_len a) (take min_len b)
      in if r = 0 then (if length a < length b then - 1 else if length b < length a then 1 else 0) else r)"

definition starts_with :: "u8 list \<Rightarrow> u8 list \<Rightarrow> bool" where
  "starts_with s x \<longleftrightarrow> length x \<le> length s \<and> slice_memcmp (take (length x) s) x = 0"

text \<open>The loop that finds the length of the common prefix.\<close>

fun diff_index :: "u8 list \<Rightarrow> u8 list \<Rightarrow> nat" where
  "diff_index (x # xs) (y # ys) = (if x = y then Suc (diff_index xs ys) else 0)"
| "diff_index _ _ = 0"

definition FindShortestSeparator :: "u8 list \<Rightarrow> u8 list \<Rightarrow> u8 list result" where
  "FindShortestSeparator start limit =
     (let i = diff_index start limit in
      if min (length start) (length limit) \<le> i then Inr start
      else let diff_byte = start ! i in
        if diff_byte < 255 \<and> unat diff_byte + 1 < unat (limit ! i)
        then let start' = take (i + 1) (start[i := diff_byte + 1])
             in res_bind (res_assert ''Compare(*start, limit) < 0'' (slice_compare start' limit < 0)) (\<lambda>_. Inr start')
        else Inr start)"

fun FindShortSuccessor :: "u8 list \<Rightarrow> u8 list" where
  "FindShortSuccessor [] = []"
| "FindShortSuccessor (b # bs) = (if b \<noteq> 255 then [b + 1] else b # FindShortSuccessor bs)"

text \<open>The comparison is the lexicographic order of the bytes.\<close>

fun blex :: "u8 list \<Rightarrow> u8 list \<Rightarrow> bool" where
  "blex [] [] = False"
| "blex [] (y # ys) = True"
| "blex (x # xs) [] = False"
| "blex (x # xs) (y # ys) = (x < y \<or> x = y \<and> blex xs ys)"

lemma blex_irrefl [simp]: "\<not> blex a a"
  by (induction a) auto

lemma blex_trans: "blex a b \<Longrightarrow> blex b c \<Longrightarrow> blex a c"
proof (induction a c arbitrary: b rule: blex.induct)
  case (4 x xs y ys)
  then show ?case by (cases b) auto
next
  case (2 y ys)
  then show ?case by simp
next
  case (3 x xs)
  then show ?case by (cases b) auto
next
  case 1
  then show ?case by (cases b) auto
qed

lemma blex_total: "blex a b \<or> a = b \<or> blex b a"
  by (induction a b rule: blex.induct) auto

lemma slice_compare_Cons:
  "slice_compare (x # xs) (y # ys) = (if x < y then - 1 else if y < x then 1 else slice_compare xs ys)"
  by (simp add: slice_compare_def Let_def)

lemma slice_compare_Nil [simp]:
  "slice_compare [] [] = 0" "slice_compare [] (y # ys) = - 1" "slice_compare (x # xs) [] = 1"
  by (simp_all add: slice_compare_def)

lemma slice_compare_blex:
  "slice_compare a b < 0 \<longleftrightarrow> blex a b" "slice_compare a b = 0 \<longleftrightarrow> a = b" "0 < slice_compare a b \<longleftrightarrow> blex b a"
proof -
  have "(slice_compare a b < 0 \<longleftrightarrow> blex a b) \<and> (slice_compare a b = 0 \<longleftrightarrow> a = b) \<and> (0 < slice_compare a b \<longleftrightarrow> blex b a)"
    by (induction a b rule: blex.induct) (auto simp: slice_compare_Cons)
  then show "slice_compare a b < 0 \<longleftrightarrow> blex a b" "slice_compare a b = 0 \<longleftrightarrow> a = b" "0 < slice_compare a b \<longleftrightarrow> blex b a"
    by blast+
qed

section \<open>The contract of a user comparator\<close>

text \<open>The contract that \<open>include/TimberSaw/comparator.h\<close> states, with the separator as a fallible function.\<close>

locale user_comparator =
  fixes cmp :: "u8 list \<Rightarrow> u8 list \<Rightarrow> int"
    and sep :: "u8 list \<Rightarrow> u8 list \<Rightarrow> u8 list result" and suc :: "u8 list \<Rightarrow> u8 list"
  assumes cmp_refl: "cmp a a = 0"
    and cmp_sym: "cmp a b < 0 \<longleftrightarrow> 0 < cmp b a"
    and cmp_trans: "cmp a b \<le> 0 \<Longrightarrow> cmp b c \<le> 0 \<Longrightarrow> cmp a c \<le> 0"
    and cmp_strict: "cmp a b < 0 \<Longrightarrow> cmp b c \<le> 0 \<Longrightarrow> cmp a c < 0"
    and sep_law: "\<exists>s. sep a b = Inr s \<and> (s = a \<or> cmp a s < 0 \<and> cmp s b < 0)"
    and suc_law: "cmp a (suc a) \<le> 0"

lemma blex_bump:
  assumes "i = diff_index start limit" "i < min (length start) (length limit)"
    "start ! i < 255" "unat (start ! i) + 1 < unat (limit ! i)"
  shows "blex start (take (i + 1) (start[i := start ! i + 1])) \<and> blex (take (i + 1) (start[i := start ! i + 1])) limit"
  using assms
proof (induction start limit arbitrary: i rule: diff_index.induct)
  case (1 x xs y ys)
  show ?case
  proof (cases "x = y")
    case True
    then show ?thesis using 1 by (cases i) auto
  next
    case False
    have "unat (x + 1) = unat x + 1"
      using 1 False by (simp add: unat_add_lem [THEN iffD1] word_less_nat_alt unat_word_ariths)
    then have "x < x + 1" "x + 1 < y" using 1 False by (simp_all add: word_less_nat_alt)
    then show ?thesis using 1 False by simp
  qed
qed simp_all

lemma FindShortestSeparator_ok:
  "\<exists>s. FindShortestSeparator a b = Inr s \<and> (s = a \<or> slice_compare a s < 0 \<and> slice_compare s b < 0)"
proof -
  let ?i = "diff_index a b"
  show ?thesis
  proof (cases "?i < min (length a) (length b) \<and> a ! ?i < 255 \<and> unat (a ! ?i) + 1 < unat (b ! ?i)")
    case True
    from True blex_bump [OF refl, of a b] show ?thesis
      by (auto simp: FindShortestSeparator_def Let_def slice_compare_blex)
  next
    case False
    then show ?thesis by (auto simp: FindShortestSeparator_def Let_def)
  qed
qed

lemma FindShortSuccessor_ok: "slice_compare a (FindShortSuccessor a) \<le> 0"
proof (induction a)
  case (Cons b bs)
  have "b < b + 1" if "b \<noteq> 255"
  proof -
    have "unat b \<noteq> unat (255 :: u8)" using that word_unat_eq_iff by blast
    then have "unat b + 1 < 2 ^ 8" using unat_less_pow [of b] by simp
    then show ?thesis by (simp add: word_less_nat_alt unat_word_ariths)
  qed
  then show ?case using Cons by (auto simp: slice_compare_Cons)
qed simp

interpretation bytewise: user_comparator slice_compare FindShortestSeparator FindShortSuccessor
proof
  fix a b c
  show "slice_compare a a = 0" by (simp add: slice_compare_blex)
  show "slice_compare a b < 0 \<longleftrightarrow> 0 < slice_compare b a" by (simp add: slice_compare_blex)
  have le: "slice_compare x y \<le> 0 \<longleftrightarrow> x = y \<or> blex x y" for x y
    using slice_compare_blex [of x y] by linarith
  show "slice_compare a c \<le> 0" if "slice_compare a b \<le> 0" "slice_compare b c \<le> 0"
    using that blex_trans unfolding le by blast
  show "slice_compare a c < 0" if "slice_compare a b < 0" "slice_compare b c \<le> 0"
    using that blex_trans unfolding le slice_compare_blex by blast
  show "\<exists>s. FindShortestSeparator a b = Inr s \<and> (s = a \<or> slice_compare a s < 0 \<and> slice_compare s b < 0)"
    by (rule FindShortestSeparator_ok)
  show "slice_compare a (FindShortSuccessor a) \<le> 0" by (rule FindShortSuccessor_ok)
qed

section \<open>Internal keys\<close>

text \<open>A value type is the byte it is stored as.\<close>

definition kTypeDeletion :: u8 where "kTypeDeletion = 0"
definition kTypeValue :: u8 where "kTypeValue = 1"
definition kValueTypeForSeek :: u8 where "kValueTypeForSeek = kTypeValue"
definition kMaxSequenceNumber :: u64 where "kMaxSequenceNumber = 2 ^ 56 - 1"

record ParsedInternalKey =
  pk_user_key :: "u8 list"
  pk_sequence :: u64
  pk_type :: u8

definition InternalKeyEncodingLength :: "ParsedInternalKey \<Rightarrow> nat" where
  "InternalKeyEncodingLength key = length (pk_user_key key) + 8"

definition PackSequenceAndType :: "u64 \<Rightarrow> u8 \<Rightarrow> u64 result" where
  "PackSequenceAndType seq t =
     res_bind (res_assert ''seq <= kMaxSequenceNumber'' (seq \<le> kMaxSequenceNumber)) (\<lambda>_. Inr (push_bit 8 seq OR ucast t))"

definition UnPackSequenceAndType :: "u64 \<Rightarrow> (u64 \<times> u8) result" where
  "UnPackSequenceAndType packed =
     res_bind (res_assert ''*seq <= kMaxSequenceNumber'' (drop_bit 8 packed \<le> kMaxSequenceNumber)) (\<lambda>_.
     Inr (drop_bit 8 packed, ucast (packed AND 255)))"

definition AppendInternalKey :: "u8 list \<Rightarrow> ParsedInternalKey \<Rightarrow> u8 list result" where
  "AppendInternalKey dst key =
     res_bind (PackSequenceAndType (pk_sequence key) (pk_type key)) (\<lambda>p. Inr (PutFixed64 (dst @ pk_user_key key) p))"

text \<open>The flag is the result; with less than 8 bytes nothing is parsed.\<close>

definition ParseInternalKey :: "u8 list \<Rightarrow> (bool \<times> ParsedInternalKey) option" where
  "ParseInternalKey ikey =
     (let n = length ikey in
      if n < 8 then None
      else let num = DecodeFixed64 (drop (n - 8) ikey); c = ucast (num AND 255) :: u8
           in Some (c \<le> kTypeValue, \<lparr>pk_user_key = take (n - 8) ikey, pk_sequence = drop_bit 8 num, pk_type = c\<rparr>))"

definition ExtractUserKey :: "u8 list \<Rightarrow> u8 list result" where
  "ExtractUserKey ikey =
     res_bind (res_assert ''internal_key.size() >= 8'' (8 \<le> length ikey)) (\<lambda>_. Inr (take (length ikey - 8) ikey))"

definition ikey_tag :: "u8 list \<Rightarrow> u64" where
  "ikey_tag k = DecodeFixed64 (drop (length k - 8) k)"

definition ikey_Compare :: "(u8 list \<Rightarrow> u8 list \<Rightarrow> int) \<Rightarrow> u8 list \<Rightarrow> u8 list \<Rightarrow> int result" where
  "ikey_Compare cmp akey bkey =
     res_bind (ExtractUserKey akey) (\<lambda>ua.
     res_bind (ExtractUserKey bkey) (\<lambda>ub.
     let r = cmp ua ub in
     if r = 0
     then let anum = ikey_tag akey; bnum = ikey_tag bkey
          in Inr (if bnum < anum then - 1 else if anum < bnum then 1 else r)
     else Inr r))"

definition assert_less :: "(u8 list \<Rightarrow> u8 list \<Rightarrow> int) \<Rightarrow> u8 list \<Rightarrow> u8 list \<Rightarrow> unit result" where
  "assert_less cmp a b = res_bind (ikey_Compare cmp a b) (\<lambda>r. res_assert ''Compare < 0'' (r < 0))"

definition ikey_FindShortestSeparator ::
  "(u8 list \<Rightarrow> u8 list \<Rightarrow> int) \<Rightarrow> (u8 list \<Rightarrow> u8 list \<Rightarrow> u8 list result) \<Rightarrow> u8 list \<Rightarrow> u8 list \<Rightarrow> u8 list result" where
  "ikey_FindShortestSeparator cmp sep start limit =
     res_bind (ExtractUserKey start) (\<lambda>user_start.
     res_bind (ExtractUserKey limit) (\<lambda>user_limit.
     res_bind (sep user_start user_limit) (\<lambda>tmp.
     if length tmp < length user_start \<and> cmp user_start tmp < 0
     then res_bind (PackSequenceAndType kMaxSequenceNumber kValueTypeForSeek) (\<lambda>p.
          let tmp' = PutFixed64 tmp p in
          res_bind (assert_less cmp start tmp') (\<lambda>_.
          res_bind (assert_less cmp tmp' limit) (\<lambda>_.
          Inr tmp')))
     else Inr start)))"

definition ikey_FindShortSuccessor ::
  "(u8 list \<Rightarrow> u8 list \<Rightarrow> int) \<Rightarrow> (u8 list \<Rightarrow> u8 list) \<Rightarrow> u8 list \<Rightarrow> u8 list result" where
  "ikey_FindShortSuccessor cmp suc key =
     res_bind (ExtractUserKey key) (\<lambda>user_key.
     let tmp = suc user_key in
     if length tmp < length user_key \<and> cmp user_key tmp < 0
     then res_bind (PackSequenceAndType kMaxSequenceNumber kValueTypeForSeek) (\<lambda>p.
          let tmp' = PutFixed64 tmp p in
          res_bind (assert_less cmp key tmp') (\<lambda>_. Inr tmp'))
     else Inr key)"

text \<open>
  A lookup key: the memtable key (the length-prefixed internal key), and the offset at which the
  internal key starts.
\<close>

definition new_LookupKey :: "u8 list \<Rightarrow> u64 \<Rightarrow> (u8 list \<times> nat) result" where
  "new_LookupKey user_key s =
     (let usize = length user_key; len = EncodeVarint32 (of_nat (usize + 8))
      in res_bind (PackSequenceAndType s kValueTypeForSeek) (\<lambda>p. Inr (len @ user_key @ EncodeFixed64 p, length len)))"

definition memtable_key :: "u8 list \<times> nat \<Rightarrow> u8 list" where "memtable_key lk = fst lk"
definition internal_key :: "u8 list \<times> nat \<Rightarrow> u8 list" where "internal_key lk = drop (snd lk) (fst lk)"
definition lookup_user_key :: "u8 list \<times> nat \<Rightarrow> u8 list" where
  "lookup_user_key lk = take (length (fst lk) - snd lk - 8) (drop (snd lk) (fst lk))"

section \<open>Properties of internal keys\<close>

definition ukey :: "u8 list \<Rightarrow> u8 list" where "ukey k = take (length k - 8) k"

definition ikey_before :: "(u8 list \<Rightarrow> u8 list \<Rightarrow> int) \<Rightarrow> u8 list \<Rightarrow> u8 list \<Rightarrow> bool" where
  "ikey_before cmp a b \<longleftrightarrow> cmp (ukey a) (ukey b) < 0 \<or> cmp (ukey a) (ukey b) = 0 \<and> ikey_tag b < ikey_tag a"

lemma ExtractUserKey_ok: "8 \<le> length k \<Longrightarrow> ExtractUserKey k = Inr (ukey k)"
  by (simp add: ExtractUserKey_def ukey_def)

lemma ikey_parts: "8 \<le> length k \<Longrightarrow> k = ukey k @ EncodeFixed64 (ikey_tag k)"
  using le_bytes_le_word [of "drop (length k - 8) k", where 'a = 64]
  by (simp add: ukey_def ikey_tag_def EncodeFixed64_def DecodeFixed64_def)

lemma ukey_append [simp]: "ukey (u @ EncodeFixed64 p) = u"
  and ikey_tag_append [simp]: "ikey_tag (u @ EncodeFixed64 p) = p"
  using DecodeFixed_Encode(3) [of p "[]"] by (simp_all add: ukey_def ikey_tag_def)

lemma Pack_ok: "seq \<le> kMaxSequenceNumber \<Longrightarrow> PackSequenceAndType seq t = Inr (push_bit 8 seq OR ucast t)"
  by (simp add: PackSequenceAndType_def)

lemma seq_bits:
  assumes "seq \<le> kMaxSequenceNumber" and "bit seq n"
  shows "n < 56"
proof -
  have "unat seq \<le> 2 ^ 56 - 1" using assms(1) by (simp add: kMaxSequenceNumber_def word_le_nat_alt)
  then have "unat (take_bit 56 seq) = unat seq" by (simp add: unat_take_bit)
  then have "take_bit 56 seq = seq" by (rule word_unat_eq_iff [THEN iffD2])
  then show ?thesis using assms(2) by (metis bit_take_bit_iff)
qed

lemma unpack:
  assumes "seq \<le> kMaxSequenceNumber"
  shows "drop_bit 8 (push_bit 8 seq OR ucast (t :: u8)) = seq" "ucast ((push_bit 8 seq OR ucast t) AND 255) = t"
proof -
  show "drop_bit 8 (push_bit 8 seq OR ucast t) = seq"
    by (rule bit_word_eqI) (auto simp: bit_simps dest: seq_bits [OF assms] bit_imp_le_length [of t])
  show "ucast ((push_bit 8 seq OR ucast t) AND 255) = t"
    by (rule bit_word_eqI) (auto simp: bit_simps bit_255)
qed

text \<open>The packed number orders by the sequence number first.\<close>

lemma unat_pack:
  assumes "seq \<le> kMaxSequenceNumber"
  shows "unat (push_bit 8 seq OR ucast (t :: u8)) = unat seq * 256 + unat t"
proof -
  let ?p = "push_bit 8 seq OR ucast t :: u64"
  have "unat ?p div 256 = unat seq"
    using arg_cong [OF unpack(1) [OF assms, of t], of unat] by (simp add: drop_bit_eq_div unat_div)
  moreover have "unat ?p mod 256 = unat t"
  proof -
    have "take_bit 8 ?p = ucast t" by (rule bit_word_eqI) (auto simp: bit_simps dest: bit_imp_le_length [of t])
    moreover have "unat (ucast t :: u64) = unat t"
      using unat_less_pow [of t] by (simp add: unsigned_ucast_eq take_bit_eq_mod)
    ultimately have "unat (take_bit 8 ?p) = unat t" by simp
    then show ?thesis unfolding unat_take_bit by simp
  qed
  ultimately show ?thesis by (metis div_mult_mod_eq)
qed

context user_comparator
begin

lemma compare_ok:
  assumes "8 \<le> length a" "8 \<le> length b"
  shows "\<exists>r. ikey_Compare cmp a b = Inr r \<and> (r < 0 \<longleftrightarrow> ikey_before cmp a b) \<and> (0 < r \<longleftrightarrow> ikey_before cmp b a)"
proof -
  have "cmp (ukey b) (ukey a) = 0 \<longleftrightarrow> cmp (ukey a) (ukey b) = 0"
    using cmp_sym [of "ukey a" "ukey b"] cmp_sym [of "ukey b" "ukey a"] by linarith
  then show ?thesis
    using cmp_sym [of "ukey a" "ukey b"] cmp_sym [of "ukey b" "ukey a"]
    by (auto simp: ikey_Compare_def ExtractUserKey_ok [OF assms(1)] ExtractUserKey_ok [OF assms(2)] ikey_before_def Let_def)
qed

lemma before_trans: "ikey_before cmp a b \<Longrightarrow> ikey_before cmp b c \<Longrightarrow> ikey_before cmp a c"
proof -
  assume "ikey_before cmp a b" "ikey_before cmp b c"
  moreover have "cmp (ukey a) (ukey c) < 0" if "cmp (ukey a) (ukey b) = 0" "cmp (ukey b) (ukey c) < 0"
  proof -
    have "cmp (ukey a) (ukey c) \<le> 0" using cmp_trans [of "ukey a" "ukey b" "ukey c"] that by simp
    moreover have "cmp (ukey a) (ukey c) \<noteq> 0"
    proof
      assume "cmp (ukey a) (ukey c) = 0"
      then have "cmp (ukey c) (ukey a) \<le> 0" using cmp_sym [of "ukey a" "ukey c"] by linarith
      moreover have "cmp (ukey a) (ukey b) \<le> 0" using that by simp
      ultimately have "cmp (ukey c) (ukey b) \<le> 0" by (rule cmp_trans)
      then show False using that(2) cmp_sym [of "ukey b" "ukey c"] by simp
    qed
    ultimately show ?thesis by simp
  qed
  moreover have "cmp (ukey a) (ukey c) \<le> 0" if "cmp (ukey a) (ukey b) = 0" "cmp (ukey b) (ukey c) = 0"
    using cmp_trans [of "ukey a" "ukey b" "ukey c"] that by simp
  ultimately show ?thesis using cmp_strict [of "ukey a" "ukey b" "ukey c"] unfolding ikey_before_def by force
qed

lemma assert_less_ok:
  "8 \<le> length a \<Longrightarrow> 8 \<le> length b \<Longrightarrow> cmp (ukey a) (ukey b) < 0 \<Longrightarrow> assert_less cmp a b = Inr ()"
  using compare_ok [of a b] by (auto simp: assert_less_def ikey_before_def)

lemma separator_ok:
  assumes "8 \<le> length a" "8 \<le> length b" and "ikey_before cmp a b"
  shows "\<exists>s. ikey_FindShortestSeparator cmp sep a b = Inr s \<and> 8 \<le> length s \<and> length s \<le> length a \<and>
     (s = a \<or> ikey_before cmp a s) \<and> ikey_before cmp s b"
proof -
  obtain t where t: "sep (ukey a) (ukey b) = Inr t" "t = ukey a \<or> cmp (ukey a) t < 0 \<and> cmp t (ukey b) < 0"
    using sep_law by blast
  show ?thesis
  proof (cases "length t < length (ukey a) \<and> cmp (ukey a) t < 0")
    case True
    define s where "s = t @ EncodeFixed64 (push_bit 8 kMaxSequenceNumber OR ucast kValueTypeForSeek)"
    have less: "cmp (ukey a) (ukey s) < 0" "cmp (ukey s) (ukey b) < 0" using t(2) True by (auto simp: s_def)
    have len: "8 \<le> length s" "length s \<le> length a" using True by (auto simp: s_def ukey_def)
    have "ikey_FindShortestSeparator cmp sep a b = Inr s"
      using True t(1) assert_less_ok [OF assms(1) len(1) less(1)] assert_less_ok [OF len(1) assms(2) less(2)]
      by (simp add: ikey_FindShortestSeparator_def ExtractUserKey_ok assms Pack_ok PutFixed64_def Let_def flip: s_def)
    then show ?thesis using less len by (auto simp: ikey_before_def)
  next
    case False
    then have "ikey_FindShortestSeparator cmp sep a b = Inr a"
      using t(1) by (auto simp: ikey_FindShortestSeparator_def ExtractUserKey_ok assms)
    then show ?thesis using assms by auto
  qed
qed

lemma successor_ok:
  assumes "8 \<le> length a"
  shows "\<exists>s. ikey_FindShortSuccessor cmp suc a = Inr s \<and> 8 \<le> length s \<and> length s \<le> length a \<and> (s = a \<or> ikey_before cmp a s)"
proof (cases "length (suc (ukey a)) < length (ukey a) \<and> cmp (ukey a) (suc (ukey a)) < 0")
  case True
  define s where "s = suc (ukey a) @ EncodeFixed64 (push_bit 8 kMaxSequenceNumber OR ucast kValueTypeForSeek)"
  have less: "cmp (ukey a) (ukey s) < 0" using True by (auto simp: s_def)
  have len: "8 \<le> length s" "length s \<le> length a" using True by (auto simp: s_def ukey_def)
  have "ikey_FindShortSuccessor cmp suc a = Inr s"
    using True assert_less_ok [OF assms(1) len(1) less]
    by (simp add: ikey_FindShortSuccessor_def ExtractUserKey_ok assms Pack_ok PutFixed64_def Let_def flip: s_def)
  then show ?thesis using less len by (auto simp: ikey_before_def)
next
  case False
  then show ?thesis using assms by (auto simp: ikey_FindShortSuccessor_def ExtractUserKey_ok Let_def)
qed

end

text \<open>
  C22: internal keys under the byte-wise user order. Comparison never aborts on keys of at least 8
  bytes; it is a strict total order that sorts by user key and then by decreasing sequence number
  and type. The shortest separator of two ordered keys lies between them (it may be the first), the
  short successor is not before its key, neither is longer than the key it replaces, and none of the
  assertions in them fails.
\<close>

theorem internal_key_order:
  assumes "8 \<le> length a" "8 \<le> length b" "8 \<le> length c"
  shows "(\<exists>r. ikey_Compare slice_compare a b = Inr r \<and> (r = 0 \<longleftrightarrow> a = b) \<and>
       (r < 0 \<longleftrightarrow> blex (ukey a) (ukey b) \<or> ukey a = ukey b \<and> ikey_tag b < ikey_tag a)) \<and>
     (ikey_before slice_compare a b \<longrightarrow> ikey_before slice_compare b c \<longrightarrow> ikey_before slice_compare a c) \<and>
     (ikey_before slice_compare a b \<longrightarrow>
       (\<exists>s. ikey_FindShortestSeparator slice_compare FindShortestSeparator a b = Inr s \<and> length s \<le> length a \<and>
          (s = a \<or> ikey_before slice_compare a s) \<and> ikey_before slice_compare s b)) \<and>
     (\<exists>s. ikey_FindShortSuccessor slice_compare FindShortSuccessor a = Inr s \<and> length s \<le> length a \<and>
        (s = a \<or> ikey_before slice_compare a s))"
proof -
  obtain r where r: "ikey_Compare slice_compare a b = Inr r" "r < 0 \<longleftrightarrow> ikey_before slice_compare a b"
    "0 < r \<longleftrightarrow> ikey_before slice_compare b a"
    using bytewise.compare_ok [OF assms(1,2)] by blast
  have "r = 0 \<longleftrightarrow> ukey a = ukey b \<and> ikey_tag a = ikey_tag b"
  proof -
    have "r = 0 \<longleftrightarrow> \<not> ikey_before slice_compare a b \<and> \<not> ikey_before slice_compare b a" using r(2,3) by linarith
    moreover have "ukey a = ukey b" if "\<not> blex (ukey a) (ukey b)" "\<not> blex (ukey b) (ukey a)" using blex_total that by blast
    moreover have "ikey_tag a = ikey_tag b" if "\<not> ikey_tag a < ikey_tag b" "\<not> ikey_tag b < ikey_tag a" using that by simp
    ultimately show ?thesis unfolding ikey_before_def slice_compare_blex by (metis blex_irrefl order_less_irrefl)
  qed
  also have "\<dots> \<longleftrightarrow> a = b" using ikey_parts [OF assms(1)] ikey_parts [OF assms(2)] by metis
  finally have "r = 0 \<longleftrightarrow> a = b" .
  moreover have "r < 0 \<longleftrightarrow> blex (ukey a) (ukey b) \<or> ukey a = ukey b \<and> ikey_tag b < ikey_tag a"
    unfolding r(2) ikey_before_def slice_compare_blex ..
  ultimately show ?thesis
    using r(1) bytewise.before_trans [of a b c] bytewise.separator_ok [OF assms(1,2)] bytewise.successor_ok [OF assms(1)]
    by blast
qed

theorem internal_key_order_witness:
  "\<exists>s. ikey_before slice_compare ([97, 1] @ EncodeFixed64 5) ([99] @ EncodeFixed64 3) \<and>
     ikey_FindShortestSeparator slice_compare FindShortestSeparator ([97, 1] @ EncodeFixed64 5) ([99] @ EncodeFixed64 3) = Inr s \<and>
     ikey_before slice_compare s ([99] @ EncodeFixed64 3)"
proof -
  let ?a = "[97, 1] @ EncodeFixed64 5" and ?b = "[99] @ EncodeFixed64 3"
  have len: "8 \<le> length ?a" "8 \<le> length ?b" by simp_all
  have "ikey_before slice_compare ?a ?b" unfolding ikey_before_def ukey_append slice_compare_blex by simp
  then show ?thesis using internal_key_order [OF len len(1)] by blast
qed

text \<open>
  C23: parsing an appended internal key gives it back. A lookup key for user key \<open>u\<close> and snapshot \<open>s\<close>
  has the internal key of \<open>u\<close> and fits in the bytes that the constructor reserves; in the order of
  the internal keys it comes after every entry of \<open>u\<close> with a newer sequence number, and no entry of
  \<open>u\<close> that the snapshot sees comes before it.
\<close>

theorem lookup_key_correct:
  assumes "s \<le> kMaxSequenceNumber" and "length u < 2 ^ 32 - 8" and "q \<le> kMaxSequenceNumber" and "t \<le> kTypeValue"
  shows "(\<exists>k lk. AppendInternalKey [] \<lparr>pk_user_key = u, pk_sequence = q, pk_type = t\<rparr> = Inr k \<and>
     ParseInternalKey k = Some (True, \<lparr>pk_user_key = u, pk_sequence = q, pk_type = t\<rparr>) \<and>
     length k = InternalKeyEncodingLength \<lparr>pk_user_key = u, pk_sequence = q, pk_type = t\<rparr> \<and>
     new_LookupKey u s = Inr lk \<and> length (memtable_key lk) \<le> length u + 13 \<and>
     GetLengthPrefixedSlice (memtable_key lk) = Some (internal_key lk, []) \<and> lookup_user_key lk = u \<and>
     AppendInternalKey [] \<lparr>pk_user_key = u, pk_sequence = s, pk_type = kValueTypeForSeek\<rparr> = Inr (internal_key lk) \<and>
     (s < q \<longrightarrow> ikey_before slice_compare k (internal_key lk)) \<and>
     (q \<le> s \<longrightarrow> \<not> ikey_before slice_compare k (internal_key lk)))"
proof -
  let ?p = "push_bit 8 q OR ucast t" and ?l = "push_bit 8 s OR ucast kValueTypeForSeek"
  let ?k = "u @ EncodeFixed64 ?p" and ?ik = "u @ EncodeFixed64 ?l" and ?n = "EncodeVarint32 (of_nat (length u + 8))"
  define lk where "lk = (?n @ ?ik, length ?n)"
  have ik: "internal_key lk = ?ik" "memtable_key lk = ?n @ ?ik" "lookup_user_key lk = u"
    by (simp_all add: lk_def internal_key_def memtable_key_def lookup_user_key_def)
  have "length ?n \<le> 5" using VarintLength_bounds(2) by (simp add: length_EncodeVarint32)
  then have len: "length (memtable_key lk) \<le> length u + 13" by (simp add: ik)
  have get: "GetLengthPrefixedSlice (memtable_key lk) = Some (internal_key lk, [])"
    using GetLengthPrefixedSlice_Put [of ?ik "[]"] assms(2) by (simp add: ik)
  have parse: "ParseInternalKey ?k = Some (True, \<lparr>pk_user_key = u, pk_sequence = q, pk_type = t\<rparr>)"
    using assms(4) ukey_append [of u ?p] ikey_tag_append [of u ?p] unpack [OF assms(3), of t]
    by (simp add: ParseInternalKey_def Let_def ukey_def ikey_tag_def)
  have unat_t: "unat t \<le> 1" using assms(4) by (simp add: kTypeValue_def word_le_nat_alt)
  have before: "ikey_before slice_compare ?k ?ik \<longleftrightarrow> unat s * 256 + 1 < unat q * 256 + unat t"
    using unat_pack [OF assms(1), of kValueTypeForSeek] unat_pack [OF assms(3), of t]
    by (simp add: ikey_before_def slice_compare_blex word_less_nat_alt kValueTypeForSeek_def kTypeValue_def)
  have "ikey_before slice_compare ?k ?ik" if "s < q" using that unat_t unfolding before by (simp add: word_less_nat_alt)
  moreover have "\<not> ikey_before slice_compare ?k ?ik" if "q \<le> s"
    using that unat_t unfolding before by (simp add: word_le_nat_alt)
  ultimately show ?thesis
    using len get parse ik Pack_ok [OF assms(1)] Pack_ok [OF assms(3)]
    by (intro exI [of _ ?k] exI [of _ lk])
      (simp add: AppendInternalKey_def new_LookupKey_def PutFixed64_def InternalKeyEncodingLength_def lk_def Let_def)
qed

theorem lookup_key_correct_witness:
  "\<exists>k lk. AppendInternalKey [] \<lparr>pk_user_key = [97], pk_sequence = 7, pk_type = 1\<rparr> = Inr k \<and>
     new_LookupKey [97] 5 = Inr lk \<and> ikey_before slice_compare k (internal_key lk)"
proof -
  have "(5 :: u64) \<le> kMaxSequenceNumber" "(7 :: u64) \<le> kMaxSequenceNumber" "(1 :: u8) \<le> kTypeValue" "(5 :: u64) < 7"
    by (simp_all add: kMaxSequenceNumber_def kTypeValue_def)
  moreover have "length [97 :: u8] < 2 ^ 32 - 8" by simp
  ultimately show ?thesis using lookup_key_correct [of 5 "[97]" 7 1] by blast
qed

end
