(* ===== verification/WriteBatch.thy ===== *)
theory WriteBatch
  imports DbFormat
begin

unbundle bit_operations_syntax

text \<open>
  Model of \<open>dLSM/db/write_batch.cc\<close>: a batch of updates is one string, which goes to the log as it
  is and from there or directly into the memtable. The handler of \<open>Iterate\<close> is represented by the
  calls it receives.
\<close>

section \<open>Operations\<close>

datatype batch_op = BPut "u8 list" "u8 list" | BDelete "u8 list"

datatype status = OK | Corruption string

definition kHeader :: nat where "kHeader = 12"

definition wb_Clear :: "u8 list" where "wb_Clear = replicate kHeader 0"

definition ApproximateSize :: "u8 list \<Rightarrow> nat" where "ApproximateSize rep = length rep"

definition Count :: "u8 list \<Rightarrow> int" where "Count rep = sint (DecodeFixed32 (drop 8 rep))"

definition SetCount :: "u8 list \<Rightarrow> int \<Rightarrow> u8 list" where
  "SetCount rep n = take 8 rep @ EncodeFixed32 (of_int n) @ drop 12 rep"

definition Sequence :: "u8 list \<Rightarrow> u64" where "Sequence rep = DecodeFixed64 rep"

definition SetSequence :: "u8 list \<Rightarrow> u64 \<Rightarrow> u8 list" where
  "SetSequence rep seq = EncodeFixed64 seq @ drop 8 rep"

text \<open>The sum of two counts is computed in an \<open>int\<close>.\<close>

definition add_count :: "u8 list \<Rightarrow> int \<Rightarrow> u8 list result" where
  "add_count rep n = (if Count rep + n < 2 ^ 31 \<and> - (2 ^ 31) \<le> Count rep + n then Inr (SetCount rep (Count rep + n)) else Inl IntOverflow)"

definition wb_Put :: "u8 list \<Rightarrow> u8 list \<Rightarrow> u8 list \<Rightarrow> u8 list result" where
  "wb_Put key val rep =
     res_bind (add_count rep 1) (\<lambda>rep1.
     Inr (PutLengthPrefixedSlice (PutLengthPrefixedSlice (rep1 @ [kTypeValue]) key) val))"

definition wb_Delete :: "u8 list \<Rightarrow> u8 list \<Rightarrow> u8 list result" where
  "wb_Delete key rep =
     res_bind (add_count rep 1) (\<lambda>rep1. Inr (PutLengthPrefixedSlice (rep1 @ [kTypeDeletion]) key))"

definition wb_Append :: "u8 list \<Rightarrow> u8 list \<Rightarrow> u8 list result" where
  "wb_Append dst src =
     res_bind (add_count dst (Count src)) (\<lambda>dst1.
     res_bind (res_assert ''src->rep_.size() >= kHeader'' (kHeader \<le> length src)) (\<lambda>_.
     Inr (dst1 @ drop kHeader src)))"

definition SetContents :: "u8 list \<Rightarrow> u8 list result" where
  "SetContents contents =
     res_bind (res_assert ''contents.size() >= kHeader'' (kHeader \<le> length contents)) (\<lambda>_. Inr contents)"

text \<open>The slice is as long as the whole string but starts behind the first tag; \<open>behind\<close> follows the string in memory.\<close>

definition ParseFirst :: "u8 list \<Rightarrow> u8 list \<Rightarrow> u8 list option" where
  "ParseFirst behind rep = map_option fst (GetLengthPrefixedSlice (take (length rep) (drop (1 + kHeader) (rep @ behind))))"

text \<open>One turn of the loop of \<open>Iterate\<close>, behind the tag.\<close>

definition parse_op :: "u8 \<Rightarrow> u8 list \<Rightarrow> string + batch_op \<times> u8 list" where
  "parse_op tag input =
     (if tag = kTypeValue
      then case GetLengthPrefixedSlice input of
             None \<Rightarrow> Inl ''bad WriteBatch Put''
           | Some (key, input1) \<Rightarrow>
               (case GetLengthPrefixedSlice input1 of
                  None \<Rightarrow> Inl ''bad WriteBatch Put''
                | Some (val, input2) \<Rightarrow> Inr (BPut key val, input2))
      else if tag = kTypeDeletion
      then case GetLengthPrefixedSlice input of
             None \<Rightarrow> Inl ''bad WriteBatch Delete''
           | Some (key, input1) \<Rightarrow> Inr (BDelete key, input1)
      else Inl ''unknown WriteBatch tag'')"

lemma parse_op_shorter: "parse_op tag input = Inr (bop, input') \<Longrightarrow> length input' < length input"
  by (auto simp: parse_op_def split: if_splits option.splits dest!: GetLengthPrefixedSlice_shorter)

text \<open>The calls of the handler, the number of entries found, and the error that ended the loop.\<close>

function iterate_loop :: "u8 list \<Rightarrow> batch_op list \<times> int \<times> string option" where
  "iterate_loop [] = ([], 0, None)"
| "iterate_loop (tag # input) =
     (case parse_op tag input of
        Inl msg \<Rightarrow> ([], 1, Some msg)
      | Inr (bop, input') \<Rightarrow> (case iterate_loop input' of (ops, found, err) \<Rightarrow> (bop # ops, found + 1, err)))"
  by pat_completeness auto
termination iterate_loop
  by (relation "measure length") (auto dest: parse_op_shorter)

definition Iterate :: "u8 list \<Rightarrow> batch_op list \<times> status" where
  "Iterate rep =
     (if length rep < kHeader then ([], Corruption ''malformed WriteBatch (too small)'')
      else case iterate_loop (drop kHeader rep) of (ops, found, err) \<Rightarrow>
        (ops, case err of
                Some msg \<Rightarrow> Corruption msg
              | None \<Rightarrow> if found \<noteq> Count rep then Corruption ''WriteBatch has wrong count'' else OK))"

text \<open>What the handler of \<open>InsertInto\<close> adds to the memtable; \<open>flushed\<close> says that the memtable has been flushed.\<close>

fun memtable_adds :: "u64 \<Rightarrow> batch_op list \<Rightarrow> (u64 \<times> u8 \<times> u8 list \<times> u8 list) list" where
  "memtable_adds seq [] = []"
| "memtable_adds seq (BPut key val # ops) = (seq, kTypeValue, key, val) # memtable_adds (seq + 1) ops"
| "memtable_adds seq (BDelete key # ops) = (seq, kTypeDeletion, key, []) # memtable_adds (seq + 1) ops"

definition InsertInto :: "bool \<Rightarrow> u8 list \<Rightarrow> ((u64 \<times> u8 \<times> u8 list \<times> u8 list) list \<times> status) result" where
  "InsertInto flushed rep =
     res_bind (res_assert ''!memtable->CheckFlushFinished()'' (\<not> flushed)) (\<lambda>_.
     case Iterate rep of (ops, st) \<Rightarrow> Inr (memtable_adds (Sequence rep) ops, st))"

section \<open>Round trip\<close>

fun fits :: "batch_op \<Rightarrow> bool" where
  "fits (BPut key val) \<longleftrightarrow> length key < 2 ^ 32 \<and> length val < 2 ^ 32"
| "fits (BDelete key) \<longleftrightarrow> length key < 2 ^ 32"

definition varstring :: "u8 list \<Rightarrow> u8 list" where "varstring s = EncodeVarint32 (of_nat (length s)) @ s"

fun enc_op :: "batch_op \<Rightarrow> u8 list" where
  "enc_op (BPut key val) = kTypeValue # varstring key @ varstring val"
| "enc_op (BDelete key) = kTypeDeletion # varstring key"

fun wb_add :: "batch_op \<Rightarrow> u8 list \<Rightarrow> u8 list result" where
  "wb_add (BPut key val) rep = wb_Put key val rep"
| "wb_add (BDelete key) rep = wb_Delete key rep"

fun wb_build :: "batch_op list \<Rightarrow> u8 list \<Rightarrow> u8 list result" where
  "wb_build [] rep = Inr rep"
| "wb_build (bop # ops) rep = res_bind (wb_add bop rep) (wb_build ops)"

lemma Get_varstring [simp]: "length s < 2 ^ 32 \<Longrightarrow> GetLengthPrefixedSlice (varstring s @ r) = Some (s, r)"
  using GetLengthPrefixedSlice_Put [of s r] by (simp add: varstring_def)

lemma Put_varstring: "PutLengthPrefixedSlice dst s = dst @ varstring s"
  by (simp add: PutLengthPrefixedSlice_def PutVarint32_def varstring_def)

definition batch :: "u64 \<Rightarrow> batch_op list \<Rightarrow> u8 list" where
  "batch seq ops = EncodeFixed64 seq @ EncodeFixed32 (of_nat (length ops)) @ concat (map enc_op ops)"

lemma sint_small: "n < 2 ^ 31 \<Longrightarrow> sint (of_nat n :: u32) = int n"
  by (simp add: signed_of_nat signed_take_bit_int_eq_self)

lemma batch_simps [simp]:
  "drop 8 (batch seq ops) = EncodeFixed32 (of_nat (length ops)) @ concat (map enc_op ops)"
  "take 8 (batch seq ops) = EncodeFixed64 seq" "drop 12 (batch seq ops) = concat (map enc_op ops)"
  "12 \<le> length (batch seq ops)" "Sequence (batch seq ops) = seq" "SetSequence (batch seq ops) q = batch q ops"
  by (simp_all add: batch_def Sequence_def SetSequence_def)

lemma Count_batch: "length ops < 2 ^ 31 \<Longrightarrow> Count (batch seq ops) = int (length ops)"
  by (simp add: Count_def sint_small)

lemma SetCount_batch: "SetCount (batch seq ops) n = EncodeFixed64 seq @ EncodeFixed32 (of_int n) @ concat (map enc_op ops)"
  by (simp add: SetCount_def)

lemma new_batch: "wb_Clear = batch 0 []"
  by (simp add: wb_Clear_def kHeader_def batch_def EncodeFixed64_def EncodeFixed32_def numeral_eq_Suc)

lemma wb_add_batch:
  assumes "Suc (length ops) < 2 ^ 31"
  shows "wb_add bop (batch seq ops) = Inr (batch seq (ops @ [bop]))"
proof -
  have "add_count (batch seq ops) 1 = Inr (EncodeFixed64 seq @ EncodeFixed32 (of_nat (Suc (length ops))) @ concat (map enc_op ops))"
    using assms by (simp add: add_count_def Count_batch SetCount_batch add.commute)
  then show ?thesis
    by (cases bop) (simp_all add: wb_Put_def wb_Delete_def Put_varstring batch_def)
qed

lemma wb_build_batch:
  "length (ops0 @ ops) < 2 ^ 31 \<Longrightarrow> wb_build ops (batch seq ops0) = Inr (batch seq (ops0 @ ops))"
proof (induction ops arbitrary: ops0)
  case (Cons bop ops)
  then show ?case using wb_add_batch [of ops0 bop seq] by simp
qed simp

lemma wb_Append_batch:
  "length (ops1 @ ops2) < 2 ^ 31 \<Longrightarrow> wb_Append (batch q1 ops1) (batch q2 ops2) = Inr (batch q1 (ops1 @ ops2))"
  by (simp add: wb_Append_def add_count_def Count_batch SetCount_batch kHeader_def batch_def [of q1 "ops1 @ ops2"])

lemma parse_enc: "fits bop \<Longrightarrow> enc_op bop @ r = tag # input \<Longrightarrow> parse_op tag input = Inr (bop, r)"
  by (cases bop) (auto simp: parse_op_def kTypeValue_def kTypeDeletion_def)

lemma enc_Cons: obtains tag input where "enc_op bop = tag # input"
  by (cases bop) auto

lemma iterate_loop_enc:
  "\<forall>p \<in> set ops. fits p \<Longrightarrow> iterate_loop (concat (map enc_op ops)) = (ops, int (length ops), None)"
proof (induction ops)
  case (Cons bop ops)
  obtain tag input where e: "enc_op bop = tag # input" by (rule enc_Cons)
  then have "parse_op tag (input @ concat (map enc_op ops)) = Inr (bop, concat (map enc_op ops))"
    using parse_enc [of bop "concat (map enc_op ops)"] Cons.prems by simp
  then show ?case using Cons e by simp
qed simp

lemma Iterate_batch:
  "length ops < 2 ^ 31 \<Longrightarrow> \<forall>p \<in> set ops. fits p \<Longrightarrow> Iterate (batch seq ops) = (ops, OK)"
  using batch_simps(4) [of seq ops] by (simp add: Iterate_def kHeader_def iterate_loop_enc Count_batch not_less)

lemma memtable_adds_nth:
  "i < length ops \<Longrightarrow> memtable_adds seq ops ! i =
     (case ops ! i of BPut key val \<Rightarrow> (seq + of_nat i, kTypeValue, key, val) | BDelete key \<Rightarrow> (seq + of_nat i, kTypeDeletion, key, []))"
proof (induction ops arbitrary: seq i)
  case (Cons p ops)
  then show ?case by (cases p; cases i) (auto simp: add.commute split: batch_op.splits)
qed simp

lemma length_memtable_adds [simp]: "length (memtable_adds seq ops) = length ops"
  by (induction seq ops rule: memtable_adds.induct) auto

text \<open>Cutting a batch off: the strings that remain cannot make up the count.\<close>

lemma Get_varstring_cut:
  assumes "length s < 2 ^ 32" and "k < length (varstring s)"
  shows "GetLengthPrefixedSlice (take k (varstring s)) = None"
proof (cases "k < length (EncodeVarint32 (of_nat (length s)))")
  case True
  then show ?thesis using GetVarint_truncated(1) by (simp add: varstring_def GetLengthPrefixedSlice_def)
next
  case False
  then have "take k (varstring s) = EncodeVarint32 (of_nat (length s)) @ take (k - length (EncodeVarint32 (of_nat (length s)))) s"
    by (simp add: varstring_def)
  moreover have "unat (of_nat (length s) :: u32) = length s" using assms(1) by (simp add: unat_of_nat)
  ultimately show ?thesis using assms(2) False by (simp add: GetLengthPrefixedSlice_def varstring_def)
qed

lemma parse_cut:
  assumes "fits bop" and "enc_op bop = tag # input" and "k < length input"
  shows "\<exists>msg. parse_op tag (take k input) = Inl msg"
proof (cases bop)
  case (BPut key val)
  then have input: "tag = kTypeValue" "input = varstring key @ varstring val" using assms(2) by auto
  show ?thesis
  proof (cases "k < length (varstring key)")
    case True
    then show ?thesis using Get_varstring_cut [of key k] assms(1) BPut input by (simp add: parse_op_def)
  next
    case False
    then have "take k input = varstring key @ take (k - length (varstring key)) (varstring val)" using input by simp
    then show ?thesis
      using Get_varstring_cut [of val "k - length (varstring key)"] assms(1,3) BPut input False by (simp add: parse_op_def)
  qed
next
  case (BDelete key)
  then show ?thesis
    using Get_varstring_cut [of key k] assms by (auto simp: parse_op_def kTypeValue_def kTypeDeletion_def)
qed

lemma iterate_loop_cut:
  "\<forall>p \<in> set ops. fits p \<Longrightarrow> k < length (concat (map enc_op ops)) \<Longrightarrow>
     iterate_loop (take k (concat (map enc_op ops))) = (os, found, err) \<Longrightarrow>
     (\<exists>n. os = take n ops) \<and> (err = None \<longrightarrow> found < int (length ops))"
proof (induction ops arbitrary: k os found err)
  case (Cons bop ops)
  obtain tag input where e: "enc_op bop = tag # input" by (rule enc_Cons)
  show ?case
  proof (cases k)
    case 0
    then show ?thesis using Cons.prems(3) by (auto intro: exI [of _ 0])
  next
    case (Suc j)
    show ?thesis
    proof (cases "j < length input")
      case True
      then obtain msg where "parse_op tag (take j input) = Inl msg" using parse_cut [OF _ e, of j] Cons.prems(1) by auto
      then show ?thesis using Cons.prems(3) e Suc True by (auto intro: exI [of _ 0])
    next
      case False
      let ?r = "take (j - length input) (concat (map enc_op ops))"
      have p: "parse_op tag (input @ ?r) = Inr (bop, ?r)" using parse_enc [of bop ?r] e Cons.prems(1) by simp
      obtain os' found' err' where it: "iterate_loop ?r = (os', found', err')" by (metis prod_cases3)
      have "j - length input < length (concat (map enc_op ops))" using Cons.prems(2) e Suc False by simp
      with Cons.IH [OF _ this it] Cons.prems(1)
      have IH: "\<exists>n. os' = take n ops" "err' = None \<longrightarrow> found' < int (length ops)" by auto
      have "take k (concat (map enc_op (bop # ops))) = tag # input @ ?r" using e Suc False by simp
      then have "os = bop # os'" "found = found' + 1" "err = err'" using Cons.prems(3) p it by auto
      moreover from IH(1) obtain n where "os' = take n ops" ..
      ultimately show ?thesis using IH(2) by (auto intro: exI [of _ "Suc n"])
    qed
  qed
qed simp

lemma Iterate_cut:
  assumes "length ops < 2 ^ 31" and "\<forall>p \<in> set ops. fits p" and k: "k < length (batch seq ops)"
  shows "\<exists>n msg. Iterate (take k (batch seq ops)) = (take n ops, Corruption msg)"
proof (cases "k < 12")
  case True
  then show ?thesis using k by (auto simp: Iterate_def kHeader_def intro: exI [of _ 0])
next
  case False
  define j where "j = k - 12"
  have len: "length (batch seq ops) = 12 + length (concat (map enc_op ops))" by (simp add: batch_def)
  have j: "j < length (concat (map enc_op ops))" using k len False by (simp add: j_def)
  have "drop 12 (take k (batch seq ops)) = take j (concat (map enc_op ops))" by (simp add: drop_take j_def)
  moreover have "Count (take k (batch seq ops)) = int (length ops)"
    using False Count_batch [OF assms(1), of seq] by (simp add: Count_def DecodeFixed32_def drop_take)
  moreover obtain os found err where it: "iterate_loop (take j (concat (map enc_op ops))) = (os, found, err)"
    by (metis prod_cases3)
  moreover have "(\<exists>n. os = take n ops) \<and> (err = None \<longrightarrow> found < int (length ops))"
    by (rule iterate_loop_cut [OF assms(2) j it])
  ultimately show ?thesis using k False by (cases err) (auto simp: Iterate_def kHeader_def)
qed

text \<open>
  C20: a batch that is built from updates holds exactly these, in order. \<open>Iterate\<close> hands them to its
  handler and reports success, the count is their number, appending one batch to another gives the
  updates of both, and insertion into the memtable numbers them consecutively from the batch's
  sequence number. A batch that is cut off anywhere is reported as corrupt, after a prefix of its
  updates.
\<close>

theorem write_batch_roundtrip:
  assumes "length (ops1 @ ops2) < 2 ^ 31" and "\<forall>p \<in> set (ops1 @ ops2). fits p"
  shows "\<exists>b1 b2 b. wb_build ops1 wb_Clear = Inr b1 \<and> wb_build ops2 wb_Clear = Inr b2 \<and>
     Iterate b1 = (ops1, OK) \<and> Count b1 = int (length ops1) \<and>
     wb_Append b1 b2 = Inr b \<and> Iterate b = (ops1 @ ops2, OK) \<and>
     InsertInto False (SetSequence b q) = Inr (memtable_adds q (ops1 @ ops2), OK) \<and>
     (\<forall>i < length (ops1 @ ops2). fst (memtable_adds q (ops1 @ ops2) ! i) = q + of_nat i) \<and>
     (\<forall>k < length b. \<exists>n msg. Iterate (take k b) = (take n (ops1 @ ops2), Corruption msg))"
proof -
  have len: "length ops1 < 2 ^ 31" "length ops2 < 2 ^ 31" using assms(1) by simp_all
  have "fst (memtable_adds q ops ! i) = q + of_nat i" if "i < length ops" for ops i
    using memtable_adds_nth [OF that, of q] by (simp split: batch_op.splits)
  then show ?thesis
    using wb_build_batch [of "[]" ops1 0] wb_build_batch [of "[]" ops2 0] len wb_Append_batch [OF assms(1)] new_batch
      Iterate_batch [OF len(1)] Iterate_batch [OF assms] Count_batch [OF len(1), of 0] Iterate_cut [OF assms] assms(2)
    by (intro exI [of _ "batch 0 ops1"] exI [of _ "batch 0 ops2"] exI [of _ "batch 0 (ops1 @ ops2)"])
      (simp add: InsertInto_def)
qed

theorem write_batch_roundtrip_witness:
  "\<exists>b1 b. wb_build [BPut [1] [2, 3]] wb_Clear = Inr b1 \<and> wb_Append b1 b1 = Inr b \<and>
     Iterate b = ([BPut [1] [2, 3], BPut [1] [2, 3]], OK)"
proof -
  let ?ops = "[BPut [1] [2, 3]]"
  have ok: "length (?ops @ ?ops) < 2 ^ 31" "\<forall>p \<in> set (?ops @ ?ops). fits p" by simp_all
  obtain b1 b2 b where "wb_build ?ops wb_Clear = Inr b1" "wb_build ?ops wb_Clear = Inr b2" "wb_Append b1 b2 = Inr b"
    "Iterate b = (?ops @ ?ops, OK)"
    using write_batch_roundtrip [OF ok] by blast
  then show ?thesis by simp
qed

end
