(* ===== verification/IterKey.thy ===== *)
theory IterKey
  imports DbFormat
begin

unbundle bit_operations_syntax

text \<open>
  Model of \<open>class IterKey\<close> of \<open>dLSM/db/dbformat.h\<close>, the key holder of the block iterators. The key is
  in the holder's own buffer or pinned, that is, it lies in memory of others whose bytes are then
  part of the state. A copy that does not fit its destination or reads past the end of its source
  is \<open>OutOfBounds\<close>. The bytes of a new buffer are a parameter. The operands do not point into the
  holder's buffer.
\<close>

section \<open>State and operations\<close>

record IterKey =
  ik_buf :: "u8 list"
  ik_pinned :: "u8 list option"
  ik_key_size :: nat
  ik_buf_size :: nat
  ik_is_user_key :: bool

definition new_IterKey :: "u8 list \<Rightarrow> IterKey" where
  "new_IterKey space =
     \<lparr>ik_buf = space, ik_pinned = None, ik_key_size = 0, ik_buf_size = 32, ik_is_user_key = True\<rparr>"

definition memcpy :: "u8 list \<Rightarrow> nat \<Rightarrow> u8 list \<Rightarrow> nat \<Rightarrow> u8 list result" where
  "memcpy dst at src n =
     (if n \<le> length src \<and> at + n \<le> length dst then Inr (take at dst @ take n src @ drop (at + n) dst) else Inl OutOfBounds)"

text \<open>The memory that \<open>key_\<close> points to.\<close>

definition ik_mem :: "IterKey \<Rightarrow> u8 list" where
  "ik_mem k = (case ik_pinned k of None \<Rightarrow> ik_buf k | Some m \<Rightarrow> m)"

definition GetKey :: "IterKey \<Rightarrow> u8 list" where "GetKey k = take (ik_key_size k) (ik_mem k)"

definition GetUserKey :: "IterKey \<Rightarrow> u8 list result" where
  "GetUserKey k =
     (if ik_is_user_key k then Inr (take (ik_key_size k) (ik_mem k))
      else res_bind (res_assert ''key_size_ >= 8'' (8 \<le> ik_key_size k)) (\<lambda>_. Inr (take (ik_key_size k - 8) (ik_mem k))))"

definition GetInternalKey :: "IterKey \<Rightarrow> u8 list result" where
  "GetInternalKey k =
     res_bind (res_assert ''!IsUserKey()'' (\<not> ik_is_user_key k)) (\<lambda>_. Inr (take (ik_key_size k) (ik_mem k)))"

definition ik_Clear :: "IterKey \<Rightarrow> IterKey" where "ik_Clear k = k\<lparr>ik_key_size := 0\<rparr>"

text \<open>
  The buffer is the inline array of 32 bytes or a longer one from the heap. If the key was in the
  buffer, \<open>key_\<close> still points to the old one: to the inline array, or to freed memory, which is left
  without bytes here.
\<close>

definition ResetBuffer :: "u8 \<Rightarrow> IterKey \<Rightarrow> IterKey" where
  "ResetBuffer u k =
     (let inline = (ik_buf_size k = 32)
      in k\<lparr>ik_buf := (if inline then ik_buf k else replicate 32 u),
           ik_pinned := (case ik_pinned k of Some m \<Rightarrow> Some m | None \<Rightarrow> if inline then None else Some []),
           ik_buf_size := 32, ik_key_size := 0\<rparr>)"

definition EnlargeBuffer :: "u8 \<Rightarrow> nat \<Rightarrow> IterKey \<Rightarrow> IterKey result" where
  "EnlargeBuffer u key_size k =
     res_bind (res_assert ''key_size > buf_size_'' (ik_buf_size k < key_size)) (\<lambda>_.
     let k1 = ResetBuffer u k
     in Inr (k1\<lparr>ik_buf := replicate key_size u,
                ik_pinned := (case ik_pinned k1 of Some m \<Rightarrow> Some m | None \<Rightarrow> Some (ik_buf k1)),
                ik_buf_size := key_size\<rparr>))"

definition EnlargeBufferIfNeeded :: "u8 \<Rightarrow> nat \<Rightarrow> IterKey \<Rightarrow> IterKey result" where
  "EnlargeBufferIfNeeded u key_size k = (if ik_buf_size k < key_size then EnlargeBuffer u key_size k else Inr k)"

definition IsKeyPinned :: "IterKey \<Rightarrow> bool" where "IsKeyPinned k \<longleftrightarrow> ik_pinned k \<noteq> None"

definition SetKeyImpl :: "u8 \<Rightarrow> u8 list \<Rightarrow> bool \<Rightarrow> IterKey \<Rightarrow> IterKey result" where
  "SetKeyImpl u key copy k =
     (if copy
      then res_bind (EnlargeBufferIfNeeded u (length key) k) (\<lambda>k1.
           res_bind (memcpy (ik_buf k1) 0 key (length key)) (\<lambda>b.
           Inr (k1\<lparr>ik_buf := b, ik_pinned := None, ik_key_size := length key\<rparr>)))
      else Inr (k\<lparr>ik_pinned := Some key, ik_key_size := length key\<rparr>))"

definition SetKey :: "u8 \<Rightarrow> u8 list \<Rightarrow> bool \<Rightarrow> IterKey \<Rightarrow> IterKey result" where "SetKey u key copy k = SetKeyImpl u key copy k"

definition SetUserKey :: "u8 \<Rightarrow> u8 list \<Rightarrow> bool \<Rightarrow> IterKey \<Rightarrow> IterKey result" where
  "SetUserKey u key copy k = SetKeyImpl u key copy (k\<lparr>ik_is_user_key := True\<rparr>)"

definition SetInternalKey :: "u8 \<Rightarrow> u8 list \<Rightarrow> bool \<Rightarrow> IterKey \<Rightarrow> IterKey result" where
  "SetInternalKey u key copy k = SetKeyImpl u key copy (k\<lparr>ik_is_user_key := False\<rparr>)"

text \<open>The room made for a longer key: the first \<open>len\<close> bytes of the old one are carried over.\<close>

definition TrimAppend :: "u8 \<Rightarrow> nat \<Rightarrow> u8 list \<Rightarrow> IterKey \<Rightarrow> IterKey result" where
  "TrimAppend u shared_len data k =
     res_bind (res_assert ''shared_len <= key_size_'' (shared_len \<le> ik_key_size k)) (\<lambda>_.
     let total_size = shared_len + length data in
     res_bind
       (if IsKeyPinned k
        then res_bind (EnlargeBufferIfNeeded u total_size k) (\<lambda>k1.
             res_bind (memcpy (ik_buf k1) 0 (ik_mem k1) shared_len) (\<lambda>b. Inr (k1\<lparr>ik_buf := b\<rparr>)))
        else if ik_buf_size k < total_size
        then res_bind (memcpy (replicate total_size u) 0 (ik_mem k) shared_len) (\<lambda>p.
             Inr (k\<lparr>ik_buf := p, ik_buf_size := total_size\<rparr>))
        else Inr k) (\<lambda>k2.
     res_bind (memcpy (ik_buf k2) shared_len data (length data)) (\<lambda>b.
     Inr (k2\<lparr>ik_buf := b, ik_pinned := None, ik_key_size := total_size\<rparr>))))"

definition AppendToBack :: "u8 \<Rightarrow> u8 list \<Rightarrow> IterKey \<Rightarrow> IterKey result" where
  "AppendToBack u data k =
     (let total_size = ik_key_size k + length data in
     res_bind
       (if IsKeyPinned k
        then res_bind (EnlargeBufferIfNeeded u total_size k) (\<lambda>k1.
             res_bind (memcpy (ik_buf k1) 0 (ik_mem k1) (ik_key_size k1)) (\<lambda>b. Inr (k1\<lparr>ik_buf := b\<rparr>)))
        else if ik_buf_size k < total_size
        then res_bind (memcpy (replicate total_size u) 0 (ik_mem k) (ik_key_size k)) (\<lambda>p.
             Inr (k\<lparr>ik_buf := p, ik_buf_size := total_size\<rparr>))
        else Inr k) (\<lambda>k2.
     res_bind (memcpy (ik_buf k2) (ik_key_size k2) data (length data)) (\<lambda>b.
     Inr (k2\<lparr>ik_buf := b, ik_pinned := None, ik_key_size := total_size\<rparr>))))"

definition Reserve :: "u8 \<Rightarrow> nat \<Rightarrow> IterKey \<Rightarrow> IterKey result" where
  "Reserve u size' k = res_bind (EnlargeBufferIfNeeded u size' k) (\<lambda>k1. Inr (k1\<lparr>ik_key_size := size'\<rparr>))"

definition OwnKey :: "u8 \<Rightarrow> IterKey \<Rightarrow> IterKey result" where
  "OwnKey u k =
     res_bind (res_assert ''IsKeyPinned() == true'' (IsKeyPinned k)) (\<lambda>_.
     res_bind (Reserve u (ik_key_size k) k) (\<lambda>k1.
     res_bind (memcpy (ik_buf k1) 0 (ik_mem k1) (ik_key_size k1)) (\<lambda>b.
     Inr (k1\<lparr>ik_buf := b, ik_pinned := None\<rparr>))))"

definition UpdateInternalKey :: "u64 \<Rightarrow> u8 \<Rightarrow> IterKey \<Rightarrow> IterKey result" where
  "UpdateInternalKey seq t k =
     res_bind (res_assert ''!IsKeyPinned()'' (\<not> IsKeyPinned k)) (\<lambda>_.
     res_bind (res_assert ''key_size_ >= 8'' (8 \<le> ik_key_size k)) (\<lambda>_.
     res_bind (memcpy (ik_buf k) (ik_key_size k - 8) (EncodeFixed64 (push_bit 8 seq OR ucast t)) 8) (\<lambda>b.
     Inr (k\<lparr>ik_buf := b\<rparr>))))"

text \<open>Prefix, user key, optional timestamp and the packed number.\<close>

definition SetInternalKey_parts ::
  "u8 \<Rightarrow> u8 list \<Rightarrow> u8 list \<Rightarrow> u64 \<Rightarrow> u8 \<Rightarrow> u8 list option \<Rightarrow> IterKey \<Rightarrow> IterKey result" where
  "SetInternalKey_parts u key_prefix user_key s t ts k =
     (let psize = length key_prefix; usize = length user_key; ts_sz = (case ts of None \<Rightarrow> 0 | Some x \<Rightarrow> length x) in
     res_bind (EnlargeBufferIfNeeded u (psize + usize + 8 + ts_sz) k) (\<lambda>k1.
     res_bind (memcpy (ik_buf k1) 0 key_prefix psize) (\<lambda>b1.
     res_bind (memcpy b1 psize user_key usize) (\<lambda>b2.
     res_bind (case ts of None \<Rightarrow> Inr b2 | Some x \<Rightarrow> memcpy b2 (psize + usize) x ts_sz) (\<lambda>b3.
     res_bind (PackSequenceAndType s t) (\<lambda>p.
     res_bind (memcpy b3 (usize + psize + ts_sz) (EncodeFixed64 p) 8) (\<lambda>b4.
     Inr (k1\<lparr>ik_buf := b4, ik_pinned := None, ik_key_size := psize + usize + 8 + ts_sz, ik_is_user_key := False\<rparr>))))))))"

definition EncodeLengthPrefixedKey :: "u8 \<Rightarrow> u8 list \<Rightarrow> IterKey \<Rightarrow> IterKey result" where
  "EncodeLengthPrefixedKey u key k =
     (let size' = length key in
     res_bind (EnlargeBufferIfNeeded u (size' + VarintLength (of_nat size')) k) (\<lambda>k1.
     let v = EncodeVarint32 (of_nat size') in
     res_bind (memcpy (ik_buf k1) 0 v (length v)) (\<lambda>b1.
     res_bind (memcpy b1 (length v) key size') (\<lambda>b2.
     Inr (k1\<lparr>ik_buf := b2, ik_pinned := None, ik_is_user_key := True\<rparr>)))))"

section \<open>What the operations do\<close>

definition ik_ok :: "IterKey \<Rightarrow> bool" where
  "ik_ok k \<longleftrightarrow> length (ik_buf k) = ik_buf_size k \<and> 32 \<le> ik_buf_size k \<and> ik_key_size k \<le> length (ik_mem k)"

lemma memcpy_ok: "n \<le> length src \<Longrightarrow> at + n \<le> length dst \<Longrightarrow>
    memcpy dst at src n = Inr (take at dst @ take n src @ drop (at + n) dst)"
  by (simp add: memcpy_def)

lemma enlarge_ok:
  assumes "ik_ok k"
  obtains k1 where "EnlargeBufferIfNeeded u n k = Inr k1" and "length (ik_buf k1) = ik_buf_size k1" and "32 \<le> ik_buf_size k1"
    and "n \<le> ik_buf_size k1" and "ik_is_user_key k1 = ik_is_user_key k"
    and "IsKeyPinned k \<Longrightarrow> ik_pinned k1 = ik_pinned k" and "n \<le> ik_buf_size k \<Longrightarrow> k1 = k"
proof (cases "ik_buf_size k < n")
  case True
  then show thesis
    using that assms
    by (auto simp: EnlargeBufferIfNeeded_def EnlargeBuffer_def ResetBuffer_def ik_ok_def IsKeyPinned_def Let_def
        split: option.splits)
next
  case False
  then show thesis using that [of k] assms by (simp add: EnlargeBufferIfNeeded_def ik_ok_def)
qed

lemma new_IterKey_ok: "length space = 32 \<Longrightarrow> ik_ok (new_IterKey space) \<and> GetKey (new_IterKey space) = []"
  by (simp add: ik_ok_def new_IterKey_def ik_mem_def GetKey_def)

lemma SetKeyImpl_ok:
  assumes "ik_ok k"
  shows "\<exists>k'. SetKeyImpl u key copy k = Inr k' \<and> ik_ok k' \<and> GetKey k' = key \<and> ik_is_user_key k' = ik_is_user_key k"
proof (cases copy)
  case True
  obtain k1 where k1: "EnlargeBufferIfNeeded u (length key) k = Inr k1" "length (ik_buf k1) = ik_buf_size k1"
    "32 \<le> ik_buf_size k1" "length key \<le> ik_buf_size k1" "ik_is_user_key k1 = ik_is_user_key k"
    by (rule enlarge_ok [OF assms, of u "length key"])
  then show ?thesis using True by (simp add: SetKeyImpl_def memcpy_ok ik_ok_def ik_mem_def GetKey_def)
next
  case False
  then show ?thesis using assms by (auto simp: SetKeyImpl_def ik_ok_def ik_mem_def GetKey_def)
qed

text \<open>Both appending operations end with the data behind the bytes they keep.\<close>

lemma append_end:
  assumes "length (ik_buf k2) = ik_buf_size k2" "32 \<le> ik_buf_size k2" "n + length data \<le> ik_buf_size k2"
  shows "\<exists>k'. res_bind (memcpy (ik_buf k2) n data (length data)) (\<lambda>b.
       Inr (k2\<lparr>ik_buf := b, ik_pinned := None, ik_key_size := n + length data\<rparr>)) = Inr k' \<and>
     ik_ok k' \<and> \<not> IsKeyPinned k' \<and> GetKey k' = take n (ik_buf k2) @ data \<and> ik_is_user_key k' = ik_is_user_key k2"
  using assms by (simp add: memcpy_ok ik_ok_def ik_mem_def GetKey_def IsKeyPinned_def)

lemma TrimAppend_ok:
  assumes ok: "ik_ok k" and n: "n \<le> ik_key_size k"
  shows "\<exists>k'. TrimAppend u n data k = Inr k' \<and> ik_ok k' \<and> \<not> IsKeyPinned k' \<and> GetKey k' = take n (GetKey k) @ data \<and>
     ik_is_user_key k' = ik_is_user_key k"
proof -
  have mem: "n \<le> length (ik_mem k)" "take n (GetKey k) = take n (ik_mem k)"
    using assms by (simp_all add: ik_ok_def GetKey_def min_def)
  obtain k2 where k2: "TrimAppend u n data k = res_bind (memcpy (ik_buf k2) n data (length data)) (\<lambda>b.
       Inr (k2\<lparr>ik_buf := b, ik_pinned := None, ik_key_size := n + length data\<rparr>))"
    "length (ik_buf k2) = ik_buf_size k2" "32 \<le> ik_buf_size k2" "n + length data \<le> ik_buf_size k2"
    "take n (ik_buf k2) = take n (ik_mem k)" "ik_is_user_key k2 = ik_is_user_key k"
  proof (cases "IsKeyPinned k")
    case True
    obtain k1 where k1: "EnlargeBufferIfNeeded u (n + length data) k = Inr k1" "length (ik_buf k1) = ik_buf_size k1"
      "32 \<le> ik_buf_size k1" "n + length data \<le> ik_buf_size k1" "ik_is_user_key k1 = ik_is_user_key k" "ik_pinned k1 = ik_pinned k"
      using enlarge_ok [OF ok, of u "n + length data"] True by metis
    have "ik_mem k1 = ik_mem k" using k1(6) True by (auto simp: ik_mem_def IsKeyPinned_def)
    then show thesis
      using that [of "k1\<lparr>ik_buf := take n (ik_mem k) @ drop n (ik_buf k1)\<rparr>"] True k1 n mem
      by (simp add: TrimAppend_def memcpy_ok)
  next
    case False
    then have buf: "ik_mem k = ik_buf k" by (simp add: IsKeyPinned_def ik_mem_def)
    show thesis
    proof (cases "ik_buf_size k < n + length data")
      case long: True
      then show thesis
        using that [of "k\<lparr>ik_buf := take n (ik_mem k) @ replicate (length data) u, ik_buf_size := n + length data\<rparr>"]
          False n mem ok by (simp add: TrimAppend_def memcpy_ok ik_ok_def Let_def)
    next
      case short: False
      then show thesis using that [of k] False n ok buf by (simp add: TrimAppend_def ik_ok_def)
    qed
  qed
  show ?thesis using append_end [OF k2(2-4)] k2(1,5,6) mem by simp
qed

lemma AppendToBack_ok:
  assumes ok: "ik_ok k" and fit: "\<not> IsKeyPinned k \<or> ik_key_size k + length data \<le> ik_buf_size k"
  shows "AppendToBack u data k = TrimAppend u (ik_key_size k) data k"
proof (cases "IsKeyPinned k")
  case True
  then have "EnlargeBufferIfNeeded u (ik_key_size k + length data) k = Inr k"
    using fit by (simp add: EnlargeBufferIfNeeded_def)
  then show ?thesis using True ok by (simp add: AppendToBack_def TrimAppend_def Let_def memcpy_def ik_ok_def)
next
  case False
  then show ?thesis by (simp add: AppendToBack_def TrimAppend_def Let_def memcpy_def)
qed

lemma OwnKey_ok:
  assumes ok: "ik_ok k" and pin: "IsKeyPinned k"
  shows "\<exists>k'. OwnKey u k = Inr k' \<and> ik_ok k' \<and> \<not> IsKeyPinned k' \<and> GetKey k' = GetKey k"
proof -
  obtain k1 where k1: "EnlargeBufferIfNeeded u (ik_key_size k) k = Inr k1" "length (ik_buf k1) = ik_buf_size k1"
    "32 \<le> ik_buf_size k1" "ik_key_size k \<le> ik_buf_size k1" "ik_pinned k1 = ik_pinned k"
    using enlarge_ok [OF ok, of u "ik_key_size k"] pin by metis
  have "ik_mem (k1\<lparr>ik_key_size := n\<rparr>) = ik_mem k" for n using k1(5) pin by (auto simp: ik_mem_def IsKeyPinned_def)
  then show ?thesis
    using k1 pin ok by (simp add: OwnKey_def Reserve_def memcpy_ok ik_ok_def GetKey_def)
      (simp add: ik_mem_def IsKeyPinned_def)
qed

lemma UpdateInternalKey_ok:
  assumes ok: "ik_ok k" and "\<not> IsKeyPinned k" and "8 \<le> ik_key_size k"
  shows "\<exists>k'. UpdateInternalKey seq t k = Inr k' \<and> ik_ok k' \<and>
     GetKey k' = take (ik_key_size k - 8) (GetKey k) @ EncodeFixed64 (push_bit 8 seq OR ucast t)"
proof -
  have buf: "ik_mem k = ik_buf k" using assms(2) by (simp add: IsKeyPinned_def ik_mem_def)
  then show ?thesis
    using assms by (simp add: UpdateInternalKey_def memcpy_ok ik_ok_def GetKey_def)
      (auto simp: ik_mem_def IsKeyPinned_def min_def)
qed

lemma SetInternalKey_parts_ok:
  assumes ok: "ik_ok k" and s: "s \<le> kMaxSequenceNumber"
  shows "\<exists>k'. SetInternalKey_parts u pre user s t ts k = Inr k' \<and> ik_ok k' \<and> \<not> ik_is_user_key k' \<and>
     GetKey k' = pre @ user @ (case ts of None \<Rightarrow> [] | Some x \<Rightarrow> x) @ EncodeFixed64 (push_bit 8 s OR ucast t)"
proof -
  let ?n = "length pre + length user + 8 + (case ts of None \<Rightarrow> 0 | Some x \<Rightarrow> length x)"
  obtain k1 where k1: "EnlargeBufferIfNeeded u ?n k = Inr k1" "length (ik_buf k1) = ik_buf_size k1"
    "32 \<le> ik_buf_size k1" "?n \<le> ik_buf_size k1"
    by (rule enlarge_ok [OF ok, of u ?n])
  then show ?thesis
    using Pack_ok [OF s, of t]
    by (cases ts) (auto simp: SetInternalKey_parts_def memcpy_def ik_ok_def ik_mem_def GetKey_def Let_def)
qed

text \<open>
  C24: the key holder keeps its shape: the key always lies in memory that the holder can read. Setting
  a key, by copy or by reference, makes it the key; \<open>TrimAppend\<close> keeps a prefix and appends;
  \<open>AppendToBack\<close> appends, if the key is not pinned or the result fits the buffer; \<open>OwnKey\<close> copies
  without changing the key; internal keys are built and updated in the stored format.
\<close>

theorem iterkey_operations:
  assumes "ik_ok k"
  shows "(\<exists>k'. SetKey u key copy k = Inr k' \<and> ik_ok k' \<and> GetKey k' = key) \<and>
     (n \<le> ik_key_size k \<longrightarrow> (\<exists>k'. TrimAppend u n data k = Inr k' \<and> ik_ok k' \<and> GetKey k' = take n (GetKey k) @ data)) \<and>
     (\<not> IsKeyPinned k \<or> ik_key_size k + length data \<le> ik_buf_size k \<longrightarrow>
        (\<exists>k'. AppendToBack u data k = Inr k' \<and> ik_ok k' \<and> GetKey k' = GetKey k @ data)) \<and>
     (IsKeyPinned k \<longrightarrow> (\<exists>k'. OwnKey u k = Inr k' \<and> ik_ok k' \<and> \<not> IsKeyPinned k' \<and> GetKey k' = GetKey k)) \<and>
     (\<not> IsKeyPinned k \<and> 8 \<le> ik_key_size k \<longrightarrow>
        (\<exists>k'. UpdateInternalKey seq t k = Inr k' \<and> ik_ok k' \<and>
           GetKey k' = take (ik_key_size k - 8) (GetKey k) @ EncodeFixed64 (push_bit 8 seq OR ucast t))) \<and>
     (seq \<le> kMaxSequenceNumber \<longrightarrow>
        (\<exists>k'. SetInternalKey_parts u pre user seq t ts k = Inr k' \<and> ik_ok k' \<and> \<not> ik_is_user_key k' \<and>
           GetKey k' = pre @ user @ (case ts of None \<Rightarrow> [] | Some x \<Rightarrow> x) @ EncodeFixed64 (push_bit 8 seq OR ucast t)))"
proof -
  have "length (GetKey k) = ik_key_size k" using assms by (simp add: ik_ok_def GetKey_def)
  then have "take (ik_key_size k) (GetKey k) = GetKey k" by simp
  then have append: "\<exists>k'. AppendToBack u data k = Inr k' \<and> ik_ok k' \<and> GetKey k' = GetKey k @ data"
    if "\<not> IsKeyPinned k \<or> ik_key_size k + length data \<le> ik_buf_size k"
    using TrimAppend_ok [OF assms order_refl, of u data] AppendToBack_ok [OF assms that, of u] by metis
  have "\<exists>k'. SetKey u key copy k = Inr k' \<and> ik_ok k' \<and> GetKey k' = key"
    using SetKeyImpl_ok [OF assms, of u key copy] by (auto simp: SetKey_def)
  moreover have "n \<le> ik_key_size k \<longrightarrow> (\<exists>k'. TrimAppend u n data k = Inr k' \<and> ik_ok k' \<and> GetKey k' = take n (GetKey k) @ data)"
    using TrimAppend_ok [OF assms, of n u data] by blast
  ultimately show ?thesis
    using append OwnKey_ok [OF assms, of u] UpdateInternalKey_ok [OF assms, of seq t]
      SetInternalKey_parts_ok [OF assms, of seq u pre user t ts] by (intro conjI impI) blast+
qed

theorem iterkey_operations_witness:
  "\<exists>k1 k2. SetKey 0 [1, 2, 3] False (new_IterKey (replicate 32 0)) = Inr k1 \<and> ik_ok k1 \<and>
     TrimAppend 0 2 [7, 8] k1 = Inr k2 \<and> GetKey k2 = [1, 2, 7, 8]"
proof -
  have ok: "ik_ok (new_IterKey (replicate 32 0))" using new_IterKey_ok by simp
  obtain k1 where k1: "SetKey 0 [1, 2, 3] False (new_IterKey (replicate 32 0)) = Inr k1" "ik_ok k1" "GetKey k1 = [1, 2, 3]"
    using iterkey_operations [OF ok] by blast
  have "ik_key_size k1 = 3" using k1(1) by (auto simp: SetKey_def SetKeyImpl_def)
  then have "2 \<le> ik_key_size k1" by simp
  then obtain k2 where "TrimAppend 0 2 [7, 8] k1 = Inr k2" "GetKey k2 = take 2 (GetKey k1) @ [7, 8]"
    using iterkey_operations [OF k1(2)] by blast
  then show ?thesis using k1 by simp
qed

text \<open>
  Appending to a pinned key that outgrows the buffer loses the key. Enlarging the buffer resets
  the key's size before the old bytes are copied, so the new key starts with the appended bytes and
  ends with whatever the new buffer held.
\<close>

lemma append_to_pinned_loses_key:
  "\<exists>k1 k2. SetKey u (replicate 30 97) False (new_IterKey (replicate 32 0)) = Inr k1 \<and> GetKey k1 = replicate 30 97 \<and>
     AppendToBack u (replicate 10 98) k1 = Inr k2 \<and> GetKey k2 = replicate 10 98 @ replicate 30 u"
  by (simp add: SetKey_def SetKeyImpl_def GetKey_def ik_mem_def AppendToBack_def IsKeyPinned_def EnlargeBufferIfNeeded_def
      new_IterKey_def EnlargeBuffer_def ResetBuffer_def memcpy_def Let_def del: replicate.simps)

end
