(* ===== verification/Blocks.thy ===== *)
theory Blocks
  imports IterKey
begin

text \<open>
  The blocks of the tables of the dLSM baseline: \<open>src/dLSM/table/block_builder.cc\<close>,
  \<open>table/block.h\<close> and \<open>table/block.cc\<close>.  A block holds sorted entries, each without the
  prefix that its key shares with the key before, then the offsets of the entries that
  share nothing (the restart points) and their number.  The comparator is a parameter
  that may abort; offsets are natural numbers, for blocks of less than four gigabytes.
  The flag \<open>dbg\<close> is the kind of build: without it the bodies of \<open>#ifndef NDEBUG\<close> and the assertions
  about the contents of keys are gone. All other assertions are part of the model in both builds, since
  nothing sensible follows where they fail.
\<close>

unbundle bit_operations_syntax

type_synonym comparator = "u8 list \<Rightarrow> u8 list \<Rightarrow> int result"

section \<open>Builder\<close>

record BlockBuilder =
  bb_buffer :: "u8 list"
  bb_restarts :: "u32 list"
  bb_counter :: nat
  bb_finished :: bool
  bb_last_key :: "u8 list"

definition new_BlockBuilder :: "nat \<Rightarrow> BlockBuilder result" where
  "new_BlockBuilder interval =
     res_bind (res_assert ''options->block_restart_interval >= 1'' (1 \<le> interval)) (\<lambda>_.
     Inr \<lparr>bb_buffer = [], bb_restarts = [0], bb_counter = 0, bb_finished = False, bb_last_key = []\<rparr>)"

definition Reset_Forward :: "BlockBuilder \<Rightarrow> BlockBuilder" where
  "Reset_Forward bb =
     bb\<lparr>bb_buffer := [], bb_restarts := [0], bb_counter := 0, bb_finished := False, bb_last_key := []\<rparr>"

definition Reset_Buffer :: "u8 list \<Rightarrow> BlockBuilder \<Rightarrow> BlockBuilder" where "Reset_Buffer data bb = bb\<lparr>bb_buffer := data\<rparr>"

definition Move_buffer :: "BlockBuilder \<Rightarrow> BlockBuilder" where "Move_buffer bb = bb\<lparr>bb_buffer := []\<rparr>"

definition CurrentSizeEstimate :: "BlockBuilder \<Rightarrow> nat" where
  "CurrentSizeEstimate bb = length (bb_buffer bb) + length (bb_restarts bb) * 4 + 4"

definition Finish :: "BlockBuilder \<Rightarrow> BlockBuilder" where
  "Finish bb =
     (let buffer = fold (\<lambda>r buf. PutFixed32 buf r) (bb_restarts bb) (bb_buffer bb);
          buffer = PutFixed32 buffer (of_nat (length (bb_restarts bb)))
      in bb\<lparr>bb_buffer := buffer, bb_finished := True\<rparr>)"

fun shared_bytes :: "u8 list \<Rightarrow> u8 list \<Rightarrow> nat" where
  "shared_bytes (x # xs) (y # ys) = (if x = y then Suc (shared_bytes xs ys) else 0)"
| "shared_bytes _ _ = 0"

definition Add :: "comparator \<Rightarrow> nat \<Rightarrow> u8 list \<Rightarrow> u8 list \<Rightarrow> BlockBuilder \<Rightarrow> BlockBuilder result" where
  "Add cmp interval key value bb =
     res_bind (res_assert ''key.size() >= 8'' (8 \<le> length key)) (\<lambda>_.
     res_bind (res_assert ''!finished_'' (\<not> bb_finished bb)) (\<lambda>_.
     res_bind (res_assert ''counter_ <= options_->block_restart_interval'' (bb_counter bb \<le> interval)) (\<lambda>_.
     res_bind (if bb_buffer bb = [] then Inr True else res_bind (cmp key (bb_last_key bb)) (\<lambda>c. Inr (0 < c))) (\<lambda>larger.
     res_bind (res_assert ''Compare(key, last_key_piece) > 0'' larger) (\<lambda>_.
     let (shared, restarts, counter) =
           (if bb_counter bb < interval then (shared_bytes (bb_last_key bb) key, bb_restarts bb, bb_counter bb)
            else (0, bb_restarts bb @ [of_nat (length (bb_buffer bb))], 0));
         non_shared = length key - shared;
         buffer = PutVarint32 (bb_buffer bb) (of_nat shared);
         buffer = PutVarint32 buffer (of_nat non_shared);
         buffer = PutVarint32 buffer (of_nat (length value));
         last_key = take shared (bb_last_key bb) @ drop shared key
     in res_bind (res_assert ''Slice(last_key_) == key'' (last_key = key)) (\<lambda>_.
        Inr (bb\<lparr>bb_buffer := buffer @ drop shared key @ value, bb_restarts := restarts, bb_counter := counter + 1,
                bb_last_key := last_key\<rparr>)))))))"

section \<open>Block\<close>

record Block =
  bk_data :: "u8 list"
  bk_size :: nat
  bk_restart_offset :: nat

definition NumRestarts :: "u8 list \<Rightarrow> nat \<Rightarrow> nat result" where
  "NumRestarts data size' =
     res_bind (res_assert ''size_ >= sizeof(uint32_t)'' (4 \<le> size')) (\<lambda>_. Inr (unat (DecodeFixed32 (drop (size' - 4) data))))"

definition new_Block :: "u8 list \<Rightarrow> Block result" where
  "new_Block contents =
     (let size' = length contents in
      if size' < 4 then Inr \<lparr>bk_data = contents, bk_size = 0, bk_restart_offset = 0\<rparr>
      else res_bind (NumRestarts contents size') (\<lambda>n.
           res_bind (res_assert ''false'' (n \<le> (size' - 4) div 4)) (\<lambda>_.
           Inr \<lparr>bk_data = contents, bk_size = size', bk_restart_offset = size' - (1 + n) * 4\<rparr>)))"

text \<open>Three numbers, one byte each or as varints; their sum is that of 32-bit numbers.\<close>

definition DecodeEntry :: "u8 list \<Rightarrow> (u32 \<times> u32 \<times> u32 \<times> u8 list) option" where
  "DecodeEntry p =
     (if length p < 3 then None
      else Option.bind
       (let s = ucast (p ! 0); n = ucast (p ! 1); v = ucast (p ! 2) in
        if s OR n OR v < (128 :: u32) then Some (s, n, v, drop 3 p)
        else Option.bind (GetVarint32Ptr p) (\<lambda>(s, p).
             Option.bind (GetVarint32Ptr p) (\<lambda>(n, p).
             Option.bind (GetVarint32Ptr p) (\<lambda>(v, p). Some (s, n, v, p)))))
       (\<lambda>(s, n, v, p). if of_nat (length p) < n + v then None else Some (s, n, v, p)))"

section \<open>Iterator\<close>

text \<open>
  The value is where it begins and its length.  \<open>it_last_key\<close> and \<open>it_num_entries\<close> exist in
  debug builds.
\<close>

record Iter =
  it_data :: "u8 list"
  it_restarts :: nat
  it_num_restarts :: nat
  it_current :: nat
  it_restart_index :: nat
  it_key :: IterKey
  it_value :: "nat \<times> nat"
  it_last_key :: "u8 list"
  it_num_entries :: nat

definition new_Iter :: "u8 list \<Rightarrow> u8 list \<Rightarrow> nat \<Rightarrow> nat \<Rightarrow> Iter result" where
  "new_Iter space data restarts num_restarts =
     res_bind (res_assert ''num_restarts_ > 0'' (0 < num_restarts)) (\<lambda>_.
     Inr \<lparr>it_data = data, it_restarts = restarts, it_num_restarts = num_restarts, it_current = restarts,
          it_restart_index = num_restarts, it_key = new_IterKey space, it_value = (0, 0), it_last_key = [],
          it_num_entries = 0\<rparr>)"

text \<open>None is the empty iterator.\<close>

definition NewIterator :: "u8 list \<Rightarrow> Block \<Rightarrow> Iter option result" where
  "NewIterator space b =
     res_bind (NumRestarts (bk_data b) (bk_size b)) (\<lambda>n.
     res_bind (res_assert ''num_restarts <= 64*1024*1024'' (n \<le> 64 * 1024 * 1024)) (\<lambda>_.
     if n = 0 then Inr None
     else res_bind (new_Iter space (bk_data b) (bk_restart_offset b) n) (\<lambda>it. Inr (Some it))))"

definition NextEntryOffset :: "Iter \<Rightarrow> nat" where "NextEntryOffset it = (fst (it_value it) + snd (it_value it)) mod 2 ^ 32"

definition GetRestartPoint :: "Iter \<Rightarrow> nat \<Rightarrow> nat result" where
  "GetRestartPoint it index =
     res_bind (res_assert ''index < num_restarts_'' (index < it_num_restarts it)) (\<lambda>_.
     Inr (unat (DecodeFixed32 (drop (it_restarts it + index * 4) (it_data it)))))"

definition SeekToRestartPoint :: "nat \<Rightarrow> Iter \<Rightarrow> Iter result" where
  "SeekToRestartPoint index it =
     res_bind (GetRestartPoint it index) (\<lambda>offset.
     res_bind (res_assert ''offset <= restarts_'' (offset \<le> it_restarts it)) (\<lambda>_.
     Inr (it\<lparr>it_key := ik_Clear (it_key it), it_restart_index := index, it_value := (offset, 0)\<rparr>)))"

definition iter_Valid :: "Iter \<Rightarrow> bool" where "iter_Valid it \<longleftrightarrow> it_current it < it_restarts it"

definition iter_key :: "Iter \<Rightarrow> u8 list result" where
  "iter_key it = res_bind (res_assert ''Valid()'' (iter_Valid it)) (\<lambda>_. Inr (GetKey (it_key it)))"

definition iter_value :: "Iter \<Rightarrow> u8 list result" where
  "iter_value it = res_bind (res_assert ''Valid()'' (iter_Valid it)) (\<lambda>_.
     Inr (take (snd (it_value it)) (drop (fst (it_value it)) (it_data it))))"

definition CorruptionError :: "'a result" where "CorruptionError = Inl (AssertFail ''false'')"

text \<open>The restart index follows the current entry; \<open>n\<close> counts the restart points behind it.\<close>

primrec advance_restart :: "nat \<Rightarrow> Iter \<Rightarrow> Iter result" where
  "advance_restart 0 it = Inr it"
| "advance_restart (Suc n) it =
     res_bind (GetRestartPoint it (it_restart_index it + 1)) (\<lambda>p.
     if p < it_current it then advance_restart n (it\<lparr>it_restart_index := it_restart_index it + 1\<rparr>) else Inr it)"

definition set_key :: "u8 \<Rightarrow> nat \<Rightarrow> u8 list \<Rightarrow> Iter \<Rightarrow> Iter result" where
  "set_key u shared data it =
     (if shared = 0
      then res_bind (SetKey u data False (it_key it)) (\<lambda>k.
           advance_restart (it_num_restarts it - (it_restart_index it + 1)) (it\<lparr>it_key := k\<rparr>))
      else res_bind (TrimAppend u shared data (it_key it)) (\<lambda>k. Inr (it\<lparr>it_key := k\<rparr>)))"

definition ParseNextKey :: "u8 \<Rightarrow> Iter \<Rightarrow> (bool \<times> Iter) result" where
  "ParseNextKey u it =
     (let it = it\<lparr>it_current := NextEntryOffset it\<rparr> in
      if it_restarts it \<le> it_current it
      then Inr (False, it\<lparr>it_current := it_restarts it, it_restart_index := it_num_restarts it\<rparr>)
      else case DecodeEntry (drop (it_current it) (take (it_restarts it) (it_data it))) of
        None \<Rightarrow> CorruptionError
      | Some (shared, non_shared, value_length, p) \<Rightarrow>
          if ik_key_size (it_key it) < unat shared then CorruptionError
          else res_bind (set_key u (unat shared) (take (unat non_shared) p) it) (\<lambda>it.
               Inr (True, it\<lparr>it_value := (it_restarts it - length p + unat non_shared, unat value_length)\<rparr>)))"

definition next_check :: "comparator \<Rightarrow> Iter \<Rightarrow> Iter result" where
  "next_check cmp it =
     res_bind (case ik_mem (it_key it) of [] \<Rightarrow> Inl OutOfBounds | c # _ \<Rightarrow> Inr c) (\<lambda>c.
     res_bind (res_assert ''key is not U or V'' (c \<noteq> 85 \<and> c \<noteq> 86)) (\<lambda>_.
     res_bind (if 0 < it_num_entries it
               then res_bind (cmp (GetKey (it_key it)) (it_last_key it)) (\<lambda>c.
                    res_assert ''Compare(key, last_key) >= 0'' (0 \<le> c))
               else Inr ()) (\<lambda>_.
     let it = it\<lparr>it_num_entries := it_num_entries it + 1, it_last_key := GetKey (it_key it)\<rparr> in
     res_bind (res_assert ''key().size()!=0'' (iter_Valid it \<longrightarrow> GetKey (it_key it) \<noteq> [])) (\<lambda>_. Inr it))))"

definition iter_Next :: "bool \<Rightarrow> comparator \<Rightarrow> u8 \<Rightarrow> Iter \<Rightarrow> Iter result" where
  "iter_Next dbg cmp u it =
     res_bind (res_assert ''Valid()'' (iter_Valid it)) (\<lambda>_.
     res_bind (ParseNextKey u it) (\<lambda>(_, it). if dbg then next_check cmp it else Inr it))"

text \<open>Loops that parse entries: every turn takes at least three bytes, so the fuel is the size of the block.\<close>

primrec parse_until :: "nat \<Rightarrow> u8 \<Rightarrow> nat \<Rightarrow> Iter \<Rightarrow> Iter result" where
  "parse_until 0 u limit it = Inl OutOfFuel"
| "parse_until (Suc n) u limit it =
     res_bind (ParseNextKey u it) (\<lambda>(more, it).
     if more \<and> NextEntryOffset it < limit then parse_until n u limit it else Inr it)"

declare parse_until.simps [simp del]

primrec restart_before :: "nat \<Rightarrow> nat \<Rightarrow> Iter \<Rightarrow> nat option result" where
  "restart_before original 0 it =
     res_bind (GetRestartPoint it 0) (\<lambda>p. Inr (if original \<le> p then None else Some 0))"
| "restart_before original (Suc i) it =
     res_bind (GetRestartPoint it (Suc i)) (\<lambda>p.
     if original \<le> p then restart_before original i it else Inr (Some (Suc i)))"

definition iter_Prev :: "u8 \<Rightarrow> Iter \<Rightarrow> Iter result" where
  "iter_Prev u it =
     res_bind (res_assert ''Valid()'' (iter_Valid it)) (\<lambda>_.
     let original = it_current it in
     res_bind (restart_before original (it_restart_index it) it) (\<lambda>r.
     case r of
       None \<Rightarrow> Inr (it\<lparr>it_current := it_restarts it, it_restart_index := it_num_restarts it\<rparr>)
     | Some index \<Rightarrow>
         res_bind (SeekToRestartPoint index it) (\<lambda>it. parse_until (Suc (it_restarts it)) u original it)))"

function binary_search :: "comparator \<Rightarrow> u8 list \<Rightarrow> Iter \<Rightarrow> nat \<Rightarrow> nat \<Rightarrow> nat result" where
  "binary_search cmp target it left right =
     (if left < right
      then let mid = (left + right + 1) div 2 in
        case GetRestartPoint it mid of Inl e \<Rightarrow> Inl e | Inr region_offset \<Rightarrow>
        (case DecodeEntry (drop region_offset (take (it_restarts it) (it_data it))) of
           None \<Rightarrow> CorruptionError
         | Some (shared, non_shared, value_length, p) \<Rightarrow>
             if shared \<noteq> 0 then CorruptionError
             else (case cmp (take (unat non_shared) p) target of Inl e \<Rightarrow> Inl e | Inr c \<Rightarrow>
               if c < 0 then binary_search cmp target it mid right
               else binary_search cmp target it left (mid - 1)))
      else Inr left)"
  by pat_completeness auto
termination binary_search
  by (relation "measure (\<lambda>(c, t, it, l, r). r - l)") auto

declare binary_search.simps [simp del]

primrec seek_loop :: "nat \<Rightarrow> comparator \<Rightarrow> u8 \<Rightarrow> u8 list \<Rightarrow> Iter \<Rightarrow> Iter result" where
  "seek_loop 0 cmp u target it = Inl OutOfFuel"
| "seek_loop (Suc n) cmp u target it =
     res_bind (ParseNextKey u it) (\<lambda>(more, it).
     if \<not> more then Inr it
     else res_bind (cmp (GetKey (it_key it)) target) (\<lambda>c.
          if 0 \<le> c then Inr it else seek_loop n cmp u target it))"

declare seek_loop.simps [simp del]

definition iter_Seek :: "comparator \<Rightarrow> u8 \<Rightarrow> u8 list \<Rightarrow> Iter \<Rightarrow> Iter result" where
  "iter_Seek cmp u target it =
     res_bind (if iter_Valid it then cmp (GetKey (it_key it)) target else Inr 0) (\<lambda>c.
     if iter_Valid it \<and> c = 0 then Inr it
     else let left = (if iter_Valid it \<and> c < 0 then it_restart_index it else 0);
              right = (if iter_Valid it \<and> 0 < c then it_restart_index it else it_num_restarts it - 1)
     in res_bind (binary_search cmp target it left right) (\<lambda>left.
        res_bind (res_assert ''current_key_compare == 0 || Valid()'' (c = 0 \<or> iter_Valid it)) (\<lambda>_.
        let skip_seek = (left = it_restart_index it \<and> c < 0) in
        res_bind (if \<not> skip_seek then SeekToRestartPoint left it else Inr it) (\<lambda>it.
        seek_loop (Suc (it_restarts it)) cmp u target it))))"

definition iter_SeekToFirst :: "bool \<Rightarrow> u8 \<Rightarrow> Iter \<Rightarrow> Iter result" where
  "iter_SeekToFirst dbg u it =
     res_bind (SeekToRestartPoint 0 it) (\<lambda>it.
     res_bind (ParseNextKey u it) (\<lambda>(_, it).
     if dbg
     then res_bind (iter_key it) (\<lambda>k. res_bind (res_assert ''key().size()!=0'' (k \<noteq> [])) (\<lambda>_. Inr it))
     else Inr it))"

definition iter_SeekToLast :: "u8 \<Rightarrow> Iter \<Rightarrow> Iter result" where
  "iter_SeekToLast u it =
     res_bind (SeekToRestartPoint (it_num_restarts it - 1) it) (\<lambda>it.
     parse_until (Suc (it_restarts it)) u (it_restarts it) it)"

end
