(* ===== verification/BlockLayout.thy ===== *)
theory BlockLayout
  imports Blocks
begin

text \<open>
  The bytes of a block as entries and restart points, what the iterator reads off them, and the moves
  that need no comparison: to the first and the last entry and back.
\<close>

section \<open>Entries and their bytes\<close>

lemma small_bits: "unat (z :: 'a::len word) < 128 \<longleftrightarrow> (\<forall>n. bit z n \<longrightarrow> n < 7)"
proof -
  have "unat z mod 128 = unat z \<longleftrightarrow> unat z < 128"
    by (metis mod_less mod_less_divisor zero_less_numeral)
  then have "unat z < 128 \<longleftrightarrow> unat (take_bit 7 z) = unat z" by (simp add: unat_take_bit)
  also have "\<dots> \<longleftrightarrow> take_bit 7 z = z" by (simp add: word_unat_eq_iff)
  also have "\<dots> \<longleftrightarrow> (\<forall>n. bit z n \<longrightarrow> n < 7)"
    by (auto simp: bit_eq_iff bit_simps dest: bit_imp_le_length)
  finally show ?thesis .
qed

lemma EncodeVarint32_head:
  "\<exists>b r. EncodeVarint32 v = b # r \<and> (b < 128 \<longrightarrow> r = [] \<and> (ucast b :: u32) = v)"
proof (cases "128 \<le> v")
  case True
  have "bit (ucast (v OR 128) :: u8) 7" by (simp add: bit_simps bit_128)
  then have "\<not> (ucast (v OR 128) :: u8) < 128"
    using small_bits [of "ucast (v OR 128) :: u8"] by (auto simp: word_less_nat_alt)
  then show ?thesis using True by (simp add: EncodeVarint32_eq EncodeVarint32_step [of v])
next
  case False
  then have "unat v < 128" by (simp add: word_le_nat_alt)
  then have "unat (ucast (ucast v :: u8) :: u32) = unat v"
    by (simp add: unsigned_ucast_eq take_bit_nat_eq_self unat_take_bit)
  then have "(ucast (ucast v :: u8) :: u32) = v" by (simp only: word_unat_eq_iff)
  then show ?thesis using False by (simp add: EncodeVarint32_eq EncodeVarint32_step [of v])
qed

lemma or_less_128: "x OR y < (128 :: u32) \<longleftrightarrow> x < 128 \<and> y < 128"
proof -
  have "unat (x OR y) < 128 \<longleftrightarrow> unat x < 128 \<and> unat y < 128" unfolding small_bits by (auto simp: bit_simps)
  then show ?thesis by (simp add: word_less_nat_alt)
qed

lemma ucast_less_128: "(ucast (b :: u8) :: u32) < 128 \<longleftrightarrow> b < 128"
  using unat_less_pow [of b] by (simp add: word_less_nat_alt unsigned_ucast_eq take_bit_nat_eq_self)

lemma DecodeEntry_Encode:
  assumes "length p < 2 ^ 32" and "unat n + unat v \<le> length p"
  shows "DecodeEntry (EncodeVarint32 s @ EncodeVarint32 n @ EncodeVarint32 v @ p) = Some (s, n, v, p)"
proof -
  obtain b1 r1 where s: "EncodeVarint32 s = b1 # r1" "b1 < 128 \<Longrightarrow> r1 = [] \<and> (ucast b1 :: u32) = s"
    using EncodeVarint32_head by blast
  obtain b2 r2 where n: "EncodeVarint32 n = b2 # r2" "b2 < 128 \<Longrightarrow> r2 = [] \<and> (ucast b2 :: u32) = n"
    using EncodeVarint32_head by blast
  obtain b3 r3 where v: "EncodeVarint32 v = b3 # r3" "b3 < 128 \<Longrightarrow> r3 = [] \<and> (ucast b3 :: u32) = v"
    using EncodeVarint32_head by blast
  let ?p = "EncodeVarint32 s @ EncodeVarint32 n @ EncodeVarint32 v @ p"
  have three: "\<not> length ?p < 3" using s n v by simp
  have "n + v = of_nat (unat n + unat v)" by simp
  then have "unat (n + v) = unat n + unat v" using assms by (simp add: unsigned_of_nat take_bit_nat_eq_self del: of_nat_add)
  then have chk: "\<not> (of_nat (length p) :: u32) < n + v"
    using assms by (simp add: word_less_nat_alt unsigned_of_nat take_bit_nat_eq_self)
  show ?thesis
  proof (cases "(ucast (?p ! 0) OR ucast (?p ! 1) OR ucast (?p ! 2) :: u32) < 128")
    case True
    then have lt: "?p ! 0 < 128" "?p ! 1 < 128" "?p ! 2 < 128" by (simp_all add: or_less_128 ucast_less_128)
    have 1: "r1 = []" "(ucast b1 :: u32) = s" using lt(1) s by auto
    have 2: "r2 = []" "(ucast b2 :: u32) = n" using lt(2) 1 s(1) n by auto
    have 3: "r3 = []" "(ucast b3 :: u32) = v" using lt(3) 1 2 s(1) n(1) v by (auto simp: numeral_2_eq_2)
    have "?p = b1 # b2 # b3 # p" using s n v 1 2 3 by simp
    then show ?thesis using True three chk 1(2) 2(2) 3(2) by (simp only:) (simp add: DecodeEntry_def Let_def numeral_2_eq_2)
  next
    case False
    have "GetVarint32Ptr (EncodeVarint32 x @ r) = Some (x, r)" for x r
      using GetVarint32_Encode [of x r] by (simp add: GetVarint32_def)
    then show ?thesis using False three chk unfolding DecodeEntry_def Let_def by simp
  qed
qed

text \<open>
  An entry with the number of bytes that its key shares with the key before; the bytes of entries, and
  where the \<open>i\<close>th begins.
\<close>

type_synonym entry = "nat \<times> u8 list \<times> u8 list"

abbreviation e_shared :: "entry \<Rightarrow> nat" where "e_shared e \<equiv> fst e"
abbreviation e_key :: "entry \<Rightarrow> u8 list" where "e_key e \<equiv> fst (snd e)"
abbreviation e_value :: "entry \<Rightarrow> u8 list" where "e_value e \<equiv> snd (snd e)"

definition ehead :: "entry \<Rightarrow> u8 list" where
  "ehead e = EncodeVarint32 (of_nat (e_shared e)) @ EncodeVarint32 (of_nat (length (e_key e) - e_shared e)) @
     EncodeVarint32 (of_nat (length (e_value e)))"

definition ebytes :: "entry \<Rightarrow> u8 list" where "ebytes e = ehead e @ drop (e_shared e) (e_key e) @ e_value e"

definition bytes_of :: "entry list \<Rightarrow> u8 list" where "bytes_of es = concat (map ebytes es)"

definition eoff :: "entry list \<Rightarrow> nat \<Rightarrow> nat" where "eoff es i = length (bytes_of (take i es))"

lemma ebytes_pos: "0 < length (ebytes e)"
proof -
  obtain b r where "EncodeVarint32 (of_nat (e_shared e)) = b # r" using EncodeVarint32_head by blast
  then show ?thesis by (simp add: ebytes_def ehead_def)
qed

lemma eoff_0 [simp]: "eoff es 0 = 0" by (simp add: eoff_def bytes_of_def)

lemma eoff_end: "eoff es (length es) = length (bytes_of es)" by (simp add: eoff_def)

lemma eoff_Suc: "i < length es \<Longrightarrow> eoff es (Suc i) = eoff es i + length (ebytes (es ! i))"
  by (simp add: eoff_def bytes_of_def take_Suc_conv_app_nth)

lemma eoff_less: "i < j \<Longrightarrow> j \<le> length es \<Longrightarrow> eoff es i < eoff es j"
proof (induction j)
  case (Suc j)
  then have "eoff es i \<le> eoff es j" by (cases "i = j") auto
  moreover have "eoff es (Suc j) = eoff es j + length (ebytes (es ! j))" using Suc.prems by (simp add: eoff_Suc)
  ultimately show ?case using ebytes_pos [of "es ! j"] by linarith
qed simp

lemma eoff_le_iff: "i \<le> length es \<Longrightarrow> j \<le> length es \<Longrightarrow> eoff es i \<le> eoff es j \<longleftrightarrow> i \<le> j"
  using eoff_less [of i j es] eoff_less [of j i es] by (cases i j rule: linorder_cases) auto

lemma eoff_less_iff: "i \<le> length es \<Longrightarrow> j \<le> length es \<Longrightarrow> eoff es i < eoff es j \<longleftrightarrow> i < j"
  using eoff_le_iff [of j es i] by (simp add: not_le [symmetric])

lemma drop_off:
  assumes "i < length es"
  shows "drop (eoff es i) (bytes_of es) = ebytes (es ! i) @ bytes_of (drop (Suc i) es)"
proof -
  have "bytes_of es = bytes_of (take i es) @ ebytes (es ! i) @ bytes_of (drop (Suc i) es)"
    using id_take_nth_drop [OF assms] by (metis (no_types, lifting) append_Cons append_Nil bytes_of_def concat.simps(2) concat_append map_append list.simps(9))
  then show ?thesis by (simp add: eoff_def)
qed

text \<open>Keys that share the bytes they claim to share.\<close>

fun chained :: "u8 list \<Rightarrow> entry list \<Rightarrow> bool" where
  "chained prev [] \<longleftrightarrow> True"
| "chained prev (e # es) \<longleftrightarrow>
     e_shared e \<le> length prev \<and> e_shared e \<le> length (e_key e) \<and>
     take (e_shared e) prev = take (e_shared e) (e_key e) \<and> chained (e_key e) es"

lemma chained_nth:
  "chained prev es \<Longrightarrow> i < length es \<Longrightarrow>
     (let p = (case i of 0 \<Rightarrow> prev | Suc j \<Rightarrow> e_key (es ! j)); e = es ! i in
      e_shared e \<le> length p \<and> e_shared e \<le> length (e_key e) \<and> take (e_shared e) p = take (e_shared e) (e_key e))"
proof (induction es arbitrary: prev i)
  case (Cons e es)
  show ?case
  proof (cases i)
    case (Suc j)
    then show ?thesis using Cons.IH [of "e_key e" j] Cons.prems by (cases j) (auto simp: Let_def)
  qed (use Cons.prems in \<open>auto simp: Let_def\<close>)
qed simp

lemma chained_snoc:
  "chained prev (es @ [e]) \<longleftrightarrow> chained prev es \<and>
     (let p = (if es = [] then prev else e_key (last es)) in
      e_shared e \<le> length p \<and> e_shared e \<le> length (e_key e) \<and> take (e_shared e) p = take (e_shared e) (e_key e))"
  by (induction es arbitrary: prev) (auto simp: Let_def)

definition fixed_array :: "u32 list \<Rightarrow> u8 list" where "fixed_array xs = concat (map EncodeFixed32 xs)"

lemma length_fixed_array [simp]: "length (fixed_array xs) = 4 * length xs"
  by (induction xs) (simp_all add: fixed_array_def)

lemma Decode_fixed_array: "i < length xs \<Longrightarrow> DecodeFixed32 (drop (4 * i) (fixed_array xs)) = xs ! i"
proof (induction xs arbitrary: i)
  case (Cons x xs)
  then show ?case by (cases i) (simp_all add: fixed_array_def)
qed simp

text \<open>A finished block: entries, restart points (indexes of entries) and the bytes.\<close>

definition block_of :: "entry list \<Rightarrow> nat list \<Rightarrow> u8 list" where
  "block_of es R = bytes_of es @ fixed_array (map (of_nat \<circ> eoff es) R @ [of_nat (length R)])"

definition restarts_ok :: "entry list \<Rightarrow> nat list \<Rightarrow> bool" where
  "restarts_ok es R \<longleftrightarrow> R \<noteq> [] \<and> R ! 0 = 0 \<and> sorted_wrt (<) R \<and>
     (\<forall>j < length R. 0 < j \<longrightarrow> R ! j < length es \<and> e_shared (es ! (R ! j)) = 0)"

lemma length_block_of: "length (block_of es R) = eoff es (length es) + 4 * length R + 4"
  by (simp add: block_of_def eoff_end)

lemma restart_le: "restarts_ok es R \<Longrightarrow> j < length R \<Longrightarrow> R ! j \<le> length es"
  by (cases j) (auto simp: restarts_ok_def)

lemma restart_shared:
  assumes "restarts_ok es R" "chained [] es" "j < length R" "R ! j < length es"
  shows "e_shared (es ! (R ! j)) = 0"
  using assms chained_nth [of "[]" es 0] by (cases j) (auto simp: restarts_ok_def Let_def)

lemma block_restart:
  assumes "restarts_ok es R" and "length (block_of es R) < 2 ^ 32" and "j < length R"
  shows "unat (DecodeFixed32 (drop (eoff es (length es) + 4 * j) (block_of es R))) = eoff es (R ! j)"
proof -
  let ?xs = "map (of_nat \<circ> eoff es) R @ [of_nat (length R)] :: u32 list"
  have "eoff es (R ! j) \<le> eoff es (length es)"
    using restart_le [OF assms(1,3)] by (simp add: eoff_le_iff)
  then have "eoff es (R ! j) < 2 ^ 32" using assms(2) by (simp add: length_block_of)
  moreover have "DecodeFixed32 (drop (eoff es (length es) + 4 * j) (block_of es R)) = ?xs ! j"
    using Decode_fixed_array [of j ?xs] assms(3) by (simp add: block_of_def eoff_end)
  ultimately show ?thesis
    using assms(3) by (simp add: nth_append unsigned_of_nat take_bit_nat_eq_self)
qed

lemma block_number:
  assumes "length (block_of es R) < 2 ^ 32"
  shows "unat (DecodeFixed32 (drop (length (block_of es R) - 4) (block_of es R))) = length R"
proof -
  let ?xs = "map (of_nat \<circ> eoff es) R @ [of_nat (length R)] :: u32 list"
  have "length (block_of es R) - 4 = eoff es (length es) + 4 * length R" by (simp add: length_block_of)
  then have "DecodeFixed32 (drop (length (block_of es R) - 4) (block_of es R)) = ?xs ! length R"
    using Decode_fixed_array [of "length R" ?xs] by (simp add: block_of_def eoff_end)
  then show ?thesis
    using assms by (simp add: nth_append unsigned_of_nat take_bit_nat_eq_self length_block_of)
qed

lemma block_entry:
  assumes "i < length es" and "e_shared (es ! i) \<le> length (e_key (es ! i))" and "length (block_of es R) < 2 ^ 32"
  shows "DecodeEntry (drop (eoff es i) (take (eoff es (length es)) (block_of es R))) =
     Some (of_nat (e_shared (es ! i)), of_nat (length (e_key (es ! i)) - e_shared (es ! i)), of_nat (length (e_value (es ! i))),
           drop (e_shared (es ! i)) (e_key (es ! i)) @ e_value (es ! i) @ bytes_of (drop (Suc i) es))"
proof -
  let ?e = "es ! i" and ?r = "bytes_of (drop (Suc i) es)"
  let ?p = "drop (e_shared ?e) (e_key ?e) @ e_value ?e @ ?r"
  have "take (eoff es (length es)) (block_of es R) = bytes_of es" by (simp add: block_of_def eoff_end)
  then have d: "drop (eoff es i) (take (eoff es (length es)) (block_of es R)) =
      EncodeVarint32 (of_nat (e_shared ?e)) @ EncodeVarint32 (of_nat (length (e_key ?e) - e_shared ?e)) @
      EncodeVarint32 (of_nat (length (e_value ?e))) @ ?p"
    using drop_off [OF assms(1)] by (simp add: ebytes_def ehead_def)
  have "length ?p \<le> length (drop (eoff es i) (bytes_of es))" using drop_off [OF assms(1)] by (simp add: ebytes_def)
  also have "\<dots> \<le> length (block_of es R)" by (simp add: block_of_def)
  finally have l: "length ?p < 2 ^ 32" using assms(3) by simp
  then have "unat (of_nat (length (e_key ?e) - e_shared ?e) :: u32) + unat (of_nat (length (e_value ?e)) :: u32) \<le> length ?p"
    by (simp add: unsigned_of_nat take_bit_nat_eq_self)
  from DecodeEntry_Encode [OF l this] show ?thesis unfolding d .
qed

section \<open>Positions of the iterator\<close>

definition block_ok :: "entry list \<Rightarrow> nat list \<Rightarrow> bool" where
  "block_ok es R \<longleftrightarrow> restarts_ok es R \<and> chained [] es \<and> length (block_of es R) < 2 ^ 32"

definition iter_inv :: "entry list \<Rightarrow> nat list \<Rightarrow> Iter \<Rightarrow> bool" where
  "iter_inv es R it \<longleftrightarrow> it_data it = block_of es R \<and> it_restarts it = eoff es (length es) \<and>
     it_num_restarts it = length R \<and> ik_ok (it_key it)"

text \<open>The iterator at an entry, or past the end.\<close>

definition iter_at :: "entry list \<Rightarrow> nat list \<Rightarrow> nat option \<Rightarrow> Iter \<Rightarrow> bool" where
  "iter_at es R p it \<longleftrightarrow> iter_inv es R it \<and>
     (case p of
        None \<Rightarrow> it_current it = eoff es (length es)
      | Some i \<Rightarrow> i < length es \<and> it_current it = eoff es i \<and> GetKey (it_key it) = e_key (es ! i) \<and>
          it_value it = (eoff es (Suc i) - length (e_value (es ! i)), length (e_value (es ! i))) \<and>
          it_restart_index it < length R \<and> R ! it_restart_index it \<le> i)"

text \<open>Before the entry \<open>i\<close>, with the bytes at hand that its key shares.\<close>

definition ready :: "entry list \<Rightarrow> nat list \<Rightarrow> nat \<Rightarrow> Iter \<Rightarrow> bool" where
  "ready es R i it \<longleftrightarrow> iter_inv es R it \<and> i \<le> length es \<and> NextEntryOffset it = eoff es i \<and>
     it_restart_index it < length R \<and> R ! it_restart_index it \<le> i \<and>
     (i < length es \<longrightarrow> e_shared (es ! i) \<le> ik_key_size (it_key it) \<and>
        take (e_shared (es ! i)) (GetKey (it_key it)) = take (e_shared (es ! i)) (e_key (es ! i)))"

lemma GetRestartPoint_ok:
  assumes "block_ok es R" "iter_inv es R it" "j < length R"
  shows "GetRestartPoint it j = Inr (eoff es (R ! j))"
  using assms block_restart [of es R j]
  by (simp add: GetRestartPoint_def block_ok_def iter_inv_def mult.commute)

lemma eoff_bound: "block_ok es R \<Longrightarrow> i \<le> length es \<Longrightarrow> eoff es i < 2 ^ 32"
  using eoff_le_iff [of i es "length es"] by (simp add: block_ok_def length_block_of)

lemma length_GetKey: "ik_ok k \<Longrightarrow> length (GetKey k) = ik_key_size k"
  by (simp add: ik_ok_def GetKey_def)

lemma ready_next:
  assumes ok: "block_ok es R" and at: "iter_at es R (Some i) it"
  shows "ready es R (Suc i) it"
proof -
  have i: "i < length es" using at by (simp add: iter_at_def)
  have v: "length (e_value (es ! i)) \<le> eoff es (Suc i)" using i by (simp add: eoff_Suc ebytes_def)
  then have "NextEntryOffset it = eoff es (Suc i)"
    using at eoff_bound [OF ok, of "Suc i"] i by (simp add: iter_at_def NextEntryOffset_def)
  moreover have "length (GetKey (it_key it)) = ik_key_size (it_key it)"
    using at length_GetKey [of "it_key it"] unfolding iter_at_def iter_inv_def by blast
  ultimately show ?thesis
    using at i chained_nth [of "[]" es "Suc i"] ok by (auto simp: ready_def iter_at_def block_ok_def Let_def)
qed

lemma seek_restart:
  assumes ok: "block_ok es R" and inv: "iter_inv es R it" and j: "j < length R"
  shows "\<exists>it'. SeekToRestartPoint j it = Inr it' \<and> ready es R (R ! j) it'"
proof -
  have le: "R ! j \<le> length es" using ok j restart_le by (simp add: block_ok_def)
  then have "eoff es (R ! j) \<le> eoff es (length es)" by (simp add: eoff_le_iff)
  moreover have "R ! j < length es \<Longrightarrow> e_shared (es ! (R ! j)) = 0" using ok j restart_shared by (simp add: block_ok_def)
  moreover have "ik_ok (ik_Clear (it_key it))" using inv by (simp add: iter_inv_def ik_ok_def ik_Clear_def ik_mem_def)
  ultimately show ?thesis
    using GetRestartPoint_ok [OF ok inv j] inv le j eoff_bound [OF ok le]
    by (simp add: SeekToRestartPoint_def ready_def iter_inv_def NextEntryOffset_def)
qed

lemma advance_restart_ok:
  assumes ok: "block_ok es R" and "i \<le> length es"
  shows "iter_inv es R it \<Longrightarrow> it_current it = eoff es i \<Longrightarrow> it_restart_index it + n < length R \<Longrightarrow>
     R ! it_restart_index it \<le> i \<Longrightarrow>
     \<exists>j. advance_restart n it = Inr (it\<lparr>it_restart_index := j\<rparr>) \<and> j < length R \<and> R ! j \<le> i"
proof (induction n arbitrary: it)
  case 0
  then show ?case by (intro exI [of _ "it_restart_index it"]) simp
next
  case (Suc n)
  let ?j = "it_restart_index it + 1"
  have j: "?j < length R" using Suc.prems by simp
  note p = GetRestartPoint_ok [OF ok Suc.prems(1) j]
  show ?case
  proof (cases "eoff es (R ! ?j) < eoff es i")
    case True
    have "R ! ?j < i" using True ok restart_le [of es R ?j] j assms(2) by (simp add: block_ok_def eoff_less_iff)
    then have "\<exists>k. advance_restart n (it\<lparr>it_restart_index := ?j\<rparr>) = Inr (it\<lparr>it_restart_index := k\<rparr>) \<and> k < length R \<and> R ! k \<le> i"
      using Suc.IH [of "it\<lparr>it_restart_index := ?j\<rparr>"] Suc.prems by (simp add: iter_inv_def)
    then show ?thesis using p True Suc.prems(2) by simp
  next
    case False
    then show ?thesis using p Suc.prems by (intro exI [of _ "it_restart_index it"]) simp
  qed
qed

lemma parse_end:
  assumes "ready es R (length es) it"
  shows "\<exists>it'. ParseNextKey u it = Inr (False, it') \<and> iter_at es R None it' \<and> it_key it' = it_key it \<and>
    it_num_entries it' = it_num_entries it \<and> it_last_key it' = it_last_key it"
  using assms by (simp add: ready_def ParseNextKey_def iter_at_def iter_inv_def Let_def)

lemma key_le_off: "chained [] es \<Longrightarrow> i < length es \<Longrightarrow> length (e_key (es ! i)) \<le> eoff es (Suc i)"
proof (induction i)
  case 0
  then have "e_shared (es ! 0) = 0" using chained_nth [of "[]" es 0] by (simp add: Let_def)
  then show ?case using 0 by (simp add: eoff_Suc ebytes_def)
next
  case (Suc i)
  then have "e_shared (es ! Suc i) \<le> eoff es (Suc i)" using chained_nth [of "[]" es "Suc i"] by (simp add: Let_def)
  then show ?case using Suc.prems eoff_Suc [of "Suc i" es] by (simp add: ebytes_def)
qed

lemma set_key_ok:
  assumes ok: "block_ok es R" and inv: "iter_inv es R it" and i: "i \<le> length es" "it_current it = eoff es i"
    and ri: "it_restart_index it < length R" "R ! it_restart_index it \<le> i"
    and s: "s \<le> ik_key_size (it_key it)" "take s (GetKey (it_key it)) = take s key"
  shows "\<exists>k j. set_key u s (drop s key) it = Inr (it\<lparr>it_key := k, it_restart_index := j\<rparr>) \<and>
     ik_ok k \<and> GetKey k = key \<and> j < length R \<and> R ! j \<le> i"
proof (cases "s = 0")
  case True
  have "ik_ok (it_key it)" using inv by (simp add: iter_inv_def)
  then obtain k where k: "SetKey u key False (it_key it) = Inr k" "ik_ok k" "GetKey k = key"
    using SetKeyImpl_ok [of "it_key it" u key False] by (auto simp: SetKey_def)
  have "iter_inv es R (it\<lparr>it_key := k\<rparr>)" using inv k(2) by (simp add: iter_inv_def)
  moreover have lR: "length R - Suc 0 < length R" using ri(1) by linarith
  moreover note advance_restart_ok [OF ok i(1) calculation(1), of "it_num_restarts it - (it_restart_index it + 1)"]
  ultimately obtain j where "advance_restart (it_num_restarts it - (it_restart_index it + 1)) (it\<lparr>it_key := k\<rparr>) =
      Inr (it\<lparr>it_key := k, it_restart_index := j\<rparr>)" "j < length R" "R ! j \<le> i"
    using i(2) ri inv lR by (auto simp: iter_inv_def)
  then show ?thesis using True k by (auto simp: set_key_def)
next
  case False
  have "ik_ok (it_key it)" using inv by (simp add: iter_inv_def)
  then obtain k where "TrimAppend u s (drop s key) (it_key it) = Inr k" "ik_ok k" "GetKey k = key"
    using TrimAppend_ok [of "it_key it" s u "drop s key"] s by auto
  then show ?thesis using False ri
    by (intro exI [of _ k] exI [of _ "it_restart_index it"]) (simp add: set_key_def)
qed

lemma small32: "n < 4294967296 \<Longrightarrow> unat (of_nat n :: u32) = n"
  by (simp add: unsigned_of_nat take_bit_nat_eq_self)

lemma entry_sizes:
  assumes ok: "block_ok es R" and i: "i < length es"
  defines "e \<equiv> es ! i"
  shows "e_shared e \<le> length (e_key e)" and "unat (of_nat (e_shared e) :: u32) = e_shared e"
    and "unat (of_nat (length (e_key e) - e_shared e) :: u32) = length (e_key e) - e_shared e"
    and "unat (of_nat (length (e_value e)) :: u32) = length (e_value e)"
    and "eoff es (length es) = eoff es (Suc i) + length (bytes_of (drop (Suc i) es))"
proof -
  show s: "e_shared e \<le> length (e_key e)" using chained_nth [of "[]" es i] ok i by (simp add: block_ok_def Let_def e_def)
  have k: "length (e_key e) \<le> eoff es (Suc i)" using key_le_off ok i by (simp add: block_ok_def e_def)
  have v: "length (e_value e) \<le> eoff es (Suc i)" using i by (simp add: eoff_Suc ebytes_def e_def)
  have b: "eoff es (Suc i) < 4294967296" using eoff_bound [OF ok, of "Suc i"] i by simp
  show "unat (of_nat (e_shared e) :: u32) = e_shared e"
    "unat (of_nat (length (e_key e) - e_shared e) :: u32) = length (e_key e) - e_shared e"
    "unat (of_nat (length (e_value e)) :: u32) = length (e_value e)"
    by (rule small32, use s k v b in linarith)+
  have "length (drop (eoff es i) (bytes_of es)) = length (ebytes e @ bytes_of (drop (Suc i) es))"
    using drop_off [OF i] by (simp add: e_def)
  then show "eoff es (length es) = eoff es (Suc i) + length (bytes_of (drop (Suc i) es))"
    using i eoff_less [of i "length es" es] by (simp add: eoff_end eoff_Suc e_def)
qed

lemma parse_entry:
  assumes ok: "block_ok es R" and rdy: "ready es R i it" and i: "i < length es"
  shows "\<exists>it'. ParseNextKey u it = Inr (True, it') \<and> iter_at es R (Some i) it' \<and>
    it_num_entries it' = it_num_entries it \<and> it_last_key it' = it_last_key it"
proof -
  let ?e = "es ! i" and ?it = "it\<lparr>it_current := eoff es i\<rparr>"
  let ?s = "e_shared ?e"
  let ?n = "length (e_key ?e) - ?s" and ?p = "drop ?s (e_key ?e) @ e_value ?e @ bytes_of (drop (Suc i) es)"
  note sz = entry_sizes [OF ok i]
  have inv: "iter_inv es R ?it" and nx: "NextEntryOffset it = eoff es i"
    and ri: "it_restart_index ?it < length R" "R ! it_restart_index ?it \<le> i"
    and sh: "?s \<le> ik_key_size (it_key ?it)" "take ?s (GetKey (it_key ?it)) = take ?s (e_key ?e)"
    using rdy i by (simp_all add: ready_def iter_inv_def)
  have le: "i \<le> length es" "it_current ?it = eoff es i" using i by simp_all
  obtain k j where k: "set_key u ?s (drop ?s (e_key ?e)) ?it = Inr (?it\<lparr>it_key := k, it_restart_index := j\<rparr>)"
    "ik_ok k" "GetKey k = e_key ?e" "j < length R" "R ! j \<le> i"
    using set_key_ok [OF ok inv le ri sh] by blast
  have dec: "DecodeEntry (drop (eoff es i) (take (it_restarts it) (it_data it))) =
      Some (of_nat ?s, of_nat ?n, of_nat (length (e_value ?e)), ?p)"
    using block_entry [OF i sz(1)] ok inv by (simp add: iter_inv_def block_ok_def)
  have tk: "take ?n ?p = drop ?s (e_key ?e)" by simp
  have at: "it_restarts it - length ?p + ?n = eoff es (Suc i) - length (e_value ?e)"
    using sz(5) inv i by (simp add: iter_inv_def eoff_Suc ebytes_def)
  have lt: "\<not> it_restarts it \<le> eoff es i" using eoff_less [of i "length es" es] i inv by (simp add: iter_inv_def)
  let ?it' = "?it\<lparr>it_key := k, it_restart_index := j, it_value := (eoff es (Suc i) - length (e_value ?e), length (e_value ?e))\<rparr>"
  have "set_key u (unat (of_nat ?s :: u32)) (take (unat (of_nat ?n :: u32)) ?p) ?it =
      Inr (?it\<lparr>it_key := k, it_restart_index := j\<rparr>)" unfolding sz(2,3) tk by (rule k(1))
  then have "ParseNextKey u it = Inr (True, ?it')"
    using sh(1) at lt sz(2-4) unfolding ParseNextKey_def Let_def nx
    by (simp del: take_append length_append of_nat_diff add: dec)
  moreover have "iter_at es R (Some i) ?it'" using inv i k by (simp add: iter_at_def iter_inv_def)
  ultimately show ?thesis by (intro exI [of _ ?it']) simp
qed

section \<open>Moving\<close>

lemma iter_at_inv: "iter_at es R p it \<Longrightarrow> iter_inv es R it"
  by (simp add: iter_at_def)

lemma iter_at_Valid: "iter_at es R p it \<Longrightarrow> iter_Valid it \<longleftrightarrow> p \<noteq> None"
  using eoff_less [of _ "length es" es] by (auto simp: iter_at_def iter_inv_def iter_Valid_def split: option.splits)

lemma entries_le_bytes: "length es \<le> eoff es (length es)"
proof -
  have "i \<le> eoff es i" if "i \<le> length es" for i
    using that
  proof (induction i)
    case (Suc i)
    then show ?case using eoff_less [of i "Suc i" es] by simp
  qed simp
  then show ?thesis by simp
qed

lemma parse_until_ok:
  assumes ok: "block_ok es R" and m: "m < length es"
  shows "ready es R i it \<Longrightarrow> i \<le> m \<Longrightarrow> m - i < fuel \<Longrightarrow>
     \<exists>it'. parse_until fuel u (eoff es (Suc m)) it = Inr it' \<and> iter_at es R (Some m) it'"
proof (induction fuel arbitrary: i it)
  case (Suc n)
  have "i < length es" using Suc.prems(2) m by simp
  from parse_entry [OF ok Suc.prems(1) this] obtain it1 where p: "ParseNextKey u it = Inr (True, it1)" "iter_at es R (Some i) it1"
    by blast
  note rdy = ready_next [OF ok p(2)]
  then have nx: "NextEntryOffset it1 = eoff es (Suc i)" by (simp add: ready_def)
  show ?case
  proof (cases "i = m")
    case True
    then show ?thesis using p nx by (simp add: parse_until.simps)
  next
    case False
    then have "eoff es (Suc i) < eoff es (Suc m)" using Suc.prems(2) m by (simp add: eoff_less)
    then show ?thesis using Suc.IH [OF rdy] Suc.prems False p(1) nx by (simp add: parse_until.simps)
  qed
qed simp

lemma SeekToFirst_ok:
  assumes ok: "block_ok es R" and inv: "iter_inv es R it" and "dbg \<Longrightarrow> es \<noteq> [] \<and> e_key (es ! 0) \<noteq> []"
  shows "\<exists>it'. iter_SeekToFirst dbg u it = Inr it' \<and> iter_at es R (if es = [] then None else Some 0) it'"
proof -
  have R: "0 < length R" "R ! 0 = 0" using ok by (auto simp: block_ok_def restarts_ok_def)
  obtain it1 where 1: "SeekToRestartPoint 0 it = Inr it1" "ready es R 0 it1"
    using seek_restart [OF ok inv R(1)] R(2) by auto
  show ?thesis
  proof (cases "es = []")
    case True
    then show ?thesis using parse_end [of es R it1 u] 1 assms(3) by (auto simp: iter_SeekToFirst_def)
  next
    case False
    then obtain it2 where 2: "ParseNextKey u it1 = Inr (True, it2)" "iter_at es R (Some 0) it2"
      using parse_entry [OF ok 1(2)] by blast
    have "iter_key it2 = Inr (e_key (es ! 0))" using 2(2) iter_at_Valid [OF 2(2)] by (simp add: iter_key_def iter_at_def)
    then show ?thesis using 1 2 assms(3) False by (simp add: iter_SeekToFirst_def)
  qed
qed

lemma last_pos: "es \<noteq> [] \<Longrightarrow> length es - 1 < length es \<and> Suc (length es - 1) = length es"
  by (cases es) auto

lemma restart_less: "block_ok es R \<Longrightarrow> es \<noteq> [] \<Longrightarrow> j < length R \<Longrightarrow> R ! j < length es"
  by (cases j) (auto simp: block_ok_def restarts_ok_def)

lemma SeekToLast_ok:
  assumes ok: "block_ok es R" and inv: "iter_inv es R it"
  shows "\<exists>it'. iter_SeekToLast u it = Inr it' \<and> iter_at es R (if es = [] then None else Some (length es - 1)) it'"
proof -
  have R: "length R - 1 < length R" using ok by (auto simp: block_ok_def restarts_ok_def)
  obtain it1 where 1: "SeekToRestartPoint (it_num_restarts it - 1) it = Inr it1" "ready es R (R ! (length R - 1)) it1"
    using seek_restart [OF ok inv R] inv by (auto simp: iter_inv_def)
  have r: "it_restarts it1 = eoff es (length es)" using 1(2) by (simp add: ready_def iter_inv_def)
  show ?thesis
  proof (cases "es = []")
    case True
    then have "R ! (length R - 1) = length es" using 1(2) by (simp add: ready_def)
    then obtain it2 where "ParseNextKey u it1 = Inr (False, it2)" "iter_at es R None it2"
      using parse_end [of es R it1 u] 1(2) by auto
    then show ?thesis using 1 True by (simp add: iter_SeekToLast_def parse_until.simps)
  next
    case False
    have "R ! (length R - 1) \<le> length es - 1"
      using restart_less [OF ok False R] by linarith
    then have "\<exists>it'. parse_until (Suc (it_restarts it1)) u (eoff es (Suc (length es - 1))) it1 = Inr it' \<and>
        iter_at es R (Some (length es - 1)) it'"
      using parse_until_ok [OF ok _ 1(2), of "length es - 1" "Suc (it_restarts it1)" u] last_pos [OF False] entries_le_bytes [of es] r
      by simp
    then show ?thesis using 1(1) r False last_pos [OF False] by (simp add: iter_SeekToLast_def)
  qed
qed

lemma restart_before_ok:
  assumes ok: "block_ok es R" and inv: "iter_inv es R it" and i: "i \<le> length es"
  shows "j < length R \<Longrightarrow> restart_before (eoff es i) j it = Inr None \<and> i = 0 \<or>
     (\<exists>k. restart_before (eoff es i) j it = Inr (Some k) \<and> k < length R \<and> R ! k < i)"
proof (induction j)
  case 0
  note p = GetRestartPoint_ok [OF ok inv 0]
  have "R ! 0 = 0" using ok by (auto simp: block_ok_def restarts_ok_def)
  then show ?case using p 0 i eoff_less_iff [of 0 es i] by auto
next
  case (Suc j)
  note p = GetRestartPoint_ok [OF ok inv Suc.prems]
  have "R ! Suc j \<le> length es" using restart_le ok Suc.prems by (simp add: block_ok_def)
  then show ?case using p Suc i eoff_le_iff [of i es "R ! Suc j"] by auto
qed

lemma Prev_ok:
  assumes ok: "block_ok es R" and at: "iter_at es R (Some i) it"
  shows "\<exists>it'. iter_Prev u it = Inr it' \<and> iter_at es R (if i = 0 then None else Some (i - 1)) it'"
proof -
  note inv = iter_at_inv [OF at]
  have i: "i < length es" "it_current it = eoff es i" "it_restart_index it < length R" using at by (simp_all add: iter_at_def)
  have v: "iter_Valid it" using iter_at_Valid [OF at] by simp
  have le: "i \<le> length es" using i(1) by simp
  from restart_before_ok [OF ok inv le i(3)] show ?thesis
  proof (elim disjE exE conjE)
    assume "restart_before (eoff es i) (it_restart_index it) it = Inr None" "i = 0"
    then show ?thesis using v i(2) inv by (simp add: iter_Prev_def iter_at_def iter_inv_def)
  next
    fix k
    assume k: "restart_before (eoff es i) (it_restart_index it) it = Inr (Some k)" "k < length R" "R ! k < i"
    obtain it1 where 1: "SeekToRestartPoint k it = Inr it1" "ready es R (R ! k) it1" using seek_restart [OF ok inv k(2)] by blast
    have r: "it_restarts it1 = eoff es (length es)" using 1(2) by (simp add: ready_def iter_inv_def)
    have "Suc (i - 1) = i" "i - 1 < length es" "R ! k \<le> i - 1" using k(3) i(1) by auto
    then show ?thesis
      using parse_until_ok [OF ok _ 1(2), of "i - 1" "Suc (it_restarts it1)" u] k v i(2) 1(1) r entries_le_bytes [of es] i(1)
      by (simp add: iter_Prev_def)
  qed
qed

end
