(* ===== verification/BlockCorrect.thy ===== *)
theory BlockCorrect
  imports BlockLayout
begin

text \<open>
  Seeking and stepping over a block, for every comparator that orders the keys (locale
  \<open>block_order\<close>, interpreted for internal keys and for byte strings), the invariant of
  the builder, and the iterator as a cursor over the list of entries.
\<close>

section \<open>Comparators\<close>

text \<open>What the iterator relies on: on valid keys the comparator returns, and decides a strict weak order.\<close>

locale block_order =
  fixes cmp :: comparator and valid :: "u8 list \<Rightarrow> bool" and before :: "u8 list \<Rightarrow> u8 list \<Rightarrow> bool"
  assumes cmp_law: "valid a \<Longrightarrow> valid b \<Longrightarrow> \<exists>c. cmp a b = Inr c \<and> (c < 0 \<longleftrightarrow> before a b) \<and> (0 < c \<longleftrightarrow> before b a)"
    and before_weak: "valid a \<Longrightarrow> valid b \<Longrightarrow> valid c \<Longrightarrow> before a b \<Longrightarrow> \<not> before c b \<Longrightarrow> before a c"

definition seek_pos :: "(u8 list \<Rightarrow> bool) \<Rightarrow> u8 list list \<Rightarrow> nat option" where
  "seek_pos P ks = (let m = length (takeWhile P ks) in if m < length ks then Some m else None)"

lemma seek_pos_eq:
  assumes "i \<le> length ks" and "\<And>j. j < i \<Longrightarrow> P (ks ! j)" and "i < length ks \<Longrightarrow> \<not> P (ks ! i)"
  shows "seek_pos P ks = (if i < length ks then Some i else None)"
proof -
  have "takeWhile P ks = take i ks" by (rule takeWhile_eq_take_P_nth) (use assms in auto)
  then show ?thesis using assms(1) by (simp add: seek_pos_def)
qed

context block_order
begin

lemma before_asym: "valid a \<Longrightarrow> valid b \<Longrightarrow> before a b \<Longrightarrow> \<not> before b a"
  using cmp_law [of a b] by force

lemma before_trans: "valid a \<Longrightarrow> valid b \<Longrightarrow> valid c \<Longrightarrow> before a b \<Longrightarrow> before b c \<Longrightarrow> before a c"
  using before_weak [of a b c] before_asym [of b c] by blast

definition keys_ok :: "entry list \<Rightarrow> bool" where
  "keys_ok es \<longleftrightarrow> sorted_wrt before (map e_key es) \<and> (\<forall>e \<in> set es. valid (e_key e))"

lemma keys_nth: "keys_ok es \<Longrightarrow> i < j \<Longrightarrow> j < length es \<Longrightarrow> before (e_key (es ! i)) (e_key (es ! j))"
  by (auto simp: keys_ok_def sorted_wrt_iff_nth_less)

lemma valid_nth: "keys_ok es \<Longrightarrow> i < length es \<Longrightarrow> valid (e_key (es ! i))"
  by (simp add: keys_ok_def)

lemma seek_loop_ok:
  assumes ok: "block_ok es R" and ko: "keys_ok es" and t: "valid t"
  shows "ready es R i it \<Longrightarrow> (\<And>j. j < i \<Longrightarrow> before (e_key (es ! j)) t) \<Longrightarrow> length es - i < fuel \<Longrightarrow>
     \<exists>it'. seek_loop fuel cmp u t it = Inr it' \<and> iter_at es R (seek_pos (\<lambda>k. before k t) (map e_key es)) it' \<and>
       it_num_entries it' = it_num_entries it \<and> it_last_key it' = it_last_key it"
proof (induction fuel arbitrary: i it)
  case (Suc n)
  have le: "i \<le> length es" using Suc.prems(1) by (simp add: ready_def)
  show ?case
  proof (cases "i < length es")
    case False
    then have i: "i = length es" using le by simp
    have "seek_pos (\<lambda>k. before k t) (map e_key es) = None"
      using seek_pos_eq [of i "map e_key es" "\<lambda>k. before k t"] Suc.prems(2) i by simp
    then show ?thesis using parse_end [of es R it u] Suc.prems(1) i by (auto simp: seek_loop.simps)
  next
    case True
    obtain it1 where p: "ParseNextKey u it = Inr (True, it1)" "iter_at es R (Some i) it1"
      "it_num_entries it1 = it_num_entries it" "it_last_key it1 = it_last_key it"
      using parse_entry [OF ok Suc.prems(1) True] by blast
    have k: "GetKey (it_key it1) = e_key (es ! i)" using p(2) by (simp add: iter_at_def)
    obtain c where c: "cmp (e_key (es ! i)) t = Inr c" "c < 0 \<longleftrightarrow> before (e_key (es ! i)) t"
      using cmp_law [OF valid_nth [OF ko True] t] by blast
    show ?thesis
    proof (cases "c < 0")
      case lt: True
      then have "before (e_key (es ! j)) t" if "j < Suc i" for j
        using that Suc.prems(2) [of j] c(2) by (cases "j = i") auto
      then show ?thesis
        using Suc.IH [OF ready_next [OF ok p(2)]] Suc.prems(3) True p c k lt by (simp add: seek_loop.simps)
    next
      case ge: False
      then have "seek_pos (\<lambda>k. before k t) (map e_key es) = Some i"
        using seek_pos_eq [of i "map e_key es" "\<lambda>k. before k t"] Suc.prems(2) True c(2) by simp
      then show ?thesis using p c k ge by (simp add: seek_loop.simps)
    qed
  qed
qed simp

lemma binary_search_ok:
  assumes ok: "block_ok es R" and inv: "iter_inv es R it" and ko: "keys_ok es" and t: "valid t"
  shows "left \<le> right \<Longrightarrow> right < length R \<Longrightarrow> left = 0 \<or> before (e_key (es ! (R ! left))) t \<Longrightarrow>
     \<exists>l. binary_search cmp t it left right = Inr l \<and> l < length R \<and> (l = 0 \<or> before (e_key (es ! (R ! l))) t)"
proof (induction "right - left" arbitrary: left right rule: less_induct)
  case less
  show ?case
  proof (cases "left < right")
    case False
    then have "binary_search cmp t it left right = Inr left" by (simp add: binary_search.simps [of cmp t it left right])
    then show ?thesis using less.prems by auto
  next
    case True
    let ?m = "(left + right + 1) div 2"
    have m: "left < ?m" "?m \<le> right" using True by auto
    then have mR: "?m < length R" "0 < ?m" using less.prems(2) by auto
    have e: "R ! ?m < length es" "e_shared (es ! (R ! ?m)) = 0"
      using ok mR by (auto simp: block_ok_def restarts_ok_def)
    note sz = entry_sizes [OF ok e(1)]
    have d: "DecodeEntry (drop (eoff es (R ! ?m)) (take (it_restarts it) (it_data it))) =
        Some (of_nat 0, of_nat (length (e_key (es ! (R ! ?m)))), of_nat (length (e_value (es ! (R ! ?m)))),
              e_key (es ! (R ! ?m)) @ e_value (es ! (R ! ?m)) @ bytes_of (drop (Suc (R ! ?m)) es))"
      using block_entry [OF e(1) sz(1)] ok inv e(2) by (simp add: iter_inv_def block_ok_def)
    obtain c where c: "cmp (e_key (es ! (R ! ?m))) t = Inr c" "c < 0 \<longleftrightarrow> before (e_key (es ! (R ! ?m))) t"
      using cmp_law [OF valid_nth [OF ko e(1)] t] by blast
    have eq: "binary_search cmp t it left right =
        (if c < 0 then binary_search cmp t it ?m right else binary_search cmp t it left (?m - 1))"
      using True GetRestartPoint_ok [OF ok inv mR(1)] d c(1) sz(3) e(2)
      by (simp add: binary_search.simps [of cmp t it left right] Let_def)
    show ?thesis
    proof (cases "c < 0")
      case True
      then show ?thesis unfolding eq using less.hyps [of right ?m] less.prems(2) m c(2) by simp
    next
      case False
      then show ?thesis unfolding eq using less.hyps [of "?m - 1" left] less.prems m by simp
    qed
  qed
qed

lemma before_restart:
  assumes "block_ok es R" "keys_ok es" "valid t" "l < length R" "l = 0 \<or> before (e_key (es ! (R ! l))) t" "j < R ! l"
  shows "before (e_key (es ! j)) t"
proof -
  have "R ! 0 = 0" using assms(1) by (simp add: block_ok_def restarts_ok_def)
  then have "l \<noteq> 0" using assms(6) by (cases "l = 0") auto
  then have l: "R ! l < length es" "before (e_key (es ! (R ! l))) t"
    using assms(1,4,5) by (auto simp: block_ok_def restarts_ok_def)
  show ?thesis
    using before_trans [OF valid_nth valid_nth assms(3) keys_nth l(2)] assms(2,6) l(1) by (meson order_less_trans)
qed

lemma seek_from:
  assumes ok: "block_ok es R" and inv: "iter_inv es R it" and ko: "keys_ok es" and t: "valid t"
    and l: "l < length R" "l = 0 \<or> before (e_key (es ! (R ! l))) t"
  shows "\<exists>it1 it'. SeekToRestartPoint l it = Inr it1 \<and> seek_loop (Suc (it_restarts it1)) cmp u t it1 = Inr it' \<and>
     iter_at es R (seek_pos (\<lambda>k. before k t) (map e_key es)) it' \<and>
     it_num_entries it' = it_num_entries it \<and> it_last_key it' = it_last_key it"
proof -
  obtain it1 where 1: "SeekToRestartPoint l it = Inr it1" "ready es R (R ! l) it1" using seek_restart [OF ok inv l(1)] by blast
  have f: "length es - R ! l < Suc (it_restarts it1)"
    using 1(2) entries_le_bytes [of es] by (simp add: ready_def iter_inv_def)
  have d: "it_num_entries it1 = it_num_entries it" "it_last_key it1 = it_last_key it"
    using 1(1) by (auto simp: SeekToRestartPoint_def res_bind_eq_Inr)
  show ?thesis
    using seek_loop_ok [OF ok ko t 1(2) before_restart [OF ok ko t l] f, of u] 1(1) d by auto
qed

lemma before_upto:
  assumes "keys_ok es" "valid t" "i < length es" "before (e_key (es ! i)) t" "j \<le> i"
  shows "before (e_key (es ! j)) t"
proof (cases "j = i")
  case False
  then have "j < i" "j < length es" using assms(3,5) by auto
  then show ?thesis
    using before_trans [OF valid_nth valid_nth assms(2) keys_nth assms(4)] assms(1,3) by blast
qed (use assms(4) in simp)

text \<open>Seeking forward starts at the current restart point, and at the current entry if the target is in its reach.\<close>

lemma Seek_ahead:
  assumes ok: "block_ok es R" and at: "iter_at es R (Some i) it" and ko: "keys_ok es" and t: "valid t"
    and c: "cmp (e_key (es ! i)) t = Inr c" "c < 0" "before (e_key (es ! i)) t"
  shows "\<exists>it'. iter_Seek cmp u t it = Inr it' \<and> iter_at es R (seek_pos (\<lambda>k. before k t) (map e_key es)) it' \<and>
     it_num_entries it' = it_num_entries it \<and> it_last_key it' = it_last_key it"
proof -
  let ?r = "it_restart_index it"
  note inv = iter_at_inv [OF at]
  have v: "iter_Valid it" using iter_at_Valid [OF at] by simp
  have num: "it_num_restarts it = length R" using inv by (simp add: iter_inv_def)
  have i: "i < length es" "GetKey (it_key it) = e_key (es ! i)" "?r < length R" "R ! ?r \<le> i"
    using at by (simp_all add: iter_at_def)
  have r: "?r \<le> length R - 1" "length R - 1 < length R" using i(3) by auto
  obtain l where l: "binary_search cmp t it ?r (length R - 1) = Inr l" "l < length R" "l = 0 \<or> before (e_key (es ! (R ! l))) t"
    using binary_search_ok [OF ok inv ko t r] before_upto [OF ko t i(1) c(3) i(4)] by blast
  show ?thesis
  proof (cases "l = ?r")
    case True
    have f: "length es - Suc i < Suc (it_restarts it)" using inv entries_le_bytes [of es] by (simp add: iter_inv_def)
    have "before (e_key (es ! j)) t" if "j < Suc i" for j using before_upto [OF ko t i(1) c(3)] that by simp
    from seek_loop_ok [OF ok ko t ready_next [OF ok at] this f, of u] show ?thesis
      using True v c i(2) l(1) num by (auto simp: iter_Seek_def)
  next
    case False
    then show ?thesis using seek_from [OF ok inv ko t l(2,3), of u] v c i(2) l(1) num by (auto simp: iter_Seek_def)
  qed
qed

lemma Seek_ok:
  assumes ok: "block_ok es R" and at: "iter_at es R p it" and ko: "keys_ok es" and t: "valid t"
  shows "\<exists>it'. iter_Seek cmp u t it = Inr it' \<and> iter_at es R (seek_pos (\<lambda>k. before k t) (map e_key es)) it' \<and>
     it_num_entries it' = it_num_entries it \<and> it_last_key it' = it_last_key it"
proof -
  note inv = iter_at_inv [OF at]
  have R: "length R - 1 < length R" using ok by (auto simp: block_ok_def restarts_ok_def)
  have num: "it_num_restarts it = length R" using inv by (simp add: iter_inv_def)
  show ?thesis
  proof (cases p)
    case None
    then have v: "\<not> iter_Valid it" using iter_at_Valid [OF at] by simp
    obtain l where "binary_search cmp t it 0 (length R - 1) = Inr l" "l < length R" "l = 0 \<or> before (e_key (es ! (R ! l))) t"
      using binary_search_ok [OF ok inv ko t _ R, of 0] by blast
    then show ?thesis using seek_from [OF ok inv ko t, of l u] v num by (auto simp: iter_Seek_def)
  next
    case (Some i)
    then have v: "iter_Valid it" using iter_at_Valid [OF at] by simp
    have i: "i < length es" "GetKey (it_key it) = e_key (es ! i)" "it_restart_index it < length R"
      using at Some by (simp_all add: iter_at_def)
    obtain c where c: "cmp (e_key (es ! i)) t = Inr c" "c < 0 \<longleftrightarrow> before (e_key (es ! i)) t" "0 < c \<longleftrightarrow> before t (e_key (es ! i))"
      using cmp_law [OF valid_nth [OF ko i(1)] t] by blast
    consider "c = 0" | "c < 0" | "0 < c" by linarith
    then show ?thesis
    proof cases
      case 1
      have "before (e_key (es ! j)) t" if "j < i" for j
        using before_weak [OF valid_nth [OF ko] valid_nth [OF ko i(1)] t keys_nth [OF ko that i(1)]] that i(1) c(3) 1 by auto
      then have "seek_pos (\<lambda>k. before k t) (map e_key es) = Some i"
        using seek_pos_eq [of i "map e_key es" "\<lambda>k. before k t"] i(1) c(2) 1 by simp
      then show ?thesis using 1 v c(1) i(2) at Some by (simp add: iter_Seek_def)
    next
      case 2
      then show ?thesis using Seek_ahead [OF ok _ ko t c(1)] at Some c(2) by blast
    next
      case 3
      obtain l where "binary_search cmp t it 0 (it_restart_index it) = Inr l" "l < length R" "l = 0 \<or> before (e_key (es ! (R ! l))) t"
        using binary_search_ok [OF ok inv ko t _ i(3), of 0] by blast
      then show ?thesis using seek_from [OF ok inv ko t, of l u] 3 v c(1) i(2) num by (auto simp: iter_Seek_def)
    qed
  qed
qed

end

section \<open>The check of the debug build\<close>

text \<open>\<open>Next\<close> compares the key it reaches with the one the last \<open>Next\<close> reached, if there was one.\<close>

definition last_next :: "Iter \<Rightarrow> u8 list option" where
  "last_next it = (if it_num_entries it = 0 then None else Some (it_last_key it))"

lemma last_next_updates [simp]:
  "last_next (it\<lparr>it_current := a\<rparr>) = last_next it" "last_next (it\<lparr>it_restart_index := b\<rparr>) = last_next it"
  "last_next (it\<lparr>it_key := c\<rparr>) = last_next it" "last_next (it\<lparr>it_value := d\<rparr>) = last_next it"
  by (simp_all add: last_next_def)

lemma advance_restart_dbg: "advance_restart n it = Inr it' \<Longrightarrow> last_next it' = last_next it"
  by (induction n arbitrary: it) (auto simp: res_bind_eq_Inr split: if_splits)

lemma ParseNextKey_dbg: "ParseNextKey u it = Inr (b, it') \<Longrightarrow> last_next it' = last_next it"
  by (auto simp: ParseNextKey_def set_key_def CorruptionError_def Let_def res_bind_eq_Inr
      dest!: advance_restart_dbg split: if_splits option.splits)

lemma parse_until_dbg: "parse_until n u limit it = Inr it' \<Longrightarrow> last_next it' = last_next it"
proof (induction n arbitrary: it)
  case (Suc n)
  then show ?case by (auto simp: parse_until.simps res_bind_eq_Inr dest: ParseNextKey_dbg split: if_splits)
qed (simp add: parse_until.simps)

lemma SeekToRestartPoint_dbg: "SeekToRestartPoint j it = Inr it' \<Longrightarrow> last_next it' = last_next it"
  by (auto simp: SeekToRestartPoint_def res_bind_eq_Inr)

lemma seek_loop_dbg: "seek_loop n cmp u t it = Inr it' \<Longrightarrow> last_next it' = last_next it"
proof (induction n arbitrary: it)
  case (Suc n)
  then show ?case by (auto simp: seek_loop.simps res_bind_eq_Inr dest: ParseNextKey_dbg split: if_splits)
qed (simp add: seek_loop.simps)

lemma moves_dbg:
  "iter_SeekToFirst dbg u it = Inr it' \<Longrightarrow> last_next it' = last_next it"
  "iter_SeekToLast u it = Inr it' \<Longrightarrow> last_next it' = last_next it"
  "iter_Prev u it = Inr it' \<Longrightarrow> last_next it' = last_next it"
  "iter_Seek cmp u t it = Inr it' \<Longrightarrow> last_next it' = last_next it"
  by (auto simp: iter_SeekToFirst_def iter_SeekToLast_def iter_Prev_def iter_Seek_def Let_def res_bind_eq_Inr
      split: option.splits if_splits
      dest!: SeekToRestartPoint_dbg ParseNextKey_dbg parse_until_dbg seek_loop_dbg)

lemma GetKey_hd: "GetKey k \<noteq> [] \<Longrightarrow> \<exists>r. ik_mem k = hd (GetKey k) # r"
  by (cases "ik_mem k") (auto simp: GetKey_def take_Cons')

context block_order
begin

text \<open>The key that a step on reaches; past the last entry the key stays.\<close>

definition next_key :: "entry list \<Rightarrow> nat \<Rightarrow> u8 list" where
  "next_key es i = e_key (es ! (if Suc i < length es then Suc i else i))"

lemma Next_parse:
  assumes ok: "block_ok es R" and at: "iter_at es R (Some i) it" and ko: "keys_ok es"
  obtains b it1 where "iter_Valid it" "ParseNextKey u it = Inr (b, it1)" "GetKey (it_key it1) = next_key es i"
    "iter_at es R (if Suc i < length es then Some (Suc i) else None) it1" "last_next it1 = last_next it"
    "next_key es i \<in> e_key ` set es" "valid (next_key es i)"
proof -
  note rdy = ready_next [OF ok at]
  have i: "i < length es" "GetKey (it_key it) = e_key (es ! i)" using at by (simp_all add: iter_at_def)
  have v: "iter_Valid it" using iter_at_Valid [OF at] by simp
  obtain b it1 where p: "ParseNextKey u it = Inr (b, it1)" "GetKey (it_key it1) = next_key es i"
    "iter_at es R (if Suc i < length es then Some (Suc i) else None) it1"
  proof (cases "Suc i < length es")
    case True
    then show ?thesis using parse_entry [OF ok rdy True, of u] that by (auto simp: iter_at_def next_key_def)
  next
    case False
    then have "Suc i = length es" using i(1) by simp
    then obtain it' where "ParseNextKey u it = Inr (False, it')" "iter_at es R None it'" "it_key it' = it_key it"
      using parse_end [of es R it u] rdy by auto
    then show ?thesis using that [of False it'] False i(2) by (simp add: next_key_def)
  qed
  have n: "next_key es i \<in> e_key ` set es" using i(1) by (auto simp: next_key_def)
  then have "valid (next_key es i)" using ko by (auto simp: keys_ok_def)
  then show thesis using that [OF v p ParseNextKey_dbg [OF p(1)] n] by blast
qed

lemma Next_release:
  assumes ok: "block_ok es R" and at: "iter_at es R (Some i) it" and ko: "keys_ok es"
  shows "\<exists>it'. iter_Next False cmp u it = Inr it' \<and> iter_at es R (if Suc i < length es then Some (Suc i) else None) it' \<and>
     last_next it' = last_next it"
proof -
  obtain b it1 where "iter_Valid it" "ParseNextKey u it = Inr (b, it1)"
    "iter_at es R (if Suc i < length es then Some (Suc i) else None) it1" "last_next it1 = last_next it"
    by (rule Next_parse [OF ok at ko])
  then show ?thesis by (simp add: iter_Next_def)
qed

lemma Next_ok:
  assumes ok: "block_ok es R" and at: "iter_at es R (Some i) it" and ko: "keys_ok es"
    and plain: "\<forall>e \<in> set es. e_key e \<noteq> [] \<and> hd (e_key e) \<notin> {85, 86}"
    and dbg: "\<forall>l. last_next it = Some l \<longrightarrow> valid l \<and> \<not> before (next_key es i) l"
  shows "\<exists>it'. iter_Next True cmp u it = Inr it' \<and> iter_at es R (if Suc i < length es then Some (Suc i) else None) it' \<and>
     last_next it' = Some (next_key es i)"
proof -
  let ?k = "next_key es i"
  obtain b it1 where p: "iter_Valid it" "ParseNextKey u it = Inr (b, it1)" "GetKey (it_key it1) = ?k"
    "iter_at es R (if Suc i < length es then Some (Suc i) else None) it1" "last_next it1 = last_next it"
    "?k \<in> e_key ` set es" "valid ?k"
    by (rule Next_parse [OF ok at ko])
  have kp: "?k \<noteq> []" "hd ?k \<noteq> 85" "hd ?k \<noteq> 86" using plain p(6) by auto
  obtain r where r: "ik_mem (it_key it1) = hd ?k # r" using GetKey_hd [of "it_key it1"] p(3) kp(1) by auto
  have chk: "(if 0 < it_num_entries it1
      then res_bind (cmp (GetKey (it_key it1)) (it_last_key it1)) (\<lambda>c. res_assert ''Compare(key, last_key) >= 0'' (0 \<le> c))
      else Inr ()) = Inr ()"
  proof (cases "0 < it_num_entries it1")
    case True
    then have l: "valid (it_last_key it1)" "\<not> before ?k (it_last_key it1)" using dbg p(5) by (auto simp: last_next_def)
    obtain c where "cmp ?k (it_last_key it1) = Inr c" "c < 0 \<longleftrightarrow> before ?k (it_last_key it1)"
      using cmp_law [OF p(7) l(1)] by blast
    then show ?thesis using True l(2) p(3) by simp
  qed simp
  let ?it = "it1\<lparr>it_num_entries := it_num_entries it1 + 1, it_last_key := ?k\<rparr>"
  have "iter_Next True cmp u it = Inr ?it"
    using p(1-3) r kp chk unfolding iter_Next_def next_check_def by (simp add: Let_def)
  moreover have "iter_at es R (if Suc i < length es then Some (Suc i) else None) ?it"
    using p(4) by (simp add: iter_at_def iter_inv_def split: option.splits if_splits)
  moreover have "last_next ?it = Some ?k" by (simp add: last_next_def)
  ultimately show ?thesis by blast
qed

text \<open>
  In a debug build a step on fails if an earlier one reached a later key: no other move resets
  what the check compares with.
\<close>

lemma Next_after_rewind_fails:
  assumes ok: "block_ok es R" and at: "iter_at es R (Some i) it" and ko: "keys_ok es"
    and plain: "\<forall>e \<in> set es. e_key e \<noteq> [] \<and> hd (e_key e) \<notin> {85, 86}"
    and dbg: "last_next it = Some l" "valid l" "before (next_key es i) l"
  shows "iter_Next True cmp u it = Inl (AssertFail ''Compare(key, last_key) >= 0'')"
proof -
  let ?k = "next_key es i"
  obtain b it1 where p: "iter_Valid it" "ParseNextKey u it = Inr (b, it1)" "GetKey (it_key it1) = ?k" "last_next it1 = last_next it"
    "?k \<in> e_key ` set es" "valid ?k"
    by (rule Next_parse [OF ok at ko])
  have kp: "?k \<noteq> []" "hd ?k \<noteq> 85" "hd ?k \<noteq> 86" using plain p(5) by auto
  obtain r where r: "ik_mem (it_key it1) = hd ?k # r" using GetKey_hd [of "it_key it1"] p(3) kp(1) by auto
  obtain c where c: "cmp ?k l = Inr c" "c < 0" using cmp_law [OF p(6) dbg(2)] dbg(3) by blast
  have "it_last_key it1 = l" "0 < it_num_entries it1" using p(4) dbg(1) by (auto simp: last_next_def split: if_splits)
  then show ?thesis using p(1-3) r kp c unfolding iter_Next_def next_check_def by (simp add: Let_def)
qed

end

section \<open>What the builder writes\<close>

lemma shared_bytes_ok:
  "shared_bytes a b \<le> length a" "shared_bytes a b \<le> length b" "take (shared_bytes a b) a = take (shared_bytes a b) b"
  by (induction a b rule: shared_bytes.induct) auto

lemma bytes_of_snoc: "bytes_of (es @ [e]) = bytes_of es @ ebytes e"
  by (simp add: bytes_of_def)

lemma eoff_snoc: "i \<le> length es \<Longrightarrow> eoff (es @ [e]) i = eoff es i"
  by (simp add: eoff_def)

lemma bytes_of_empty: "bytes_of es = [] \<longleftrightarrow> es = []"
  using ebytes_pos [of "hd es"] by (cases es) (auto simp: bytes_of_def)

lemma restarts_snoc:
  assumes "restarts_ok es R"
  shows "restarts_ok (es @ [e]) R" and "es \<noteq> [] \<Longrightarrow> e_shared e = 0 \<Longrightarrow> restarts_ok (es @ [e]) (R @ [length es])"
proof -
  show "restarts_ok (es @ [e]) R" using assms by (auto simp: restarts_ok_def nth_append)
  show "restarts_ok (es @ [e]) (R @ [length es])" if "es \<noteq> []" "e_shared e = 0"
  proof -
    have "R ! j < length es" if "j < length R" for j
      using assms that \<open>es \<noteq> []\<close> by (cases j) (auto simp: restarts_ok_def)
    then have "x < length es" if "x \<in> set R" for x using that by (metis in_set_conv_nth)
    then show ?thesis using assms that by (auto simp: restarts_ok_def nth_append sorted_wrt_append less_Suc_eq)
  qed
qed

lemma map_eoff_snoc: "restarts_ok es R \<Longrightarrow> map (of_nat \<circ> eoff (es @ [e])) R = map (of_nat \<circ> eoff es) R"
  using restart_le by (auto simp: in_set_conv_nth eoff_snoc)

fun add_entries :: "comparator \<Rightarrow> nat \<Rightarrow> (u8 list \<times> u8 list) list \<Rightarrow> BlockBuilder \<Rightarrow> BlockBuilder result" where
  "add_entries cmp interval [] bb = Inr bb"
| "add_entries cmp interval ((k, v) # kvs) bb = res_bind (Add cmp interval k v bb) (add_entries cmp interval kvs)"

definition build_block :: "comparator \<Rightarrow> nat \<Rightarrow> (u8 list \<times> u8 list) list \<Rightarrow> u8 list result" where
  "build_block cmp interval kvs =
     res_bind (new_BlockBuilder interval) (\<lambda>bb.
     res_bind (add_entries cmp interval kvs bb) (\<lambda>bb. Inr (bb_buffer (Finish bb))))"

context block_order
begin

definition built :: "nat \<Rightarrow> entry list \<Rightarrow> nat list \<Rightarrow> BlockBuilder \<Rightarrow> bool" where
  "built interval es R bb \<longleftrightarrow> bb_buffer bb = bytes_of es \<and> bb_restarts bb = map (of_nat \<circ> eoff es) R \<and>
     bb_last_key bb = (if es = [] then [] else e_key (last es)) \<and> 1 \<le> interval \<and> (es = [] \<longrightarrow> bb_counter bb = 0) \<and>
     restarts_ok es R \<and> chained [] es \<and> keys_ok es"

lemma keys_snoc:
  assumes "keys_ok es" and "valid (e_key e)" and "es \<noteq> [] \<Longrightarrow> before (e_key (last es)) (e_key e)"
  shows "keys_ok (es @ [e])"
proof -
  have "before k (e_key e)" if "k \<in> e_key ` set es" for k
  proof -
    obtain j where j: "j < length es" "k = e_key (es ! j)" using \<open>k \<in> e_key ` set es\<close> by (auto simp: in_set_conv_nth)
    then have "es \<noteq> []" by auto
    then have l: "es \<noteq> []" "last es = es ! (length es - 1)" "length es - 1 < length es" by (simp_all add: last_conv_nth)
    show ?thesis
      using before_upto [OF assms(1,2) l(3), of j] assms(3) l(1,2) j by auto
  qed
  then show ?thesis using assms by (auto simp: keys_ok_def sorted_wrt_append)
qed

lemma Add_built:
  assumes b: "built interval es R bb" and add: "Add cmp interval k v bb = Inr bb'" and v: "\<And>k. 8 \<le> length k \<Longrightarrow> valid k"
  shows "\<exists>s R'. built interval (es @ [(s, k, v)]) R' bb'"
proof -
  let ?restart = "\<not> bb_counter bb < interval"
  define s where "s = (if ?restart then 0 else shared_bytes (bb_last_key bb) k)"
  define R' where "R' = (if ?restart then R @ [length es] else R)"
  let ?e = "(s, k, v) :: entry"
  have k8: "8 \<le> length k" and lt: "es \<noteq> [] \<Longrightarrow> \<exists>c. cmp k (bb_last_key bb) = Inr c \<and> 0 < c"
    using add b by (auto simp: Add_def res_bind_eq_Inr built_def bytes_of_empty split: if_splits)
  have ne: "?restart \<Longrightarrow> es \<noteq> []" using b by (auto simp: built_def)
  have last: "bb_last_key bb = (if es = [] then [] else e_key (last es))" using b by (simp add: built_def)
  have "bb' = bb\<lparr>bb_buffer := bb_buffer bb @ ebytes ?e, bb_restarts := map (of_nat \<circ> eoff (es @ [?e])) R',
      bb_counter := (if ?restart then 0 else bb_counter bb) + 1, bb_last_key := k\<rparr>"
    using add b
    by (auto simp: Add_def res_bind_eq_Inr Let_def built_def s_def R'_def PutVarint32_def ebytes_def ehead_def
        map_eoff_snoc eoff_snoc eoff_end [symmetric] bytes_of_empty split: if_splits)
  moreover have "restarts_ok (es @ [?e]) R'"
  proof (cases ?restart)
    case True
    then show ?thesis using b restarts_snoc(2) [of es R ?e] ne by (simp add: built_def R'_def s_def)
  next
    case False
    then show ?thesis using b restarts_snoc(1) [of es R ?e] by (simp add: built_def R'_def)
  qed
  moreover have "chained [] (es @ [?e])"
    using b last shared_bytes_ok [of "bb_last_key bb" k] by (auto simp: built_def chained_snoc Let_def s_def)
  moreover have "keys_ok (es @ [?e])"
  proof (rule keys_snoc)
    show "keys_ok es" using b by (simp add: built_def)
    show "valid (e_key ?e)" using v k8 by simp
    show "before (e_key (last es)) (e_key ?e)" if "es \<noteq> []"
    proof -
      have "valid (e_key (last es))" using that \<open>keys_ok es\<close> by (simp add: keys_ok_def)
      then show ?thesis using lt [OF that] cmp_law [of k "e_key (last es)"] v k8 last that by auto
    qed
  qed
  ultimately have "built interval (es @ [?e]) R' bb'" using b by (simp add: built_def bytes_of_snoc)
  then show ?thesis by blast
qed

lemma add_entries_built:
  assumes v: "\<And>k. 8 \<le> length k \<Longrightarrow> valid k"
  shows "built interval es R bb \<Longrightarrow> add_entries cmp interval kvs bb = Inr bb' \<Longrightarrow>
     \<exists>es' R'. built interval es' R' bb' \<and> map snd es' = map snd es @ kvs"
proof (induction kvs arbitrary: es R bb)
  case (Cons kv kvs)
  obtain k v where kv: "kv = (k, v)" by (cases kv)
  obtain bb1 where a: "Add cmp interval k v bb = Inr bb1" "add_entries cmp interval kvs bb1 = Inr bb'"
    using Cons.prems(2) kv by (auto simp: res_bind_eq_Inr)
  obtain s R1 where "built interval (es @ [(s, k, v)]) R1 bb1" using Add_built [OF Cons.prems(1) a(1) v] by blast
  from Cons.IH [OF this a(2)] kv show ?case by simp
qed auto

lemma build_block_ok:
  assumes "build_block cmp interval kvs = Inr data" and "length data < 2 ^ 32" and v: "\<And>k. 8 \<le> length k \<Longrightarrow> valid k"
  shows "\<exists>es R. data = block_of es R \<and> block_ok es R \<and> keys_ok es \<and> map snd es = kvs"
proof -
  obtain bb bb' where b: "new_BlockBuilder interval = Inr bb" "add_entries cmp interval kvs bb = Inr bb'"
    "data = bb_buffer (Finish bb')" using assms(1) by (auto simp: build_block_def res_bind_eq_Inr)
  have "built interval [] [0] bb"
    using b(1) by (auto simp: new_BlockBuilder_def res_bind_eq_Inr built_def bytes_of_def restarts_ok_def keys_ok_def)
  from add_entries_built [OF v this b(2)] obtain es R where e: "built interval es R bb'" "map snd es = kvs" by auto
  have "fold (\<lambda>r buf. PutFixed32 buf r) xs buf = buf @ fixed_array xs" for xs buf
    by (induction xs arbitrary: buf) (simp_all add: PutFixed32_def fixed_array_def)
  then have "data = block_of es R"
    using b(3) e(1) by (simp add: Finish_def built_def block_of_def PutFixed32_def fixed_array_def Let_def)
  then show ?thesis using e assms(2) by (auto simp: block_ok_def built_def)
qed

end

section \<open>The iterator is a cursor over the entries\<close>

datatype iter_op = GoFirst | GoLast | GoTo "u8 list" | GoBack | GoOn

definition iter_step :: "bool \<Rightarrow> comparator \<Rightarrow> u8 \<Rightarrow> iter_op \<Rightarrow> Iter \<Rightarrow> Iter result" where
  "iter_step dbg cmp u a it =
     (case a of
        GoFirst \<Rightarrow> iter_SeekToFirst dbg u it | GoLast \<Rightarrow> iter_SeekToLast u it | GoTo t \<Rightarrow> iter_Seek cmp u t it
      | GoBack \<Rightarrow> iter_Prev u it | GoOn \<Rightarrow> iter_Next dbg cmp u it)"

fun iter_run :: "bool \<Rightarrow> comparator \<Rightarrow> u8 \<Rightarrow> iter_op list \<Rightarrow> Iter \<Rightarrow> Iter result" where
  "iter_run dbg cmp u [] it = Inr it"
| "iter_run dbg cmp u (a # as) it = res_bind (iter_step dbg cmp u a it) (iter_run dbg cmp u as)"

text \<open>
  The cursor: a position in the list of entries and the key that the last step forward reached, which only the
  debug build keeps. None is a step that the iterator's contract forbids.
\<close>

type_synonym cursor = "nat option \<times> u8 list option"

definition cursor_step ::
    "bool \<Rightarrow> (u8 list \<Rightarrow> u8 list \<Rightarrow> bool) \<Rightarrow> (u8 list \<Rightarrow> bool) \<Rightarrow> (u8 list \<times> 'v) list \<Rightarrow> iter_op \<Rightarrow> cursor \<Rightarrow> cursor option" where
  "cursor_step dbg before valid kvs a c =
     (case a of
        GoFirst \<Rightarrow> if dbg \<and> kvs = [] then None else Some (if kvs = [] then None else Some 0, snd c)
      | GoLast \<Rightarrow> Some (if kvs = [] then None else Some (length kvs - 1), snd c)
      | GoTo t \<Rightarrow> if valid t then Some (seek_pos (\<lambda>k. before k t) (map fst kvs), snd c) else None
      | GoBack \<Rightarrow> map_option (\<lambda>i. (if i = 0 then None else Some (i - 1), snd c)) (fst c)
      | GoOn \<Rightarrow> Option.bind (fst c) (\<lambda>i.
          let k = fst (kvs ! (if Suc i < length kvs then Suc i else i))
          in if dbg \<and> (case snd c of None \<Rightarrow> False | Some l \<Rightarrow> before k l) then None
             else Some (if Suc i < length kvs then Some (Suc i) else None, if dbg then Some k else snd c)))"

fun cursor_run ::
    "bool \<Rightarrow> (u8 list \<Rightarrow> u8 list \<Rightarrow> bool) \<Rightarrow> (u8 list \<Rightarrow> bool) \<Rightarrow> (u8 list \<times> 'v) list \<Rightarrow> iter_op list \<Rightarrow> cursor \<Rightarrow> cursor option" where
  "cursor_run dbg before valid kvs [] c = Some c"
| "cursor_run dbg before valid kvs (a # as) c =
     Option.bind (cursor_step dbg before valid kvs a c) (cursor_run dbg before valid kvs as)"

text \<open>What the iterator shows at a position.\<close>

definition iter_shows :: "(u8 list \<times> u8 list) list \<Rightarrow> nat option \<Rightarrow> Iter \<Rightarrow> bool" where
  "iter_shows kvs p it =
     (case p of None \<Rightarrow> \<not> iter_Valid it
      | Some i \<Rightarrow> i < length kvs \<and> iter_Valid it \<and> iter_key it = Inr (fst (kvs ! i)) \<and> iter_value it = Inr (snd (kvs ! i)))"

lemma iter_at_shows:
  assumes "iter_at es R p it"
  shows "iter_shows (map snd es) p it"
proof (cases p)
  case None
  then show ?thesis using iter_at_Valid [OF assms] by (simp add: iter_shows_def)
next
  case (Some i)
  have v: "iter_Valid it" using iter_at_Valid [OF assms] Some by simp
  let ?e = "es ! i"
  let ?b = "length (ehead ?e) + (length (e_key ?e) - e_shared ?e)"
  have i: "i < length es" "GetKey (it_key it) = e_key ?e" "it_data it = block_of es R"
    "it_value it = (eoff es (Suc i) - length (e_value ?e), length (e_value ?e))"
    using assms Some by (simp_all add: iter_at_def iter_inv_def)
  have "drop (eoff es i + ?b) (bytes_of es) = drop ?b (drop (eoff es i) (bytes_of es))" by (simp add: add.commute)
  then have "drop (eoff es i + ?b) (bytes_of es) = drop ?b (ebytes ?e @ bytes_of (drop (Suc i) es))"
    unfolding drop_off [OF i(1)] .
  then have "drop (eoff es i + ?b) (bytes_of es) = e_value ?e @ bytes_of (drop (Suc i) es)" by (simp add: ebytes_def)
  moreover have "eoff es (Suc i) - length (e_value ?e) = eoff es i + ?b" using i(1) by (simp add: eoff_Suc ebytes_def)
  moreover have "eoff es i + ?b \<le> length (bytes_of es)"
    using eoff_le_iff [of "Suc i" es "length es"] i(1) by (simp add: eoff_Suc eoff_end ebytes_def)
  ultimately have "take (length (e_value ?e)) (drop (eoff es (Suc i) - length (e_value ?e)) (block_of es R)) = e_value ?e"
    by (simp add: block_of_def)
  then show ?thesis using Some v i by (simp add: iter_shows_def iter_key_def iter_value_def)
qed

context block_order
begin

lemma iter_step_ok:
  assumes ok: "block_ok es R" and ko: "keys_ok es"
    and plain: "dbg \<Longrightarrow> \<forall>e \<in> set es. e_key e \<noteq> [] \<and> hd (e_key e) \<notin> {85, 86}"
    and at: "iter_at es R p it" and d: "last_next it = d" "\<forall>l. d = Some l \<longrightarrow> valid l"
    and c: "cursor_step dbg before valid (map snd es) a (p, d) = Some (p', d')"
  shows "\<exists>it'. iter_step dbg cmp u a it = Inr it' \<and> iter_at es R p' it' \<and> last_next it' = d' \<and> (\<forall>l. d' = Some l \<longrightarrow> valid l)"
proof (cases a)
  case GoFirst
  then have p: "dbg \<longrightarrow> es \<noteq> []" "p' = (if es = [] then None else Some 0)" "d' = d"
    using c by (auto simp: cursor_step_def split: if_splits)
  have "dbg \<Longrightarrow> es \<noteq> [] \<and> e_key (es ! 0) \<noteq> []" using plain p(1) by auto
  from SeekToFirst_ok [OF ok iter_at_inv [OF at] this, of dbg u]
  obtain it' where "iter_SeekToFirst dbg u it = Inr it'" "iter_at es R p' it'" using p(2) by blast
  then show ?thesis using GoFirst d moves_dbg(1) p(3) by (fastforce simp: iter_step_def)
next
  case GoLast
  then have "p' = (if es = [] then None else Some (length es - 1))" "d' = d" using c by (auto simp: cursor_step_def)
  then show ?thesis
    using SeekToLast_ok [OF ok iter_at_inv [OF at], of u] GoLast d moves_dbg(2) by (fastforce simp: iter_step_def)
next
  case (GoTo t)
  then have "valid t" "p' = seek_pos (\<lambda>k. before k t) (map e_key es)" "d' = d"
    using c by (auto simp: cursor_step_def comp_def split: if_splits)
  then show ?thesis
    using Seek_ok [OF ok at ko, of t u] GoTo d moves_dbg(4) by (fastforce simp: iter_step_def)
next
  case GoBack
  then obtain i where "p = Some i" "p' = (if i = 0 then None else Some (i - 1))" "d' = d"
    using c by (auto simp: cursor_step_def)
  then show ?thesis
    using Prev_ok [OF ok, of i it u] at GoBack d moves_dbg(3) by (fastforce simp: iter_step_def)
next
  case GoOn
  then obtain i where i: "p = Some i" using c by (auto simp: cursor_step_def split: bind_splits)
  have il: "i < length es" using at i by (simp add: iter_at_def)
  let ?k = "next_key es i"
  have k: "fst (map snd es ! (if Suc i < length (map snd es) then Suc i else i)) = ?k" using il by (simp add: next_key_def)
  have c': "dbg \<longrightarrow> (\<forall>l. d = Some l \<longrightarrow> \<not> before ?k l)" "p' = (if Suc i < length es then Some (Suc i) else None)"
    "d' = (if dbg then Some ?k else d)"
    using c i GoOn k by (auto simp: cursor_step_def Let_def split: if_splits option.splits)
  have "\<exists>it'. iter_Next dbg cmp u it = Inr it' \<and> iter_at es R p' it' \<and> last_next it' = d'"
  proof (cases dbg)
    case True
    then show ?thesis using Next_ok [OF ok _ ko plain, of i it u] at i d c' by auto
  next
    case False
    then show ?thesis using Next_release [OF ok _ ko, of i it u] at i d c' by auto
  qed
  moreover have "valid ?k" using valid_nth [OF ko] il by (simp add: next_key_def)
  ultimately show ?thesis using GoOn c'(3) d(2) by (auto simp: iter_step_def split: if_splits)
qed

lemma iter_run_ok:
  assumes ok: "block_ok es R" and ko: "keys_ok es"
    and plain: "dbg \<Longrightarrow> \<forall>e \<in> set es. e_key e \<noteq> [] \<and> hd (e_key e) \<notin> {85, 86}"
  shows "iter_at es R (fst c) it \<Longrightarrow> last_next it = snd c \<Longrightarrow> \<forall>l. snd c = Some l \<longrightarrow> valid l \<Longrightarrow>
     cursor_run dbg before valid (map snd es) as c = Some c' \<Longrightarrow>
     \<exists>it'. iter_run dbg cmp u as it = Inr it' \<and> iter_shows (map snd es) (fst c') it'"
proof (induction as arbitrary: c it)
  case Nil
  then show ?case using iter_at_shows by fastforce
next
  case (Cons a as)
  obtain p1 d1 where s: "cursor_step dbg before valid (map snd es) a (fst c, snd c) = Some (p1, d1)"
    "cursor_run dbg before valid (map snd es) as (p1, d1) = Some c'"
    using Cons.prems(4) by (auto split: bind_splits)
  obtain it1 where "iter_step dbg cmp u a it = Inr it1" "iter_at es R p1 it1" "last_next it1 = d1" "\<forall>l. d1 = Some l \<longrightarrow> valid l"
    using iter_step_ok [OF ok ko plain Cons.prems(1-3) s(1)] by blast
  then show ?case using Cons.IH [of "(p1, d1)" it1] s(2) by simp
qed

end

section \<open>Blocks of internal keys\<close>

interpretation ikeys: block_order "ikey_Compare slice_compare" "\<lambda>k. 8 \<le> length k" "ikey_before slice_compare"
proof unfold_locales
  show "\<exists>c. ikey_Compare slice_compare a b = Inr c \<and> (c < 0 \<longleftrightarrow> ikey_before slice_compare a b) \<and>
      (0 < c \<longleftrightarrow> ikey_before slice_compare b a)" if "8 \<le> length a" "8 \<le> length b" for a b
    using bytewise.compare_ok [OF that] by blast
  show "ikey_before slice_compare a c" if "ikey_before slice_compare a b" "\<not> ikey_before slice_compare c b" for a b c
  proof (cases "ukey b = ukey c")
    case True
    then have "ikey_tag c \<le> ikey_tag b" using that(2) unfolding ikey_before_def slice_compare_blex by auto
    then show ?thesis using that(1) True unfolding ikey_before_def slice_compare_blex by auto
  next
    case False
    then have "blex (ukey b) (ukey c)" using that(2) blex_total unfolding ikey_before_def slice_compare_blex by blast
    then show ?thesis using that(1) blex_trans unfolding ikey_before_def slice_compare_blex by auto
  qed
qed

interpretation byte_keys: block_order "\<lambda>a b. Inr (slice_compare a b)" "\<lambda>_. True" blex
proof unfold_locales
  show "\<exists>c. Inr (slice_compare a b) = Inr c \<and> (c < 0 \<longleftrightarrow> blex a b) \<and> (0 < c \<longleftrightarrow> blex b a)" for a b
    by (simp add: slice_compare_blex)
  show "blex a c" if "blex a b" "\<not> blex c b" for a b c
    using that blex_total blex_trans by metis
qed

lemma new_Iter_at:
  assumes ok: "block_ok es R" and "length (block_of es R) \<le> 268435456" and "length space = 32"
  shows "\<exists>blk it. new_Block (block_of es R) = Inr blk \<and> NewIterator space blk = Inr (Some it) \<and>
     iter_at es R None it \<and> last_next it = None"
proof -
  let ?d = "block_of es R" and ?o = "eoff es (length es)"
  have l: "length ?d = ?o + 4 * length R + 4" by (simp add: length_block_of)
  have R: "0 < length R" using ok by (auto simp: block_ok_def restarts_ok_def)
  have n: "NumRestarts ?d (length ?d) = Inr (length R)"
    using block_number [of es R] ok l by (simp add: NumRestarts_def block_ok_def)
  let ?b = "\<lparr>bk_data = ?d, bk_size = length ?d, bk_restart_offset = ?o\<rparr>"
  have "new_Block ?d = Inr ?b" using n l by (simp add: new_Block_def Let_def)
  moreover have "length R \<le> 64 * 1024 * 1024" using l assms(2) by simp
  ultimately show ?thesis
    using n R new_IterKey_ok [OF assms(3)]
    by (simp add: NewIterator_def new_Iter_def iter_at_def iter_inv_def last_next_def)
qed

text \<open>
  C17: a block of internal keys is what its builder was given. Whatever the restart interval, finished bytes of at
  most 256 MB (2 ^ 28) open as a block, and over any sequence of moves (first, last, seek, back, on) that its contract allows the iterator
  runs without an assertion failing and shows the key and the value at the position of a cursor over the list of entries: seeking
  finds the first key that is not before the target, also from a position inside the block. In a debug build the
  keys must not begin with U or V, the block must not be empty when it is sought to its first entry, and a step on
  must not lead before the key of the last step on; a release build has no such limits.
\<close>

theorem block_iterator_cursor:
  assumes "build_block (ikey_Compare slice_compare) interval kvs = Inr data" and "length data \<le> 268435456"
    and "length space = 32" and "dbg \<longrightarrow> (\<forall>(k, v) \<in> set kvs. hd k \<noteq> 85 \<and> hd k \<noteq> 86)"
    and "cursor_run dbg (ikey_before slice_compare) (\<lambda>k. 8 \<le> length k) kvs as (None, None) = Some c"
  shows "\<exists>blk it it'. new_Block data = Inr blk \<and> NewIterator space blk = Inr (Some it) \<and>
     iter_run dbg (ikey_Compare slice_compare) u as it = Inr it' \<and> iter_shows kvs (fst c) it'"
proof -
  obtain es R where e: "data = block_of es R" "block_ok es R" "ikeys.keys_ok es" "map snd es = kvs"
    using ikeys.build_block_ok [OF assms(1)] assms(2) by auto
  obtain blk it where it: "new_Block data = Inr blk" "NewIterator space blk = Inr (Some it)" "iter_at es R None it" "last_next it = None"
    using new_Iter_at [OF e(2) _ assms(3)] e(1) assms(2) by auto
  have plain: "\<forall>e \<in> set es. e_key e \<noteq> [] \<and> hd (e_key e) \<notin> {85, 86}" if dbg
  proof
    fix x
    assume x: "x \<in> set es"
    then have "8 \<le> length (e_key x)" using e(3) by (simp add: ikeys.keys_ok_def)
    moreover have "snd x \<in> set kvs" using x e(4) by auto
    ultimately show "e_key x \<noteq> [] \<and> hd (e_key x) \<notin> {85, 86}" using assms(4) that by (cases "snd x") auto
  qed
  from ikeys.iter_run_ok [OF e(2,3) plain, of dbg "(None, None)" it "as" c u] it(3,4) assms(5) e(4)
  obtain it' where "iter_run dbg (ikey_Compare slice_compare) u as it = Inr it'" "iter_shows kvs (fst c) it'" by auto
  then show ?thesis using it(1,2) by blast
qed

lemma two_entries:
  "case build_block (ikey_Compare slice_compare) 1
       [([97, 0, 0, 0, 0, 0, 0, 0, 0], [1]), ([98, 0, 0, 0, 0, 0, 0, 0, 0], [2])] of
     Inr d \<Rightarrow> length d \<le> 100 | Inl e \<Rightarrow> False"
  by code_simp

theorem block_iterator_cursor_witness:
  "\<exists>data blk it it'. build_block (ikey_Compare slice_compare) 1
       [([97, 0, 0, 0, 0, 0, 0, 0, 0], [1]), ([98, 0, 0, 0, 0, 0, 0, 0, 0], [2])] = Inr data \<and>
     new_Block data = Inr blk \<and> NewIterator (replicate 32 0) blk = Inr (Some it) \<and>
     iter_run True (ikey_Compare slice_compare) 0 [GoTo [97, 1, 0, 0, 0, 0, 0, 0, 0, 0], GoBack, GoOn] it = Inr it' \<and>
     iter_shows [([97, 0, 0, 0, 0, 0, 0, 0, 0], [1]), ([98, 0, 0, 0, 0, 0, 0, 0, 0], [2])] (Some 1) it'"
proof -
  let ?kvs = "[([97, 0, 0, 0, 0, 0, 0, 0, 0], [1]), ([98, 0, 0, 0, 0, 0, 0, 0, 0], [2])] :: (u8 list \<times> u8 list) list"
  let ?as = "[GoTo [97, 1, 0, 0, 0, 0, 0, 0, 0, 0], GoBack, GoOn]"
  obtain data where d: "build_block (ikey_Compare slice_compare) 1 ?kvs = Inr data" "length data \<le> 268435456"
    using two_entries by (auto split: sum.splits)
  have c: "cursor_run True (ikey_before slice_compare) (\<lambda>k. 8 \<le> length k) ?kvs ?as (None, None) =
      Some (Some 1, Some [98, 0, 0, 0, 0, 0, 0, 0, 0])" by code_simp
  have "True \<longrightarrow> (\<forall>(k, v) \<in> set ?kvs. hd k \<noteq> 85 \<and> hd k \<noteq> 86)" by simp
  from block_iterator_cursor [OF d _ this c, of "replicate 32 0" 0] show ?thesis using d(1) by auto
qed

end
