(* ===== verification/Iterators.thy ===== *)
theory Iterators
  imports BlockCorrect WriteBatch
begin

text \<open>
  The interface of the iterators of the dLSM baseline, \<open>src/dLSM/include/TimberSaw/iterator.h\<close>, and what its
  comments promise, as locales. A class that implements it is a record of its virtual functions over the type
  of its states. The iterators of \<open>table/iterator.cc\<close> and of blocks are instances, and so is the wrapper of
  \<open>table/iterator_wrapper.h\<close> around one. As in blocks, the flag \<open>dbg\<close> is the kind of build.
\<close>

section \<open>The interface\<close>

record ('s, 'v) Iterator =
  v_Valid :: "'s \<Rightarrow> bool"
  v_SeekToFirst :: "'s \<Rightarrow> 's result"
  v_SeekToLast :: "'s \<Rightarrow> 's result"
  v_Seek :: "u8 list \<Rightarrow> 's \<Rightarrow> 's result"
  v_Next :: "'s \<Rightarrow> 's result"
  v_Prev :: "'s \<Rightarrow> 's result"
  v_key :: "'s \<Rightarrow> u8 list result"
  v_value :: "'s \<Rightarrow> 'v result"
  v_status :: "'s \<Rightarrow> status"

definition dassert :: "bool \<Rightarrow> string \<Rightarrow> bool \<Rightarrow> unit result" where
  "dassert dbg msg b = (if dbg then res_assert msg b else Inr ())"

text \<open>An assertion about the first byte of a key.\<close>

definition first_byte :: "bool \<Rightarrow> string \<Rightarrow> (u8 \<Rightarrow> bool) \<Rightarrow> u8 list \<Rightarrow> unit result" where
  "first_byte dbg msg P k = (if dbg then case k of [] \<Rightarrow> Inl OutOfBounds | c # _ \<Rightarrow> res_assert msg (P c) else Inr ())"

lemma dassert_release [simp]: "dassert False msg b = Inr ()"
  by (simp add: dassert_def)

lemma first_byte_release [simp]: "first_byte False msg P k = Inr ()"
  by (simp add: first_byte_def)

definition vstep :: "('s, 'v) Iterator \<Rightarrow> iter_op \<Rightarrow> 's \<Rightarrow> 's result" where
  "vstep I a s =
     (case a of
        GoFirst \<Rightarrow> v_SeekToFirst I s | GoLast \<Rightarrow> v_SeekToLast I s | GoTo t \<Rightarrow> v_Seek I t s
      | GoBack \<Rightarrow> v_Prev I s | GoOn \<Rightarrow> v_Next I s)"

primrec vrun :: "('s, 'v) Iterator \<Rightarrow> iter_op list \<Rightarrow> 's \<Rightarrow> 's result" where
  "vrun I [] s = Inr s"
| "vrun I (a # as) s = res_bind (vstep I a s) (vrun I as)"

text \<open>What an iterator shows at a position of its source.\<close>

definition vshows :: "('s, 'v) Iterator \<Rightarrow> (u8 list \<times> 'v) list \<Rightarrow> nat option \<Rightarrow> 's \<Rightarrow> bool" where
  "vshows I kvs p s =
     (case p of None \<Rightarrow> \<not> v_Valid I s
      | Some i \<Rightarrow> i < length kvs \<and> v_Valid I s \<and> v_key I s = Inr (fst (kvs ! i)) \<and> v_value I s = Inr (snd (kvs ! i)))"

text \<open>Positions in a list of entries.\<close>

definition first_pos :: "'a list \<Rightarrow> nat option" where "first_pos xs = (if xs = [] then None else Some 0)"
definition end_pos :: "'a list \<Rightarrow> nat option" where "end_pos xs = (if xs = [] then None else Some (length xs - 1))"
definition succ_pos :: "'a list \<Rightarrow> nat \<Rightarrow> nat option" where "succ_pos xs i = (if Suc i < length xs then Some (Suc i) else None)"
definition pred_pos :: "nat \<Rightarrow> nat option" where "pred_pos i = (if i = 0 then None else Some (i - 1))"

text \<open>
  \<open>at kvs p s\<close> says that an iterator in state \<open>s\<close> is at position \<open>p\<close> of the source \<open>kvs\<close>. The moves that need
  no search:
\<close>

locale iterator_moves = block_order cmp valid before
  for cmp :: comparator and valid :: "u8 list \<Rightarrow> bool" and before :: "u8 list \<Rightarrow> u8 list \<Rightarrow> bool" +
  fixes I :: "('s, 'v) Iterator" and at :: "(u8 list \<times> 'v) list \<Rightarrow> nat option \<Rightarrow> 's \<Rightarrow> bool"
  assumes at_sorted: "at kvs p s \<Longrightarrow> sorted_wrt before (map fst kvs) \<and> (\<forall>k \<in> fst ` set kvs. valid k)"
    and at_shows: "at kvs p s \<Longrightarrow> vshows I kvs p s"
    and at_status: "at kvs p s \<Longrightarrow> v_status I s = OK"
    and to_first: "at kvs p s \<Longrightarrow> \<exists>s'. v_SeekToFirst I s = Inr s' \<and> at kvs (first_pos kvs) s'"
    and to_last: "at kvs p s \<Longrightarrow> \<exists>s'. v_SeekToLast I s = Inr s' \<and> at kvs (end_pos kvs) s'"
    and on_law: "at kvs (Some i) s \<Longrightarrow> \<exists>s'. v_Next I s = Inr s' \<and> at kvs (succ_pos kvs i) s'"
    and back_law: "at kvs (Some i) s \<Longrightarrow> \<exists>s'. v_Prev I s = Inr s' \<and> at kvs (pred_pos i) s'"

text \<open>An index may stay at its last entry where a search finds none.\<close>

locale index_iterator = iterator_moves +
  assumes index_seek: "at kvs p s \<Longrightarrow> valid t \<Longrightarrow> kvs \<noteq> [] \<Longrightarrow> \<exists>s' q. v_Seek I t s = Inr s' \<and> at kvs q s' \<and>
     (case q of None \<Rightarrow> \<forall>k \<in> fst ` set kvs. before k t
      | Some i \<Rightarrow> (\<forall>j < i. before (fst (kvs ! j)) t) \<and> (Suc i < length kvs \<longrightarrow> \<not> before (fst (kvs ! i)) t))"

locale iterator = iterator_moves +
  assumes seek_law: "at kvs p s \<Longrightarrow> valid t \<Longrightarrow>
     \<exists>s'. v_Seek I t s = Inr s' \<and> at kvs (seek_pos (\<lambda>k. before k t) (map fst kvs)) s'"

lemma seek_pos_cases:
  "case seek_pos P ks of None \<Rightarrow> \<forall>k \<in> set ks. P k | Some i \<Rightarrow> i < length ks \<and> (\<forall>j < i. P (ks ! j)) \<and> \<not> P (ks ! i)"
proof (cases "length (takeWhile P ks) < length ks")
  case True
  moreover have "P (ks ! j)" if "j < length (takeWhile P ks)" for j
    using that by (metis nth_mem set_takeWhileD takeWhile_nth)
  ultimately show ?thesis using nth_length_takeWhile [of P ks] by (simp add: seek_pos_def)
next
  case False
  then have "takeWhile P ks = ks" by (metis length_takeWhile_le le_neq_implies_less takeWhile_eq_take take_all_iff)
  then show ?thesis using False by (auto simp: seek_pos_def dest: set_takeWhileD)
qed

sublocale iterator \<subseteq> index_iterator
proof unfold_locales
  fix kvs p s t
  assume "at kvs p s" "valid t"
  then obtain s' where "v_Seek I t s = Inr s'" "at kvs (seek_pos (\<lambda>k. before k t) (map fst kvs)) s'" using seek_law by blast
  then show "\<exists>s' q. v_Seek I t s = Inr s' \<and> at kvs q s' \<and>
     (case q of None \<Rightarrow> \<forall>k \<in> fst ` set kvs. before k t
      | Some i \<Rightarrow> (\<forall>j < i. before (fst (kvs ! j)) t) \<and> (Suc i < length kvs \<longrightarrow> \<not> before (fst (kvs ! i)) t))"
    using seek_pos_cases [where P = "\<lambda>k. before k t" and ks = "map fst kvs"] by (intro exI conjI) (auto split: option.splits)
qed

context iterator_moves
begin

lemma at_Valid: "at kvs p s \<Longrightarrow> v_Valid I s \<longleftrightarrow> p \<noteq> None"
  using at_shows [of kvs p s] by (cases p) (auto simp: vshows_def)

lemma at_Some: "at kvs (Some i) s \<Longrightarrow> i < length kvs \<and> v_key I s = Inr (fst (kvs ! i)) \<and> v_value I s = Inr (snd (kvs ! i))"
  using at_shows [of kvs "Some i" s] by (simp add: vshows_def)

end

context iterator
begin

lemma vstep_at:
  assumes "at kvs (fst c) s" and "cursor_step False before valid kvs a c = Some c'"
  shows "\<exists>s'. vstep I a s = Inr s' \<and> at kvs (fst c') s'"
proof (cases a)
  case (GoTo t)
  then show ?thesis using assms seek_law [OF assms(1), of t] by (auto simp: cursor_step_def vstep_def split: if_splits)
next
  case GoFirst
  then show ?thesis using assms to_first [OF assms(1)] by (auto simp: cursor_step_def vstep_def first_pos_def)
next
  case GoLast
  then show ?thesis using assms to_last [OF assms(1)] by (auto simp: cursor_step_def vstep_def end_pos_def)
next
  case GoBack
  then show ?thesis using assms back_law by (auto simp: cursor_step_def vstep_def pred_pos_def)
next
  case GoOn
  then obtain i where "fst c = Some i" using assms(2) by (auto simp: cursor_step_def split: bind_splits)
  moreover have "fst c' = succ_pos kvs i" using assms(2) GoOn calculation by (auto simp: cursor_step_def succ_pos_def Let_def)
  ultimately show ?thesis using on_law [of kvs i s] assms(1) GoOn by (simp add: vstep_def)
qed

text \<open>Over any sequence of moves the iterator shows what a cursor over the list shows.\<close>

lemma vrun_at:
  "at kvs (fst c) s \<Longrightarrow> cursor_run False before valid kvs as c = Some c' \<Longrightarrow>
     \<exists>s'. vrun I as s = Inr s' \<and> at kvs (fst c') s'"
proof (induction "as" arbitrary: c s)
  case (Cons a as)
  obtain c1 where c1: "cursor_step False before valid kvs a c = Some c1" "cursor_run False before valid kvs as c1 = Some c'"
    using Cons.prems(2) by (auto split: bind_splits)
  then obtain s1 where "vstep I a s = Inr s1" "at kvs (fst c1) s1" using vstep_at [OF Cons.prems(1)] by blast
  then show ?case using Cons.IH c1(2) by auto
qed auto

lemma vrun_shows:
  "at kvs (fst c) s \<Longrightarrow> cursor_run False before valid kvs as c = Some c' \<Longrightarrow>
     \<exists>s'. vrun I as s = Inr s' \<and> vshows I kvs (fst c') s'"
  using vrun_at at_shows by blast

end

section \<open>Empty iterators and blocks\<close>

definition EmptyIterator :: "(status, 'v) Iterator" where
  "EmptyIterator = \<lparr>v_Valid = (\<lambda>_. False), v_SeekToFirst = Inr, v_SeekToLast = Inr, v_Seek = (\<lambda>_. Inr),
     v_Next = (\<lambda>_. Inl (AssertFail ''false'')), v_Prev = (\<lambda>_. Inl (AssertFail ''false'')),
     v_key = (\<lambda>_. Inl (AssertFail ''false'')), v_value = (\<lambda>_. Inl (AssertFail ''false'')), v_status = (\<lambda>s. s)\<rparr>"

definition NewEmptyIterator :: status where "NewEmptyIterator = OK"

definition NewErrorIterator :: "status \<Rightarrow> status" where "NewErrorIterator s = s"

definition Block_Iter :: "bool \<Rightarrow> comparator \<Rightarrow> u8 \<Rightarrow> (Iter, u8 list) Iterator" where
  "Block_Iter dbg cmp u = \<lparr>v_Valid = iter_Valid, v_SeekToFirst = iter_SeekToFirst dbg u, v_SeekToLast = iter_SeekToLast u,
     v_Seek = iter_Seek cmp u, v_Next = iter_Next dbg cmp u, v_Prev = iter_Prev u, v_key = iter_key, v_value = iter_value,
     v_status = (\<lambda>_. OK)\<rparr>"

definition block_at :: "(u8 list \<times> u8 list) list \<Rightarrow> nat option \<Rightarrow> Iter \<Rightarrow> bool" where
  "block_at kvs p it \<longleftrightarrow> (\<exists>es R. map snd es = kvs \<and> block_ok es R \<and> ikeys.keys_ok es \<and> iter_at es R p it \<and>
     last_next it = None)"

lemma block_step:
  assumes "block_at kvs p it"
    and c: "cursor_step False (ikey_before slice_compare) (\<lambda>k. 8 \<le> length k) kvs a (p, None) = Some (p', None)"
  shows "\<exists>it'. vstep (Block_Iter False (ikey_Compare slice_compare) u) a it = Inr it' \<and> block_at kvs p' it'"
proof -
  obtain es R where e: "map snd es = kvs" "block_ok es R" "ikeys.keys_ok es" "iter_at es R p it" "last_next it = None"
    using assms(1) by (auto simp: block_at_def)
  have "vstep (Block_Iter False (ikey_Compare slice_compare) u) a it = iter_step False (ikey_Compare slice_compare) u a it"
    by (simp add: vstep_def iter_step_def Block_Iter_def split: iter_op.splits)
  then show ?thesis
    using ikeys.iter_step_ok [OF e(2,3) _ e(4,5), of False a p' None u] c e(1-3) by (auto simp: block_at_def)
qed

interpretation block_it: iterator "ikey_Compare slice_compare" "\<lambda>k. 8 \<le> length k" "ikey_before slice_compare"
  "Block_Iter False (ikey_Compare slice_compare) u" block_at
proof unfold_locales
  fix kvs p s i t
  let ?I = "Block_Iter False (ikey_Compare slice_compare) u"
  show "\<exists>s'. v_Next ?I s = Inr s' \<and> block_at kvs (succ_pos kvs i) s'" if "block_at kvs (Some i) s"
    using block_step [OF that, of GoOn] by (simp add: cursor_step_def vstep_def succ_pos_def Let_def)
  show "\<exists>s'. v_Prev ?I s = Inr s' \<and> block_at kvs (pred_pos i) s'" if "block_at kvs (Some i) s"
    using block_step [OF that, of GoBack] by (simp add: cursor_step_def vstep_def pred_pos_def)
  assume a: "block_at kvs p s"
  then obtain es R where e: "map snd es = kvs" "ikeys.keys_ok es" "iter_at es R p s" by (auto simp: block_at_def)
  show "sorted_wrt (ikey_before slice_compare) (map fst kvs) \<and> (\<forall>k \<in> fst ` set kvs. 8 \<le> length k)"
    using e(1,2) by (force simp: ikeys.keys_ok_def comp_def)
  show "vshows ?I kvs p s"
    using iter_at_shows [OF e(3)] e(1) by (simp add: vshows_def iter_shows_def Block_Iter_def split: option.splits)
  show "v_status ?I s = OK" by (simp add: Block_Iter_def)
  show "\<exists>s'. v_SeekToFirst ?I s = Inr s' \<and> block_at kvs (first_pos kvs) s'"
    using block_step [OF a, of GoFirst] by (simp add: cursor_step_def vstep_def first_pos_def)
  show "\<exists>s'. v_SeekToLast ?I s = Inr s' \<and> block_at kvs (end_pos kvs) s'"
    using block_step [OF a, of GoLast] by (simp add: cursor_step_def vstep_def end_pos_def)
  show "\<exists>s'. v_Seek ?I t s = Inr s' \<and> block_at kvs (seek_pos (\<lambda>k. ikey_before slice_compare k t) (map fst kvs)) s'"
    if "8 \<le> length t"
    using block_step [OF a, of "GoTo t"] that by (simp add: cursor_step_def vstep_def)
qed

section \<open>The wrapper\<close>

text \<open>It holds an iterator, or none, with its validity and its key.\<close>

record 's IteratorWrapper =
  iw_iter :: "'s option"
  iw_valid :: bool
  iw_key :: "u8 list"

definition new_IteratorWrapper :: "'s IteratorWrapper" where
  "new_IteratorWrapper = \<lparr>iw_iter = None, iw_valid = False, iw_key = []\<rparr>"

definition Update :: "bool \<Rightarrow> ('s, 'v) Iterator \<Rightarrow> 's IteratorWrapper \<Rightarrow> 's IteratorWrapper result" where
  "Update dbg I w =
     (case iw_iter w of
        None \<Rightarrow> Inl BadAddress
      | Some s \<Rightarrow>
          if v_Valid I s
          then res_bind (v_key I s) (\<lambda>k.
               res_bind (first_byte dbg ''key is not U or V'' (\<lambda>c. c \<noteq> 85 \<and> c \<noteq> 86) k) (\<lambda>_.
               Inr (w\<lparr>iw_valid := True, iw_key := k\<rparr>)))
          else Inr (w\<lparr>iw_valid := False\<rparr>))"

definition iw_Set :: "bool \<Rightarrow> ('s, 'v) Iterator \<Rightarrow> 's option \<Rightarrow> 's IteratorWrapper \<Rightarrow> 's IteratorWrapper result" where
  "iw_Set dbg I it w =
     (let w = w\<lparr>iw_iter := it\<rparr> in if it = None then Inr (w\<lparr>iw_valid := False\<rparr>) else Update dbg I w)"

definition iw_get :: "bool \<Rightarrow> 's IteratorWrapper \<Rightarrow> 's result" where
  "iw_get dbg w = res_bind (dassert dbg ''iter_'' (iw_iter w \<noteq> None)) (\<lambda>_.
     case iw_iter w of None \<Rightarrow> Inl BadAddress | Some s \<Rightarrow> Inr s)"

definition iw_move ::
    "bool \<Rightarrow> ('s, 'v) Iterator \<Rightarrow> ('s \<Rightarrow> 's result) \<Rightarrow> 's IteratorWrapper \<Rightarrow> 's IteratorWrapper result" where
  "iw_move dbg I f w = res_bind (iw_get dbg w) (\<lambda>s. res_bind (f s) (\<lambda>s. Update dbg I (w\<lparr>iw_iter := Some s\<rparr>)))"

definition iw_Next :: "bool \<Rightarrow> ('s, 'v) Iterator \<Rightarrow> 's IteratorWrapper \<Rightarrow> 's IteratorWrapper result" where
  "iw_Next dbg I = iw_move dbg I (v_Next I)"

definition iw_Prev :: "bool \<Rightarrow> ('s, 'v) Iterator \<Rightarrow> 's IteratorWrapper \<Rightarrow> 's IteratorWrapper result" where
  "iw_Prev dbg I = iw_move dbg I (v_Prev I)"

definition iw_Seek :: "bool \<Rightarrow> ('s, 'v) Iterator \<Rightarrow> u8 list \<Rightarrow> 's IteratorWrapper \<Rightarrow> 's IteratorWrapper result" where
  "iw_Seek dbg I k = iw_move dbg I (v_Seek I k)"

definition iw_SeekToFirst :: "bool \<Rightarrow> ('s, 'v) Iterator \<Rightarrow> 's IteratorWrapper \<Rightarrow> 's IteratorWrapper result" where
  "iw_SeekToFirst dbg I = iw_move dbg I (v_SeekToFirst I)"

definition iw_SeekToLast :: "bool \<Rightarrow> ('s, 'v) Iterator \<Rightarrow> 's IteratorWrapper \<Rightarrow> 's IteratorWrapper result" where
  "iw_SeekToLast dbg I = iw_move dbg I (v_SeekToLast I)"

definition iw_get_key :: "bool \<Rightarrow> 's IteratorWrapper \<Rightarrow> u8 list result" where
  "iw_get_key dbg w = res_bind (dassert dbg ''Valid()'' (iw_valid w)) (\<lambda>_. Inr (iw_key w))"

definition iw_value :: "bool \<Rightarrow> ('s, 'v) Iterator \<Rightarrow> 's IteratorWrapper \<Rightarrow> 'v result" where
  "iw_value dbg I w = res_bind (dassert dbg ''Valid()'' (iw_valid w)) (\<lambda>_.
     case iw_iter w of None \<Rightarrow> Inl BadAddress | Some s \<Rightarrow> v_value I s)"

definition iw_status :: "bool \<Rightarrow> ('s, 'v) Iterator \<Rightarrow> 's IteratorWrapper \<Rightarrow> status result" where
  "iw_status dbg I w = res_bind (iw_get dbg w) (\<lambda>s. Inr (v_status I s))"

context iterator_moves
begin

definition w_at :: "(u8 list \<times> 'v) list \<Rightarrow> nat option \<Rightarrow> 's IteratorWrapper \<Rightarrow> bool" where
  "w_at kvs p w \<longleftrightarrow> (\<exists>s. iw_iter w = Some s \<and> at kvs p s) \<and> (iw_valid w \<longleftrightarrow> p \<noteq> None) \<and>
     (\<forall>i. p = Some i \<longrightarrow> iw_key w = fst (kvs ! i))"

lemma Update_at: "iw_iter w = Some s \<Longrightarrow> at kvs p s \<Longrightarrow> \<exists>w'. Update False I w = Inr w' \<and> w_at kvs p w'"
  using at_Valid [of kvs p s] at_Some [of kvs _ s] by (cases p) (auto simp: Update_def w_at_def)

lemma iw_Set_at: "at kvs p s \<Longrightarrow> \<exists>w'. iw_Set False I (Some s) w = Inr w' \<and> w_at kvs p w'"
  using Update_at [of "w\<lparr>iw_iter := Some s\<rparr>" s] by (simp add: iw_Set_def)

lemma iw_move_at:
  assumes "w_at kvs p w" and "\<And>s. at kvs p s \<Longrightarrow> \<exists>s'. f s = Inr s' \<and> at kvs p' s'"
  shows "\<exists>w'. iw_move False I f w = Inr w' \<and> w_at kvs p' w'"
proof -
  obtain s where s: "iw_iter w = Some s" "at kvs p s" using assms(1) by (auto simp: w_at_def)
  then obtain s' where "f s = Inr s'" "at kvs p' s'" using assms(2) by blast
  then show ?thesis using s Update_at [of "w\<lparr>iw_iter := Some s'\<rparr>" s'] by (simp add: iw_move_def iw_get_def)
qed

lemma iw_moves_at:
  "w_at kvs p w \<Longrightarrow> \<exists>w'. iw_SeekToFirst False I w = Inr w' \<and> w_at kvs (first_pos kvs) w'"
  "w_at kvs p w \<Longrightarrow> \<exists>w'. iw_SeekToLast False I w = Inr w' \<and> w_at kvs (end_pos kvs) w'"
  "w_at kvs (Some i) w \<Longrightarrow> \<exists>w'. iw_Next False I w = Inr w' \<and> w_at kvs (succ_pos kvs i) w'"
  "w_at kvs (Some i) w \<Longrightarrow> \<exists>w'. iw_Prev False I w = Inr w' \<and> w_at kvs (pred_pos i) w'"
  unfolding iw_SeekToFirst_def iw_SeekToLast_def iw_Next_def iw_Prev_def
  by (rule iw_move_at; blast intro: to_first to_last on_law back_law)+

lemma w_at_shows:
  assumes "w_at kvs (Some i) w"
  shows "i < length kvs" "iw_valid w" "iw_get_key False w = Inr (fst (kvs ! i))" "iw_value False I w = Inr (snd (kvs ! i))"
  using assms at_Some [of kvs i] by (auto simp: w_at_def iw_get_key_def iw_value_def)

lemma w_at_status: "w_at kvs p w \<Longrightarrow> iw_status False I w = Inr OK"
  using at_status by (auto simp: w_at_def iw_status_def iw_get_def)

lemma w_at_sorted: "w_at kvs p w \<Longrightarrow> sorted_wrt before (map fst kvs) \<and> (\<forall>k \<in> fst ` set kvs. valid k)"
  using at_sorted by (auto simp: w_at_def)

end

context iterator
begin

lemma iw_Seek_at:
  "w_at kvs p w \<Longrightarrow> valid t \<Longrightarrow> \<exists>w'. iw_Seek False I t w = Inr w' \<and> w_at kvs (seek_pos (\<lambda>k. before k t) (map fst kvs)) w'"
  unfolding iw_Seek_def by (rule iw_move_at) (use seek_law in blast)+

end

end
