(* ===== verification/Spec2Isabelle.thy ===== *)
theory Spec2Isabelle
  imports RdmaConfig LeafHandle Alloc_Spec SlabAllocator LeafContents ReplicaGroup Hashing LeafNode
    LeafOps InnerNode Allocators LocalLockSteps TreeCorrect LogRecovery FilterCorrect WriteBatch Iterators
begin

text \<open>
  Verification of the disaggregated-memory indexes of this repository. Compute nodes run the clients
  of an index; memory nodes hold its data, which the clients read and write over RDMA.

  \<^bold>\<open>The programs\<close>

  \<^item> \<open>src/DMTree\<close> is a range index: inner nodes over leaves with fingerprint tables in the memory
    nodes, and in every client a cache of inner nodes, a table of local locks and an allocator.
  \<^item> \<open>src/SkipVectorDM\<close> is a copy of that tree with a replicated region beside it, in which leaves are
    to be allocated, checked and written to a group of replicas.
  \<^item> \<open>src/dLSM\<close> is a log-structured merge tree, one of the baselines: updates go as batches to a log and
    into a memtable; tables consist of sorted blocks and filters; iterators read them.

  \<^bold>\<open>Conventions\<close>

  \<open>DM_Prelude\<close> has the machine integers (words), the result type and byte images. An operation that can
  fail returns \<open>error + 'a\<close>: a false assertion, an access out of range or to an address that holds no
  such object, a loop that ran out of its bound. State is passed explicitly, as records with the fields
  of the classes. Definitions keep the names of the source, with a prefix where two classes share one.

  \<^bold>\<open>DMTree\<close>

  \<^item> \<open>KVConfig\<close>, \<open>RdmaConfig\<close>, \<open>Hashing\<close>: keys, global addresses, buffers and hash functions
    (\<open>include/KVConfig.h\<close>, \<open>RdmaConfig.h\<close>, \<open>third_party/hash.h\<close>). Keys are linearly ordered, the hashes of
    one key are injective.
  \<^item> \<open>LeafNode\<close>, \<open>LeafOps\<close>: leaves (\<open>include/LeafNode.h\<close>, the loops over a leaf in \<open>src/DMTree.cc\<close>). A
    well-formed leaf is a finite map; search, insertion and split are lookup, update and division of it.
    A split works in two RDMA buffers, whose images overlap for some positions of the buffer cursors when
    the leaf has 64 or 128 slots. What the code computes then is corrupt; the model stops with the error
    \<open>BufferOverlap\<close> and claims nothing beyond it.
  \<^item> \<open>InnerNode\<close>: inner nodes (\<open>include/InnerTree.h\<close>): search, insertion and split of the sorted records.
  \<^item> \<open>Alloc_Spec\<close>, \<open>Allocators\<close>: the contract of an allocator as a locale, and \<open>Directory\<close>,
    \<open>LocalAllocator\<close>, \<open>memory_alloc\<close>, \<open>compute_alloc\<close>: blocks never overlap.
  \<^item> \<open>DMCache\<close>: the client's cache (\<open>src/DMCache.cc\<close>); no buffer is lost or used twice.
  \<^item> \<open>LocalLock\<close>, \<open>LocalLockSteps\<close>: the lock table (\<open>include/LocalLockTable.h\<close>), its operations cut into
    atomic blocks and interleaved: it refines a queue lock, delegated reads return values of their key
    (for an absent key the variable of some reader of that key), and there are executions in which a
    combined write is lost and a delegated read is stale.
  \<^item> \<open>TreeInner\<close>, \<open>TreeOps\<close>: \<open>src/DMInner.cc\<close> and \<open>src/DMTree.cc\<close>, run by one client over a typed store of
    inner nodes, leaves and fingerprint tables; the cursors of the RDMA buffers are part of the state.
    \<open>TreeInv\<close>, \<open>TreeSearch\<close>, \<open>TreeRead\<close>, \<open>TreeLevels\<close>,
    \<open>TreeInsert\<close>, \<open>TreeWrite\<close> prove the invariant and the operations.
  \<^item> \<open>KV_Spec\<close>, \<open>TreeCorrect\<close>: the contract of a key-value index as a locale, and the tree as its
    instance: after any history a read returns the value last written. A write fails only when it has
    to split a full leaf, and a history whose keys fit into one leaf never fails.

  \<^bold>\<open>SkipVectorDM\<close>

  \<^item> \<open>LeafHandle\<close>, \<open>LeafContents\<close>: handles and contents of leaves (\<open>include/skipvector\<close>): versions order
    handles, checksums detect changes.
  \<^item> \<open>SlabAllocator\<close>: layout of the region and the bitmap allocator, an instance of the contract of
    allocators. \<open>Allocators\<close> has the reservation of the region in \<open>src/Directory.cc\<close>.
  \<^item> \<open>ReplicaGroup\<close>: \<open>src/skipvector/ReplicaGroup.cc\<close>: quorum reads see quorum writes, of two
    compare-and-swaps at most one succeeds.

  \<^bold>\<open>dLSM\<close>

  \<^item> \<open>Coding\<close>, \<open>Crc32c\<close>: encodings and checksums (\<open>util/coding.cc\<close>, \<open>util/crc32c.cc\<close>): round trips, and the
    table-driven checksum equals polynomial division.
  \<^item> \<open>DbFormat\<close>, \<open>IterKey\<close>: internal keys, their order, lookup keys (\<open>db/dbformat.h\<close>, \<open>db/dbformat.cc\<close>,
    \<open>util/comparator.cc\<close>), over the contract of a user comparator.
  \<^item> \<open>WriteBatch\<close>: \<open>db/write_batch.cc\<close>: a batch gives back what was put into it.
  \<^item> \<open>RecordLog\<close>, \<open>LogRecovery\<close>: \<open>db/log_writer.cc\<close>, \<open>db/log_reader.cc\<close>: the reader returns on every file,
    and recovers all whole records of a log that was cut off anywhere.
  \<^item> \<open>Filters\<close>, \<open>FilterCorrect\<close>: \<open>util/hash.cc\<close>, \<open>util/bloom.cc\<close>, \<open>table/filter_block.cc\<close>,
    \<open>table/full_filter_block.cc\<close>: no false negatives.
  \<^item> \<open>Blocks\<close>, \<open>BlockLayout\<close>, \<open>BlockCorrect\<close>: \<open>table/block_builder.cc\<close>, \<open>table/block.h\<close>: the iterator of a
    block is a cursor over the entries that the builder was given.
  \<^item> \<open>Iterators\<close>: the interface of iterators (\<open>include/TimberSaw/iterator.h\<close>) as a record of virtual
    functions with its laws as locales, which block iterators meet, and the wrapper of
    \<open>table/iterator_wrapper.h\<close>.

  \<^bold>\<open>Bounds\<close>

  The loops of the tree take fuel; the number of inner nodes and three more is always enough, and the
  theorems say that the operations return. Loops over a block take its size as fuel, since every turn
  consumes bytes. The loops of the log reader are partial functions that are proved to return. Blocks
  are at most 2 ^ 28 bytes long and filter blocks less than 2 ^ 32, as their offsets are 32-bit words.

  \<^bold>\<open>Parameters\<close>

  Code outside \<open>src\<close> is an argument of the definitions: \<open>CityHash32\<close>, the CRC of Boost, the completions
  and the order of RDMA verbs, the faults of files, the contents of fresh memory. DMTree and SkipVectorDM
  are built with assertions; dLSM is built for release, and its debug checks are under a flag.

  \<^bold>\<open>Not modelled\<close>

  \<^item> Several clients on the tree at once: the tree theories run one client; interleaving is covered for
    local locks and for the replica group.
  \<^item> Connection set-up, message transport, thread and coroutine scheduling, huge pages and the output of
    statistics: calls of the operating system, the RDMA device and memcached.
  \<^item> The copies of the tree's sources in SkipVectorDM, which differ in the name of the class only.
  \<^item> In dLSM the database itself (flushing, compaction, versions, the memory node), the lock-free
    memtable, and tables and caches in registered memory: background threads and RDMA on shared
    structures. The merging, two-level and database iterators are not modelled either.
  \<^item> Sherman, SMART, CHIME, ROLEX and FPTree, programs to compare with; benchmarks and scripts.
\<close>

end
